(* ===== verification/Prelude.thy ===== *)
theory Prelude
  imports Main "HOL-Library.Word" "HOL-Library.Monad_Syntax" "HOL-Library.Signed_Division"
begin

text \<open>
  Shared vocabulary of the development: the machine integers of the C code, C arrays as byte
  lists whose out-of-range accesses are the value \<open>None\<close>, NUL-terminated strings, little-endian
  encodings, and the generic lemmas on lists, options and words the components rely on.
  \<open>None\<close> stands everywhere for behaviour the C standard leaves undefined: an access outside
  an array. A theorem that a function returns \<open>Some\<close> is therefore a memory-safety theorem.
\<close>

unbundle bit_operations_syntax

type_synonym u8 = "8 word"
type_synonym u16 = "16 word"
type_synonym u32 = "32 word"
type_synonym u64 = "64 word"
type_synonym bytes = "u8 list"

named_theorems buf_simps \<open>reads and writes of C arrays\<close>
named_theorems le_simps \<open>little-endian encodings\<close>

declare bind_option_cong [fundef_cong]

section \<open>C arrays\<close>

definition buf_get :: "'a list \<Rightarrow> nat \<Rightarrow> 'a option" where
  "buf_get b i = (if i < length b then Some (b ! i) else None)"

definition buf_set :: "'a list \<Rightarrow> nat \<Rightarrow> 'a \<Rightarrow> 'a list option" where
  "buf_set b i x = (if i < length b then Some (b[i := x]) else None)"

text \<open>Writing a run of bytes: what a copying loop leaves behind.\<close>

definition buf_put :: "'a list \<Rightarrow> nat \<Rightarrow> 'a list \<Rightarrow> 'a list" where
  "buf_put b i xs = take i b @ xs @ drop (i + length xs) b"

text \<open>ASCII text as bytes.\<close>

definition asc :: "string \<Rightarrow> bytes" where
  "asc s = map of_char s"

text \<open>The string a NUL-terminated array holds, and the condition that it is terminated.\<close>

definition cstr :: "bytes \<Rightarrow> bytes" where
  "cstr b = takeWhile (\<lambda>c. c \<noteq> 0) b"

definition terminated :: "bytes \<Rightarrow> bool" where
  "terminated b \<longleftrightarrow> 0 \<in> set b"

lemma buf_get_Some [simp]: "buf_get b i = Some x \<longleftrightarrow> i < length b \<and> x = b ! i"
  by (auto simp: buf_get_def)

lemma buf_get_None [simp]: "buf_get b i = None \<longleftrightarrow> length b \<le> i"
  by (auto simp: buf_get_def)

lemma buf_get_in [buf_simps]: "i < length b \<Longrightarrow> buf_get b i = Some (b ! i)"
  by simp

lemma buf_set_Some [simp]: "buf_set b i x = Some b' \<longleftrightarrow> i < length b \<and> b' = b[i := x]"
  by (auto simp: buf_set_def)

lemma buf_set_in [buf_simps]: "i < length b \<Longrightarrow> buf_set b i x = Some (b[i := x])"
  by simp

lemma buf_put_Nil [simp]: "buf_put b i [] = b"
  by (simp add: buf_put_def)

lemma length_buf_put [simp]: "i + length xs \<le> length b \<Longrightarrow> length (buf_put b i xs) = length b"
  by (simp add: buf_put_def)

lemma buf_put_Cons:
  "i < length b \<Longrightarrow> buf_put b i (x # xs) = buf_put (b[i := x]) (Suc i) xs"
  by (simp add: buf_put_def take_Suc_conv_app_nth drop_update_cancel)

lemma buf_put_single: "i < length b \<Longrightarrow> buf_put b i [x] = b[i := x]"
  by (simp add: buf_put_Cons)

lemma buf_put_append:
  "i + length xs \<le> length b \<Longrightarrow> buf_put (buf_put b i xs) (i + length xs) ys = buf_put b i (xs @ ys)"
  by (simp add: buf_put_def ac_simps)

lemma nth_buf_put:
  "i + length xs \<le> length b \<Longrightarrow> k < length b \<Longrightarrow>
     buf_put b i xs ! k = (if i \<le> k \<and> k < i + length xs then xs ! (k - i) else b ! k)"
  by (auto simp: buf_put_def nth_append)

lemma take_drop_buf_put:
  "i + length xs \<le> length b \<Longrightarrow> take (length xs) (drop i (buf_put b i xs)) = xs"
  by (simp add: buf_put_def)

lemma asc_append [simp]: "asc (s @ t) = asc s @ asc t"
  by (simp add: asc_def)

lemma length_asc [simp]: "length (asc s) = length s"
  by (simp add: asc_def)

section \<open>NUL-terminated strings\<close>

lemma cstr_no_nul [simp]: "0 \<notin> set (cstr b)"
  by (auto simp: cstr_def dest: set_takeWhileD)

lemma terminated_split: "terminated b \<Longrightarrow> \<exists>r. b = cstr b @ 0 # r"
proof -
  assume "terminated b"
  then have "dropWhile (\<lambda>c. c \<noteq> 0) b \<noteq> []"
    by (auto simp: terminated_def)
  then obtain x r where d: "dropWhile (\<lambda>c. c \<noteq> 0) b = x # r"
    by (cases "dropWhile (\<lambda>c. c \<noteq> 0) b") auto
  moreover from d have "x = 0"
    by (simp add: dropWhile_eq_Cons_conv)
  ultimately show ?thesis
    by (metis cstr_def takeWhile_dropWhile_id)
qed

lemma cstr_app: "0 \<notin> set s \<Longrightarrow> cstr (s @ 0 # r) = s"
  by (auto simp: cstr_def takeWhile_append)

lemma terminated_app [simp]: "terminated (s @ 0 # r)"
  by (simp add: terminated_def)

lemma terminatedE:
  assumes "terminated b"
  obtains s r where "b = s @ 0 # r" "0 \<notin> set s" "cstr b = s"
  using terminated_split [OF assms] cstr_no_nul [of b] by blast

section \<open>Lists\<close>

lemma length_takeWhile_less: "x \<in> set xs \<Longrightarrow> \<not> P x \<Longrightarrow> length (takeWhile P xs) < length xs"
  by (induction xs) auto

section \<open>Words\<close>

lemma uint_pos_iff [simp]: "0 < uint w \<longleftrightarrow> w \<noteq> 0"
  by (metis order_less_le uint_0_iff uint_ge_0)

lemma unat_bound: "unat (w :: 'a::len word) < 2 ^ LENGTH('a)"
  by (rule unsigned_less)

lemma unat_ucast: "unat (ucast (w :: 'a::len word) :: 'b::len word) = unat w mod 2 ^ LENGTH('b)"
  by (simp add: unsigned_ucast_eq take_bit_eq_mod)

lemma unat_ucast_small:
  "unat (w :: 'a::len word) < 2 ^ LENGTH('b) \<Longrightarrow> unat (ucast w :: 'b::len word) = unat w"
  by (simp add: unat_ucast)

section \<open>Truncating division\<close>

lemma abs_sdiv: "0 < k \<Longrightarrow> \<bar>(n::int) sdiv k\<bar> = \<bar>n\<bar> div k"
  by (auto simp: signed_divide_int_def abs_mult sgn_if pos_imp_zdiv_nonneg_iff)

lemma smod_abs: "0 < k \<Longrightarrow> (if n < 0 then - (n smod k) else n smod k) = \<bar>n::int\<bar> mod k"
  by (auto simp: signed_modulo_int_def signed_divide_int_def sgn_if minus_div_mult_eq_mod [symmetric] algebra_simps)

section \<open>Little-endian integers in byte arrays\<close>

definition le16 :: "u16 \<Rightarrow> bytes" where
  "le16 w = map (\<lambda>k. ucast (drop_bit (8 * k) w)) [0..<2]"

definition le32 :: "u32 \<Rightarrow> bytes" where
  "le32 w = map (\<lambda>k. ucast (drop_bit (8 * k) w)) [0..<4]"

definition le64 :: "u64 \<Rightarrow> bytes" where
  "le64 w = map (\<lambda>k. ucast (drop_bit (8 * k) w)) [0..<8]"

fun of_le :: "bytes \<Rightarrow> 'a::len word" where
  "of_le [] = 0"
| "of_le (b # bs) = ucast b OR push_bit 8 (of_le bs)"

lemma length_le [simp]: "length (le16 a) = 2" "length (le32 b) = 4" "length (le64 c) = 8"
  by (simp_all add: le16_def le32_def le64_def)

section \<open>Pages\<close>

text \<open>A page is the 4096 bytes above an address whose low twelve bits are clear; a page holds
  512 slots of eight bytes.\<close>

definition page_of :: "u64 \<Rightarrow> u64" where
  "page_of a = a AND NOT 0xFFF"

definition page_aligned :: "u64 \<Rightarrow> bool" where
  "page_aligned p \<longleftrightarrow> p AND 0xFFF = 0"

lemma mask_12: "(0xFFF :: u64) = mask 12"
  by (simp add: mask_eq_exp_minus_1)

lemma page_of_shift: "page_of a = push_bit 12 (drop_bit 12 a)"
  unfolding page_of_def mask_12 by (rule bit_word_eqI) (auto simp: bit_simps)

lemma unat_page_of: "unat (page_of a) = unat a div 4096 * 4096"
proof -
  have "unat a div 4096 * 4096 \<le> unat a" by simp
  also have "unat a < 2 ^ 64" using unat_bound [of a] by simp
  finally have "unat a div 4096 * 4096 < 2 ^ 64" .
  then show ?thesis
    by (simp add: page_of_shift push_bit_eq_mult drop_bit_eq_div unat_word_ariths unat_div)
qed

lemma unat_offset: "unat (a AND 0xFFF) = unat a mod 4096" for a :: u64
  unfolding mask_12
  by (subst take_bit_eq_mask [symmetric]) (simp add: take_bit_eq_mod unat_mod)

lemma page_aligned_iff: "page_aligned p \<longleftrightarrow> unat p mod 4096 = 0"
  unfolding page_aligned_def by (metis unat_offset unat_eq_zero)

lemma page_aligned_page_of [simp]: "page_aligned (page_of a)"
  by (simp add: page_aligned_iff unat_page_of)

lemma page_of_aligned [simp]: "page_aligned p \<Longrightarrow> page_of p = p"
  by (auto simp: page_aligned_iff word_unat_eq_iff unat_page_of)

lemma page_alignedE:
  assumes "page_aligned p"
  obtains k where "unat p = 4096 * k" and "k < 2 ^ 52"
proof -
  from assms obtain k where k: "unat p = 4096 * k" unfolding page_aligned_iff by auto
  moreover have "k < 2 ^ 52" using k unat_bound [of p] by simp
  ultimately show ?thesis using that by blast
qed

lemma aligned_bound: "page_aligned p \<Longrightarrow> unat p + 4096 \<le> 2 ^ 64"
  by (erule page_alignedE) simp

lemma page_of_add:
  assumes "page_aligned p" and "unat d < 4096"
  shows "page_of (p + d) = p" and "unat (p + d) = unat p + unat d"
proof -
  have "unat p + unat d < 2 ^ 64" using aligned_bound [OF assms(1)] assms(2) by simp
  then show u: "unat (p + d) = unat p + unat d" by (simp add: unat_word_ariths)
  show "page_of (p + d) = p"
    using assms by (auto simp: word_unat_eq_iff unat_page_of u elim: page_alignedE)
qed

lemma page_range_iff:
  assumes "page_aligned p"
  shows "a - p < 4096 \<longleftrightarrow> page_of a = p"
proof
  assume "a - p < 4096"
  then have "unat (a - p) < 4096" by (simp add: word_less_nat_alt)
  from page_of_add(1) [OF assms this] show "page_of a = p" by simp
next
  assume *: "page_of a = p"
  then have "unat p \<le> unat a" using unat_page_of [of a] by auto
  then have "unat (a - p) = unat a - unat p" by (simp add: unat_sub word_le_nat_alt)
  also have "\<dots> < 4096" using unat_page_of [of a] unfolding * by linarith
  finally show "a - p < 4096" by (simp add: word_less_nat_alt)
qed

text \<open>The address of slot \<open>i\<close> of a table.\<close>

definition slot :: "u64 \<Rightarrow> nat \<Rightarrow> u64" where
  "slot t i = t + 8 * of_nat i"

lemma slot_facts:
  assumes "page_aligned t" and "i < 512"
  shows "page_of (slot t i) = t" and "unat (slot t i) = unat t + 8 * i"
proof -
  have "unat (8 * of_nat i :: u64) = 8 * i"
    using assms(2) by (simp add: unat_word_ariths unat_of_nat)
  with assms show "page_of (slot t i) = t" "unat (slot t i) = unat t + 8 * i"
    using page_of_add [of t "8 * of_nat i"] by (simp_all add: slot_def)
qed

lemma slot_inject:
  assumes "page_aligned t" and "page_aligned u" and "i < 512" and "j < 512"
  shows "slot t i = slot u j \<longleftrightarrow> t = u \<and> i = j"
proof
  assume eq: "slot t i = slot u j"
  then have "t = u" using slot_facts(1) [OF assms(1,3)] slot_facts(1) [OF assms(2,4)] by simp
  moreover from this have "i = j"
    using slot_facts(2) [OF assms(1,3), unfolded eq] slot_facts(2) [OF assms(2,4)] by simp
  ultimately show "t = u \<and> i = j" ..
qed simp

lemma slot_0 [simp]: "slot t 0 = t"
  by (simp add: slot_def)

section \<open>Reading back encoded integers\<close>

lemma of_le_bytes:
  "of_le (map (\<lambda>k. ucast (drop_bit (8 * k) w) :: u8) [0..<n]) = take_bit (8 * n) w"
  for w :: "'a::len word"
proof (induction n arbitrary: w)
  case 0
  then show ?case by simp
next
  case (Suc n)
  have "map (\<lambda>k. ucast (drop_bit (8 * k) w) :: u8) [0..<Suc n]
      = ucast w # map (\<lambda>k. ucast (drop_bit (8 * k) (drop_bit 8 w))) [0..<n]"
    by (simp add: upt_conv_Cons map_Suc_upt [symmetric] drop_bit_drop_bit add.commute
        del: upt_Suc)
  moreover have "ucast (ucast w :: u8) OR push_bit 8 (take_bit (8 * n) (drop_bit 8 w)) = take_bit (8 * Suc n) w"
    by (rule bit_word_eqI) (auto simp: bit_simps)
  ultimately show ?case by (simp only: of_le.simps Suc.IH)
qed

lemma of_le_le16 [le_simps]: "of_le (le16 w) = w"
  using of_le_bytes [of w 2] by (simp add: le16_def take_bit_word_eq_self)

lemma of_le_le32 [le_simps]: "of_le (le32 w) = w"
  using of_le_bytes [of w 4] by (simp add: le32_def take_bit_word_eq_self)

lemma of_le_le64 [le_simps]: "of_le (le64 w) = w"
  using of_le_bytes [of w 8] by (simp add: le64_def take_bit_word_eq_self)

lemma take_drop_nth: "k + n \<le> length b \<Longrightarrow> take n (drop k b) = map (\<lambda>j. b ! (k + j)) [0..<n]"
  by (rule nth_equalityI) auto

end
