(* ===== verification/Kmath.thy ===== *)
theory Kmath
  imports Prelude
begin

text \<open>
  The integer arithmetic of \<open>helper/math/basic.c\<close> and \<open>helper/math/dataconvert.c\<close> on 64-bit
  words: powers, Newton roots with at most 25 iterations, and unit conversions. \<open>fpu_init\<close>
  is inline assembly and is not modelled.
\<close>

fun power_loop :: "u64 \<Rightarrow> nat \<Rightarrow> u64 \<Rightarrow> u64" where
  "power_loop base 0 r = r"
| "power_loop base (Suc k) r = power_loop base k (r * base)"

definition math_power :: "u64 \<Rightarrow> int \<Rightarrow> u64" where
  "math_power base ex =
     (if ex < 0 then 0 else if ex = 0 then 1 else power_loop base (nat ex) 1)"

definition math_square_power :: "u64 \<Rightarrow> u64" where
  "math_square_power base = base * base"

definition root_next :: "u64 \<Rightarrow> int \<Rightarrow> u64 \<Rightarrow> u64" where
  "root_next base root guess =
     (let p = math_power guess (root - 1);
          denominator = (if p = 0 then 1 else p)
      in (word_of_int (root - 1) * guess + base div denominator) div word_of_int root)"

fun root_loop :: "nat \<Rightarrow> u64 \<Rightarrow> int \<Rightarrow> u64 \<Rightarrow> u64" where
  "root_loop 0 base root guess = guess"
| "root_loop (Suc k) base root guess =
     (let nxt = root_next base root guess;
          diff = (if nxt > guess then nxt - guess else guess - nxt)
      in if diff = 0 then nxt else root_loop k base root nxt)"

definition math_root :: "u64 \<Rightarrow> int \<Rightarrow> u64" where
  "math_root base root =
     (if base = 0 then 0
      else if base = 1 \<or> root = 1 then base
      else if root \<le> 0 then 0
      else let g = base div word_of_int root; guess = (if g < 1 then 1 else g)
           in root_loop 25 base root guess)"

definition math_square_root :: "u64 \<Rightarrow> u64" where
  "math_square_root base = math_root base 2"

definition math_bytes_to_kilo :: "u64 \<Rightarrow> u64" where
  "math_bytes_to_kilo b = b div 1024"

definition math_bytes_to_mega :: "u64 \<Rightarrow> u64" where
  "math_bytes_to_mega b = (b div 1024) div 1024"

definition math_kilo_to_mega :: "u64 \<Rightarrow> u64" where
  "math_kilo_to_mega kilo = kilo div 1024"

definition math_mega_to_bytes :: "u64 \<Rightarrow> u64" where
  "math_mega_to_bytes mega = mega * 1024 * 1024"

definition math_mega_to_kilo :: "u64 \<Rightarrow> u64" where
  "math_mega_to_kilo mega = mega * 1024"

definition math_kilo_to_bytes :: "u64 \<Rightarrow> u64" where
  "math_kilo_to_bytes kilo = kilo * 1024"

section \<open>Powers\<close>

lemma power_loop_eq: "power_loop base k r = r * base ^ k"
  by (induction k arbitrary: r) (simp_all add: mult.assoc mult.commute mult.left_commute)

lemma math_power_eq: "0 \<le> ex \<Longrightarrow> math_power base ex = base ^ nat ex"
  by (auto simp: math_power_def power_loop_eq)

section \<open>Newton's square root\<close>

text \<open>One step for \<open>root = 2\<close>, on numbers: no intermediate result wraps below \<open>2 ^ 63\<close>.\<close>

definition newton :: "nat \<Rightarrow> nat \<Rightarrow> nat" where
  "newton n x = (x + n div x) div 2"

lemma root_next_square:
  assumes "0 < unat guess" and "unat guess < 2 ^ 63" and "unat base < 2 ^ 63"
  shows "unat (root_next base 2 guess) = newton (unat base) (unat guess)"
proof -
  have g: "guess \<noteq> 0" using assms(1) by auto
  have "unat base div unat guess \<le> unat base" by simp
  then have "unat guess + unat base div unat guess < 2 ^ 63 + 2 ^ 63" using assms by linarith
  then have "unat (guess + base div guess) = unat guess + unat base div unat guess"
    by (simp add: unat_word_ariths unat_div)
  with g show ?thesis
    by (simp add: root_next_def newton_def math_power_eq unat_div)
qed

lemma newton_contracts:
  assumes "0 < s" and "s \<le> x"
  shows "s \<le> newton (s * s) x \<and> 2 * (newton (s * s) x - s) \<le> x - s"
proof -
  obtain d where x: "x = s + d" using assms(2) le_Suc_ex by blast
  have up: "(s * s) div x \<le> s"
    using assms by (metis div_le_mono2 nonzero_mult_div_cancel_left not_gr_zero)
  have low: "2 * s \<le> x + (s * s) div x"
  proof (rule ccontr)
    assume "\<not> ?thesis"
    then have "d < s" "(s * s) div x + 1 \<le> s - d" using x by auto
    then have "s * s < (s - d) * x"
      using assms x by (metis Suc_eq_plus1 Suc_le_lessD div_less_iff_less_mult add_gr_0)
    also have "\<dots> \<le> s * s"
      using \<open>d < s\<close> by (auto simp: x algebra_simps nat_distrib diff_mult_distrib)
    finally show False by simp
  qed
  show ?thesis unfolding newton_def using up low assms by auto
qed

lemma root_loop_square:
  assumes "0 < s" and "s \<le> unat guess" and "unat guess < 2 ^ 63" and "s * s < 2 ^ 63"
    and "unat base = s * s" and "unat guess - s < 2 ^ k"
  shows "unat (root_loop k base 2 guess) = s"
  using assms(2,3,6)
proof (induction k arbitrary: guess)
  case 0
  then show ?case by simp
next
  case (Suc k)
  let ?n = "root_next base 2 guess"
  have n: "unat ?n = newton (s * s) (unat guess)"
    using Suc.prems assms by (subst root_next_square) auto
  have c: "s \<le> unat ?n" "2 * (unat ?n - s) \<le> unat guess - s"
    using newton_contracts [OF assms(1) Suc.prems(1)] n by auto
  show ?case
  proof (cases "?n = guess")
    case True
    with c have "unat guess = s" by simp
    with True show ?thesis by simp
  next
    case False
    have "unat ?n \<le> unat guess" using c Suc.prems by linarith
    with False c Suc have "unat (root_loop k base 2 ?n) = s" by simp
    with False show ?thesis by (auto simp: Let_def)
  qed
qed

text \<open>
  \<open>math_square_root\<close> is exact on perfect squares below \<open>2 ^ 26\<close>: there 25 halvings of the
  distance to the root are enough. (Beyond, and between squares, it is not exact.)
\<close>

theorem math_square_root_perfect:
  assumes "s < 8192"
  shows "math_square_root (of_nat (s * s)) = of_nat s"
proof -
  have sq: "s * s < 2 ^ 26"
    using assms mult_strict_mono [of s 8192 s 8192] by (cases "s = 0") auto
  let ?b = "of_nat (s * s) :: u64"
  have b: "unat ?b = s * s" using sq by (simp add: unat_of_nat del: of_nat_mult)
  consider "s = 0" | "s = 1" | "2 \<le> s" by linarith
  then show ?thesis
  proof cases
    case 3
    let ?g = "?b div 2"
    have g: "unat ?g = (s * s) div 2" by (simp add: unat_div b del: of_nat_mult)
    have "2 * s \<le> s * s" using 3 by simp
    then have s: "s \<le> unat ?g" unfolding g by linarith
    have "unat (root_loop 25 ?b 2 ?g) = s"
      by (rule root_loop_square) (use 3 s g b sq in auto)
    then have r: "root_loop 25 ?b 2 ?g = of_nat s" by (metis of_nat_unat ucast_id)
    have "\<not> ?g < 1" using s 3 by (simp add: word_less_nat_alt)
    moreover have "?b \<noteq> 0" "?b \<noteq> 1" using b 3 by (auto simp del: of_nat_mult)
    ultimately show ?thesis
      using r by (simp add: math_square_root_def math_root_def del: of_nat_mult)
  qed (simp_all add: math_square_root_def math_root_def)
qed

theorem math_square_root_perfect_witness: "math_square_root 144 = 12"
  using math_square_root_perfect [of 12] by simp

lemma root_loop_numeral:
  "root_loop (numeral k) base root guess =
     (let nxt = root_next base root guess
      in if nxt = guess then nxt else root_loop (pred_numeral k) base root nxt)"
  by (auto simp: numeral_eq_Suc Let_def)

text \<open>
  outside that range \<open>math_square_root\<close> is neither the rounded-down root nor close to it:
  it returns 2 for 3 (the iteration alternates between 1 and 2), and for \<open>2 ^ 62\<close>, whose root
  is \<open>2 ^ 31\<close>, the 25 iterations end above \<open>2 ^ 35\<close>.
\<close>

theorem math_square_root_inexact:
  "math_square_root 3 = 2 \<and> math_square_root (2 ^ 62) > 2 ^ 35"
  by (simp add: math_square_root_def math_root_def root_loop_numeral root_next_def math_power_def)

end
