(* ===== verification/CString.thy ===== *)
theory CString
  imports Prelude
begin

text \<open>
  The kernel's string and memory library: \<open>helper/string/string.c\<close>,
  \<open>helper/string/memory.c\<close> and \<open>helper/string/convert.c\<close>. An array argument is the list of
  its bytes, a pointer the code compares with \<open>NULL\<close> is an \<open>option\<close>, and a loop over an array
  is a recursion on the index. Reading or writing outside an array yields \<open>None\<close>.
  C \<open>int\<close> and \<open>size_t\<close> loop counters stay below the length of the array they index and are
  natural numbers here. \<open>char\<close> is compared with constants in the ASCII range only, where the
  signed and the unsigned reading of a byte agree.
\<close>

section \<open>Comparing and measuring\<close>

function str_strcmp_at :: "bytes \<Rightarrow> bytes \<Rightarrow> nat \<Rightarrow> int option" where
  "str_strcmp_at a b i = do {
     x \<leftarrow> buf_get a i;
     y \<leftarrow> buf_get b i;
     if x \<noteq> 0 \<and> x = y then str_strcmp_at a b (Suc i) else Some (uint x - uint y) }"
  by pat_completeness auto
termination by (relation "measure (\<lambda>(a, b, i). length a - i)") auto

definition str_strcmp :: "bytes \<Rightarrow> bytes \<Rightarrow> int option" where
  "str_strcmp str1 str2 = str_strcmp_at str1 str2 0"

function str_strncmp_at :: "bytes \<Rightarrow> bytes \<Rightarrow> nat \<Rightarrow> nat \<Rightarrow> int option" where
  "str_strncmp_at a b i n =
     (if n = 0 then Some 0
      else do {
        x \<leftarrow> buf_get a i;
        y \<leftarrow> buf_get b i;
        if x \<noteq> 0 \<and> x = y then str_strncmp_at a b (Suc i) (n - 1) else Some (uint x - uint y) })"
  by pat_completeness auto
termination by (relation "measure (\<lambda>(a, b, i, n). n)") auto

definition str_strncmp :: "bytes \<Rightarrow> bytes \<Rightarrow> nat \<Rightarrow> int option" where
  "str_strncmp str1 str2 n = str_strncmp_at str1 str2 0 n"

function str_startswith_at :: "bytes \<Rightarrow> bytes \<Rightarrow> nat \<Rightarrow> bool option" where
  "str_startswith_at s p i = do {
     y \<leftarrow> buf_get p i;
     if y = 0 then Some True
     else do {
       x \<leftarrow> buf_get s i;
       if x \<noteq> y then Some False else str_startswith_at s p (Suc i) } }"
  by pat_completeness auto
termination by (relation "measure (\<lambda>(s, p, i). length p - i)") auto

definition str_startswith :: "bytes \<Rightarrow> bytes \<Rightarrow> bool option" where
  "str_startswith str prefix = str_startswith_at str prefix 0"

function scan_nul :: "bytes \<Rightarrow> nat \<Rightarrow> nat option" where
  "scan_nul b i = do {
     c \<leftarrow> buf_get b i;
     if c \<noteq> 0 then scan_nul b (Suc i) else Some i }"
  by pat_completeness auto
termination by (relation "measure (\<lambda>(b, i). length b - i)") auto

definition str_strlen :: "bytes option \<Rightarrow> nat option" where
  "str_strlen str = (case str of None \<Rightarrow> Some 0 | Some b \<Rightarrow> scan_nul b 0)"

declare str_strcmp_at.simps [simp del] str_strncmp_at.simps [simp del]
  str_startswith_at.simps [simp del] scan_nul.simps [simp del]

section \<open>Copying\<close>

text \<open>The loop \<open>while ((*dest++ = *src++))\<close>: copies up to and including the NUL.\<close>

function copy_nul :: "bytes \<Rightarrow> nat \<Rightarrow> bytes \<Rightarrow> nat \<Rightarrow> bytes option" where
  "copy_nul dest d src s = do {
     c \<leftarrow> buf_get src s;
     dest' \<leftarrow> buf_set dest d c;
     if c \<noteq> 0 then copy_nul dest' (Suc d) src (Suc s) else Some dest' }"
  by pat_completeness auto
termination by (relation "measure (\<lambda>(dest, d, src, s). length src - s)") auto

definition str_strcpy :: "bytes \<Rightarrow> bytes \<Rightarrow> bytes option" where
  "str_strcpy dest src = copy_nul dest 0 src 0"

definition str_strcat :: "bytes \<Rightarrow> bytes \<Rightarrow> bytes option" where
  "str_strcat dest src = do { ptr \<leftarrow> scan_nul dest 0; copy_nul dest ptr src 0 }"

text \<open>A counted copy \<open>for (i = 0; i < n; i++) dest[i] = src[i]\<close> from position \<open>i\<close>.\<close>

function copy_upto :: "bytes \<Rightarrow> bytes \<Rightarrow> nat \<Rightarrow> nat \<Rightarrow> bytes option" where
  "copy_upto dest src i n =
     (if i < n then do {
        c \<leftarrow> buf_get src i;
        dest' \<leftarrow> buf_set dest i c;
        copy_upto dest' src (Suc i) n }
      else Some dest)"
  by pat_completeness auto
termination by (relation "measure (\<lambda>(dest, src, i, n). n - i)") auto

definition str_strncpy :: "bytes option \<Rightarrow> bytes option \<Rightarrow> nat \<Rightarrow> (int \<times> bytes option) option" where
  "str_strncpy destination source capacity =
     (case (destination, source) of
        (Some dst, Some src) \<Rightarrow>
          if capacity = 0 then Some (- 1, destination)
          else do {
            len \<leftarrow> str_strlen source;
            if len \<ge> capacity then Some (- 1, destination)
            else do { dst' \<leftarrow> copy_upto dst src 0 (Suc len); Some (0, Some dst') } }
      | _ \<Rightarrow> Some (- 1, destination))"

declare copy_nul.simps [simp del] copy_upto.simps [simp del]

function pad_fill :: "bytes \<Rightarrow> nat \<Rightarrow> nat \<Rightarrow> u8 \<Rightarrow> bytes option" where
  "pad_fill dest i n c =
     (if i < n then do { dest' \<leftarrow> buf_set dest i c; pad_fill dest' (Suc i) n c }
      else buf_set dest i 0)"
  by pat_completeness auto
termination by (relation "measure (\<lambda>(dest, i, n, c). n - i)") auto

function pad_copy :: "bytes \<Rightarrow> bytes \<Rightarrow> nat \<Rightarrow> nat \<Rightarrow> u8 \<Rightarrow> bytes option" where
  "pad_copy dest src i n c = do {
     x \<leftarrow> buf_get src i;
     if x \<noteq> 0 \<and> i < n
     then do { dest' \<leftarrow> buf_set dest i x; pad_copy dest' src (Suc i) n c }
     else pad_fill dest i n c }"
  by pat_completeness auto
termination by (relation "measure (\<lambda>(dest, src, i, n, c). n - i)") auto

text \<open>A negative \<open>target_len\<close> makes both loops stop at once, as the length 0 does.\<close>

definition str_pad :: "bytes \<Rightarrow> bytes \<Rightarrow> int \<Rightarrow> u8 \<Rightarrow> bytes option" where
  "str_pad dest src target_len pad_char = pad_copy dest src 0 (nat target_len) pad_char"

declare pad_fill.simps [simp del] pad_copy.simps [simp del]

section \<open>Trimming and splitting\<close>

text \<open>Carriage return, newline, space and tab.\<close>

definition is_blank :: "u8 \<Rightarrow> bool" where
  "is_blank c \<longleftrightarrow> c = 13 \<or> c = 10 \<or> c = 32 \<or> c = 9"

fun trim_tail :: "bytes \<Rightarrow> nat \<Rightarrow> bytes" where
  "trim_tail b 0 = b"
| "trim_tail b (Suc len) = (if is_blank (b ! len) then trim_tail (b[len := 0]) len else b)"

definition clean_input_string :: "bytes option \<Rightarrow> bytes option option" where
  "clean_input_string str =
     (case str of None \<Rightarrow> Some None
      | Some b \<Rightarrow> do { len \<leftarrow> scan_nul b 0; Some (Some (trim_tail b len)) })"

text \<open>The scan of \<open>str_split_filename\<close>: the last dot (\<open>-1\<close> for none) and the length.\<close>

function scan_dot :: "bytes \<Rightarrow> nat \<Rightarrow> int \<Rightarrow> (int \<times> nat) option" where
  "scan_dot b i dot = do {
     c \<leftarrow> buf_get b i;
     if c = 0 then Some (dot, i)
     else scan_dot b (Suc i) (if c = 46 then int i else dot) }"
  by pat_completeness auto
termination by (relation "measure (\<lambda>(b, i, dot). length b - i)") auto

function copy_ext :: "bytes \<Rightarrow> bytes \<Rightarrow> nat \<Rightarrow> nat \<Rightarrow> nat \<Rightarrow> bytes option" where
  "copy_ext ext input dot j len =
     (if dot + 1 + j < len then do {
        c \<leftarrow> buf_get input (dot + 1 + j);
        ext' \<leftarrow> buf_set ext j c;
        copy_ext ext' input dot (Suc j) len }
      else buf_set ext j 0)"
  by pat_completeness auto
termination by (relation "measure (\<lambda>(ext, input, dot, j, len). len - j)") auto

definition str_split_filename :: "bytes \<Rightarrow> bytes \<Rightarrow> bytes \<Rightarrow> (bytes \<times> bytes) option" where
  "str_split_filename input nm ext = do {
     (dot_index, len) \<leftarrow> scan_dot input 0 (- 1);
     nm1 \<leftarrow> copy_upto nm input 0 (nat dot_index);
     nm2 \<leftarrow> buf_set nm1 (nat dot_index) 0;
     ext' \<leftarrow> (if dot_index \<noteq> - 1 then copy_ext ext input (nat dot_index) 0 len
              else buf_set ext 0 0);
     Some (nm2, ext') }"

declare scan_dot.simps [simp del] copy_ext.simps [simp del]

section \<open>Numbers to text\<close>

text \<open>
  The loop shared by the decimal printers: the digits go to \<open>str[i], str[i+1], ...\<close>, least
  significant first.
\<close>

function push_digits :: "u64 \<Rightarrow> bytes \<Rightarrow> nat \<Rightarrow> (bytes \<times> nat) option" where
  "push_digits v b i =
     (if v = 0 then Some (b, i)
      else do { b' \<leftarrow> buf_set b i (ucast (v mod 10) + 48); push_digits (v div 10) b' (Suc i) })"
  by pat_completeness auto
termination
proof (relation "measure (\<lambda>(v, b, i). unat v)", goal_cases)
  case (2 v b i b')
  then have "0 < unat v" by (simp add: unat_gt_0)
  then have "unat (v div 10) < unat v" by (simp add: unat_div)
  then show ?case by simp
qed simp

text \<open>The swap loop that reverses \<open>str[start..end]\<close> in place.\<close>

function reverse_range :: "bytes \<Rightarrow> nat \<Rightarrow> nat \<Rightarrow> bytes option" where
  "reverse_range b start stop =
     (if start < stop then do {
        x \<leftarrow> buf_get b start;
        y \<leftarrow> buf_get b stop;
        b1 \<leftarrow> buf_set b start y;
        b2 \<leftarrow> buf_set b1 stop x;
        reverse_range b2 (Suc start) (stop - 1) }
      else Some b)"
  by pat_completeness auto
termination by (relation "measure (\<lambda>(b, start, stop). stop - start)") auto

definition print_zero :: "bytes \<Rightarrow> bytes option" where
  "print_zero str = do { s \<leftarrow> buf_set str 0 48; buf_set s 1 0 }"

definition str_kutoa :: "u64 \<Rightarrow> bytes \<Rightarrow> bytes option" where
  "str_kutoa v str =
     (if v = 0 then print_zero str
      else do {
        (s, i) \<leftarrow> push_digits v str 0;
        s' \<leftarrow> buf_set s i 0;
        reverse_range s' 0 (i - 1) })"

definition str_u64toa :: "u64 \<Rightarrow> bytes \<Rightarrow> bytes option" where
  "str_u64toa n str =
     (if n = 0 then print_zero str
      else do {
        (s, i) \<leftarrow> push_digits n str 0;
        s' \<leftarrow> buf_set s i 0;
        reverse_range s' 0 (i - 1) })"

text \<open>\<open>str_ltoa\<close> collects the digits in \<open>char temp[32]\<close> and copies them back to front.\<close>

fun unload :: "bytes \<Rightarrow> nat \<Rightarrow> bytes \<Rightarrow> nat \<Rightarrow> bytes option" where
  "unload temp 0 str j = buf_set str j 0"
| "unload temp (Suc i) str j = do {
     c \<leftarrow> buf_get temp i;
     str' \<leftarrow> buf_set str j c;
     unload temp i str' (Suc j) }"

definition str_ltoa :: "u64 \<Rightarrow> bytes \<Rightarrow> bytes option" where
  "str_ltoa num str =
     (if num = 0 then print_zero str
      else do {
        (temp, i) \<leftarrow> push_digits num (replicate 32 0) 0;
        unload temp i str 0 })"

text \<open>\<open>u16_to_str\<close> does the same with \<open>char buf[6]\<close> and a counting loop.\<close>

function unload_upto :: "bytes \<Rightarrow> nat \<Rightarrow> nat \<Rightarrow> bytes \<Rightarrow> bytes option" where
  "unload_upto buf i j out =
     (if j < i then do {
        c \<leftarrow> buf_get buf (i - j - 1);
        out' \<leftarrow> buf_set out j c;
        unload_upto buf i (Suc j) out' }
      else buf_set out i 0)"
  by pat_completeness auto
termination by (relation "measure (\<lambda>(buf, i, j, out). i - j)") auto

definition u16_to_str :: "u16 \<Rightarrow> bytes \<Rightarrow> bytes option" where
  "u16_to_str v out =
     (if v = 0 then print_zero out
      else do {
        (buf, i) \<leftarrow> push_digits (ucast v) (replicate 6 0) 0;
        unload_upto buf i 0 out })"

text \<open>
  \<open>str_itoa\<close> on a C \<open>int\<close>: \<open>%\<close> and \<open>/\<close> truncate towards zero, and a negative remainder is
  negated before it becomes a digit.
\<close>

function push_int_digits :: "int \<Rightarrow> bool \<Rightarrow> bytes \<Rightarrow> nat \<Rightarrow> (bytes \<times> nat) option" where
  "push_int_digits n neg b i =
     (if n = 0 then Some (b, i)
      else do {
        b' \<leftarrow> buf_set b i (word_of_int ((if neg then - (n smod 10) else n smod 10) + 48));
        push_int_digits (n sdiv 10) neg b' (Suc i) })"
  by pat_completeness auto
termination
proof (relation "measure (\<lambda>(n, neg, b, i). nat \<bar>n\<bar>)", goal_cases)
  case (2 n neg b i b')
  then have "\<bar>n sdiv 10\<bar> < \<bar>n\<bar>" by (simp add: abs_sdiv)
  then show ?case by simp
qed simp

definition str_itoa :: "int \<Rightarrow> bytes \<Rightarrow> bytes option" where
  "str_itoa n str =
     (if n = 0 then print_zero str
      else do {
        (s, i) \<leftarrow> push_int_digits n (n < 0) str 0;
        (s1, i1) \<leftarrow> (if n < 0 then do { t \<leftarrow> buf_set s i 45; Some (t, Suc i) } else Some (s, i));
        s2 \<leftarrow> buf_set s1 i1 0;
        reverse_range s2 0 (i1 - 1) })"

text \<open>
  \<open>uint64_to_str\<close> fills the buffer backwards from \<open>buf + 18\<close> and returns the position of the
  first character. Moving the pointer below \<open>buf\<close> is out of range.
\<close>

definition push_back :: "u8 \<Rightarrow> bytes \<times> nat \<Rightarrow> (bytes \<times> nat) option" where
  "push_back c bp = (case bp of (b, p) \<Rightarrow>
     if p = 0 then None else do { b' \<leftarrow> buf_set b (p - 1) c; Some (b', p - 1) })"

definition hex_digits :: bytes where
  "hex_digits = asc ''0123456789ABCDEF''"

function push_hex :: "u64 \<Rightarrow> bytes \<times> nat \<Rightarrow> (bytes \<times> nat) option" where
  "push_hex v bp =
     (if v > 0 then do {
        bp' \<leftarrow> push_back (hex_digits ! unat (v AND 0xF)) bp;
        push_hex (drop_bit 4 v) bp' }
      else Some bp)"
  by pat_completeness auto
termination
proof (relation "measure (\<lambda>(v, bp). unat v)", goal_cases)
  case (2 v bp bp')
  then have "0 < unat v" by (simp add: word_less_nat_alt)
  then have "unat v div 16 < unat v" by simp
  then show ?case by (simp add: drop_bit_eq_div unat_div)
qed simp

definition uint64_to_str :: "u64 \<Rightarrow> bytes \<Rightarrow> (bytes \<times> nat) option" where
  "uint64_to_str v buf = do {
     b \<leftarrow> buf_set buf 18 0;
     if v = 0 then do { bp \<leftarrow> push_back 48 (b, 18); push_back 120 bp }
     else do {
       bp \<leftarrow> push_hex v (b, 18);
       bp1 \<leftarrow> push_back 120 bp;
       push_back 48 bp1 } }"

declare push_digits.simps [simp del] reverse_range.simps [simp del] unload_upto.simps [simp del]
  push_int_digits.simps [simp del] push_hex.simps [simp del]

section \<open>Text to numbers\<close>

abbreviation is_digit :: "u8 \<Rightarrow> bool" where
  "is_digit c \<equiv> 48 \<le> c \<and> c \<le> 57"

definition INT_MAX :: int where
  "INT_MAX = 2147483647"

definition INT_MIN :: int where
  "INT_MIN = - 2147483648"

function atoi_loop :: "bytes \<Rightarrow> nat \<Rightarrow> int \<Rightarrow> int \<Rightarrow> int option" where
  "atoi_loop s i sign res = do {
     c \<leftarrow> buf_get s i;
     if is_digit c then
       if res > (INT_MAX - (uint c - 48)) sdiv 10
       then Some (if sign = 1 then INT_MAX else INT_MIN)
       else atoi_loop s (Suc i) sign (res * 10 + (uint c - 48))
     else Some (res * sign) }"
  by pat_completeness auto
termination by (relation "measure (\<lambda>(s, i, sign, res). length s - i)") auto

definition str_atoi :: "bytes \<Rightarrow> int option" where
  "str_atoi s = do {
     c \<leftarrow> buf_get s 0;
     if c = 45 then atoi_loop s 1 (- 1) 0
     else if c = 43 then atoi_loop s 1 1 0
     else atoi_loop s 0 1 0 }"

function to_u16_loop :: "bytes \<Rightarrow> nat \<Rightarrow> u16 \<Rightarrow> u16 option" where
  "to_u16_loop s i r = do {
     c \<leftarrow> buf_get s i;
     if c = 0 then Some r
     else if \<not> is_digit c then Some r
     else to_u16_loop s (Suc i) (r * 10 + ucast (c - 48)) }"
  by pat_completeness auto
termination by (relation "measure (\<lambda>(s, i, r). length s - i)") auto

definition str_to_u16 :: "bytes \<Rightarrow> u16 option" where
  "str_to_u16 s = to_u16_loop s 0 0"

function skip_blank :: "bytes \<Rightarrow> nat \<Rightarrow> nat option" where
  "skip_blank s i = do {
     c \<leftarrow> buf_get s i;
     if c = 32 \<or> c = 9 \<or> c = 10 then skip_blank s (Suc i) else Some i }"
  by pat_completeness auto
termination by (relation "measure (\<lambda>(s, i). length s - i)") auto

function to_u8_loop :: "bytes \<Rightarrow> nat \<Rightarrow> u32 \<Rightarrow> u8 option" where
  "to_u8_loop s i r = do {
     c \<leftarrow> buf_get s i;
     if is_digit c then
       let r' = r * 10 + ucast (c - 48)
       in if r' > 255 then Some 255 else to_u8_loop s (Suc i) r'
     else Some (ucast r) }"
  by pat_completeness auto
termination by (relation "measure (\<lambda>(s, i, r). length s - i)") auto

definition str_to_u8 :: "bytes option \<Rightarrow> u8 option" where
  "str_to_u8 str =
     (case str of None \<Rightarrow> Some 0 | Some s \<Rightarrow> do { i \<leftarrow> skip_blank s 0; to_u8_loop s i 0 })"

declare atoi_loop.simps [simp del] to_u16_loop.simps [simp del]
  skip_blank.simps [simp del] to_u8_loop.simps [simp del]

definition str_u8tochar :: "u8 \<Rightarrow> 8 word" where
  "str_u8tochar x = x"

definition str_chartou8 :: "8 word \<Rightarrow> u8" where
  "str_chartou8 x = x"

section \<open>Memory blocks\<close>

text \<open>
  The four block functions work on addresses that may overlap, so they are modelled over one
  flat memory from addresses to bytes.
\<close>

type_synonym flat = "nat \<Rightarrow> u8"

fun memcpy_loop :: "flat \<Rightarrow> nat \<Rightarrow> nat \<Rightarrow> nat \<Rightarrow> nat \<Rightarrow> flat" where
  "memcpy_loop m dest src i 0 = m"
| "memcpy_loop m dest src i (Suc k) = memcpy_loop (m(dest + i := m (src + i))) dest src (Suc i) k"

definition memcpy :: "flat \<Rightarrow> nat \<Rightarrow> nat \<Rightarrow> nat \<Rightarrow> flat" where
  "memcpy m dest src n = memcpy_loop m dest src 0 n"

fun memset_loop :: "flat \<Rightarrow> nat \<Rightarrow> u8 \<Rightarrow> nat \<Rightarrow> nat \<Rightarrow> flat" where
  "memset_loop m p c i 0 = m"
| "memset_loop m p c i (Suc k) = memset_loop (m(p + i := c)) p c (Suc i) k"

definition memset :: "flat \<Rightarrow> nat \<Rightarrow> int \<Rightarrow> nat \<Rightarrow> flat" where
  "memset m s c n = memset_loop m s (word_of_int c) 0 n"

fun memmove_down :: "flat \<Rightarrow> nat \<Rightarrow> nat \<Rightarrow> nat \<Rightarrow> flat" where
  "memmove_down m dest src 0 = m"
| "memmove_down m dest src (Suc i) = memmove_down (m(dest + i := m (src + i))) dest src i"

definition memmove :: "flat \<Rightarrow> nat \<Rightarrow> nat \<Rightarrow> nat \<Rightarrow> flat" where
  "memmove m dest src n =
     (if src > dest then memcpy_loop m dest src 0 n
      else if src < dest then memmove_down m dest src n
      else m)"

fun memcmp_loop :: "flat \<Rightarrow> nat \<Rightarrow> nat \<Rightarrow> nat \<Rightarrow> nat \<Rightarrow> int" where
  "memcmp_loop m s1 s2 i 0 = 0"
| "memcmp_loop m s1 s2 i (Suc k) =
     (if m (s1 + i) \<noteq> m (s2 + i) then (if m (s1 + i) < m (s2 + i) then - 1 else 1)
      else memcmp_loop m s1 s2 (Suc i) k)"

definition memcmp :: "flat \<Rightarrow> nat \<Rightarrow> nat \<Rightarrow> nat \<Rightarrow> int" where
  "memcmp m s1 s2 n = memcmp_loop m s1 s2 0 n"

section \<open>Measuring and comparing: correctness\<close>

lemma scan_nul_drop:
  "scan_nul b i = (if 0 \<in> set (drop i b) then Some (i + length (cstr (drop i b))) else None)"
proof (induction b i rule: scan_nul.induct)
  case (1 b i)
  show ?case
  proof (cases "i < length b")
    case True
    then have "drop i b = b ! i # drop (Suc i) b" by (simp add: Cons_nth_drop_Suc)
    with True 1 show ?thesis
      by (subst scan_nul.simps) (auto simp: cstr_def buf_get_def)
  qed (subst scan_nul.simps, simp add: buf_get_def)
qed

lemma scan_nul_0 [simp]:
  "scan_nul b 0 = (if terminated b then Some (length (cstr b)) else None)"
  by (simp add: scan_nul_drop terminated_def)

text \<open>The index loop of \<open>str_strcmp\<close> as a recursion over the two arrays.\<close>

fun strcmp_list :: "bytes \<Rightarrow> bytes \<Rightarrow> int option" where
  "strcmp_list (x # xs) (y # ys) =
     (if x \<noteq> 0 \<and> x = y then strcmp_list xs ys else Some (uint x - uint y))"
| "strcmp_list _ _ = None"

lemma str_strcmp_at_drop: "str_strcmp_at a b i = strcmp_list (drop i a) (drop i b)"
proof (induction a b i rule: str_strcmp_at.induct)
  case (1 a b i)
  show ?case
  proof (cases "i < length a \<and> i < length b")
    case True
    then have "drop i a = a ! i # drop (Suc i) a" "drop i b = b ! i # drop (Suc i) b"
      by (simp_all add: Cons_nth_drop_Suc)
    with True 1 show ?thesis by (subst str_strcmp_at.simps) (simp add: buf_get_def)
  next
    case False
    then show ?thesis
      by (subst str_strcmp_at.simps) (cases "drop i a"; auto simp: buf_get_def)
  qed
qed

lemma strcmp_list_correct:
  "terminated a \<Longrightarrow> terminated b \<Longrightarrow>
     \<exists>r. strcmp_list a b = Some r \<and> (r = 0 \<longleftrightarrow> cstr a = cstr b) \<and>
         (r < 0 \<longleftrightarrow> ord_class.lexordp (cstr a) (cstr b))"
proof (induction a b rule: strcmp_list.induct)
  case (1 x xs y ys)
  show ?case
  proof (cases "x \<noteq> 0 \<and> x = y")
    case True
    with 1 obtain r where "strcmp_list xs ys = Some r" "r = 0 \<longleftrightarrow> cstr xs = cstr ys"
        "r < 0 \<longleftrightarrow> ord_class.lexordp (cstr xs) (cstr ys)"
      by (auto simp: terminated_def)
    with True show ?thesis by (simp add: cstr_def)
  next
    case False
    then show ?thesis
      using uint_0_iff [of x] uint_0_iff [of y] word_uint_eq_iff [of x y]
      by (cases "x = 0"; cases "y = 0") (auto simp: cstr_def word_less_def)
  qed
qed (auto simp: terminated_def)

text \<open>
  on NUL-terminated strings \<open>str_strcmp\<close> stays inside both arrays, returns 0 exactly for
  equal strings, and otherwise its sign is the lexicographic order of the strings as unsigned
  bytes.
\<close>

theorem str_strcmp_correct:
  assumes "terminated a" and "terminated b"
  shows "\<exists>r. str_strcmp a b = Some r \<and> (r = 0 \<longleftrightarrow> cstr a = cstr b) \<and>
             (r < 0 \<longleftrightarrow> ord_class.lexordp (cstr a) (cstr b))"
  using strcmp_list_correct [OF assms] by (simp add: str_strcmp_def str_strcmp_at_drop)

section \<open>Decimal text\<close>

text \<open>The decimal digits of a number, least significant first, and its text.\<close>

fun dec_rev :: "nat \<Rightarrow> bytes" where
  "dec_rev n = (if n = 0 then [] else (of_nat (n mod 10) + 48) # dec_rev (n div 10))"

definition dec_text :: "nat \<Rightarrow> bytes" where
  "dec_text n = (if n = 0 then [48] else rev (dec_rev n))"

definition int_text :: "int \<Rightarrow> bytes" where
  "int_text n = (if n < 0 then 45 # dec_text (nat (- n)) else dec_text (nat n))"

declare dec_rev.simps [simp del]

lemma dec_rev_0 [simp]: "dec_rev 0 = []"
  by (simp add: dec_rev.simps)

lemma dec_rev_pos: "0 < n \<Longrightarrow> dec_rev n = (of_nat (n mod 10) + 48) # dec_rev (n div 10)"
  by (subst dec_rev.simps) simp

lemma length_dec_rev: "n < 10 ^ k \<Longrightarrow> length (dec_rev n) \<le> k"
proof (induction k arbitrary: n)
  case (Suc k)
  then have "length (dec_rev (n div 10)) \<le> k" by (simp add: less_mult_imp_div_less mult.commute)
  then show ?case by (cases "n = 0") (simp_all add: dec_rev_pos)
qed simp

lemma length_dec_text: "n < 10 ^ k \<Longrightarrow> 0 < k \<Longrightarrow> length (dec_text n) \<le> k"
  using length_dec_rev [of n k] by (simp add: dec_text_def)

lemma push_digits_spec:
  "i + length (dec_rev (unat v)) \<le> length b \<Longrightarrow>
     push_digits v b i = Some (buf_put b i (dec_rev (unat v)), i + length (dec_rev (unat v)))"
proof (induction v b i rule: push_digits.induct)
  case (1 v b i)
  show ?case
  proof (cases "v = 0")
    case True
    then show ?thesis by (subst push_digits.simps) simp
  next
    case False
    then have d: "dec_rev (unat v) = (ucast (v mod 10) + 48) # dec_rev (unat (v div 10))"
      using of_nat_unat [of "v mod 10"] by (simp add: dec_rev_pos unat_gt_0 unat_div unat_mod)
    with 1 False show ?thesis
      by (subst push_digits.simps) (simp add: buf_simps buf_put_Cons)
  qed
qed

lemma reverse_range_segment:
  "reverse_range (p @ seg @ r) (length p) (length p + length seg - 1) = Some (p @ rev seg @ r)"
proof (induction "length seg" arbitrary: p seg r rule: less_induct)
  case less
  show ?case
  proof (cases "length seg \<le> 1")
    case True
    then show ?thesis by (subst reverse_range.simps) (cases seg; auto)
  next
    case False
    then obtain x t where t: "seg = x # t" "t \<noteq> []" by (cases seg) auto
    then obtain m y where "t = m @ [y]" by (cases t rule: rev_cases) auto
    with t have seg: "seg = x # m @ [y]" by simp
    have "reverse_range ((p @ [y]) @ m @ x # r) (length (p @ [y])) (length (p @ [y]) + length m - 1)
        = Some ((p @ [y]) @ rev m @ x # r)"
      by (rule less) (simp add: seg)
    then show ?thesis
      by (subst reverse_range.simps) (simp add: seg buf_simps nth_append list_update_append)
  qed
qed

lemma print_zero_spec:
  assumes "1 < length str"
  shows "print_zero str = Some (buf_put str 0 [48, 0])"
proof -
  from assms obtain x y r where "str = x # y # r"
    by (cases str; cases "tl str") auto
  then show ?thesis by (simp add: print_zero_def buf_set_def buf_put_def)
qed

text \<open>Digits pushed forwards, terminated and reversed in place leave the text in reading order.\<close>

lemma reverse_digits:
  assumes "length ds < length b"
  shows "do { s \<leftarrow> buf_set (buf_put b 0 ds) (length ds) 0; reverse_range s 0 (length ds - 1) }
       = Some (buf_put b 0 (rev ds @ [0]))"
proof -
  have "(buf_put b 0 ds)[length ds := 0] = [] @ ds @ 0 # drop (Suc (length ds)) b"
    using assms by (simp add: buf_put_def list_update_append Cons_nth_drop_Suc [symmetric])
  then show ?thesis
    using assms reverse_range_segment [of "[]" ds "0 # drop (Suc (length ds)) b"]
    by (simp add: buf_simps buf_put_def)
qed

lemma str_kutoa_spec:
  assumes "length (dec_text (unat v)) < length str"
  shows "str_kutoa v str = Some (buf_put str 0 (dec_text (unat v) @ [0]))"
proof (cases "v = 0")
  case True
  with assms show ?thesis by (simp add: str_kutoa_def dec_text_def print_zero_spec)
next
  case False
  with assms show ?thesis
    using push_digits_spec [of 0 v str] reverse_digits [of "dec_rev (unat v)" str]
    by (simp add: str_kutoa_def dec_text_def unat_eq_zero)
qed

lemma unload_spec:
  "i \<le> length temp \<Longrightarrow> j + i < length str \<Longrightarrow>
     unload temp i str j = Some (buf_put str j (rev (take i temp) @ [0]))"
proof (induction i arbitrary: str j)
  case 0
  then show ?case by (simp add: buf_simps buf_put_single)
next
  case (Suc i)
  then show ?case
    by (simp add: buf_simps buf_put_Cons take_Suc_conv_app_nth)
qed

lemma unload_upto_spec:
  "i \<le> length buf \<Longrightarrow> i < length out \<Longrightarrow> j \<le> i \<Longrightarrow>
     unload_upto buf i j out = Some (buf_put out j (rev (take (i - j) buf) @ [0]))"
proof (induction buf i j out rule: unload_upto.induct)
  case (1 buf i j out)
  show ?case
  proof (cases "j < i")
    case True
    then have "take (i - j) buf = take (i - Suc j) buf @ [buf ! (i - Suc j)]"
      using 1(2) take_Suc_conv_app_nth [of "i - Suc j" buf] by (simp add: Suc_diff_Suc)
    with True 1 show ?thesis
      by (subst unload_upto.simps) (simp add: buf_simps buf_put_Cons)
  next
    case False
    with 1 show ?thesis by (subst unload_upto.simps) (simp add: buf_simps buf_put_single)
  qed
qed

lemma length_dec_rev_u64: "length (dec_rev (unat (v :: u64))) \<le> 20"
proof (rule length_dec_rev)
  show "unat v < 10 ^ 20" using unat_bound [of v] by simp
qed

lemma str_ltoa_spec:
  assumes "length (dec_text (unat v)) < length str"
  shows "str_ltoa v str = Some (buf_put str 0 (dec_text (unat v) @ [0]))"
proof (cases "v = 0")
  case True
  with assms show ?thesis by (simp add: str_ltoa_def dec_text_def print_zero_spec)
next
  case False
  let ?ds = "dec_rev (unat v)"
  have len: "length ?ds \<le> 20" by (rule length_dec_rev_u64)
  then have "push_digits v (replicate 32 0) 0 = Some (buf_put (replicate 32 0) 0 ?ds, length ?ds)"
    using push_digits_spec [of 0 v "replicate 32 0"] by simp
  moreover have "take (length ?ds) (buf_put (replicate 32 0) 0 ?ds) = ?ds"
    by (simp add: buf_put_def)
  ultimately show ?thesis
    using False len assms unload_spec [of "length ?ds" "buf_put (replicate 32 0) 0 ?ds" 0 str]
    by (simp add: str_ltoa_def dec_text_def unat_eq_zero)
qed

lemma u16_to_str_spec:
  assumes "length (dec_text (unat v)) < length out"
  shows "u16_to_str v out = Some (buf_put out 0 (dec_text (unat v) @ [0]))"
proof (cases "v = 0")
  case True
  with assms show ?thesis by (simp add: u16_to_str_def dec_text_def print_zero_spec)
next
  case False
  let ?v = "ucast v :: u64" and ?ds = "dec_rev (unat v)"
  have u: "unat ?v = unat v" using unat_bound [of v] by (intro unat_ucast_small) simp
  have len: "length ?ds \<le> 5" using unat_bound [of v] by (intro length_dec_rev) simp
  then have "push_digits ?v (replicate 6 0) 0 = Some (buf_put (replicate 6 0) 0 ?ds, length ?ds)"
    using push_digits_spec [of 0 ?v "replicate 6 0"] by (simp add: u)
  moreover have "take (length ?ds) (buf_put (replicate 6 0) 0 ?ds) = ?ds"
    by (simp add: buf_put_def)
  ultimately show ?thesis
    using False len assms unload_upto_spec [of "length ?ds" "buf_put (replicate 6 0) 0 ?ds" out 0]
    by (simp add: u16_to_str_def dec_text_def unat_eq_zero)
qed

lemma str_u64toa_eq: "str_u64toa v str = str_kutoa v str"
  by (simp add: str_u64toa_def str_kutoa_def)

text \<open>
  C35: the four unsigned decimal printers (\<open>str_kutoa\<close>, \<open>str_u64toa\<close>, \<open>str_ltoa\<close> and, on 16-bit
  values, \<open>u16_to_str\<close>) agree: with room for the text and its NUL each writes exactly the
  decimal text, NUL-terminated, and nothing else, whatever the intermediate buffers.
\<close>

theorem decimal_printers_agree:
  assumes "length (dec_text (unat v)) < length str"
  shows "str_kutoa v str = Some (buf_put str 0 (dec_text (unat v) @ [0]))
       \<and> str_u64toa v str = str_kutoa v str
       \<and> str_ltoa v str = str_kutoa v str
       \<and> (unat v < 2 ^ 16 \<longrightarrow> u16_to_str (ucast v) str = str_kutoa v str)"
proof -
  have "u16_to_str (ucast v) str = Some (buf_put str 0 (dec_text (unat v) @ [0]))"
    if "unat v < 2 ^ 16"
  proof -
    from that have "unat (ucast v :: u16) = unat v" by (intro unat_ucast_small) simp
    with assms u16_to_str_spec [of "ucast v" str] show ?thesis by simp
  qed
  with assms show ?thesis
    by (simp add: str_kutoa_spec str_ltoa_spec str_u64toa_eq)
qed

lemma push_int_digits_spec:
  "i + length (dec_rev (nat \<bar>n\<bar>)) \<le> length b \<Longrightarrow> (n \<noteq> 0 \<longrightarrow> neg = (n < 0)) \<Longrightarrow>
     push_int_digits n neg b i =
       Some (buf_put b i (dec_rev (nat \<bar>n\<bar>)), i + length (dec_rev (nat \<bar>n\<bar>)))"
proof (induction n neg b i rule: push_int_digits.induct)
  case (1 n neg b i)
  show ?case
  proof (cases "n = 0")
    case True
    then show ?thesis by (subst push_int_digits.simps) simp
  next
    case False
    with 1(3) have neg: "neg = (n < 0)" by simp
    have m: "(if neg then - (n smod 10) else n smod 10) = int (nat \<bar>n\<bar> mod 10)"
      by (simp add: neg smod_abs zmod_int)
    have q: "nat \<bar>n sdiv 10\<bar> = nat \<bar>n\<bar> div 10"
      by (simp add: abs_sdiv nat_div_distrib)
    have s: "n sdiv 10 \<noteq> 0 \<longrightarrow> neg = (n sdiv 10 < 0)"
      by (auto simp: neg signed_divide_int_def sgn_if zdiv_eq_0_iff neg_imp_zdiv_neg_iff)
    have d: "dec_rev (nat \<bar>n\<bar>) =
        word_of_int ((if neg then - (n smod 10) else n smod 10) + 48) # dec_rev (nat \<bar>n sdiv 10\<bar>)"
      using False by (simp add: m q dec_rev_pos)
    let ?d = "word_of_int ((if neg then - (n smod 10) else n smod 10) + 48) :: u8"
    have i: "i < length b" using 1(2) by (simp add: d)
    then have "push_int_digits (n sdiv 10) neg (b[i := ?d]) (Suc i) =
        Some (buf_put (b[i := ?d]) (Suc i) (dec_rev (nat \<bar>n sdiv 10\<bar>)),
              Suc i + length (dec_rev (nat \<bar>n sdiv 10\<bar>)))"
      using 1(1) [OF False, of "b[i := ?d]"] 1(2) s by (simp add: d buf_simps)
    with i show ?thesis
      by (subst push_int_digits.simps) (simp only: False if_False d buf_set_in buf_put_Cons
          bind.bind_lunit list.size add_Suc_right add_Suc add_0_right)
  qed
qed

lemma int_text_small: "INT_MIN \<le> n \<Longrightarrow> n \<le> INT_MAX \<Longrightarrow> length (int_text n) \<le> 11"
  using length_dec_text [of "nat n" 11] length_dec_text [of "nat (- n)" 10]
  unfolding int_text_def INT_MIN_def INT_MAX_def by (cases "n < 0") simp_all

lemma str_itoa_spec:
  assumes "length (int_text n) < length str"
  shows "str_itoa n str = Some (buf_put str 0 (int_text n @ [0]))"
proof (cases "n = 0")
  case True
  with assms show ?thesis
    by (simp add: str_itoa_def int_text_def dec_text_def print_zero_spec)
next
  case False
  let ?ds = "dec_rev (nat \<bar>n\<bar>)"
  have fit: "length ?ds < length str" "n < 0 \<Longrightarrow> Suc (length ?ds) < length str"
    using assms False by (auto simp: int_text_def dec_text_def split: if_splits)
  then have p: "push_int_digits n (n < 0) str 0 = Some (buf_put str 0 ?ds, length ?ds)"
    using push_int_digits_spec [of 0 n str "n < 0"] by simp
  show ?thesis
  proof (cases "n < 0")
    case True
    then have "(buf_put str 0 ?ds)[length ?ds := 45] = buf_put str 0 (?ds @ [45])"
      using fit buf_put_append [of 0 ?ds str "[45]"] by (simp add: buf_put_single)
    with True False fit p reverse_digits [of "?ds @ [45]" str] show ?thesis
      by (simp add: str_itoa_def buf_simps int_text_def dec_text_def)
  next
    case False
    with \<open>n \<noteq> 0\<close> fit p reverse_digits [of ?ds str] show ?thesis
      by (simp add: str_itoa_def int_text_def dec_text_def)
  qed
qed

section \<open>Parsing decimal text\<close>

definition dec_val :: "nat \<Rightarrow> bytes \<Rightarrow> nat" where
  "dec_val = foldl (\<lambda>a c. a * 10 + (unat c - 48))"

text \<open>The number at the start of a text: an optional sign and the digits that follow.\<close>

definition digits_of :: "bytes \<Rightarrow> bytes" where
  "digits_of = takeWhile is_digit"

fun int_value :: "bytes \<Rightarrow> int" where
  "int_value [] = 0"
| "int_value (c # r) =
     (if c = 45 then - int (dec_val 0 (digits_of r))
      else if c = 43 then int (dec_val 0 (digits_of r))
      else int (dec_val 0 (digits_of (c # r))))"

lemma dec_val_mono: "a \<le> dec_val a ds"
proof (induction ds arbitrary: a)
  case (Cons d ds)
  have "a \<le> a * 10 + (unat d - 48)" by simp
  also have "\<dots> \<le> dec_val (a * 10 + (unat d - 48)) ds" by (rule Cons)
  finally show ?case by (simp add: dec_val_def)
qed (simp add: dec_val_def)

lemma digit_value:
  assumes "is_digit c"
  shows "int (unat c - 48) = uint c - 48 \<and> uint c \<le> 57"
proof -
  have c: "48 \<le> unat c" "unat c \<le> 57" using assms by (simp_all add: word_le_nat_alt)
  have u: "uint c = int (unat c)" by simp
  show ?thesis unfolding u using c by linarith
qed

lemma atoi_loop_spec:
  "0 \<in> set (drop i s) \<Longrightarrow> 0 \<le> res \<Longrightarrow> res \<le> INT_MAX \<Longrightarrow> sign = 1 \<or> sign = - 1 \<Longrightarrow>
     atoi_loop s i sign res =
       Some (max INT_MIN (min INT_MAX (sign * int (dec_val (nat res) (digits_of (drop i s))))))"
proof (induction s i sign res rule: atoi_loop.induct)
  case (1 s i sign res)
  from 1(2) have i: "i < length s" by (cases "i < length s") auto
  let ?c = "s ! i"
  have dr: "drop i s = ?c # drop (Suc i) s" using i by (simp add: Cons_nth_drop_Suc)
  show ?case
  proof (cases "is_digit ?c")
    case False
    then have v: "dec_val (nat res) (digits_of (drop i s)) = nat res"
      unfolding dr digits_of_def dec_val_def by (simp only: takeWhile.simps if_False foldl.simps)
    from 1(3-5) have "res * sign = max INT_MIN (min INT_MAX (sign * int (nat res)))"
      by (elim disjE) (simp_all add: INT_MIN_def INT_MAX_def)
    with False i show ?thesis
      unfolding v by (subst atoi_loop.simps) (simp only: buf_get_in bind.bind_lunit if_False)
  next
    case True
    let ?d = "uint ?c - 48" and ?r = "res * 10 + (uint ?c - 48)"
    have d: "0 \<le> ?d" "?d \<le> 9" using digit_value [OF True] by auto
    have z: "0 \<in> set (drop (Suc i) s)" using 1(2) True dr by auto
    have nr: "nat ?r = nat res * 10 + (unat ?c - 48)"
      using digit_value [OF True] 1(3) by (simp add: nat_eq_iff)
    have v: "dec_val (nat res) (digits_of (drop i s)) = dec_val (nat ?r) (digits_of (drop (Suc i) s))"
      using True by (simp add: dr digits_of_def nr) (simp add: dec_val_def)
    have q: "(INT_MAX - ?d) sdiv 10 = (INT_MAX - ?d) div 10"
      using d by (simp add: signed_divide_int_def INT_MAX_def sgn_if)
    show ?thesis
    proof (cases "res > (INT_MAX - ?d) sdiv 10")
      case over: True
      then have "INT_MAX < ?r" unfolding q unfolding INT_MAX_def by linarith
      also have "?r \<le> int (dec_val (nat ?r) (digits_of (drop (Suc i) s)))"
        using dec_val_mono [of "nat ?r"] by (simp add: nat_le_iff)
      finally have big: "INT_MAX < int (dec_val (nat res) (digits_of (drop i s)))" by (simp only: v)
      from 1(5) have "(if sign = 1 then INT_MAX else INT_MIN) =
          max INT_MIN (min INT_MAX (sign * int (dec_val (nat res) (digits_of (drop i s)))))"
        using big by (elim disjE) (simp_all add: INT_MIN_def INT_MAX_def)
      with over True i show ?thesis
        by (subst atoi_loop.simps) (simp only: buf_get_in bind.bind_lunit if_True simp_thms)
    next
      case False
      then have "?r \<le> INT_MAX" unfolding q unfolding INT_MAX_def by linarith
      moreover have "0 \<le> ?r" using d 1(3) by simp
      ultimately have "atoi_loop s (Suc i) sign ?r =
          Some (max INT_MIN (min INT_MAX (sign * int (dec_val (nat ?r) (digits_of (drop (Suc i) s))))))"
        using 1(1) [OF _ True False] 1(5) i z by (simp only: buf_get_in option.set singleton_iff simp_thms)
      with False True i show ?thesis
        unfolding v by (subst atoi_loop.simps) (simp only: buf_get_in bind.bind_lunit if_True if_False simp_thms)
    qed
  qed
qed

text \<open>
  \<open>str_atoi\<close> on a NUL-terminated string returns the decimal number the string starts with,
  saturated to the range of a C \<open>int\<close>: no overflow is possible, whatever the string's length.
\<close>

theorem str_atoi_saturates:
  assumes "terminated s"
  shows "str_atoi s = Some (max INT_MIN (min INT_MAX (int_value s)))"
proof -
  from assms obtain c r where s: "s = c # r" and z: "c \<noteq> 0 \<longrightarrow> 0 \<in> set r"
    by (cases s) (auto simp: terminated_def)
  have M: "(0::int) \<le> INT_MAX" by (simp add: INT_MAX_def)
  consider (minus) "c = 45" | (plus) "c = 43" | (digits) "c \<noteq> 45" "c \<noteq> 43" by blast
  then show ?thesis
  proof cases
    case minus
    with z have "atoi_loop s 1 (- 1) 0 = Some (max INT_MIN (min INT_MAX (- 1 * int (dec_val 0 (digits_of r)))))"
      using atoi_loop_spec [of 1 s 0 "- 1"] M by (simp add: s)
    with minus show ?thesis by (simp add: str_atoi_def s buf_get_def)
  next
    case plus
    with z have "atoi_loop s 1 1 0 = Some (max INT_MIN (min INT_MAX (int (dec_val 0 (digits_of r)))))"
      using atoi_loop_spec [of 1 s 0 1] M by (simp add: s)
    with plus show ?thesis by (simp add: str_atoi_def s buf_get_def)
  next
    case digits
    have "atoi_loop s 0 1 0 = Some (max INT_MIN (min INT_MAX (int (dec_val 0 (digits_of s)))))"
      using atoi_loop_spec [of 0 s 0 1] M assms by (simp add: terminated_def)
    with digits show ?thesis by (simp add: str_atoi_def s buf_get_def)
  qed
qed

lemma digit_byte:
  assumes "d < 10"
  shows "is_digit (of_nat d + 48) \<and> unat (of_nat d + 48 :: u8) = d + 48"
proof -
  from assms have "d = 0 \<or> d = 1 \<or> d = 2 \<or> d = 3 \<or> d = 4 \<or> d = 5 \<or> d = 6 \<or> d = 7 \<or> d = 8 \<or> d = 9"
    by arith
  then show ?thesis by (elim disjE) simp_all
qed

lemma dec_rev_digits: "c \<in> set (dec_rev n) \<Longrightarrow> is_digit c"
proof (induction n rule: dec_rev.induct)
  case (1 n)
  then show ?case
    using digit_byte [of "n mod 10"] by (cases "n = 0") (auto simp: dec_rev_pos)
qed

lemma dec_text_digits: "c \<in> set (dec_text n) \<Longrightarrow> is_digit c"
  using dec_rev_digits [of c n] by (auto simp: dec_text_def split: if_splits)

lemma dec_val_rev: "dec_val 0 (rev (dec_rev n)) = n"
proof (induction n rule: dec_rev.induct)
  case (1 n)
  show ?case
  proof (cases "n = 0")
    case False
    with 1 digit_byte [of "n mod 10"] show ?thesis by (simp add: dec_rev_pos dec_val_def)
  qed (simp add: dec_val_def)
qed

lemma dec_val_text: "dec_val 0 (digits_of (dec_text n @ 0 # r)) = n"
proof -
  have "digits_of (dec_text n @ 0 # r) = dec_text n"
    using dec_text_digits [of _ n] by (auto simp: digits_of_def takeWhile_append)
  then show ?thesis
    by (auto simp: dec_text_def dec_val_rev) (simp add: dec_val_def)
qed

lemma dec_text_no_sign: "dec_text n = c # r \<Longrightarrow> c \<noteq> 45 \<and> c \<noteq> 43"
  using dec_text_digits [of c n] by (auto simp: word_le_nat_alt)

lemma dec_text_nonempty: "dec_text n \<noteq> []"
  by (simp add: dec_text_def dec_rev_pos)

lemma int_value_text: "int_value (int_text n @ 0 # r) = n"
proof (cases "n < 0")
  case True
  then show ?thesis using dec_val_text [of "nat (- n)" r] by (simp add: int_text_def)
next
  case False
  obtain c t where ct: "dec_text (nat n) = c # t"
    using dec_text_nonempty [of "nat n"] by (cases "dec_text (nat n)") auto
  have "dec_val 0 (digits_of (c # t @ 0 # r)) = nat n"
    using dec_val_text [of "nat n" r] by (simp add: ct)
  with False dec_text_no_sign [OF ct] show ?thesis by (simp add: int_text_def ct)
qed

text \<open>
  C33: printing a C \<open>int\<close> with \<open>str_itoa\<close> and reading it back with \<open>str_atoi\<close> gives the same
  value, for every value of the type (\<open>INT_MIN\<close> included) and every 12-byte buffer: no access
  leaves the buffer.
\<close>

theorem itoa_atoi_roundtrip:
  assumes "INT_MIN \<le> n" and "n \<le> INT_MAX" and "12 \<le> length str"
  shows "\<exists>s. str_itoa n str = Some s \<and> length s = length str \<and> str_atoi s = Some n"
proof -
  have len: "length (int_text n) \<le> 11" using assms(1,2) by (rule int_text_small)
  let ?s = "buf_put str 0 (int_text n @ [0])"
  have s: "?s = int_text n @ 0 # drop (Suc (length (int_text n))) str"
    by (simp add: buf_put_def)
  have "str_atoi ?s = Some (max INT_MIN (min INT_MAX n))"
    unfolding s by (simp add: str_atoi_saturates int_value_text)
  moreover have "str_itoa n str = Some ?s"
    using len assms(3) by (intro str_itoa_spec) simp
  ultimately show ?thesis
    using assms len by simp
qed

theorem itoa_atoi_roundtrip_witness:
  "\<exists>s. str_itoa INT_MIN (replicate 12 0) = Some s \<and> length s = length (replicate 12 0 :: bytes)
       \<and> str_atoi s = Some INT_MIN"
  using itoa_atoi_roundtrip [of INT_MIN "replicate 12 0"] by (simp add: INT_MIN_def INT_MAX_def)

section \<open>Hexadecimal text\<close>

fun hex_rev :: "nat \<Rightarrow> bytes" where
  "hex_rev n = (if n = 0 then [] else hex_digits ! (n mod 16) # hex_rev (n div 16))"

declare hex_rev.simps [simp del]

lemma hex_rev_0 [simp]: "hex_rev 0 = []"
  by (simp add: hex_rev.simps)

lemma hex_rev_pos: "0 < n \<Longrightarrow> hex_rev n = hex_digits ! (n mod 16) # hex_rev (n div 16)"
  by (subst hex_rev.simps) simp

lemma length_hex_rev: "n < 16 ^ k \<Longrightarrow> length (hex_rev n) \<le> k"
proof (induction k arbitrary: n)
  case (Suc k)
  then have "length (hex_rev (n div 16)) \<le> k" by (simp add: less_mult_imp_div_less mult.commute)
  then show ?case by (cases "n = 0") (simp_all add: hex_rev_pos)
qed simp

lemma push_back_spec:
  "p < length b \<Longrightarrow> push_back c (b, Suc p) = Some (b[p := c], p)"
  by (simp add: push_back_def buf_simps)

lemma low_nibble: "unat (v AND 0xF :: u64) = unat v mod 16"
proof -
  have "v AND 0xF = take_bit 4 v" by (simp add: take_bit_eq_mask mask_eq_exp_minus_1)
  then show ?thesis by (simp add: take_bit_eq_mod unat_mod)
qed

lemma push_hex_spec:
  "length (hex_rev (unat v)) \<le> p \<Longrightarrow> p \<le> length b \<Longrightarrow>
     push_hex v (b, p) = Some (buf_put b (p - length (hex_rev (unat v))) (rev (hex_rev (unat v))),
                               p - length (hex_rev (unat v)))"
proof (induction v "(b, p)" arbitrary: b p rule: push_hex.induct)
  case (1 v)
  show ?case
  proof (cases "v = 0")
    case True
    then show ?thesis by (subst push_hex.simps) simp
  next
    case False
    let ?w = "drop_bit 4 v" and ?c = "hex_digits ! unat (v AND 0xF)"
    have u: "unat ?w = unat v div 16" by (simp add: drop_bit_eq_div unat_div)
    have h: "hex_rev (unat v) = ?c # hex_rev (unat ?w)"
      using False by (simp add: u hex_rev_pos unat_gt_0 low_nibble)
    from 1(2) h obtain q where p: "p = Suc q" by (cases p) auto
    have q: "q < length b" "length (hex_rev (unat ?w)) \<le> q" using 1(2,3) h p by auto
    have "push_hex ?w (b[q := ?c], q) =
        Some (buf_put (b[q := ?c]) (q - length (hex_rev (unat ?w))) (rev (hex_rev (unat ?w))),
              q - length (hex_rev (unat ?w)))"
      using False q by (intro 1(1)) (auto simp: p push_back_spec word_gt_0)
    moreover have "buf_put (b[q := ?c]) (q - length (hex_rev (unat ?w))) (rev (hex_rev (unat ?w)))
        = buf_put b (p - length (hex_rev (unat v))) (rev (hex_rev (unat v)))"
      using q by (simp add: h p buf_put_def Cons_nth_drop_Suc [symmetric])
    ultimately show ?thesis
      using False q by (subst push_hex.simps) (simp add: p push_back_spec word_gt_0 h)
  qed
qed

lemma length_hex_digits: "length hex_digits = 16"
  by (simp add: hex_digits_def)

lemma hex_rev_nul: "0 \<notin> set (hex_rev n)"
proof (induction n rule: hex_rev.induct)
  case (1 n)
  have "0 \<notin> set hex_digits" by (simp add: hex_digits_def asc_def)
  then have "hex_digits ! (n mod 16) \<noteq> 0"
    by (metis length_hex_digits mod_less_divisor nth_mem zero_less_numeral)
  with 1 show ?case by (cases "n = 0") (simp_all add: hex_rev_pos)
qed

text \<open>
  for every non-zero value and every 19-byte buffer \<open>uint64_to_str\<close> stays inside the
  buffer and returns the position of the NUL-terminated text \<open>0x\<close> followed by the upper-case
  hexadecimal digits; sixteen digits just fit.
\<close>

theorem uint64_to_str_hex:
  assumes "v \<noteq> 0" and "19 \<le> length buf"
  shows "\<exists>b p. uint64_to_str v buf = Some (b, p) \<and> length b = length buf \<and>
           cstr (drop p b) = asc ''0x'' @ rev (hex_rev (unat v))"
proof -
  let ?h = "hex_rev (unat v)" and ?b0 = "buf[18 := 0]"
  have len: "length ?h \<le> 16" using unat_bound [of v] by (intro length_hex_rev) simp
  define p where "p = 16 - length ?h"
  have p: "18 - length ?h = Suc (Suc p)" "p + 2 + length ?h = 18" using len by (simp_all add: p_def)
  define b where "b = (buf_put ?b0 (Suc (Suc p)) (rev ?h))[Suc p := 120, p := 48]"
  have "push_hex v (?b0, 18) = Some (buf_put ?b0 (Suc (Suc p)) (rev ?h), Suc (Suc p))"
    using push_hex_spec [of v 18 ?b0] assms len p by simp
  moreover have lb: "length (buf_put ?b0 (Suc (Suc p)) (rev ?h)) = length buf"
    using assms p by simp
  ultimately have r: "uint64_to_str v buf = Some (b, p)"
    using assms p by (simp add: uint64_to_str_def buf_simps push_back_spec b_def)
  have d18: "drop 18 ?b0 = 0 # drop 19 buf"
    using assms by (simp add: Cons_nth_drop_Suc [symmetric] drop_update_swap)
  have "drop p b = 48 # 120 # drop (Suc (Suc p)) (buf_put ?b0 (Suc (Suc p)) (rev ?h))"
    using assms p lb by (simp add: b_def Cons_nth_drop_Suc [symmetric] drop_update_swap)
  also have "drop (Suc (Suc p)) (buf_put ?b0 (Suc (Suc p)) (rev ?h)) = rev ?h @ drop 18 ?b0"
    using assms p by (simp add: buf_put_def)
  finally have "drop p b = (asc ''0x'' @ rev ?h) @ 0 # drop 19 buf"
    by (simp add: d18 asc_def)
  then have "cstr (drop p b) = asc ''0x'' @ rev ?h"
    using hex_rev_nul [of "unat v"] by (simp only:) (rule cstr_app, simp add: asc_def)
  with r lb show ?thesis by (auto simp: b_def)
qed

theorem uint64_to_str_hex_witness:
  "\<exists>b p. uint64_to_str 255 (replicate 19 0) = Some (b, p) \<and> length b = length (replicate 19 0 :: bytes) \<and>
     cstr (drop p b) = asc ''0x'' @ rev (hex_rev (unat (255 :: u64)))"
  by (rule uint64_to_str_hex) simp_all

text \<open>
  for the value 0 \<open>uint64_to_str\<close> returns the text \<open>x0\<close>, not \<open>0x0\<close>: the branch for 0
  pushes the two characters of its output in the wrong order.
\<close>

theorem uint64_to_str_zero:
  "uint64_to_str 0 (replicate 19 0) = Some ((replicate 19 0)[17 := 48, 16 := 120], 16)
   \<and> cstr (drop 16 ((replicate 19 0)[17 := 48, 16 := 120])) = asc ''x0''"
  by code_simp

section \<open>Copying: correctness\<close>

lemma copy_nul_spec:
  "0 \<notin> set s \<Longrightarrow> d + length s < length dest \<Longrightarrow>
     copy_nul dest d (p @ s @ 0 # r) (length p) = Some (buf_put dest d (s @ [0]))"
proof (induction s arbitrary: dest d p)
  case Nil
  then show ?case by (subst copy_nul.simps) (simp add: buf_simps nth_append buf_put_single)
next
  case (Cons c s)
  have "copy_nul (dest[d := c]) (Suc d) ((p @ [c]) @ s @ 0 # r) (length (p @ [c])) =
      Some (buf_put (dest[d := c]) (Suc d) (s @ [0]))"
    using Cons.prems by (intro Cons.IH) simp_all
  with Cons.prems show ?case
    by (subst copy_nul.simps) (simp add: buf_simps nth_append buf_put_Cons)
qed

lemma str_strcpy_spec:
  assumes "terminated src" and "length (cstr src) < length dest"
  shows "str_strcpy dest src = Some (buf_put dest 0 (cstr src @ [0]))"
  using assms(1)
proof (rule terminatedE)
  fix s r assume "src = s @ 0 # r" "0 \<notin> set s" "cstr src = s"
  with assms(2) copy_nul_spec [of s 0 dest "[]" r] show ?thesis by (simp add: str_strcpy_def)
qed

lemma str_strcat_spec:
  assumes "terminated dest" and "terminated src"
    and "length (cstr dest) + length (cstr src) < length dest"
  shows "\<exists>d. str_strcat dest src = Some d \<and> length d = length dest \<and> terminated d \<and>
             cstr d = cstr dest @ cstr src"
proof -
  from assms(1) obtain t q where d: "dest = t @ 0 # q" "0 \<notin> set t" "cstr dest = t"
    by (rule terminatedE)
  from assms(2) obtain s r where s: "src = s @ 0 # r" "0 \<notin> set s" "cstr src = s"
    by (rule terminatedE)
  let ?d = "buf_put dest (length t) (s @ [0])"
  have "str_strcat dest src = Some ?d"
    using copy_nul_spec [of s "length t" dest "[]" r] assms s d
    by (simp add: str_strcat_def terminated_def)
  moreover have "?d = (t @ s) @ 0 # drop (length t + length s + 1) dest"
    by (simp add: buf_put_def d(1))
  moreover have "0 \<notin> set (t @ s)" using d s by simp
  ultimately show ?thesis
    using assms(3) d s by (metis (no_types, lifting) cstr_app length_append length_buf_put
        less_Suc_eq_le list.size(3,4) add.assoc add_Suc_right plus_1_eq_Suc Suc_leI terminated_app
        add.right_neutral)
qed

lemma copy_upto_spec:
  "i \<le> n \<Longrightarrow> n \<le> length src \<Longrightarrow> n \<le> length dest \<Longrightarrow>
     copy_upto dest src i n = Some (buf_put dest i (take (n - i) (drop i src)))"
proof (induction dest src i n rule: copy_upto.induct)
  case (1 dest src i n)
  show ?case
  proof (cases "i < n")
    case True
    then have "take (n - i) (drop i src) = src ! i # take (n - Suc i) (drop (Suc i) src)"
      using 1(3) by (simp add: Cons_nth_drop_Suc [symmetric] take_Cons' )
    with True 1 show ?thesis by (subst copy_upto.simps) (simp add: buf_simps buf_put_Cons)
  next
    case False
    with 1(2) show ?thesis by (subst copy_upto.simps) simp
  qed
qed

text \<open>
  \<open>str_strncpy\<close> never overflows its destination: for a NUL-terminated source and a
  destination of at least \<open>capacity\<close> bytes it either copies the whole string with its NUL and
  returns 0, or (the string does not fit) returns \<open>-1\<close> and leaves the destination untouched.
\<close>

theorem str_strncpy_safe:
  assumes "terminated src" and "capacity \<le> length dst"
  shows "str_strncpy (Some dst) (Some src) capacity =
     (if length (cstr src) < capacity then Some (0, Some (buf_put dst 0 (cstr src @ [0])))
      else Some (- 1, Some dst))"
  using assms(1)
proof (rule terminatedE)
  fix s r assume s: "src = s @ 0 # r" "0 \<notin> set s" "cstr src = s"
  then have "copy_upto dst src 0 (Suc (length s)) = Some (buf_put dst 0 (s @ [0]))"
    if "length s < capacity"
    using that assms(2) copy_upto_spec [of 0 "Suc (length s)" src dst] by simp
  with s assms(1) show ?thesis by (simp add: str_strncpy_def str_strlen_def)
qed

theorem str_strncpy_safe_witness:
  "str_strncpy (Some [7, 7, 7, 7]) (Some [65, 66, 0]) 4 = Some (0, Some [65, 66, 0, 7])"
  using str_strncpy_safe [of "[65, 66, 0]" 4 "[7, 7, 7, 7]"]
  by (simp add: terminated_def cstr_def buf_put_def)

section \<open>Trimming and splitting: correctness\<close>

lemma trim_tail_spec:
  "0 \<notin> set s \<Longrightarrow> \<exists>k. trim_tail (s @ 0 # r) (length s) =
     rev (dropWhile is_blank (rev s)) @ replicate k 0 @ 0 # r"
proof (induction s arbitrary: r rule: rev_induct)
  case Nil
  show ?case by (rule exI [of _ 0]) simp
next
  case (snoc c s)
  show ?case
  proof (cases "is_blank c")
    case True
    with snoc obtain k where "trim_tail (s @ 0 # 0 # r) (length s) =
        rev (dropWhile is_blank (rev s)) @ replicate k 0 @ 0 # 0 # r" by auto
    with True show ?thesis
      by (intro exI [of _ "Suc k"]) (simp add: nth_append list_update_append replicate_app_Cons_same)
  next
    case False
    then show ?thesis by (intro exI [of _ 0]) (simp add: nth_append)
  qed
qed

text \<open>
  \<open>clean_input_string\<close> keeps a NUL-terminated string inside its array and removes exactly
  its trailing blanks (carriage return, newline, space, tab).
\<close>

theorem clean_input_string_trims:
  assumes "terminated b"
  shows "\<exists>b'. clean_input_string (Some b) = Some (Some b') \<and> length b' = length b \<and>
              cstr b' = rev (dropWhile is_blank (rev (cstr b)))"
  using assms
proof (rule terminatedE)
  fix s r assume s: "b = s @ 0 # r" "0 \<notin> set s" "cstr b = s"
  let ?t = "rev (dropWhile is_blank (rev s))"
  from s(2) obtain k where k: "trim_tail b (length s) = ?t @ replicate k 0 @ 0 # r"
    using trim_tail_spec [of s r] s(1) by auto
  have "length (trim_tail b n) = length b" for n and b :: bytes
    by (induction n arbitrary: b) simp_all
  then have len: "length (?t @ replicate k 0 @ 0 # r) = length b" using k by metis
  have "0 \<notin> set ?t" using s(2) set_dropWhileD by fastforce
  then have "cstr (?t @ replicate k 0 @ 0 # r) = ?t"
    using cstr_app [of ?t] by (cases k) auto
  moreover have "clean_input_string (Some b) = Some (Some (?t @ replicate k 0 @ 0 # r))"
    using assms k s(3) by (simp add: clean_input_string_def)
  ultimately show ?thesis using len s(3) by blast
qed

theorem clean_input_string_trims_witness:
  "\<exists>b'. clean_input_string (Some [104, 105, 32, 10, 0]) = Some (Some b') \<and>
        length b' = length [104, 105, 32, 10, 0 :: u8] \<and>
        cstr b' = rev (dropWhile is_blank (rev (cstr [104, 105, 32, 10, 0])))"
  by (rule clean_input_string_trims) (simp add: terminated_def)

lemma str_startswith_at_drop:
  "0 \<in> set (drop i p) \<Longrightarrow> 0 \<in> set (drop i s) \<Longrightarrow>
     str_startswith_at s p i = Some (take (length (cstr (drop i p))) (cstr (drop i s)) = cstr (drop i p))"
proof (induction s p i rule: str_startswith_at.induct)
  case (1 s p i)
  from 1(2,3) have i: "i < length p" "i < length s"
    by (cases "i < length p"; cases "i < length s"; auto)+
  then have d: "drop i p = p ! i # drop (Suc i) p" "drop i s = s ! i # drop (Suc i) s"
    by (simp_all add: Cons_nth_drop_Suc)
  show ?case
  proof (cases "p ! i = 0 \<or> s ! i \<noteq> p ! i")
    case True
    with i show ?thesis
      by (subst str_startswith_at.simps) (auto simp: buf_simps d cstr_def)
  next
    case False
    with 1 i d have "str_startswith_at s p (Suc i) =
        Some (take (length (cstr (drop (Suc i) p))) (cstr (drop (Suc i) s)) = cstr (drop (Suc i) p))"
      by (auto simp: buf_simps)
    with False i show ?thesis
      by (subst str_startswith_at.simps) (simp add: buf_simps d cstr_def)
  qed
qed

lemma str_startswith_spec:
  "terminated s \<Longrightarrow> terminated p \<Longrightarrow>
     str_startswith s p = Some (take (length (cstr p)) (cstr s) = cstr p)"
  by (simp add: str_startswith_def str_startswith_at_drop terminated_def)

text \<open>The last dot of a string, as \<open>str_split_filename\<close> sees it.\<close>

lemma scan_dot_spec:
  "0 \<notin> set s \<Longrightarrow>
     scan_dot (p @ s @ 0 # r) (length p) dot =
       Some (if 46 \<in> set s then int (length p + (length s - 1 - length (takeWhile (\<lambda>c. c \<noteq> 46) (rev s))))
             else dot, length p + length s)"
proof (induction s arbitrary: p dot)
  case Nil
  then show ?case by (subst scan_dot.simps) (simp add: buf_simps nth_append)
next
  case (Cons c s)
  have "scan_dot ((p @ [c]) @ s @ 0 # r) (length (p @ [c])) (if c = 46 then int (length p) else dot) =
      Some (if 46 \<in> set s then int (length (p @ [c]) + (length s - 1 - length (takeWhile (\<lambda>c. c \<noteq> 46) (rev s))))
            else (if c = 46 then int (length p) else dot), length (p @ [c]) + length s)"
    using Cons.prems by (intro Cons.IH) simp
  moreover have "length (takeWhile (\<lambda>c. c \<noteq> 46) (rev s)) < length s" if "46 \<in> set s"
    using that length_takeWhile_less [of 46 "rev s" "\<lambda>c. c \<noteq> 46"] by simp
  moreover have "takeWhile (\<lambda>c. c \<noteq> 46) (rev s @ [c]) = (if 46 \<in> set s then takeWhile (\<lambda>c. c \<noteq> 46) (rev s)
      else rev s @ takeWhile (\<lambda>c. c \<noteq> 46) [c])"
    by (simp add: takeWhile_append) (metis set_rev takeWhile_eq_all_conv)
  ultimately show ?case
    using Cons.prems by (subst scan_dot.simps) (auto simp: buf_simps nth_append)
qed

lemma copy_ext_spec:
  "len \<le> length input \<Longrightarrow> len - (dot + 1) < length ext \<Longrightarrow> j \<le> len - (dot + 1) \<Longrightarrow>
     copy_ext ext input dot j len =
       Some (buf_put ext j (take (len - (dot + 1) - j) (drop (dot + 1 + j) input) @ [0]))"
proof (induction ext input dot j len rule: copy_ext.induct)
  case (1 ext input dot j len)
  show ?case
  proof (cases "dot + 1 + j < len")
    case True
    then have "take (len - (dot + 1) - j) (drop (dot + 1 + j) input) =
        input ! (dot + 1 + j) # take (len - (dot + 1) - Suc j) (drop (dot + 1 + Suc j) input)"
      using 1(2) by (simp add: Cons_nth_drop_Suc [symmetric] take_Cons')
    with True 1 show ?thesis by (subst copy_ext.simps) (simp add: buf_simps buf_put_Cons)
  next
    case False
    with 1 show ?thesis by (subst copy_ext.simps) (simp add: buf_simps buf_put_single)
  qed
qed

text \<open>
  \<open>str_split_filename\<close> splits a file name at its last dot: the part before it and the part
  after it land NUL-terminated in the two outputs. A name with no dot gives two empty strings,
  so the name itself is lost.
\<close>

theorem str_split_filename_correct:
  assumes "terminated input" and "length (cstr input) < length nm" and "length (cstr input) < length ext"
  shows "(\<forall>base suffix. cstr input = base @ 46 # suffix \<and> 46 \<notin> set suffix \<longrightarrow>
            (\<exists>n e. str_split_filename input nm ext = Some (n, e) \<and> cstr n = base \<and> cstr e = suffix))
       \<and> (46 \<notin> set (cstr input) \<longrightarrow>
            (\<exists>n e. str_split_filename input nm ext = Some (n, e) \<and> cstr n = [] \<and> cstr e = []))"
  using assms(1)
proof (rule terminatedE)
  fix s r assume s: "input = s @ 0 # r" "0 \<notin> set s" "cstr input = s"
  have dotted: "\<exists>n e. str_split_filename input nm ext = Some (n, e) \<and> cstr n = base \<and> cstr e = suffix"
    if bs: "s = base @ 46 # suffix" "46 \<notin> set suffix" for base suffix
  proof -
    have tw: "takeWhile (\<lambda>c. c \<noteq> 46) (rev suffix @ 46 # rev base) = rev suffix"
      using bs(2) by (subst takeWhile_append2) auto
    have "scan_dot input 0 (- 1) = Some (int (length base), length s)"
      using scan_dot_spec [of s "[]" r "- 1"] s bs tw by simp
    moreover have "copy_upto nm input 0 (length base) = Some (buf_put nm 0 base)"
      using copy_upto_spec [of 0 "length base" input nm] assms(2) s bs by simp
    moreover have "copy_ext ext input (length base) 0 (length s) = Some (buf_put ext 0 (suffix @ [0]))"
      using copy_ext_spec [of "length s" input "length base" ext 0] assms(3) s bs by simp
    moreover have "(buf_put nm 0 base)[length base := 0] = buf_put nm 0 (base @ [0])"
      using buf_put_append [of 0 base nm "[0]"] assms(2) s bs by (simp add: buf_put_single)
    ultimately have "str_split_filename input nm ext =
        Some (buf_put nm 0 (base @ [0]), buf_put ext 0 (suffix @ [0]))"
      using assms(2) s bs by (simp add: str_split_filename_def buf_simps)
    moreover have "cstr (buf_put nm 0 (base @ [0])) = base" "cstr (buf_put ext 0 (suffix @ [0])) = suffix"
      using cstr_app [of base] cstr_app [of suffix] s(2) bs by (simp_all add: buf_put_def)
    ultimately show ?thesis by blast
  qed
  have plain: "\<exists>n e. str_split_filename input nm ext = Some (n, e) \<and> cstr n = [] \<and> cstr e = []"
    if "46 \<notin> set s"
  proof -
    have "nm \<noteq> []" "ext \<noteq> []" using assms(2,3) by auto
    with that scan_dot_spec [of s "[]" r "- 1"] s show ?thesis
      by (cases nm; cases ext)
        (auto simp: str_split_filename_def copy_upto.simps buf_set_def cstr_def)
  qed
  show ?thesis using dotted plain s(3) by blast
qed

theorem str_split_filename_correct_witness:
  "\<exists>n e. str_split_filename (asc ''a.b.c'' @ [0]) (replicate 8 0) (replicate 8 0) = Some (n, e) \<and>
         cstr n = asc ''a.b'' \<and> cstr e = asc ''c''"
proof (rule str_split_filename_correct [THEN conjunct1, rule_format])
  show "cstr (asc ''a.b.c'' @ [0]) = asc ''a.b'' @ 46 # asc ''c'' \<and> 46 \<notin> set (asc ''c'')"
    by (simp add: cstr_def asc_def)
qed (simp_all add: terminated_def cstr_def asc_def)

section \<open>Memory blocks: correctness\<close>

lemma memcpy_loop_spec:
  assumes "src > dest \<or> src + i + k \<le> dest"
  shows "memcpy_loop m dest src i k =
           (\<lambda>a. if dest + i \<le> a \<and> a < dest + i + k then m (src + (a - dest)) else m a)"
  using assms
proof (induction k arbitrary: m i)
  case 0
  show ?case by (auto simp: fun_eq_iff)
next
  case (Suc k)
  then have "memcpy_loop (m(dest + i := m (src + i))) dest src (Suc i) k =
      (\<lambda>a. if dest + Suc i \<le> a \<and> a < dest + Suc i + k
           then (m(dest + i := m (src + i))) (src + (a - dest)) else (m(dest + i := m (src + i))) a)"
    by (intro Suc.IH) auto
  with Suc.prems show ?case by (auto simp: fun_eq_iff)
qed

lemma memmove_down_spec:
  assumes "src < dest"
  shows "memmove_down m dest src k =
           (\<lambda>a. if dest \<le> a \<and> a < dest + k then m (src + (a - dest)) else m a)"
proof (induction k arbitrary: m)
  case (Suc k)
  with assms show ?case by (auto simp: fun_eq_iff)
qed (auto simp: fun_eq_iff)

lemma memset_loop_spec:
  "memset_loop m p c i k = (\<lambda>a. if p + i \<le> a \<and> a < p + i + k then c else m a)"
  by (induction k arbitrary: m i) (auto simp: fun_eq_iff)

text \<open>
  C30: \<open>memmove\<close> is right for every overlap of the two blocks: afterwards the destination holds
  the bytes the source held before, and no other byte has changed. \<open>memcpy\<close> does the same when
  the source does not reach into the destination from below.
\<close>

theorem memmove_correct:
  "memmove m dest src n = (\<lambda>a. if dest \<le> a \<and> a < dest + n then m (src + (a - dest)) else m a)
   \<and> (src \<ge> dest \<or> src + n \<le> dest \<longrightarrow> memcpy m dest src n = memmove m dest src n)"
proof -
  have m: "memmove m dest src n = (\<lambda>a. if dest \<le> a \<and> a < dest + n then m (src + (a - dest)) else m a)"
    using memcpy_loop_spec [of dest src 0 n m] memmove_down_spec [of src dest m n]
    by (auto simp: memmove_def fun_eq_iff)
  have same: "memcpy_loop m dest dest i k = m" for i k
    by (induction k arbitrary: i) simp_all
  show ?thesis
    using m same [of 0 n] memcpy_loop_spec [of dest src 0 n m]
    by (cases "src = dest") (auto simp: memcpy_def memmove_def)
qed

theorem memmove_correct_witness:
  "memcpy (\<lambda>a. of_nat a) 0 2 3 = memmove (\<lambda>a. of_nat a) 0 2 3"
  using memmove_correct [of "\<lambda>a. of_nat a" 0 2 3] by simp

lemma memcmp_loop_0:
  "memcmp_loop m s1 s2 i k = 0 \<longleftrightarrow> (\<forall>j < k. m (s1 + i + j) = m (s2 + i + j))"
proof (induction k arbitrary: i)
  case (Suc k)
  have "(\<forall>j < Suc k. P j) \<longleftrightarrow> P 0 \<and> (\<forall>j < k. P (Suc j))" for P
    by (auto simp: less_Suc_eq_0_disj)
  with Suc show ?case by (simp add: all_conj_distrib)
qed simp

lemma memcmp_equal: "memcmp m s1 s2 n = 0 \<longleftrightarrow> (\<forall>j < n. m (s1 + j) = m (s2 + j))"
  by (simp add: memcmp_def memcmp_loop_0)

section \<open>Bounded parsers\<close>

lemma to_u16_loop_spec:
  "0 \<in> set (drop i s) \<Longrightarrow>
     to_u16_loop s i (of_nat a) = Some (of_nat (dec_val a (digits_of (drop i s))))"
proof (induction s i "of_nat a :: u16" arbitrary: a rule: to_u16_loop.induct)
  case (1 s i)
  from 1(2) have i: "i < length s" by (cases "i < length s") auto
  let ?c = "s ! i"
  have dr: "drop i s = ?c # drop (Suc i) s" using i by (simp add: Cons_nth_drop_Suc)
  show ?case
  proof (cases "is_digit ?c")
    case False
    then have "digits_of (drop i s) = []"
      unfolding dr digits_of_def by (simp only: takeWhile.simps if_False)
    then have "dec_val a (digits_of (drop i s)) = a" by (simp add: dec_val_def)
    with False i show ?thesis
      by (subst to_u16_loop.simps) (simp only: buf_get_in bind.bind_lunit if_False if_cancel not_False_eq_True if_True)
  next
    case True
    have c: "48 \<le> unat ?c" "unat ?c \<le> 57" using True by (simp_all add: word_le_nat_alt)
    have nz: "?c \<noteq> 0" using c by auto
    have "unat (?c - 48) = unat ?c - 48" using True by (subst unat_sub) simp_all
    then have "(ucast (?c - 48) :: u16) = of_nat (unat ?c - 48)" by (metis of_nat_unat)
    then have step: "(of_nat a :: u16) * 10 + ucast (?c - 48) = of_nat (a * 10 + (unat ?c - 48))"
      by simp
    have z: "0 \<in> set (drop (Suc i) s)" using 1(2) nz dr by auto
    have "to_u16_loop s (Suc i) (of_nat (a * 10 + (unat ?c - 48))) =
        Some (of_nat (dec_val (a * 10 + (unat ?c - 48)) (digits_of (drop (Suc i) s))))"
      using i nz True by (intro 1(1) [of ?c]) (simp_all only: buf_get_in option.set singleton_iff simp_thms step z)
    moreover have "dec_val a (digits_of (drop i s)) =
        dec_val (a * 10 + (unat ?c - 48)) (digits_of (drop (Suc i) s))"
      unfolding dr digits_of_def dec_val_def
      by (simp only: takeWhile.simps True if_True foldl.simps simp_thms)
    ultimately show ?thesis
      using i nz True by (subst to_u16_loop.simps)
        (simp only: buf_get_in bind.bind_lunit if_True if_False simp_thms step)
  qed
qed

text \<open>
  \<open>str_to_u16\<close> returns the decimal number at the start of a NUL-terminated string modulo
  \<open>2^16\<close>: the accumulator wraps around and nothing reports it.
\<close>

theorem str_to_u16_wraps:
  assumes "terminated s"
  shows "str_to_u16 s = Some (of_nat (dec_val 0 (digits_of s)))"
  using to_u16_loop_spec [of 0 s 0] assms by (simp add: str_to_u16_def terminated_def)

theorem str_to_u16_wraps_witness: "str_to_u16 (asc ''65537'' @ [0]) = Some 1"
proof -
  have "str_to_u16 (asc ''65537'' @ [0]) = Some (of_nat (dec_val 0 (digits_of (asc ''65537'' @ [0]))))"
    by (rule str_to_u16_wraps) (simp add: terminated_def)
  also have "dec_val 0 (digits_of (asc ''65537'' @ [0])) = 65537"
    by (simp add: dec_val_def digits_of_def asc_def)
  finally show ?thesis by simp
qed

theorem str_strcmp_correct_witness:
  "\<exists>r. str_strcmp (asc ''abc'' @ [0]) (asc ''abd'' @ [0, 7]) = Some r \<and>
       (r = 0 \<longleftrightarrow> cstr (asc ''abc'' @ [0]) = cstr (asc ''abd'' @ [0, 7])) \<and>
       (r < 0 \<longleftrightarrow> ord_class.lexordp (cstr (asc ''abc'' @ [0])) (cstr (asc ''abd'' @ [0, 7])))"
  by (rule str_strcmp_correct) (simp_all add: terminated_def)

theorem decimal_printers_agree_witness:
  "str_u64toa 65535 (replicate 8 1) = str_kutoa 65535 (replicate 8 1)
   \<and> u16_to_str 65535 (replicate 8 1) = str_kutoa 65535 (replicate 8 1)"
proof -
  have "length (dec_text (unat (65535 :: u64))) < length (replicate 8 (1 :: u8))"
    using length_dec_text [of 65535 5] by simp
  then show ?thesis using decimal_printers_agree [of 65535 "replicate 8 1"] by simp
qed

theorem str_atoi_saturates_witness: "str_atoi (asc ''-99999999999'' @ [0]) = Some INT_MIN"
proof -
  have "str_atoi (asc ''-99999999999'' @ [0]) =
      Some (max INT_MIN (min INT_MAX (int_value (asc ''-99999999999'' @ [0]))))"
    by (rule str_atoi_saturates) (simp add: terminated_def)
  also have "int_value (asc ''-99999999999'' @ [0]) = - 99999999999"
    by (simp add: dec_val_def digits_of_def asc_def)
  finally show ?thesis by (simp add: INT_MIN_def INT_MAX_def)
qed

end
