(* ===== verification/Console.thy ===== *)
theory Console
  imports CString
begin

text \<open>
  The text console: \<open>helper/dogeio/print.c\<close>, the state changes of \<open>helper/dogeio/raw.c\<close>, and the
  menu bar of \<open>kernel/tui/menubar.c\<close>. A console is the grid of 160 by 50 cells with its colours,
  the cursors and the modes. The pixels of the framebuffer are the device and are not part of the
  state; \<open>framebuffer\<close> says whether there is one and how large it is. A store outside a grid is
  \<open>None\<close>, as is an overflow of a signed parameter.
\<close>

abbreviation TERMINAL_COLS :: u32 where "TERMINAL_COLS \<equiv> 160"
abbreviation TERMINAL_ROWS :: u32 where "TERMINAL_ROWS \<equiv> 50"
abbreviation CELLS :: nat where "CELLS \<equiv> 8000"

section \<open>State\<close>

text \<open>What the menu bar shows: the version string, whether setup runs or the kernel has died, and
  the date and time of the clock.\<close>

record menubar_info =
  windoge_version :: "bytes option"
  is_setup :: bool
  is_kernel_dead :: bool
  bar_date :: bytes
  bar_time :: bytes

record console =
  text_grid :: bytes
  text_color_grid :: "u32 list"
  bg_color_grid :: "u32 list"
  cursor_x :: u32
  cursor_y :: u32
  cursor_visible :: bool
  background_color :: u32
  color :: u32
  video_mode :: bool
  video_cursor_x :: u32
  video_cursor_y :: u32
  framebuffer :: "(u64 \<times> u64) option"
  render_enabled :: bool
  brightness :: int
  current_terminal_id :: int
  bar :: menubar_info

text \<open>A loop whose body may fail.\<close>

fun for_each :: "('a \<Rightarrow> 's \<Rightarrow> 's option) \<Rightarrow> 'a list \<Rightarrow> 's \<Rightarrow> 's option" where
  "for_each f [] s = Some s"
| "for_each f (x # xs) s = do { s \<leftarrow> f x s; for_each f xs s }"

definition cell :: "u32 \<Rightarrow> u32 \<Rightarrow> u32" where
  "cell x y = y * TERMINAL_COLS + x"

definition set_text :: "u32 \<Rightarrow> u8 \<Rightarrow> console \<Rightarrow> console option" where
  "set_text i ch c = do { g \<leftarrow> buf_set (text_grid c) (unat i) ch; Some (c \<lparr> text_grid := g \<rparr>) }"

definition set_colors :: "u32 \<Rightarrow> console \<Rightarrow> console option" where
  "set_colors i c =
     do {
       g \<leftarrow> buf_set (text_color_grid c) (unat i) (color c);
       b \<leftarrow> buf_set (bg_color_grid c) (unat i) (background_color c);
       Some (c \<lparr> text_color_grid := g, bg_color_grid := b \<rparr>)
     }"

section \<open>Cells\<close>

definition dogeio_set_video_mode :: "bool \<Rightarrow> console \<Rightarrow> console" where
  "dogeio_set_video_mode enabled c = c \<lparr> video_mode := enabled \<rparr>"

definition dogeio_putchar :: "u8 \<Rightarrow> u32 \<Rightarrow> u32 \<Rightarrow> console \<Rightarrow> console option" where
  "dogeio_putchar ch x y c =
     (if framebuffer c = None then Some c
      else if video_mode c then Some c
      else let ch = (if ch \<ge> 128 then 32 else ch) in
        if x \<ge> TERMINAL_COLS \<or> y \<ge> TERMINAL_ROWS then Some c
        else do { c \<leftarrow> set_text (cell x y) ch c; set_colors (cell x y) c })"

definition fill_cells :: "console \<Rightarrow> console" where
  "fill_cells c = c \<lparr> text_grid := replicate CELLS 32, text_color_grid := replicate CELLS (color c),
     bg_color_grid := replicate CELLS (background_color c) \<rparr>"

definition dogeio_clear_cells :: "console \<Rightarrow> console" where
  "dogeio_clear_cells c = fill_cells c"

definition dogeio_clear :: "console \<Rightarrow> console" where
  "dogeio_clear c =
     (if video_mode c then c \<lparr> video_cursor_x := 0, video_cursor_y := 0 \<rparr>
      else let c = fill_cells c in
        if framebuffer c = None then c else c \<lparr> cursor_y := 1, cursor_x := 0 \<rparr>)"

definition dogeio_clear_raw :: "console \<Rightarrow> console" where
  "dogeio_clear_raw c =
     (if video_mode c then dogeio_clear c
      else (dogeio_clear_cells c) \<lparr> cursor_x := 0, cursor_y := 0 \<rparr>)"

definition dogeio_cursor_show :: "console \<Rightarrow> console" where
  "dogeio_cursor_show c = c \<lparr> cursor_visible := True \<rparr>"

definition dogeio_cursor_hide :: "console \<Rightarrow> console" where
  "dogeio_cursor_hide c = c \<lparr> cursor_visible := False \<rparr>"

definition dogeio_video :: "console \<Rightarrow> console" where
  "dogeio_video c = c \<lparr> video_mode := True \<rparr>"

definition dogeio_text :: "console \<Rightarrow> console" where
  "dogeio_text c = c \<lparr> video_mode := False \<rparr>"

definition dogeio_color_change :: "u32 \<Rightarrow> console \<Rightarrow> console" where
  "dogeio_color_change col c = c \<lparr> color := col \<rparr>"

definition dogeio_background_change :: "u32 \<Rightarrow> console \<Rightarrow> console" where
  "dogeio_background_change col c = c \<lparr> background_color := col \<rparr>"

definition dogeio_set_render_enabled :: "bool \<Rightarrow> console \<Rightarrow> console" where
  "dogeio_set_render_enabled enabled c = c \<lparr> render_enabled := enabled \<rparr>"

definition dogeio_set_brightness :: "int \<Rightarrow> console \<Rightarrow> console" where
  "dogeio_set_brightness level c =
     (let level = (if level < 1 then 1 else level); level = (if level > 10 then 10 else level)
      in c \<lparr> brightness := level \<rparr>)"

definition dogeio_brightness_increase :: "console \<Rightarrow> console" where
  "dogeio_brightness_increase c =
     (if brightness c < 10 then dogeio_set_brightness (brightness c + 1) c else c)"

definition dogeio_brightness_decrease :: "console \<Rightarrow> console" where
  "dogeio_brightness_decrease c =
     (if brightness c > 1 then dogeio_set_brightness (brightness c - 1) c else c)"

definition brightness_factors :: "u32 list" where
  "brightness_factors = [0, 26, 51, 77, 102, 128, 154, 179, 205, 230, 256]"

definition apply_brightness :: "console \<Rightarrow> u32 \<Rightarrow> u32 option" where
  "apply_brightness c col =
     do {
       factor \<leftarrow> (if brightness c < 0 then None else buf_get brightness_factors (nat (brightness c)));
       Some (if factor = 256 then col
         else let rb = col AND 0x00FF00FF; ag = drop_bit 8 col AND 0x00FF00FF;
                  rb = drop_bit 8 (rb * factor); ag = drop_bit 8 (ag * factor);
                  rb = rb AND 0x00FF00FF; ag = ag AND 0x00FF00FF
              in rb OR push_bit 8 ag)
     }"

section \<open>Printing one character\<close>

text \<open>The cursor moves to the next row; at the bottom the screen scrolls. Scrolling redraws the
  menu bar, which prints again, so printing is defined relative to the scrolling function.\<close>

definition next_row :: "(console \<Rightarrow> console option) \<Rightarrow> console \<Rightarrow> console option" where
  "next_row scroll c =
     (let c = c \<lparr> cursor_x := 0, cursor_y := cursor_y c + 1 \<rparr> in
      if cursor_y c \<ge> TERMINAL_ROWS
      then do { c \<leftarrow> scroll c; Some (c \<lparr> cursor_y := TERMINAL_ROWS - 1 \<rparr>) }
      else Some c)"

definition put_cell :: "u8 \<Rightarrow> console \<Rightarrow> console option" where
  "put_cell ch c =
     do { c \<leftarrow> set_text (cell (cursor_x c) (cursor_y c)) ch c;
          dogeio_putchar ch (cursor_x c) (cursor_y c) c }"

definition on_screen :: "console \<Rightarrow> bool" where
  "on_screen c \<longleftrightarrow> cursor_x c < TERMINAL_COLS \<and> cursor_y c < TERMINAL_ROWS"

definition advance :: "u8 \<Rightarrow> console \<Rightarrow> console option" where
  "advance ch c =
     (if on_screen c then do { c \<leftarrow> put_cell ch c; Some (c \<lparr> cursor_x := cursor_x c + 1 \<rparr>) } else Some c)"

definition wrap_row :: "(console \<Rightarrow> console option) \<Rightarrow> console \<Rightarrow> console option" where
  "wrap_row scroll c = (if cursor_x c \<ge> TERMINAL_COLS then next_row scroll c else Some c)"

definition print_video :: "u8 \<Rightarrow> u64 \<Rightarrow> u64 \<Rightarrow> console \<Rightarrow> console" where
  "print_video ch width height c =
     (if ch = 10 then c \<lparr> video_cursor_x := 0, video_cursor_y := video_cursor_y c + 16 \<rparr>
      else if ch = 13 then c \<lparr> video_cursor_x := 0 \<rparr>
      else if ch = 9 then c \<lparr> video_cursor_x := video_cursor_x c + 32 \<rparr>
      else let c = (if ucast (video_cursor_x c + 8) > width
                    then c \<lparr> video_cursor_x := 0, video_cursor_y := video_cursor_y c + 16 \<rparr> else c);
               c = (if ucast (video_cursor_y c + 16) > height then c \<lparr> video_cursor_y := 0 \<rparr> else c)
           in c \<lparr> video_cursor_x := video_cursor_x c + 8 \<rparr>)"

definition back_cell :: "console \<Rightarrow> console" where
  "back_cell c =
     (if cursor_x c > 0 then c \<lparr> cursor_x := cursor_x c - 1 \<rparr>
      else if cursor_y c > 1 then c \<lparr> cursor_y := cursor_y c - 1, cursor_x := TERMINAL_COLS - 1 \<rparr>
      else c)"

definition printchar_with :: "(console \<Rightarrow> console option) \<Rightarrow> u8 \<Rightarrow> console \<Rightarrow> console option" where
  "printchar_with scroll ch c =
     (if video_mode c
      then Some (case framebuffer c of None \<Rightarrow> c | Some (width, height) \<Rightarrow> print_video ch width height c)
      else if ch = 10 then do { c \<leftarrow> put_cell 32 c; next_row scroll c }
      else if ch = 8 then
        do {
          c \<leftarrow> (if on_screen c
                then do { o' \<leftarrow> buf_get (text_grid c) (unat (cell (cursor_x c) (cursor_y c)));
                          dogeio_putchar o' (cursor_x c) (cursor_y c) c }
                else Some c);
          put_cell 32 (back_cell c)
        }
      else if ch = 9 then
        do { c \<leftarrow> for_each (\<lambda>_. advance 32) [0..<4 :: nat] c; wrap_row scroll c }
      else do { c \<leftarrow> advance ch c; wrap_row scroll c })"

section \<open>Escape sequences\<close>

definition ansi_colors :: "u32 list" where
  "ansi_colors =
     [0x000000, 0xAA0000, 0x00AA00, 0xAA5500, 0x0000AA, 0xAA00AA, 0x00AAAA, 0xAAAAAA,
      0x555555, 0xFF5555, 0x55FF55, 0xFFFF55, 0x5555FF, 0xFF55FF, 0x55FFFF, 0xFFFFFFFF]"

text \<open>The parameters of a sequence; \<open>ps\<close> are the ones stored so far, at most four. The result is
  the parameters and what follows them: nothing at the end of the string, else the command.\<close>

fun ansi_params :: "bytes \<Rightarrow> int list \<Rightarrow> int \<Rightarrow> bool \<Rightarrow> (int list \<times> bytes) option" where
  "ansi_params [] ps current_param has_param = Some (ps, [])"
| "ansi_params (ch # s) ps current_param has_param =
     (let push = (if length ps < 4 then ps @ [if has_param then current_param else 0] else ps) in
      if 48 \<le> ch \<and> ch \<le> 57 then
        (let n = current_param * 10 + (uint ch - 48) in
         if n > 2147483647 then None else ansi_params s ps n True)
      else if ch = 59 then ansi_params s push 0 False
      else Some (push, ch # s))"

definition param :: "int list \<Rightarrow> nat \<Rightarrow> int" where
  "param ps i = (if i < length ps then ps ! i else 0)"

definition param1 :: "int list \<Rightarrow> nat \<Rightarrow> int" where
  "param1 ps i = (if param ps i = 0 then 1 else param ps i)"

definition ansi_color :: "int \<Rightarrow> console \<Rightarrow> console" where
  "ansi_color p c =
     (if p = 0 then c \<lparr> color := 0xFFCCCCCC, background_color := 0x000000 \<rparr>
      else if 30 \<le> p \<and> p \<le> 37 then c \<lparr> color := ansi_colors ! nat (p - 30) \<rparr>
      else if 90 \<le> p \<and> p \<le> 97 then c \<lparr> color := ansi_colors ! nat (p - 90 + 8) \<rparr>
      else if 40 \<le> p \<and> p \<le> 47 then c \<lparr> background_color := ansi_colors ! nat (p - 40) \<rparr>
      else if 100 \<le> p \<and> p \<le> 107 then c \<lparr> background_color := ansi_colors ! nat (p - 100 + 8) \<rparr>
      else c)"

definition ansi_video :: "u8 \<Rightarrow> int list \<Rightarrow> console \<Rightarrow> console" where
  "ansi_video cmd ps c =
     (if cmd = 109 then ansi_color (param ps 0) c
      else if cmd = 72 \<or> cmd = 102
      then c \<lparr> video_cursor_x := word_of_int (param1 ps 1 - 1) * 8,
               video_cursor_y := word_of_int (param1 ps 0 - 1) * 16 \<rparr>
      else c)"

definition ansi_text :: "u8 \<Rightarrow> int list \<Rightarrow> console \<Rightarrow> console" where
  "ansi_text cmd ps c =
     (let n = word_of_int (param1 ps 0) :: u32 in
      if cmd = 109 then ansi_color (param ps 0) c
      else if cmd = 74 then (if param ps 0 = 2 then dogeio_clear c else c)
      else if cmd = 65 then c \<lparr> cursor_y := if cursor_y c \<ge> n then cursor_y c - n else 0 \<rparr>
      else if cmd = 66 then
        (let y = cursor_y c + n in c \<lparr> cursor_y := if y \<ge> TERMINAL_ROWS then TERMINAL_ROWS - 1 else y \<rparr>)
      else if cmd = 67 then
        (let x = cursor_x c + n in c \<lparr> cursor_x := if x \<ge> TERMINAL_COLS then TERMINAL_COLS - 1 else x \<rparr>)
      else if cmd = 68 then c \<lparr> cursor_x := if cursor_x c \<ge> n then cursor_x c - n else 0 \<rparr>
      else if cmd = 72 \<or> cmd = 102 then
        (let new_y = n - 1; new_x = word_of_int (param1 ps 1) - 1 :: u32
         in c \<lparr> cursor_y := if new_y < TERMINAL_ROWS then new_y else TERMINAL_ROWS - 1,
                cursor_x := if new_x < TERMINAL_COLS then new_x else TERMINAL_COLS - 1 \<rparr>)
      else c)"

text \<open>\<open>s\<close> is the string after the two characters that start the sequence; the result is what is
  left to print. At the end of the string the command is the terminator, which does nothing.\<close>

definition parse_ansi_escape :: "bytes \<Rightarrow> console \<Rightarrow> (bytes \<times> console) option" where
  "parse_ansi_escape s c =
     do {
       (ps, rest) \<leftarrow> ansi_params s [] 0 False;
       Some (case rest of
           [] \<Rightarrow> ([], c)
         | cmd # rest \<Rightarrow> (rest, if video_mode c then ansi_video cmd ps c else ansi_text cmd ps c))
     }"

lemma ansi_params_length:
  "ansi_params s ps n h = Some (ps', rest) \<Longrightarrow> length rest \<le> length s"
proof (induction s arbitrary: ps n h)
  case (Cons ch s)
  from Cons.prems show ?case
    by (auto simp: Let_def split: if_splits dest!: Cons.IH)
qed simp

lemma parse_ansi_escape_length:
  "parse_ansi_escape s c = Some (rest, c') \<Longrightarrow> length rest \<le> length s"
  unfolding parse_ansi_escape_def by (auto split: list.splits bind_splits dest!: ansi_params_length)

function print_with :: "(console \<Rightarrow> console option) \<Rightarrow> bytes \<Rightarrow> console \<Rightarrow> console option" where
  "print_with scroll [] c = Some c"
| "print_with scroll (ch # s) c =
     (if ch = 27 \<and> s \<noteq> [] \<and> hd s = 91
      then do { (rest, c) \<leftarrow> parse_ansi_escape (tl s) c; print_with scroll rest c }
      else do { c \<leftarrow> printchar_with scroll ch c; print_with scroll s c })"
  by pat_completeness auto
termination
  by (relation "measure (\<lambda>(scroll, s, c). length s)") (auto dest!: parse_ansi_escape_length)

definition print_string_with :: "(console \<Rightarrow> console option) \<Rightarrow> bytes \<Rightarrow> console \<Rightarrow> console option" where
  "print_string_with scroll s c = (if framebuffer c = None then Some c else print_with scroll s c)"

section \<open>The menu bar\<close>

definition menubar_version :: "menubar_info \<Rightarrow> bytes" where
  "menubar_version b =
     (if is_kernel_dead b then asc ''[KERNEL PANIC]''
      else if is_setup b
      then (case windoge_version b of None \<Rightarrow> [] | Some v \<Rightarrow> take 45 v) @ asc '' SETUP''
      else case windoge_version b of None \<Rightarrow> asc ''WindogeOS'' | Some v \<Rightarrow> v)"

definition menubar_right :: "menubar_info \<Rightarrow> bytes" where
  "menubar_right b =
     (let d = take 30 (bar_date b) @ [32] in d @ take (62 - length d) (bar_time b))"

definition menubar_left :: "console \<Rightarrow> bytes" where
  "menubar_left c =
     take 54 (menubar_version (bar c)) @ asc '' [WS '' @
     [word_of_int (49 + current_terminal_id c), 47, 48 + 4, 93]"

text \<open>The bar is one row of exactly 160 characters, so its printing never scrolls.\<close>

definition menubar_draw :: "console \<Rightarrow> console option" where
  "menubar_draw c =
     (let fg = color c; bg = background_color c; x = cursor_x c; y = cursor_y c; vis = cursor_visible c;
          c = c \<lparr> cursor_visible := False, color := (if is_kernel_dead (bar c) then 0xE74856 else 0xFFFFFF),
                   background_color := 0x282828, cursor_x := 0, cursor_y := 0 \<rparr>;
          right = menubar_right (bar c);
          target = (let t = 160 - int (length right) - 2 in if t < 2 then 2 else t);
          print = print_string_with (\<lambda>_. None)
      in do {
        c \<leftarrow> print [32] c;
        menu_buffer \<leftarrow> str_pad (replicate 161 0) (menubar_left c @ [0]) target 32;
        c \<leftarrow> print (cstr menu_buffer) c;
        c \<leftarrow> print right c;
        c \<leftarrow> print [32] c;
        Some (c \<lparr> color := fg, background_color := bg, cursor_x := x, cursor_y := y, cursor_visible := vis \<rparr>)
      })"

section \<open>Scrolling and printing\<close>

definition scroll_grid :: "'a \<Rightarrow> 'a list \<Rightarrow> 'a list" where
  "scroll_grid blank g =
     (let g = fold (\<lambda>row g. fold (\<lambda>col g. g[(row - 1) * 160 + col := g ! (row * 160 + col)]) [0..<160] g)
                [2..<50] g
      in fold (\<lambda>col g. g[49 * 160 + col := blank]) [0..<160] g)"

definition redraw_cell :: "nat \<Rightarrow> console \<Rightarrow> console option" where
  "redraw_cell i c =
     do {
       ch \<leftarrow> buf_get (text_grid c) i;
       fg \<leftarrow> buf_get (text_color_grid c) i;
       bg \<leftarrow> buf_get (bg_color_grid c) i;
       dogeio_putchar ch (of_nat (i mod 160)) (of_nat (i div 160)) (c \<lparr> color := fg, background_color := bg \<rparr>)
     }"

text \<open>The cells of the rows below the menu bar, in the order of the loops.\<close>

definition body_cells :: "nat list" where
  "body_cells = [160..<8000]"

definition dogeio_scroll :: "console \<Rightarrow> console option" where
  "dogeio_scroll c =
     (if video_mode c then Some (c \<lparr> video_cursor_x := 0, video_cursor_y := video_cursor_y c + 16 \<rparr>)
      else let fg = color c; bg = background_color c;
               c = c \<lparr> text_grid := scroll_grid 32 (text_grid c),
                       text_color_grid := scroll_grid fg (text_color_grid c),
                       bg_color_grid := scroll_grid bg (bg_color_grid c) \<rparr>
           in if framebuffer c = None then Some c
           else do {
             c \<leftarrow> for_each redraw_cell body_cells c;
             menubar_draw (c \<lparr> color := fg, background_color := bg \<rparr>)
           })"

definition dogeio_printchar :: "u8 \<Rightarrow> console \<Rightarrow> console option" where
  "dogeio_printchar = printchar_with dogeio_scroll"

definition dogeio_print :: "bytes option \<Rightarrow> console \<Rightarrow> console option" where
  "dogeio_print str c =
     (case str of None \<Rightarrow> Some c | Some s \<Rightarrow> print_string_with dogeio_scroll s c)"

definition dogeio_println :: "bytes option \<Rightarrow> console \<Rightarrow> console option" where
  "dogeio_println str c = do { c \<leftarrow> dogeio_print str c; dogeio_print (Some [10]) c }"

fun print_at_loop :: "bytes \<Rightarrow> u32 \<Rightarrow> u32 \<Rightarrow> u32 \<Rightarrow> console \<Rightarrow> console option" where
  "print_at_loop [] x_pos x y c = Some c"
| "print_at_loop (ch # s) x_pos x y c =
     (if ch = 10 then print_at_loop s x_pos x_pos (y + 1) c
      else if x \<ge> TERMINAL_COLS \<or> y \<ge> TERMINAL_ROWS then Some c
      else do {
        c \<leftarrow> set_text (cell x y) ch c;
        c \<leftarrow> set_colors (cell x y) c;
        c \<leftarrow> dogeio_putchar ch x y c;
        print_at_loop s x_pos (x + 1) y c
      })"

definition dogeio_print_at :: "bytes \<Rightarrow> u32 \<Rightarrow> u32 \<Rightarrow> u32 \<Rightarrow> console \<Rightarrow> console option" where
  "dogeio_print_at str x_pos y_pos text_color c =
     (if framebuffer c = None then Some c
      else let fg = color c in
        if video_mode c
        then do {
          let x = video_cursor_x c; let y = video_cursor_y c;
          c \<leftarrow> dogeio_print (Some str)
                 (c \<lparr> color := text_color, video_cursor_x := x_pos, video_cursor_y := y_pos \<rparr>);
          Some (c \<lparr> video_cursor_x := x, video_cursor_y := y, color := fg \<rparr>)
        }
        else do {
          c \<leftarrow> print_at_loop str x_pos x_pos y_pos (c \<lparr> color := text_color \<rparr>);
          Some (c \<lparr> color := fg \<rparr>)
        })"

definition hex_char :: "u8 \<Rightarrow> u8" where
  "hex_char d = asc ''0123456789ABCDEF'' ! unat d"

definition dogeio_print_hex8 :: "u8 \<Rightarrow> console \<Rightarrow> console option" where
  "dogeio_print_hex8 v = dogeio_print (Some [hex_char (drop_bit 4 v AND 0x0F), hex_char (v AND 0x0F)])"

definition dogeio_print_hex16 :: "u16 \<Rightarrow> console \<Rightarrow> console option" where
  "dogeio_print_hex16 v c =
     do { c \<leftarrow> dogeio_print_hex8 (ucast (drop_bit 8 v)) c; dogeio_print_hex8 (ucast (v AND 0xFF)) c }"

section \<open>Positions and cells\<close>

definition wf_grids :: "console \<Rightarrow> bool" where
  "wf_grids c \<longleftrightarrow> length (text_grid c) = CELLS \<and> length (text_color_grid c) = CELLS
     \<and> length (bg_color_grid c) = CELLS"

definition place :: "console \<Rightarrow> nat" where
  "place c = unat (cursor_y c) * 160 + unat (cursor_x c)"

lemma cell_place:
  assumes "x < TERMINAL_COLS" and "y < TERMINAL_ROWS"
  shows "unat (cell x y) = unat y * 160 + unat x" and "unat y * 160 + unat x < CELLS"
proof -
  have b: "unat x < 160" "unat y < 50" using assms by (simp_all add: word_less_nat_alt)
  then show "unat y * 160 + unat x < CELLS" by simp
  have "unat y * 160 + unat x < 2 ^ 32" using b by simp
  then show "unat (cell x y) = unat y * 160 + unat x" by (simp add: cell_def unat_word_ariths)
qed

lemma on_screen_place:
  assumes "on_screen c"
  shows "unat (cell (cursor_x c) (cursor_y c)) = place c" and "place c < CELLS"
  using cell_place assms by (simp_all add: on_screen_def place_def)

text \<open>The cursor at a place of the grid.\<close>

definition at :: "nat \<Rightarrow> console \<Rightarrow> console" where
  "at p c = c \<lparr> cursor_x := of_nat (p mod 160), cursor_y := of_nat (p div 160) \<rparr>"

lemma unat_small: "n < 2 ^ 32 \<Longrightarrow> unat (of_nat n :: u32) = n"
  by (simp add: unat_of_nat)

lemma place_at: "p < CELLS \<Longrightarrow> place (at p c) = p \<and> on_screen (at p c)"
proof -
  assume "p < CELLS"
  then have "p mod 160 < 160" "p div 160 < 50" by (simp_all add: div_less_iff_less_mult)
  then have "unat (of_nat (p mod 160) :: u32) = p mod 160" "unat (of_nat (p div 160) :: u32) = p div 160"
    by (intro unat_small; simp)+
  with \<open>p mod 160 < 160\<close> \<open>p div 160 < 50\<close> show ?thesis
    by (simp add: at_def place_def on_screen_def word_less_nat_alt)
qed

lemma at_place: "on_screen c \<Longrightarrow> at (place c) c = c"
proof -
  assume "on_screen c"
  then have "unat (cursor_x c) < 160" by (simp add: on_screen_def word_less_nat_alt)
  then show ?thesis by (simp add: at_def place_def div_add1_eq)
qed

text \<open>The console draws text when there is a framebuffer and it is in text mode.\<close>

definition drawing :: "console \<Rightarrow> bool" where
  "drawing c \<longleftrightarrow> framebuffer c \<noteq> None \<and> \<not> video_mode c"

definition shown :: "console \<Rightarrow> u8 \<Rightarrow> u8" where
  "shown c ch = (if drawing c \<and> ch \<ge> 128 then 32 else ch)"

definition draw :: "nat \<Rightarrow> u8 \<Rightarrow> console \<Rightarrow> console" where
  "draw p ch c = c \<lparr> text_grid := (text_grid c)[p := shown c ch],
     text_color_grid := if drawing c then (text_color_grid c)[p := color c] else text_color_grid c,
     bg_color_grid := if drawing c then (bg_color_grid c)[p := background_color c] else bg_color_grid c \<rparr>"

lemma putchar_eq:
  assumes "wf_grids c" and "x < TERMINAL_COLS" and "y < TERMINAL_ROWS"
  shows "dogeio_putchar ch x y c = Some (if drawing c then draw (unat y * 160 + unat x) ch c else c)"
  using assms cell_place [OF assms(2,3)]
  by (auto simp: dogeio_putchar_def drawing_def draw_def shown_def wf_grids_def set_text_def
      set_colors_def buf_set_def Let_def)

lemma put_cell_eq:
  assumes "wf_grids c" and "on_screen c"
  shows "put_cell ch c = Some (draw (place c) ch c)"
proof -
  note p = on_screen_place [OF assms(2)]
  let ?c = "c \<lparr> text_grid := (text_grid c)[place c := ch] \<rparr>"
  have "set_text (cell (cursor_x c) (cursor_y c)) ch c = Some ?c"
    using p assms(1) by (simp add: set_text_def wf_grids_def buf_set_def)
  moreover have "wf_grids ?c" using assms(1) by (simp add: wf_grids_def)
  ultimately show ?thesis
    using putchar_eq [of ?c "cursor_x c" "cursor_y c" ch] assms(2)
    by (simp add: put_cell_def on_screen_def place_def drawing_def draw_def shown_def)
qed

lemma draw_simps [simp]:
  "wf_grids (draw p ch c) = wf_grids c" "on_screen (draw p ch c) = on_screen c" "place (draw p ch c) = place c"
  "cursor_x (draw p ch c) = cursor_x c" "cursor_y (draw p ch c) = cursor_y c" "framebuffer (draw p ch c) = framebuffer c"
  "video_mode (draw p ch c) = video_mode c" "bar (draw p ch c) = bar c" "drawing (draw p ch c) = drawing c"
  "current_terminal_id (draw p ch c) = current_terminal_id c"
  by (auto simp: draw_def wf_grids_def on_screen_def place_def drawing_def)

lemma advance_eq:
  assumes "wf_grids c" and "on_screen c"
  shows "advance ch c = Some ((draw (place c) ch c) \<lparr> cursor_x := cursor_x c + 1 \<rparr>)"
  using put_cell_eq [OF assms] assms(2) by (simp add: advance_def)

text \<open>One printable character below the end of the screen.\<close>

lemma printchar_plain:
  assumes "wf_grids c" and "on_screen c" and "\<not> video_mode c" and "Suc (place c) < CELLS"
    and "ch \<notin> {8, 9, 10}"
  shows "printchar_with scroll ch c = Some (at (Suc (place c)) (draw (place c) ch c))"
proof -
  let ?d = "draw (place c) ch c"
  have xy: "unat (cursor_x c) < 160" "unat (cursor_y c) < 50"
    using assms(2) by (simp_all add: on_screen_def word_less_nat_alt)
  have x1: "unat (cursor_x c + 1) = unat (cursor_x c) + 1" using xy by (simp add: unat_word_ariths)
  have y1: "unat (cursor_y c + 1) = unat (cursor_y c) + 1" using xy by (simp add: unat_word_ariths)
  have w: "wrap_row scroll (?d \<lparr> cursor_x := cursor_x c + 1 \<rparr>) = Some (at (Suc (place c)) ?d)"
  proof (cases "unat (cursor_x c) = 159")
    case True
    then have "Suc (place c) = (unat (cursor_y c) + 1) * 160" by (simp add: place_def)
    moreover from this assms(4) have "unat (cursor_y c) + 1 < 50" by simp
    moreover have "of_nat (unat (cursor_y c) + 1) = cursor_y c + 1" by simp
    ultimately show ?thesis using x1 y1 True
      by (simp add: wrap_row_def next_row_def Let_def at_def word_le_nat_alt)
  next
    case False
    then have x: "Suc (unat (cursor_x c)) < 160" using xy by simp
    then have "Suc (place c) mod 160 = Suc (unat (cursor_x c))" "Suc (place c) div 160 = unat (cursor_y c)"
      unfolding place_def by (simp_all add: mod_Suc div_Suc)
    then show ?thesis using x1 x by (simp add: wrap_row_def at_def word_le_nat_alt)
  qed
  show ?thesis using assms w advance_eq [OF assms(1,2)] by (simp add: printchar_with_def)
qed

section \<open>Printing plain text\<close>

definition plain_text :: "bytes \<Rightarrow> bool" where
  "plain_text s \<longleftrightarrow> (\<forall>ch\<in>set s. 32 \<le> ch \<and> ch < 127)"

fun draw_string :: "nat \<Rightarrow> bytes \<Rightarrow> console \<Rightarrow> console" where
  "draw_string p [] c = c"
| "draw_string p (ch # s) c = draw_string (Suc p) s (draw p ch c)"

lemma draw_at: "draw p ch (at q c) = at q (draw p ch c)"
  by (simp add: draw_def at_def shown_def drawing_def)

lemma draw_string_at: "draw_string p s (at q c) = at q (draw_string p s c)"
  by (induction s arbitrary: p c) (simp_all add: draw_at)

lemma at_at [simp]: "at p (at q c) = at p c"
  by (simp add: at_def)

lemma draw_string_simps [simp]:
  "wf_grids (draw_string p s c) = wf_grids c" "framebuffer (draw_string p s c) = framebuffer c"
  "video_mode (draw_string p s c) = video_mode c" "bar (draw_string p s c) = bar c"
  "cursor_x (draw_string p s c) = cursor_x c" "cursor_y (draw_string p s c) = cursor_y c"
  "current_terminal_id (draw_string p s c) = current_terminal_id c"
  by (induction s arbitrary: p c) simp_all

lemma at_simps [simp]:
  "wf_grids (at p c) = wf_grids c" "framebuffer (at p c) = framebuffer c" "video_mode (at p c) = video_mode c"
  "bar (at p c) = bar c" "text_grid (at p c) = text_grid c" "text_color_grid (at p c) = text_color_grid c"
  "bg_color_grid (at p c) = bg_color_grid c" "color (at p c) = color c"
  "background_color (at p c) = background_color c" "current_terminal_id (at p c) = current_terminal_id c"
  by (simp_all add: at_def wf_grids_def)

lemma print_plain:
  assumes "wf_grids c" and "on_screen c" and "\<not> video_mode c" and "plain_text s"
    and "place c + length s < CELLS"
  shows "print_with scroll s c = Some (at (place c + length s) (draw_string (place c) s c))"
  using assms
proof (induction s arbitrary: c)
  case Nil
  then show ?case by (simp add: at_place)
next
  case (Cons ch s)
  have ch: "32 \<le> ch" "ch < 127" using Cons.prems(4) by (simp_all add: plain_text_def)
  then have "ch \<notin> {8, 9, 10}" "ch \<noteq> 27" by (auto simp: word_le_nat_alt)
  let ?c = "at (Suc (place c)) (draw (place c) ch c)"
  have 1: "printchar_with scroll ch c = Some ?c"
    using Cons.prems \<open>ch \<notin> {8, 9, 10}\<close> by (intro printchar_plain) auto
  have p: "place ?c = Suc (place c)" "on_screen ?c" using place_at [of "Suc (place c)"] Cons.prems(5) by simp_all
  have "print_with scroll s ?c = Some (at (place ?c + length s) (draw_string (place ?c) s ?c))"
    using Cons.prems p by (intro Cons.IH) (simp_all add: plain_text_def)
  then show ?case using 1 p(1) \<open>ch \<noteq> 27\<close> by (simp add: draw_string_at)
qed

lemma buf_put_step: "p < length g \<Longrightarrow> buf_put (g[p := x]) (Suc p) xs = buf_put g p (x # xs)"
  by (simp add: buf_put_def take_Suc_conv_app_nth)

lemma draw_string_grids:
  assumes "p + length s \<le> CELLS" and "wf_grids c" and "drawing c"
  shows "text_grid (draw_string p s c) = buf_put (text_grid c) p (map (shown c) s)
     \<and> text_color_grid (draw_string p s c) = buf_put (text_color_grid c) p (replicate (length s) (color c))
     \<and> bg_color_grid (draw_string p s c) = buf_put (bg_color_grid c) p (replicate (length s) (background_color c))"
  using assms
proof (induction s arbitrary: p c)
  case (Cons ch s)
  let ?d = "draw p ch c"
  have d: "text_grid ?d = (text_grid c)[p := shown c ch]" "text_color_grid ?d = (text_color_grid c)[p := color c]"
      "bg_color_grid ?d = (bg_color_grid c)[p := background_color c]" "color ?d = color c"
      "background_color ?d = background_color c" "shown ?d = shown c"
    using Cons.prems(3) by (auto simp: draw_def shown_def drawing_def fun_eq_iff)
  have l: "p < length (text_grid c)" "p < length (text_color_grid c)" "p < length (bg_color_grid c)"
    using Cons.prems by (simp_all add: wf_grids_def)
  show ?case using Cons.IH [of "Suc p" ?d] Cons.prems d l by (simp add: buf_put_step)
qed (simp add: buf_put_def)

section \<open>The menu bar fits its row\<close>

lemma pad_fill_eq:
  "i \<le> n \<Longrightarrow> n < length dest \<Longrightarrow> pad_fill dest i n ch = Some (buf_put dest i (replicate (n - i) ch @ [0]))"
proof (induction "n - i" arbitrary: i dest)
  case 0
  then show ?case by (subst pad_fill.simps) (simp add: buf_set_def buf_put_def upd_conv_take_nth_drop)
next
  case (Suc k)
  have "pad_fill (dest[i := ch]) (Suc i) n ch = Some (buf_put (dest[i := ch]) (Suc i) (replicate (n - Suc i) ch @ [0]))"
    using Suc by (intro Suc.hyps) simp_all
  moreover have "replicate (n - i) ch @ [0] = ch # replicate (n - Suc i) ch @ [0]"
    using Suc.hyps(2) by (metis Suc_diff_Suc append_Cons replicate_Suc zero_less_Suc zero_less_diff)
  moreover have "i < n" using Suc.hyps(2) by simp
  ultimately show ?case using Suc.prems
    by (subst pad_fill.simps) (simp add: buf_set_def buf_put_step)
qed

lemma pad_copy_eq:
  assumes "0 \<notin> set l" and "length l \<le> n"
  shows "i \<le> length l \<Longrightarrow> n < length dest \<Longrightarrow>
    pad_copy dest (l @ [0]) i n ch = Some (buf_put dest i (drop i l @ replicate (n - length l) ch @ [0]))"
proof (induction "length l - i" arbitrary: i dest)
  case 0
  then have "i = length l" by simp
  with 0 assms(2) show ?case
    by (subst pad_copy.simps) (simp add: buf_get_def pad_fill_eq)
next
  case (Suc k)
  then have i: "i < length l" by simp
  have "pad_copy (dest[i := l ! i]) (l @ [0]) (Suc i) n ch
      = Some (buf_put (dest[i := l ! i]) (Suc i) (drop (Suc i) l @ replicate (n - length l) ch @ [0]))"
    using Suc i by (intro Suc.hyps) simp_all
  moreover have "l ! i \<noteq> 0" using assms(1) i by (metis nth_mem)
  moreover have "drop i l = l ! i # drop (Suc i) l" using i by (simp add: Cons_nth_drop_Suc)
  ultimately show ?case using Suc.prems i assms(2)
    by (subst pad_copy.simps) (simp add: buf_get_def buf_set_def nth_append buf_put_step)
qed

lemma str_pad_eq:
  assumes "0 \<notin> set l" and "length l \<le> n" and "n < length dest" and "ch \<noteq> 0"
  shows "\<exists>b. str_pad dest (l @ [0]) (int n) ch = Some b \<and> cstr b = l @ replicate (n - length l) ch"
proof -
  have "str_pad dest (l @ [0]) (int n) ch = Some (buf_put dest 0 (l @ replicate (n - length l) ch @ [0]))"
    using pad_copy_eq [OF assms(1,2), of 0 dest ch] assms(3) by (simp add: str_pad_def)
  moreover have "cstr (l @ (replicate (n - length l) ch @ 0 # xs)) = l @ replicate (n - length l) ch" for xs
    using assms(1,4) unfolding cstr_def
    by (subst takeWhile_append2, (auto)[1], subst takeWhile_append2) auto
  ultimately show ?thesis by (auto simp: buf_put_def)
qed

text \<open>A bar whose parts are printable text.\<close>

definition bar_ok :: "console \<Rightarrow> bool" where
  "bar_ok c \<longleftrightarrow> plain_text (case windoge_version (bar c) of None \<Rightarrow> [] | Some v \<Rightarrow> v)
     \<and> plain_text (bar_date (bar c)) \<and> plain_text (bar_time (bar c))
     \<and> 0 \<le> current_terminal_id c \<and> current_terminal_id c < 4"

lemma plain_text_simps [simp]:
  "plain_text []" "plain_text (s @ t) \<longleftrightarrow> plain_text s \<and> plain_text t" "plain_text s \<Longrightarrow> plain_text (take n s)"
  "plain_text (ch # s) \<longleftrightarrow> 32 \<le> ch \<and> ch < 127 \<and> plain_text s"
  by (auto simp: plain_text_def dest: in_set_takeD)

lemma menubar_parts:
  assumes "bar_ok c"
  shows "plain_text (menubar_right (bar c))" and "length (menubar_right (bar c)) \<le> 62"
    and "plain_text (menubar_left c)" and "length (menubar_left c) \<le> 63"
proof -
  have v: "plain_text (menubar_version (bar c))"
    using assms by (auto simp: menubar_version_def bar_ok_def asc_def split: option.splits)
  have "current_terminal_id c \<in> {0, 1, 2, 3}" using assms by (auto simp: bar_ok_def)
  with v show "plain_text (menubar_left c)" by (auto simp: menubar_left_def asc_def)
  show "length (menubar_left c) \<le> 63" by (simp add: menubar_left_def asc_def)
  show "plain_text (menubar_right (bar c))" using assms by (simp add: menubar_right_def bar_ok_def Let_def)
  show "length (menubar_right (bar c)) \<le> 62" by (simp add: menubar_right_def Let_def)
qed

lemma print_string_plain:
  assumes "wf_grids c" and "on_screen c" and "\<not> video_mode c" and "framebuffer c \<noteq> None"
    and "plain_text s" and "place c + length s < CELLS"
  shows "print_string_with scroll s c = Some (at (place c + length s) (draw_string (place c) s c))"
  using print_plain [OF assms(1-3,5,6)] assms(4) by (auto simp: print_string_with_def)

text \<open>What drawing leaves alone.\<close>

definition same_mode :: "console \<Rightarrow> console \<Rightarrow> bool" where
  "same_mode c c' \<longleftrightarrow> framebuffer c' = framebuffer c \<and> video_mode c' = video_mode c \<and> bar c' = bar c
     \<and> current_terminal_id c' = current_terminal_id c"

lemma same_mode_trans: "same_mode c d \<Longrightarrow> same_mode d e \<Longrightarrow> same_mode c e"
  by (simp add: same_mode_def)

text \<open>Nothing behind the first \<open>n\<close> cells changes, and none of the colours and modes.\<close>

definition drawn_within :: "nat \<Rightarrow> console \<Rightarrow> console \<Rightarrow> bool" where
  "drawn_within n c c' \<longleftrightarrow> drop n (text_grid c') = drop n (text_grid c)
     \<and> drop n (text_color_grid c') = drop n (text_color_grid c) \<and> drop n (bg_color_grid c') = drop n (bg_color_grid c)
     \<and> cursor_visible c' = cursor_visible c \<and> color c' = color c \<and> background_color c' = background_color c
     \<and> video_cursor_x c' = video_cursor_x c \<and> video_cursor_y c' = video_cursor_y c
     \<and> render_enabled c' = render_enabled c \<and> brightness c' = brightness c"

lemma drawn_within_trans: "drawn_within n c d \<Longrightarrow> drawn_within n d e \<Longrightarrow> drawn_within n c e"
  by (simp add: drawn_within_def)

lemma draw_string_frame: "p + length s \<le> n \<Longrightarrow> drawn_within n c (at q (draw_string p s c))"
proof (induction s arbitrary: p c)
  case (Cons ch s)
  have "drawn_within n c (draw p ch c)" using Cons.prems by (simp add: drawn_within_def draw_def)
  moreover have "drawn_within n (draw p ch c) (at q (draw_string (Suc p) s (draw p ch c)))" using Cons by simp
  ultimately show ?case by (auto intro: drawn_within_trans)
qed (simp add: drawn_within_def at_def)

lemma print_step:
  assumes "wf_grids c" and "on_screen c" and "\<not> video_mode c" and "framebuffer c \<noteq> None"
    and "plain_text s" and "place c + length s < CELLS" and "place c + length s \<le> n"
  shows "\<exists>c'. print_string_with scroll s c = Some c' \<and> wf_grids c' \<and> on_screen c'
     \<and> place c' = place c + length s \<and> same_mode c c' \<and> drawn_within n c c'"
  using print_string_plain [OF assms(1-6), of scroll] place_at [OF assms(6)] assms(1) draw_string_frame [OF assms(7)]
  by (simp add: same_mode_def)

lemma menubar_draw_ok:
  assumes "wf_grids c" and "\<not> video_mode c" and "bar_ok c"
  shows "\<exists>c'. menubar_draw c = Some c' \<and> wf_grids c' \<and> same_mode c c'
     \<and> cursor_x c' = cursor_x c \<and> cursor_y c' = cursor_y c \<and> drawn_within 160 c c'"
proof -
  define c0 where "c0 = c \<lparr> cursor_visible := False, color := (if is_kernel_dead (bar c) then 0xE74856 else 0xFFFFFF),
    background_color := 0x282828, cursor_x := 0, cursor_y := 0 \<rparr>"
  define right where "right = menubar_right (bar c)"
  define n where "n = 158 - length right"
  note p = menubar_parts [OF assms(3)]
  have n: "(let t = 160 - int (length right) - 2 in if t < 2 then 2 else t) = int n" "96 \<le> n" "n + length right = 158"
    using p(2) by (auto simp: n_def right_def Let_def)
  have left: "menubar_left d = menubar_left c" if "same_mode c0 d" for d
    using that by (simp add: menubar_left_def same_mode_def c0_def)
  have "0 \<notin> set (menubar_left c)" using p(3) by (auto simp: plain_text_def)
  then obtain b where b: "str_pad (replicate 161 0) (menubar_left c @ [0]) (int n) 32 = Some b"
      "cstr b = menubar_left c @ replicate (n - length (menubar_left c)) 32"
    using str_pad_eq [of "menubar_left c" n "replicate 161 0" 32] p(4) n by auto
  have cb: "plain_text (cstr b)" "length (cstr b) = n"
    using b(2) p(3,4) n(2) by (auto simp: plain_text_def)
  have draw: "menubar_draw c = do {
        c1 \<leftarrow> print_string_with (\<lambda>_. None) [32] c0;
        menu_buffer \<leftarrow> str_pad (replicate 161 0) (menubar_left c1 @ [0]) (int n) 32;
        c2 \<leftarrow> print_string_with (\<lambda>_. None) (cstr menu_buffer) c1;
        c3 \<leftarrow> print_string_with (\<lambda>_. None) right c2;
        c4 \<leftarrow> print_string_with (\<lambda>_. None) [32] c3;
        Some (c4 \<lparr> color := color c, background_color := background_color c, cursor_x := cursor_x c,
                  cursor_y := cursor_y c, cursor_visible := cursor_visible c \<rparr>) }"
    unfolding menubar_draw_def Let_def n(1) [unfolded Let_def, symmetric] c0_def right_def by simp
  have c0: "wf_grids c0" "on_screen c0" "\<not> video_mode c0" "place c0 = 0" "same_mode c c0"
    using assms(1,2) by (simp_all add: c0_def wf_grids_def on_screen_def place_def same_mode_def)
  show ?thesis
  proof (cases "framebuffer c = None")
    case True
    then have id: "print_string_with (\<lambda>_. None) s c0 = Some c0" for s
      by (simp add: print_string_with_def c0_def)
    have "same_mode c0 c0" by (simp add: same_mode_def)
    from id b(1) left [OF this] c0(1,5) show ?thesis unfolding draw
      by (simp add: wf_grids_def same_mode_def drawn_within_def c0_def)
  next
    case False
    then have "framebuffer c0 \<noteq> None" by (simp add: c0_def)
    from print_step [OF c0(1-3) this, of "[32]" 160 "\<lambda>_. None"] c0(4) obtain c1 where
      c1: "print_string_with (\<lambda>_. None) [32] c0 = Some c1" "wf_grids c1" "on_screen c1" "place c1 = 1" "same_mode c0 c1"
        "drawn_within 160 c0 c1"
      by auto
    from print_step [OF c1(2,3), of "cstr b" 160 "\<lambda>_. None"] c1 cb n \<open>framebuffer c0 \<noteq> None\<close> c0(3) obtain c2 where
      c2: "print_string_with (\<lambda>_. None) (cstr b) c1 = Some c2" "wf_grids c2" "on_screen c2" "place c2 = 1 + n" "same_mode c1 c2"
        "drawn_within 160 c1 c2"
      by (auto simp: same_mode_def)
    from print_step [OF c2(2,3), of right 160 "\<lambda>_. None"] c1 c2 p(1) n \<open>framebuffer c0 \<noteq> None\<close> c0(3) obtain c3 where
      c3: "print_string_with (\<lambda>_. None) right c2 = Some c3" "wf_grids c3" "on_screen c3" "place c3 = 159" "same_mode c2 c3"
        "drawn_within 160 c2 c3"
      by (auto simp: same_mode_def right_def)
    from print_step [OF c3(2,3), of "[32]" 160 "\<lambda>_. None"] c1 c2 c3 \<open>framebuffer c0 \<noteq> None\<close> c0(3) obtain c4 where
      c4: "print_string_with (\<lambda>_. None) [32] c3 = Some c4" "wf_grids c4" "same_mode c3 c4" "drawn_within 160 c3 c4"
      by (auto simp: same_mode_def)
    have "drawn_within 160 c0 c4" using c1(6) c2(6) c3(6) c4(4) by (blast intro: drawn_within_trans)
    then show ?thesis unfolding draw
      using c1(1,5) c2(1,5) c3(1,5) c4(1-3) c0(5) b(1) left [OF c1(5)]
      by (simp add: wf_grids_def same_mode_def drawn_within_def c0_def)
  qed
qed

section \<open>Scrolling\<close>

lemma copy_block:
  assumes "a + n \<le> b" and "b + n \<le> length g"
  shows "fold (\<lambda>col g. g[a + col := g ! (b + col)]) [0..<n] g = buf_put g a (take n (drop b g))"
  using assms
proof (induction n)
  case (Suc n)
  let ?h = "buf_put g a (take n (drop b g))"
  have ih: "fold (\<lambda>col g. g[a + col := g ! (b + col)]) [0..<n] g = ?h" using Suc by simp
  have "?h ! (b + n) = g ! (b + n)"
    using Suc.prems by (auto simp: buf_put_def nth_append add.commute)
  moreover have "?h[a + n := x] = buf_put g a (take n (drop b g) @ [x])" for x
    using Suc.prems by (simp add: buf_put_def list_update_append upd_conv_take_nth_drop Cons_nth_drop_Suc [symmetric])
  moreover have "take (Suc n) (drop b g) = take n (drop b g) @ [g ! (b + n)]"
    using Suc.prems by (simp add: take_Suc_conv_app_nth)
  ultimately show ?case using ih by simp
qed (simp add: buf_put_def)

lemma copy_rows:
  assumes "length g = CELLS" and "1 \<le> k" and "k \<le> 49"
  shows "fold (\<lambda>row g. fold (\<lambda>col g. g[(row - 1) * 160 + col := g ! (row * 160 + col)]) [0..<160] g) [2..<Suc k] g
    = take 160 g @ take ((k - 1) * 160) (drop 320 g) @ drop (k * 160) g"
  using assms(2,3)
proof (induction k rule: dec_induct)
  case base
  then show ?case by simp
next
  case (step k)
  let ?h = "take 160 g @ take ((k - 1) * 160) (drop 320 g) @ drop (k * 160) g"
  obtain j where j: "k = Suc j" using step.hyps(1) by (cases k) auto
  have l: "length (take 160 g @ take (j * 160) (drop 320 g)) = k * 160"
    using assms(1) step.prems j by simp
  have "fold (\<lambda>col g. g[k * 160 + col := g ! (Suc k * 160 + col)]) [0..<160] ?h
      = buf_put ?h (k * 160) (take 160 (drop (Suc k * 160) ?h))"
    using assms(1) step.prems by (intro copy_block) (simp_all add: j)
  also have "drop (Suc k * 160) ?h = drop (Suc k * 160) g"
    using l assms(1) step.prems by (simp add: j)
  also have "buf_put ?h (k * 160) (take 160 (drop (Suc k * 160) g))
      = take 160 g @ take (j * 160) (drop 320 g) @ take 160 (drop (Suc k * 160) g) @ drop (Suc k * 160) g"
    using l assms(1) step.prems by (simp add: buf_put_def j)
  also have "\<dots> = take 160 g @ take (k * 160) (drop 320 g) @ drop (Suc k * 160) g"
    using take_add [of "j * 160" 160 "drop 320 g"] by (simp add: j add.commute)
  finally have "fold (\<lambda>col g. g[k * 160 + col := g ! (Suc k * 160 + col)]) [0..<160] ?h
      = take 160 g @ take (k * 160) (drop 320 g) @ drop (Suc k * 160) g" by (simp add: j)
  moreover have "[2..<Suc (Suc k)] = [2..<Suc k] @ [Suc k]" using step.hyps(1) by simp
  ultimately show ?case using step.IH step.prems by simp
qed

lemma fill_row:
  assumes "length g = CELLS" and "n \<le> 160"
  shows "fold (\<lambda>col g. g[49 * 160 + col := b]) [0..<n] g = buf_put g 7840 (replicate n b)"
  using assms(2)
proof (induction n)
  case (Suc n)
  then show ?case using assms(1)
    by (simp add: buf_put_def list_update_append upd_conv_take_nth_drop Cons_nth_drop_Suc [symmetric]
        replicate_append_same)
qed (simp add: buf_put_def)

lemma scroll_grid_eq:
  assumes "length g = CELLS"
  shows "scroll_grid b g = take 160 g @ drop 320 g @ replicate 160 b"
proof -
  have "[2..<50 :: nat] = [2..<Suc 49]" by simp
  then show ?thesis
    using copy_rows [OF assms, of 49] fill_row [of "take 160 g @ drop 320 g @ drop 7840 g" 160 b] assms
    by (simp add: scroll_grid_def buf_put_def del: upt_Suc)
qed

section \<open>Printing never leaves the screen\<close>

definition wf_console :: "console \<Rightarrow> bool" where
  "wf_console c \<longleftrightarrow> wf_grids c \<and> on_screen c \<and> bar_ok c"

lemma bar_ok_same: "same_mode c c' \<Longrightarrow> bar_ok c' = bar_ok c"
  by (simp add: same_mode_def bar_ok_def)

lemma for_each_inv:
  assumes "\<And>x s. x \<in> set xs \<Longrightarrow> P s \<Longrightarrow> \<exists>s'. f x s = Some s' \<and> P s'" and "P s"
  shows "\<exists>s'. for_each f xs s = Some s' \<and> P s'"
  using assms
proof (induction xs arbitrary: s)
  case (Cons x xs)
  from Cons.prems(1) [of x s] Cons.prems(2) obtain s1 where "f x s = Some s1" "P s1" by auto
  moreover from this Cons have "\<exists>s'. for_each f xs s1 = Some s' \<and> P s'" by simp
  ultimately show ?case by simp
qed simp

lemma redraw_cell_ok:
  assumes "wf_grids c" and "i < CELLS"
  shows "\<exists>c'. redraw_cell i c = Some c' \<and> wf_grids c' \<and> same_mode c c'
    \<and> cursor_x c' = cursor_x c \<and> cursor_y c' = cursor_y c"
proof -
  have "i mod 160 < 160" "i div 160 < 50" using assms(2) by (simp_all add: div_less_iff_less_mult)
  then have "(of_nat (i mod 160) :: u32) < 160" "(of_nat (i div 160) :: u32) < 50"
    by (simp_all add: word_less_nat_alt unat_of_nat)
  moreover have "wf_grids (c \<lparr> color := a, background_color := b \<rparr>)" for a b using assms(1) by (simp add: wf_grids_def)
  ultimately show ?thesis
    using assms putchar_eq by (auto simp: redraw_cell_def buf_get_def wf_grids_def same_mode_def draw_def)
qed

lemma dogeio_scroll_ok:
  assumes "wf_grids c" and "bar_ok c"
  shows "\<exists>c'. dogeio_scroll c = Some c' \<and> wf_grids c' \<and> same_mode c c' \<and> cursor_x c' = cursor_x c"
proof (cases "video_mode c")
  case True
  then show ?thesis using assms(1) by (simp add: dogeio_scroll_def wf_grids_def same_mode_def)
next
  case False
  define d where "d = c \<lparr> text_grid := scroll_grid 32 (text_grid c),
    text_color_grid := scroll_grid (color c) (text_color_grid c),
    bg_color_grid := scroll_grid (background_color c) (bg_color_grid c) \<rparr>"
  define I where "I e \<longleftrightarrow> wf_grids e \<and> same_mode c e \<and> cursor_x e = cursor_x c" for e
  have "I d" using assms(1) by (simp add: I_def d_def wf_grids_def same_mode_def scroll_grid_eq)
  have "\<exists>e'. redraw_cell i e = Some e' \<and> I e'" if "i \<in> set body_cells" "I e" for i e
  proof -
    have "i < CELLS" using that(1) by (simp only: body_cells_def set_upt atLeastLessThan_iff)
    then show ?thesis using redraw_cell_ok [of e i] that(2) same_mode_trans unfolding I_def by fastforce
  qed
  from for_each_inv [of body_cells I redraw_cell, OF this \<open>I d\<close>] obtain e where
    e: "for_each redraw_cell body_cells d = Some e" "I e" by blast
  let ?e = "e \<lparr> color := color c, background_color := background_color c \<rparr>"
  have s: "dogeio_scroll c = (if framebuffer c = None then Some d
      else do { e \<leftarrow> for_each redraw_cell body_cells d;
                menubar_draw (e \<lparr> color := color c, background_color := background_color c \<rparr>) })"
    using False by (simp add: dogeio_scroll_def Let_def d_def)
  have "wf_grids ?e" "\<not> video_mode ?e" "bar_ok ?e"
    using e(2) False assms(2) by (simp_all add: I_def wf_grids_def same_mode_def bar_ok_def)
  from menubar_draw_ok [OF this] e \<open>I d\<close> show ?thesis
    unfolding s by (auto simp: I_def same_mode_def)
qed

lemma next_row_ok:
  assumes "wf_grids c" and "bar_ok c" and "cursor_y c < TERMINAL_ROWS"
  shows "\<exists>c'. next_row dogeio_scroll c = Some c' \<and> wf_console c' \<and> same_mode c c'"
proof -
  let ?c = "c \<lparr> cursor_x := 0, cursor_y := cursor_y c + 1 \<rparr>"
  have "wf_grids ?c" "bar_ok ?c" using assms by (simp_all add: wf_grids_def bar_ok_def)
  from dogeio_scroll_ok [OF this] this show ?thesis
    by (auto simp: next_row_def Let_def wf_console_def on_screen_def wf_grids_def same_mode_def bar_ok_def not_le)
qed

lemma wrap_row_ok:
  assumes "wf_grids c" and "bar_ok c" and "cursor_y c < TERMINAL_ROWS"
  shows "\<exists>c'. wrap_row dogeio_scroll c = Some c' \<and> wf_console c' \<and> same_mode c c'"
  using next_row_ok [OF assms] assms
  by (auto simp: wrap_row_def wf_console_def on_screen_def same_mode_def not_le)

lemma advance_ok:
  assumes "wf_grids c" and "bar_ok c" and "cursor_y c < TERMINAL_ROWS"
  shows "\<exists>c'. advance ch c = Some c' \<and> wf_grids c' \<and> bar_ok c' \<and> cursor_y c' < TERMINAL_ROWS \<and> same_mode c c'"
proof (cases "on_screen c")
  case True
  then show ?thesis using advance_eq [OF assms(1), of ch] assms draw_simps(1) [of "place c" ch c]
    by (simp add: wf_grids_def bar_ok_def same_mode_def draw_def)
qed (use assms in \<open>simp add: advance_def same_mode_def\<close>)

lemma back_cell_ok: "on_screen c \<Longrightarrow> on_screen (back_cell c)"
proof -
  assume "on_screen c"
  then have b: "unat (cursor_x c) < 160" "unat (cursor_y c) < 50" by (simp_all add: on_screen_def word_less_nat_alt)
  have "unat (cursor_x c - 1) = unat (cursor_x c) - 1" if "0 < cursor_x c"
    using that by (simp add: unat_minus_one unat_gt_0 word_gt_0)
  moreover have "unat (cursor_y c - 1) = unat (cursor_y c) - 1" if "1 < cursor_y c"
    using that by (intro unat_minus_one) auto
  ultimately show ?thesis using b by (auto simp: back_cell_def on_screen_def word_less_nat_alt)
qed

lemma put_cell_ok:
  assumes "wf_grids c" and "bar_ok c" and "on_screen c"
  shows "\<exists>c'. put_cell ch c = Some c' \<and> wf_console c' \<and> same_mode c c' \<and> cursor_y c' = cursor_y c"
  using assms put_cell_eq [OF assms(1,3)] by (simp add: wf_console_def bar_ok_def same_mode_def)

lemma print_video_fields:
  "text_grid (print_video ch a b c) = text_grid c" "text_color_grid (print_video ch a b c) = text_color_grid c"
  "bg_color_grid (print_video ch a b c) = bg_color_grid c" "cursor_x (print_video ch a b c) = cursor_x c"
  "cursor_y (print_video ch a b c) = cursor_y c" "framebuffer (print_video ch a b c) = framebuffer c"
  "video_mode (print_video ch a b c) = video_mode c" "bar (print_video ch a b c) = bar c"
  "current_terminal_id (print_video ch a b c) = current_terminal_id c"
  unfolding print_video_def Let_def by simp_all

lemma printchar_ok:
  assumes "wf_console c"
  shows "\<exists>c'. dogeio_printchar ch c = Some c' \<and> wf_console c' \<and> same_mode c c'"
proof -
  have w: "wf_grids c" "on_screen c" "bar_ok c" "cursor_y c < TERMINAL_ROWS"
    using assms by (simp_all add: wf_console_def on_screen_def)
  consider "video_mode c" | "\<not> video_mode c" "ch = 10" | "\<not> video_mode c" "ch = 8"
    | "\<not> video_mode c" "ch = 9" | "\<not> video_mode c" "ch \<notin> {8, 9, 10}" by auto
  then show ?thesis
  proof cases
    case 1
    have "wf_console (print_video ch wd ht c) \<and> same_mode c (print_video ch wd ht c)" for wd ht
      using assms
      by (simp add: print_video_fields wf_console_def wf_grids_def on_screen_def bar_ok_def same_mode_def)
    then show ?thesis using 1 assms
      by (auto simp: dogeio_printchar_def printchar_with_def same_mode_def split: option.splits)
  next
    case 2
    from put_cell_ok [OF w(1,3,2), of 32] obtain d where
      d: "put_cell 32 c = Some d" "wf_console d" "same_mode c d" by blast
    then have "wf_grids d" "bar_ok d" "cursor_y d < TERMINAL_ROWS" by (simp_all add: wf_console_def on_screen_def)
    from next_row_ok [OF this] obtain e where
      "next_row dogeio_scroll d = Some e" "wf_console e" "same_mode d e" by blast
    then show ?thesis using 2 d same_mode_trans [of c d e] by (simp add: dogeio_printchar_def printchar_with_def)
  next
    case 3
    define o' where "o' = text_grid c ! place c"
    have "buf_get (text_grid c) (unat (cell (cursor_x c) (cursor_y c))) = Some o'"
      using on_screen_place [OF w(2)] w(1) by (simp add: wf_grids_def buf_get_def o'_def)
    moreover obtain d where d: "dogeio_putchar o' (cursor_x c) (cursor_y c) c = Some d"
        "wf_grids d" "on_screen d" "bar_ok d" "same_mode c d"
      using putchar_eq [OF w(1)] w by (auto simp: on_screen_def bar_ok_def same_mode_def)
    moreover have "wf_grids (back_cell d)" "bar_ok (back_cell d)" "same_mode c (back_cell d)"
      using d(2,4,5) by (auto simp: back_cell_def wf_grids_def bar_ok_def same_mode_def)
    moreover from put_cell_ok [OF this(1,2) back_cell_ok [OF d(3)], of 32] obtain e where
      "put_cell 32 (back_cell d) = Some e" "wf_console e" "same_mode (back_cell d) e" by blast
    ultimately show ?thesis using 3 w(2) same_mode_trans [of c "back_cell d" e]
      by (simp add: dogeio_printchar_def printchar_with_def buf_simps)
  next
    case 4
    define I where "I e \<longleftrightarrow> wf_grids e \<and> bar_ok e \<and> cursor_y e < TERMINAL_ROWS \<and> same_mode c e" for e
    have "\<exists>e'. advance 32 e = Some e' \<and> I e'" if "I e" for e
      using advance_ok [of e 32] that same_mode_trans unfolding I_def by blast
    moreover have "I c" using w by (simp add: I_def same_mode_def)
    ultimately obtain d where "for_each (\<lambda>_. advance 32) [0..<4 :: nat] c = Some d" "I d"
      using for_each_inv [of "[0..<4 :: nat]" I "\<lambda>_. advance 32" c] by blast
    moreover from this wrap_row_ok [of d] obtain e where
      "wrap_row dogeio_scroll d = Some e" "wf_console e" "same_mode d e" unfolding I_def by blast
    ultimately show ?thesis using 4 same_mode_trans [of c d e]
      by (simp add: dogeio_printchar_def printchar_with_def I_def del: upt_Suc)
  next
    case 5
    from advance_ok [OF w(1,3,4), of ch] obtain d where
      "advance ch c = Some d" "wf_grids d" "bar_ok d" "cursor_y d < TERMINAL_ROWS" "same_mode c d" by blast
    moreover from this wrap_row_ok [of d] obtain e where
      "wrap_row dogeio_scroll d = Some e" "wf_console e" "same_mode d e" by blast
    ultimately show ?thesis using 5 same_mode_trans [of c d e]
      by (simp add: dogeio_printchar_def printchar_with_def)
  qed
qed

text \<open>No number of an escape sequence has more than nine digits; \<open>k\<close> is how many were just read.\<close>

fun short_numbers :: "nat \<Rightarrow> bytes \<Rightarrow> bool" where
  "short_numbers k [] = True"
| "short_numbers k (ch # s) =
     (if 48 \<le> ch \<and> ch \<le> 57 then k < 9 \<and> short_numbers (Suc k) s else short_numbers 0 s)"

lemma short_numbers_mono: "short_numbers k s \<Longrightarrow> j \<le> k \<Longrightarrow> short_numbers j s"
  by (induction s arbitrary: j k) (auto split: if_splits)

lemma ansi_params_ok:
  assumes "short_numbers k s" and "k \<le> 9" and "0 \<le> n" and "n < 10 ^ k"
  shows "\<exists>ps' rest. ansi_params s ps n h = Some (ps', rest) \<and> short_numbers 0 rest"
  using assms
proof (induction s arbitrary: k n ps h)
  case (Cons ch s)
  show ?case
  proof (cases "48 \<le> ch \<and> ch \<le> 57")
    case True
    then have "48 \<le> uint ch" "uint ch \<le> 57" by (simp_all add: word_le_def)
    then have d: "0 \<le> n * 10 + (uint ch - 48)" "n * 10 + (uint ch - 48) < 10 ^ Suc k"
      using Cons.prems(3,4) by simp_all
    have k: "k < 9" "short_numbers (Suc k) s" using Cons.prems(1) True by auto
    then have "(10 :: int) ^ Suc k \<le> 10 ^ 9" by (intro power_increasing) auto
    then have "\<not> n * 10 + (uint ch - 48) > 2147483647" using d(2) by simp
    moreover from Cons.IH [OF k(2) _ d] k(1) obtain ps' rest where
      "ansi_params s ps (n * 10 + (uint ch - 48)) True = Some (ps', rest)" "short_numbers 0 rest" by force
    ultimately show ?thesis using True by (simp add: Let_def)
  next
    case False
    then have s: "short_numbers 0 s" using Cons.prems(1) by (auto split: if_splits)
    from Cons.IH [OF s, of 0] have "\<exists>ps' rest. ansi_params s ps'' 0 False = Some (ps', rest) \<and> short_numbers 0 rest" for ps''
      by simp
    then show ?thesis using False s by (auto simp: Let_def)
  qed
qed simp

text \<open>Changes that keep the console in order.\<close>

definition keeps :: "console \<Rightarrow> console \<Rightarrow> bool" where
  "keeps c c' \<longleftrightarrow> (wf_console c \<longrightarrow> wf_console c') \<and> same_mode c c'"

lemma keeps_intros:
  "keeps c c" "keeps c (c \<lparr> color := a \<rparr>)" "keeps c (c \<lparr> background_color := b \<rparr>)"
  "keeps c (c \<lparr> color := a, background_color := b \<rparr>)"
  "keeps c (c \<lparr> video_cursor_x := a, video_cursor_y := b \<rparr>)" "keeps c (dogeio_clear c)"
  by (simp_all add: keeps_def same_mode_def wf_console_def wf_grids_def on_screen_def bar_ok_def
      dogeio_clear_def fill_cells_def Let_def)

lemma keeps_cursor:
  "(wf_console c \<Longrightarrow> y < TERMINAL_ROWS) \<Longrightarrow> keeps c (c \<lparr> cursor_y := y \<rparr>)"
  "(wf_console c \<Longrightarrow> x < TERMINAL_COLS) \<Longrightarrow> keeps c (c \<lparr> cursor_x := x \<rparr>)"
  "y < TERMINAL_ROWS \<Longrightarrow> x < TERMINAL_COLS \<Longrightarrow> keeps c (c \<lparr> cursor_y := y, cursor_x := x \<rparr>)"
  by (auto simp: keeps_def same_mode_def wf_console_def wf_grids_def on_screen_def bar_ok_def)

lemma ansi_color_ok: "keeps c (ansi_color p c)"
  unfolding ansi_color_def by (simp add: keeps_intros)

lemma sub_less: "x < m \<Longrightarrow> (if n \<le> x then x - n else 0) < m" for x n m :: u32
  by (auto simp: word_less_nat_alt word_le_nat_alt unat_sub)

lemma min_less: "0 < m \<Longrightarrow> (if m \<le> x then m - 1 else x) < m" "0 < m \<Longrightarrow> (if x < m then x else m - 1) < m" for x m :: u32
  by (auto simp: not_le word_less_nat_alt unat_minus_one unat_gt_0)

lemma ansi_text_ok: "keeps c (ansi_text cmd ps c)"
proof -
  have s: "keeps c (c \<lparr> cursor_y := if n \<le> cursor_y c then cursor_y c - n else 0 \<rparr>)"
    "keeps c (c \<lparr> cursor_x := if n \<le> cursor_x c then cursor_x c - n else 0 \<rparr>)"
    "keeps c (c \<lparr> cursor_y := if TERMINAL_ROWS \<le> y then TERMINAL_ROWS - 1 else y \<rparr>)"
    "keeps c (c \<lparr> cursor_x := if TERMINAL_COLS \<le> x then TERMINAL_COLS - 1 else x \<rparr>)"
    "keeps c (c \<lparr> cursor_y := if y < TERMINAL_ROWS then y else TERMINAL_ROWS - 1,
                 cursor_x := if x < TERMINAL_COLS then x else TERMINAL_COLS - 1 \<rparr>)" for n x y
    using min_less [of TERMINAL_ROWS] min_less [of TERMINAL_COLS]
    by (intro keeps_cursor sub_less; simp add: wf_console_def on_screen_def)+
  have split: "keeps c (if b then d else e) \<longleftrightarrow> (if b then keeps c d else keeps c e)" for b d e by simp
  show ?thesis unfolding ansi_text_def Let_def split
    using s ansi_color_ok keeps_intros(1,6) by presburger
qed

lemma ansi_video_ok: "keeps c (ansi_video cmd ps c)"
  unfolding ansi_video_def by (simp add: keeps_intros ansi_color_ok)

lemma print_with_ok:
  assumes "wf_console c" and "short_numbers 0 s"
  shows "\<exists>c'. print_with dogeio_scroll s c = Some c' \<and> wf_console c' \<and> same_mode c c'"
  using assms
proof (induction s arbitrary: c rule: length_induct)
  case (1 s)
  show ?case
  proof (cases s)
    case (Cons ch t)
    show ?thesis
    proof (cases "ch = 27 \<and> t \<noteq> [] \<and> hd t = 91")
      case True
      then obtain u where t: "t = 91 # u" by (cases t) auto
      have "short_numbers 0 u" using 1(3) by (simp add: Cons t True)
      from ansi_params_ok [OF this, of 0] obtain ps rest where
        p: "ansi_params u [] 0 False = Some (ps, rest)" "short_numbers 0 rest" by force
      note l = ansi_params_length [OF p(1)]
      obtain rest' d where d: "parse_ansi_escape u c = Some (rest', d)" "wf_console d" "same_mode c d"
          "short_numbers 0 rest'" "length rest' \<le> length u"
      proof (cases rest)
        case Nil
        then show ?thesis using that [of "[]" c] p(1) 1(2) by (simp add: parse_ansi_escape_def same_mode_def)
      next
        case (Cons cmd r)
        then have "short_numbers 0 r" "length r \<le> length u" using p(2) l short_numbers_mono [of 1 r 0] by (auto split: if_splits)
        with Cons show ?thesis using that p(1) 1(2) ansi_text_ok [of c cmd ps] ansi_video_ok [of c cmd ps]
          by (cases "video_mode c") (simp_all add: parse_ansi_escape_def keeps_def)
      qed
      have "length rest' < length s" using d(5) by (simp add: Cons t)
      with 1(1) d(2,4) obtain c' where "print_with dogeio_scroll rest' d = Some c'" "wf_console c'" "same_mode d c'" by blast
      then show ?thesis using d(1,3) True same_mode_trans by (auto simp: Cons t)
    next
      case False
      from printchar_ok [OF 1(2), of ch] obtain d where
        d: "printchar_with dogeio_scroll ch c = Some d" "wf_console d" "same_mode c d" by (auto simp: dogeio_printchar_def)
      have "short_numbers 0 t" using 1(3) short_numbers_mono [of 1 t 0] by (auto simp: Cons split: if_splits)
      with 1(1) d(2) Cons obtain c' where "print_with dogeio_scroll t d = Some c'" "wf_console c'" "same_mode d c'" by auto
      then show ?thesis using d(1,3) False same_mode_trans by (auto simp: Cons)
    qed
  qed (use 1 in \<open>simp add: same_mode_def\<close>)
qed

section \<open>Properties\<close>

text \<open>The console at boot.\<close>

definition blank_console :: console where
  "blank_console = \<lparr> text_grid = replicate CELLS 32, text_color_grid = replicate CELLS 0xCCCCCC,
     bg_color_grid = replicate CELLS 0x0C0C0C, cursor_x = 0, cursor_y = 1, cursor_visible = False,
     background_color = 0x0C0C0C, color = 0xCCCCCC, video_mode = False, video_cursor_x = 0, video_cursor_y = 0,
     framebuffer = Some (1280, 800), render_enabled = True, brightness = 10, current_terminal_id = 0,
     bar = \<lparr> windoge_version = Some (asc ''WindogeOS v0.3''), is_setup = False, is_kernel_dead = False,
             bar_date = asc ''16/11/2026'', bar_time = asc ''12:00:00'' \<rparr> \<rparr>"

lemma blank_wf: "wf_console blank_console"
  by (simp add: wf_console_def wf_grids_def on_screen_def bar_ok_def blank_console_def asc_def)



text \<open>
  C27: printable text that ends before the last cell of the screen appears exactly at the cursor, in the
  current colours, over as many rows as it needs; every other cell is unchanged and the cursor is
  right behind it.
\<close>

theorem dogeio_print_text_appears:
  assumes "wf_console c" and "drawing c" and "plain_text s" and "place c + length s < CELLS"
  shows "\<exists>c'. dogeio_print (Some s) c = Some c' \<and> place c' = place c + length s
     \<and> text_grid c' = buf_put (text_grid c) (place c) s
     \<and> text_color_grid c' = buf_put (text_color_grid c) (place c) (replicate (length s) (color c))
     \<and> bg_color_grid c' = buf_put (bg_color_grid c) (place c) (replicate (length s) (background_color c))"
proof -
  have w: "wf_grids c" "on_screen c" using assms(1) by (simp_all add: wf_console_def)
  have d: "framebuffer c \<noteq> None" "\<not> video_mode c" using assms(2) by (simp_all add: drawing_def)
  have "shown c ch = ch" if "ch \<in> set s" for ch
  proof -
    have "ch < 127" using that assms(3) by (simp add: plain_text_def)
    then have "\<not> 128 \<le> ch" by (simp add: word_le_nat_alt word_less_nat_alt)
    then show ?thesis by (simp add: shown_def)
  qed
  then have "map (shown c) s = s" by (simp add: map_idI)
  with print_string_plain [OF w d(2,1) assms(3,4)] place_at [OF assms(4)]
    draw_string_grids [OF less_imp_le [OF assms(4)] w(1) assms(2)]
  show ?thesis by (simp add: dogeio_print_def)
qed

theorem dogeio_print_text_appears_witness:
  "\<exists>c'. dogeio_print (Some (asc ''much wow'')) blank_console = Some c' \<and> take 8 (drop 160 (text_grid c')) = asc ''much wow''"
proof -
  have "plain_text (asc ''much wow'')" "drawing blank_console" "place blank_console = 160"
    by (simp_all add: asc_def drawing_def blank_console_def place_def)
  with dogeio_print_text_appears [OF blank_wf, of "asc ''much wow''"] show ?thesis
    by (auto simp: asc_def buf_put_def blank_console_def)
qed

end
