(* ===== verification/Keyboard.thy ===== *)
theory Keyboard
  imports Prelude
begin

text \<open>
  The keyboard and mouse of \<open>helper/dogeio/input.c\<close>: the ring buffer between the interrupt handler
  and the readers, the decoding of scancodes to keys, and the packets of the two kinds of mice.
  The value of a device port is an argument. A signed overflow is \<open>None\<close>.
\<close>

abbreviation KEY_UNKNOWN :: u16 where "KEY_UNKNOWN \<equiv> 0"
abbreviation KEY_UP :: u16 where "KEY_UP \<equiv> 0x101"
abbreviation KEY_DOWN :: u16 where "KEY_DOWN \<equiv> 0x102"
abbreviation KEY_LEFT :: u16 where "KEY_LEFT \<equiv> 0x103"
abbreviation KEY_RIGHT :: u16 where "KEY_RIGHT \<equiv> 0x104"
abbreviation KEY_BACKSPACE :: u16 where "KEY_BACKSPACE \<equiv> 0x008"
abbreviation KEY_ENTER :: u16 where "KEY_ENTER \<equiv> 0x00A"
abbreviation KEY_TAB :: u16 where "KEY_TAB \<equiv> 0x009"
abbreviation KEY_CTRL_O :: u16 where "KEY_CTRL_O \<equiv> 0x110"
abbreviation KEY_CTRL_N :: u16 where "KEY_CTRL_N \<equiv> 0x111"
abbreviation KEY_CTRL_TAB :: u16 where "KEY_CTRL_TAB \<equiv> 0x112"

section \<open>Scancodes\<close>

record keyboard =
  scancodes :: bytes
  scancode_head :: u8
  scancode_tail :: u8
  shift_pressed :: bool
  ctrl_pressed :: bool
  irq_ctrl_pressed :: bool
  escaped :: bool
  switch_requested :: bool

definition sys_workspace_request_switch :: "keyboard \<Rightarrow> keyboard" where
  "sys_workspace_request_switch k = k \<lparr> switch_requested := True \<rparr>"

definition sys_workspace_take_switch_request :: "keyboard \<Rightarrow> bool \<times> keyboard" where
  "sys_workspace_take_switch_request k = (switch_requested k, k \<lparr> switch_requested := False \<rparr>)"

definition put_scancode :: "u8 \<Rightarrow> keyboard \<Rightarrow> keyboard" where
  "put_scancode scancode k =
     (let next_head = scancode_head k + 1 in
      if next_head \<noteq> scancode_tail k
      then k \<lparr> scancodes := (scancodes k)[unat (scancode_head k) := scancode], scancode_head := next_head \<rparr>
      else k)"

definition dogeio_keyboard_irq :: "u8 \<Rightarrow> keyboard \<Rightarrow> keyboard" where
  "dogeio_keyboard_irq scancode k =
     (if scancode = 0x1D then put_scancode scancode (k \<lparr> irq_ctrl_pressed := True \<rparr>)
      else if scancode = 0x9D then put_scancode scancode (k \<lparr> irq_ctrl_pressed := False \<rparr>)
      else if scancode = 0x0F \<and> irq_ctrl_pressed k then sys_workspace_request_switch k
      else put_scancode scancode k)"

definition take_scancode :: "keyboard \<Rightarrow> (u8 \<times> keyboard) option" where
  "take_scancode k =
     (if scancode_tail k \<noteq> scancode_head k
      then Some (scancodes k ! unat (scancode_tail k), k \<lparr> scancode_tail := scancode_tail k + 1 \<rparr>)
      else None)"

definition dogeio_discard_pending_keys :: "keyboard \<Rightarrow> keyboard" where
  "dogeio_discard_pending_keys k =
     k \<lparr> scancode_tail := scancode_head k, shift_pressed := False, ctrl_pressed := False \<rparr>"

section \<open>Keys\<close>

definition map_lower :: bytes where
  "map_lower = [0, 27] @ asc ''1234567890-='' @ [0, 0] @ asc ''qwertyuiop[]'' @ [0, 0]
     @ asc ''asdfghjkl;'' @ [39, 96, 0, 92] @ asc ''zxcvbnm,./'' @ [0, 42, 0, 32]"

definition map_upper :: bytes where
  "map_upper = [0, 27] @ asc ''!@#$%^&*()_+'' @ [0, 0] @ asc ''QWERTYUIOP{}'' @ [0, 0]
     @ asc ''ASDFGHJKL:'' @ [34, 126, 0, 124] @ asc ''ZXCVBNM<>?'' @ [0, 42, 0, 32]"

definition arrow_key :: "u8 \<Rightarrow> u16" where
  "arrow_key code =
     (if code = 0x48 then KEY_UP else if code = 0x50 then KEY_DOWN
      else if code = 0x4B then KEY_LEFT else if code = 0x4D then KEY_RIGHT else KEY_UNKNOWN)"

definition char_key :: "keyboard \<Rightarrow> u8 \<Rightarrow> u16" where
  "char_key k code =
     (if code < 58
      then let c = (if shift_pressed k then map_upper else map_lower) ! unat code in
        if c \<noteq> 0
        then if ctrl_pressed k
             then if c = 111 then KEY_CTRL_O
                  else if c = 110 then KEY_CTRL_N
                  else if 97 \<le> c \<and> c \<le> 122 then ucast (c - 97 + 1)
                  else if 65 \<le> c \<and> c \<le> 90 then ucast (c - 65 + 1)
                  else ucast c
             else ucast c
        else KEY_UNKNOWN
      else KEY_UNKNOWN)"

definition dogeio_decode_key :: "u8 \<Rightarrow> keyboard \<Rightarrow> u16 \<times> keyboard" where
  "dogeio_decode_key code k =
     (if code = 0xE0 then (KEY_UNKNOWN, k \<lparr> escaped := True \<rparr>)
      else if code = 0x2A \<or> code = 0x36 then (KEY_UNKNOWN, k \<lparr> shift_pressed := True \<rparr>)
      else if code = 0xAA \<or> code = 0xB6 then (KEY_UNKNOWN, k \<lparr> shift_pressed := False \<rparr>)
      else if code = 0x1D then (KEY_UNKNOWN, k \<lparr> ctrl_pressed := True \<rparr>)
      else if code = 0x9D then (KEY_UNKNOWN, k \<lparr> ctrl_pressed := False \<rparr>)
      else if code AND 0x80 \<noteq> 0 then (KEY_UNKNOWN, k \<lparr> escaped := False \<rparr>)
      else if escaped k then (arrow_key code, k \<lparr> escaped := False \<rparr>)
      else if code = 0x1C then (KEY_ENTER, k)
      else if code = 0x0E then (KEY_BACKSPACE, k)
      else if code = 0x0F then (if ctrl_pressed k then KEY_CTRL_TAB else KEY_TAB, k)
      else if arrow_key code \<noteq> KEY_UNKNOWN then (arrow_key code, k)
      else (char_key k code, k))"

text \<open>\<open>foreground\<close> says whether the running task owns the displayed workspace.\<close>

fun get_key_loop :: "nat \<Rightarrow> keyboard \<Rightarrow> u16 \<times> keyboard" where
  "get_key_loop 0 k = (KEY_UNKNOWN, k)"
| "get_key_loop (Suc loops) k =
     (case take_scancode k of
        None \<Rightarrow> (KEY_UNKNOWN, k)
      | Some (scancode, k) \<Rightarrow>
          (case dogeio_decode_key scancode k of
             (key, k) \<Rightarrow> if key \<noteq> KEY_UNKNOWN then (key, k) else get_key_loop loops k))"

definition dogeio_get_key_delay :: "u64 \<Rightarrow> bool \<Rightarrow> keyboard \<Rightarrow> u16 \<times> keyboard" where
  "dogeio_get_key_delay loops foreground k =
     (if foreground then get_key_loop (unat loops) k else (KEY_UNKNOWN, k))"

section \<open>Mice\<close>

record mouse =
  serial_mouse_packet :: bytes
  serial_mouse_index :: u8
  mouse_packet :: bytes
  mouse_packet_index :: u8
  mouse_delta_x :: int
  mouse_delta_y :: int
  mouse_buttons :: u8
  ps2_buttons :: u8
  serial_buttons :: u8

definition add32 :: "int \<Rightarrow> int \<Rightarrow> int option" where
  "add32 a b = (if - 2147483648 \<le> a + b \<and> a + b \<le> 2147483647 then Some (a + b) else None)"

definition serial_axis :: "u8 \<Rightarrow> u8 \<Rightarrow> int" where
  "serial_axis high low =
     (let d = uint (push_bit 6 (high AND 3) OR (low AND 0x3F)) in if d \<ge> 128 then d - 256 else d)"

definition serial_mouse_parse :: "u8 \<Rightarrow> mouse \<Rightarrow> mouse option" where
  "serial_mouse_parse byte m =
     (let m = (if byte AND 0x40 \<noteq> 0 then m \<lparr> serial_mouse_index := 0 \<rparr> else m);
          m = (if serial_mouse_index m \<ge> 3 then m \<lparr> serial_mouse_index := 0 \<rparr> else m);
          m = m \<lparr> serial_mouse_packet := (serial_mouse_packet m)[unat (serial_mouse_index m) := byte],
                  serial_mouse_index := serial_mouse_index m + 1 \<rparr>
      in if serial_mouse_index m \<noteq> 3 then Some m
      else let b1 = serial_mouse_packet m ! 0; b2 = serial_mouse_packet m ! 1; b3 = serial_mouse_packet m ! 2;
               buttons = (if b1 AND 0x20 \<noteq> 0 then 1 else 0) OR (if b1 AND 0x10 \<noteq> 0 then 2 else 0)
           in do {
             x \<leftarrow> add32 (mouse_delta_x m) (serial_axis b1 b2);
             y \<leftarrow> add32 (mouse_delta_y m) (- serial_axis (drop_bit 2 b1) b3);
             Some (m \<lparr> serial_mouse_index := 0, mouse_delta_x := x, mouse_delta_y := y,
                       serial_buttons := buttons, mouse_buttons := ps2_buttons m OR buttons \<rparr>)
           })"

definition dogeio_mouse_irq :: "u8 \<Rightarrow> mouse \<Rightarrow> mouse option" where
  "dogeio_mouse_irq byte m =
     (let index = mouse_packet_index m in
      if index = 0 \<and> byte AND 0x08 = 0 then Some m
      else let m = m \<lparr> mouse_packet := (mouse_packet m)[unat index := byte] \<rparr>; index = index + 1 in
        if index < 3 then Some (m \<lparr> mouse_packet_index := index \<rparr>)
        else let m = m \<lparr> mouse_packet_index := 0 \<rparr>; flags = mouse_packet m ! 0 in
          if flags AND 0xC0 \<noteq> 0 then Some m
          else do {
            x \<leftarrow> add32 (mouse_delta_x m) (sint (mouse_packet m ! 1));
            y \<leftarrow> add32 (mouse_delta_y m) (- sint (mouse_packet m ! 2));
            Some (m \<lparr> mouse_delta_x := x, mouse_delta_y := y, mouse_buttons := flags AND 0x07 \<rparr>)
          })"

text \<open>\<open>null\<close> says whether one of the result pointers is NULL.\<close>

definition dogeio_mouse_read :: "bool \<Rightarrow> mouse \<Rightarrow> (int \<times> int \<times> u8) option \<times> mouse" where
  "dogeio_mouse_read null m =
     (if null then (None, m)
      else (Some (mouse_delta_x m, mouse_delta_y m, mouse_buttons m), m \<lparr> mouse_delta_x := 0, mouse_delta_y := 0 \<rparr>))"

section \<open>The ring buffer is a bounded queue\<close>

text \<open>What a reader relies on: items come out in the order they went in, and a full queue drops
  the newest.\<close>

primrec drain :: "('s \<Rightarrow> ('a \<times> 's) option) \<Rightarrow> nat \<Rightarrow> 's \<Rightarrow> 'a list \<times> 's" where
  "drain get 0 s = ([], s)"
| "drain get (Suc n) s =
     (case get s of None \<Rightarrow> ([], s)
      | Some (x, s) \<Rightarrow> (case drain get n s of (xs, s) \<Rightarrow> (x # xs, s)))"

locale bounded_queue =
  fixes put :: "'a \<Rightarrow> 's \<Rightarrow> 's" and get :: "'s \<Rightarrow> ('a \<times> 's) option"
    and items :: "'s \<Rightarrow> 'a list" and valid :: "'s \<Rightarrow> bool" and capacity :: nat
  assumes put_valid: "valid s \<Longrightarrow> valid (put x s)"
    and put_items: "valid s \<Longrightarrow>
      items (put x s) = (if length (items s) < capacity then items s @ [x] else items s)"
    and get_None: "valid s \<Longrightarrow> get s = None \<Longrightarrow> items s = []"
    and get_Some: "valid s \<Longrightarrow> get s = Some (x, s') \<Longrightarrow> items s = x # items s' \<and> valid s'"
begin

lemma put_all:
  "valid s \<Longrightarrow> valid (fold put xs s) \<and>
     items (fold put xs s) = items s @ take (capacity - length (items s)) xs"
proof (induction xs arbitrary: s)
  case (Cons x xs)
  then show ?case
  proof (cases "length (items s) < capacity")
    case True
    then have "take (capacity - length (items s)) (x # xs) = x # take (capacity - Suc (length (items s))) xs"
      by (simp add: take_Cons' Suc_diff_Suc)
    with True Cons show ?thesis by (simp add: put_valid put_items)
  qed (use Cons in \<open>simp add: put_valid put_items\<close>)
qed simp

lemma drain_items:
  "valid s \<Longrightarrow> drain get n s = (xs, s') \<Longrightarrow> xs = take n (items s) \<and> items s' = drop n (items s) \<and> valid s'"
proof (induction n arbitrary: s xs s')
  case (Suc n)
  show ?case
  proof (cases "get s")
    case None
    then show ?thesis using Suc.prems get_None [OF Suc.prems(1)] by simp
  next
    case (Some r)
    obtain x t where r: "get s = Some (x, t)" using Some by (cases r) auto
    obtain ys u where d: "drain get n t = (ys, u)" by (cases "drain get n t")
    from get_Some [OF Suc.prems(1) r] Suc.IH [OF _ d] Suc.prems(2) r d show ?thesis by auto
  qed
qed simp

lemma delivered:
  assumes "valid s" and "items s = []"
  shows "fst (drain get n (fold put xs s)) = take n (take capacity xs)"
  using put_all [OF assms(1), of xs] assms(2)
    drain_items [of "fold put xs s" n "fst (drain get n (fold put xs s))" "snd (drain get n (fold put xs s))"]
  by simp

end

definition pending :: "keyboard \<Rightarrow> bytes" where
  "pending k = map (\<lambda>i. scancodes k ! unat (scancode_tail k + of_nat i))
     [0..<unat (scancode_head k - scancode_tail k)]"

definition kb_ok :: "keyboard \<Rightarrow> bool" where
  "kb_ok k \<longleftrightarrow> length (scancodes k) = 256"

lemma length_pending: "length (pending k) = unat (scancode_head k - scancode_tail k)"
  by (simp add: pending_def)

lemma ring_step:
  fixes h t :: u8
  assumes "h + 1 \<noteq> t"
  shows "unat (h + 1 - t) = Suc (unat (h - t))"
proof -
  have "h - t + 1 \<noteq> 0" using assms by (metis add_diff_eq diff_add_cancel diff_eq_diff_eq add.commute eq_iff_diff_eq_0)
  then have "unat (h - t + 1) = Suc (unat (h - t))" by (simp add: unatSuc add.commute)
  then show ?thesis by (simp add: algebra_simps)
qed

interpretation scancode_queue: bounded_queue put_scancode take_scancode pending kb_ok 255
proof
  fix k x
  assume k: "kb_ok k"
  then show "kb_ok (put_scancode x k)" by (simp add: kb_ok_def put_scancode_def Let_def)
  let ?h = "scancode_head k" and ?t = "scancode_tail k"
  show "pending (put_scancode x k) = (if length (pending k) < 255 then pending k @ [x] else pending k)"
  proof (cases "?h + 1 = ?t")
    case True
    then have "?h - ?t = - 1" by (metis add_diff_cancel_right' diff_add_cancel diff_diff_eq2 minus_diff_eq uminus_add_conv_diff)
    then have "unat (?h - ?t) = 255" by (simp add: unsigned_minus_1_eq_mask mask_eq_exp_minus_1)
    with True show ?thesis by (simp add: length_pending put_scancode_def)
  next
    case False
    note s = ring_step [OF False]
    then have l: "unat (?h - ?t) < 255" using unat_bound [of "?h + 1 - ?t"] by simp
    have "?t + of_nat i \<noteq> ?h" if "i < unat (?h - ?t)" for i
    proof
      assume "?t + of_nat i = ?h"
      then have "?h - ?t = of_nat i" by (simp add: algebra_simps)
      then have "unat (?h - ?t) = i mod 256" by (simp add: unat_of_nat)
      then show False using that mod_less_eq_dividend [of i 256] by simp
    qed
    then have "unat ?h \<noteq> unat (?t + of_nat i)" if "i < unat (?h - ?t)" for i
      using that by (metis word_unat_eq_iff)
    moreover have "?t + of_nat (unat (?h - ?t)) = ?h" by simp
    moreover have "unat ?h < length (scancodes k)" using k unat_bound [of ?h] by (simp add: kb_ok_def)
    ultimately have "pending (put_scancode x k) = pending k @ [x]" using False s
      by (auto simp: pending_def put_scancode_def Let_def)
    then show ?thesis using l by (simp add: length_pending)
  qed
next
  fix k
  assume "take_scancode k = None"
  then show "pending k = []" by (simp add: take_scancode_def pending_def split: if_splits)
next
  fix k x k'
  assume k: "kb_ok k" and t: "take_scancode k = Some (x, k')"
  then have ne: "scancode_tail k \<noteq> scancode_head k" and x: "x = scancodes k ! unat (scancode_tail k)"
    and k': "k' = k \<lparr> scancode_tail := scancode_tail k + 1 \<rparr>"
    by (auto simp: take_scancode_def split: if_splits)
  let ?n = "unat (scancode_head k - scancode_tail k)"
  have "0 < ?n" using ne by (simp add: unat_gt_0)
  moreover have "unat (scancode_head k - (scancode_tail k + 1)) = ?n - 1"
    using ne unat_minus_one [of "scancode_head k - scancode_tail k"] by (simp add: diff_diff_add)
  moreover have "[0..<?n] = 0 # map Suc [0..<?n - 1]"
    using \<open>0 < ?n\<close> by (simp add: upt_conv_Cons map_Suc_upt)
  ultimately show "pending k = x # pending k' \<and> kb_ok k'"
    using k x k' by (simp add: pending_def kb_ok_def comp_def algebra_simps)
qed

section \<open>Properties\<close>

lemma irq_pending:
  assumes "kb_ok k" and "c \<noteq> 0x0F"
  shows "kb_ok (dogeio_keyboard_irq c k)"
    and "pending (dogeio_keyboard_irq c k) = (if length (pending k) < 255 then pending k @ [c] else pending k)"
proof -
  obtain b where b: "dogeio_keyboard_irq c k = put_scancode c (k \<lparr> irq_ctrl_pressed := b \<rparr>)"
  proof (cases "c = 0x1D \<or> c = 0x9D")
    case True
    then show ?thesis using that by (auto simp: dogeio_keyboard_irq_def)
  next
    case False
    have "k \<lparr> irq_ctrl_pressed := irq_ctrl_pressed k \<rparr> = k" by simp
    with False show ?thesis using that [of "irq_ctrl_pressed k"] assms(2) by (simp add: dogeio_keyboard_irq_def)
  qed
  have "kb_ok (k \<lparr> irq_ctrl_pressed := b \<rparr>)" "pending (k \<lparr> irq_ctrl_pressed := b \<rparr>) = pending k"
    using assms(1) by (simp_all add: kb_ok_def pending_def)
  then show "kb_ok (dogeio_keyboard_irq c k)"
    "pending (dogeio_keyboard_irq c k) = (if length (pending k) < 255 then pending k @ [c] else pending k)"
    using scancode_queue.put_valid scancode_queue.put_items unfolding b by metis+
qed

lemma irqs_pending:
  assumes "kb_ok k" and "0x0F \<notin> set cs"
  shows "kb_ok (fold dogeio_keyboard_irq cs k)
    \<and> pending (fold dogeio_keyboard_irq cs k) = pending k @ take (255 - length (pending k)) cs"
  using assms
proof (induction cs arbitrary: k)
  case (Cons c cs)
  then have "kb_ok (dogeio_keyboard_irq c k)" using irq_pending(1) by simp
  with Cons irq_pending(2) [of k c] show ?case
    by (cases "255 - length (pending k)") (auto simp: diff_Suc split: nat.splits)
qed simp

text \<open>
  C28: scancodes come out of the keyboard buffer in the order of their interrupts. The first 255
  that arrive while nothing is read are kept, later ones are dropped, none is changed or duplicated.
\<close>

theorem scancodes_in_order:
  assumes "kb_ok k" and "pending k = []" and "0x0F \<notin> set cs"
  shows "fst (drain take_scancode n (fold dogeio_keyboard_irq cs k)) = take n (take 255 cs)"
  using irqs_pending [OF assms(1,3)] assms(2)
    scancode_queue.drain_items [of "fold dogeio_keyboard_irq cs k" n] by (metis prod.collapse append_Nil list.size(3) minus_nat.diff_0)

definition fresh_keyboard :: keyboard where
  "fresh_keyboard = \<lparr> scancodes = replicate 256 0, scancode_head = 250, scancode_tail = 250, shift_pressed = False,
     ctrl_pressed = False, irq_ctrl_pressed = False, escaped = False, switch_requested = False \<rparr>"

theorem scancodes_in_order_witness:
  "fst (drain take_scancode 20 (fold dogeio_keyboard_irq [0x1E, 0x9E, 0x2A, 0x30] fresh_keyboard)) = [0x1E, 0x9E, 0x2A, 0x30]"
  using scancodes_in_order [of fresh_keyboard "[0x1E, 0x9E, 0x2A, 0x30]" 20]
  by (simp add: kb_ok_def pending_def fresh_keyboard_def)

lemma decode_char:
  assumes "code < 58" and "code \<notin> {0x1C, 0x0E, 0x0F, 0x2A, 0x36, 0x1D}" and "\<not> ctrl_pressed k" and "\<not> escaped k"
  shows "fst (dogeio_decode_key code k) = ucast ((if shift_pressed k then map_upper else map_lower) ! unat code)"
proof -
  have "unat code < 58" using assms(1) by (simp add: word_less_nat_alt)
  have "\<not> bit (unat code) 7" using \<open>unat code < 58\<close> by (simp add: bit_iff_odd)
  then have "\<not> bit code 7" by (simp add: bit_unsigned_iff)
  then have "code AND 0x80 = 0" using and_exp_eq_0_iff_not_bit [of code 7] by simp
  moreover have "code \<noteq> 0xE0" "code \<noteq> 0xAA" "code \<noteq> 0xB6" "code \<noteq> 0x9D" "arrow_key code = KEY_UNKNOWN"
    using \<open>unat code < 58\<close> by (auto simp: arrow_key_def)
  ultimately show ?thesis using assms by (auto simp: dogeio_decode_key_def char_key_def Let_def)
qed

definition key_table :: "(u8 \<times> bool \<times> u8) list" where
  "key_table = concat (map (\<lambda>i. [(of_nat i, False, map_lower ! i), (of_nat i, True, map_upper ! i)])
     (filter (\<lambda>i. i \<notin> {0x1C, 0x0E, 0x0F, 0x2A, 0x36, 0x1D}) [0..<58]))"

lemma key_table_complete: "list_all (\<lambda>n. list_ex (\<lambda>(code, shift, c). c = of_nat n) key_table) [32..<127]"
  by code_simp

text \<open>
  every printable ASCII character can be typed: with control and the escape prefix released there
  is a scancode and a position of the shift key for which the decoder returns it.
\<close>

theorem every_character_typeable:
  fixes c :: u8
  assumes "32 \<le> c" and "c < 127" and "\<not> ctrl_pressed k" and "\<not> escaped k"
  shows "\<exists>code shift. fst (dogeio_decode_key code (k \<lparr> shift_pressed := shift \<rparr>)) = ucast c"
proof -
  have "32 \<le> unat c" "unat c < 127" using assms(1,2) by (simp_all add: word_le_nat_alt word_less_nat_alt)
  then have "unat c \<in> set [32..<127]" unfolding set_upt atLeastLessThan_iff by blast
  then have "list_ex (\<lambda>(code, shift, d). d = of_nat (unat c)) key_table"
    using key_table_complete unfolding list_all_iff by blast
  then obtain code shift where "(code, shift, c) \<in> set key_table" by (auto simp: list_ex_iff)
  then obtain i where i: "i < 58" "i \<notin> {0x1C, 0x0E, 0x0F, 0x2A, 0x36, 0x1D}" "code = of_nat i"
      "c = (if shift then map_upper else map_lower) ! i"
    unfolding key_table_def set_concat set_map set_filter set_upt by auto
  have u: "unat code = i" using i(1,3) by (simp add: unat_of_nat)
  then have "code < 58" "code \<notin> {0x1C, 0x0E, 0x0F, 0x2A, 0x36, 0x1D}" using i(1,2) by (auto simp: word_less_nat_alt)
  then have "fst (dogeio_decode_key code (k \<lparr> shift_pressed := shift \<rparr>)) = ucast c"
    using decode_char [of code "k \<lparr> shift_pressed := shift \<rparr>"] assms(3,4) i(4) u by simp
  then show ?thesis by blast
qed

theorem every_character_typeable_witness:
  "\<exists>code shift. fst (dogeio_decode_key code (fresh_keyboard \<lparr> shift_pressed := shift \<rparr>)) = 126"
  using every_character_typeable [of 126 fresh_keyboard] by (simp add: fresh_keyboard_def)

end
