(* ===== verification/Workspaces.thy ===== *)
theory Workspaces
  imports Console Keyboard
begin

text \<open>
  The four workspaces of \<open>kernel/tui/workspaces.c\<close> and the timer of \<open>helper/core/idt/idt.c\<close>. A workspace
  is a saved console; one of them is displayed. The terminal also holds the workspace of every task
  slot and the slot that runs, which \<open>helper/core/execute/scheduler.c\<close> keeps in its task table.
\<close>

abbreviation MAX_TERMINALS :: u32 where "MAX_TERMINALS \<equiv> 4"
abbreviation SCHEDULER_TASK_LIMIT :: nat where "SCHEDULER_TASK_LIMIT \<equiv> 8"

section \<open>State\<close>

record workspace =
  display_buffer :: bytes
  text_colors :: "u32 list"
  background_colors :: "u32 list"
  saved_cursor_x :: u32
  saved_cursor_y :: u32
  saved_text_color :: u32
  saved_background_color :: u32
  saved_video_cursor_x :: u32
  saved_video_cursor_y :: u32
  saved_cursor_visible :: bool
  saved_video_mode :: bool

record pit =
  pit_ticks :: u32
  pit_ticks_per_second :: u32
  status_bar_refresh_pending :: bool

record terminal =
  con :: console
  kbd :: keyboard
  workspaces :: "workspace list"
  workspace_generation :: u32
  rendered_workspace_id :: u32
  task_workspaces :: "u32 list"
  current_task :: nat
  timer :: pit
  status_bar_enabled :: bool

section \<open>The timer\<close>

text \<open>The divisor of the timer chip; programming the chip itself is port output.\<close>

definition pit_divisor :: "u32 \<Rightarrow> u32" where
  "pit_divisor target_frequency =
     (let divisor = 1193182 div target_frequency
      in if divisor = 0 then 1 else if divisor > 0xFFFF then 0xFFFF else divisor)"

definition init_pit :: "u32 \<Rightarrow> pit \<Rightarrow> pit" where
  "init_pit target_frequency p =
     (if target_frequency = 0 then p
      else \<lparr> pit_ticks = 0, pit_ticks_per_second = 1193182 div pit_divisor target_frequency,
             status_bar_refresh_pending = False \<rparr>)"

definition pit_handler :: "pit \<Rightarrow> pit" where
  "pit_handler p =
     (let p = p \<lparr> pit_ticks := pit_ticks p + 1 \<rparr>
      in if pit_ticks p \<ge> pit_ticks_per_second p
         then p \<lparr> pit_ticks := 0, status_bar_refresh_pending := True \<rparr> else p)"

definition pit_take_status_bar_refresh :: "pit \<Rightarrow> bool \<times> pit" where
  "pit_take_status_bar_refresh p =
     (status_bar_refresh_pending p, p \<lparr> status_bar_refresh_pending := False \<rparr>)"

section \<open>Saving and loading\<close>

definition save_console :: "console \<Rightarrow> workspace" where
  "save_console c = \<lparr> display_buffer = text_grid c, text_colors = text_color_grid c,
     background_colors = bg_color_grid c, saved_cursor_x = cursor_x c, saved_cursor_y = cursor_y c,
     saved_text_color = color c, saved_background_color = background_color c,
     saved_video_cursor_x = video_cursor_x c, saved_video_cursor_y = video_cursor_y c,
     saved_cursor_visible = cursor_visible c, saved_video_mode = video_mode c \<rparr>"

definition load_console :: "workspace \<Rightarrow> console \<Rightarrow> console" where
  "load_console w c = c \<lparr> text_grid := display_buffer w, text_color_grid := text_colors w,
     bg_color_grid := background_colors w, cursor_x := saved_cursor_x w, cursor_y := saved_cursor_y w,
     color := saved_text_color w, background_color := saved_background_color w,
     video_cursor_x := saved_video_cursor_x w, video_cursor_y := saved_video_cursor_y w,
     cursor_visible := saved_cursor_visible w, video_mode := saved_video_mode w \<rparr>"

definition sys_workspace_save :: "u32 \<Rightarrow> terminal \<Rightarrow> terminal" where
  "sys_workspace_save workspace_id t =
     (if workspace_id \<ge> MAX_TERMINALS then t
      else t \<lparr> workspaces := (workspaces t)[unat workspace_id := save_console (con t)] \<rparr>)"

definition workspace_load_state :: "u32 \<Rightarrow> bool \<Rightarrow> terminal \<Rightarrow> terminal" where
  "workspace_load_state workspace_id render t =
     (if workspace_id \<ge> MAX_TERMINALS then t
      else t \<lparr> con := dogeio_set_render_enabled render
                         (load_console (workspaces t ! unat workspace_id) (con t)) \<rparr>)"

definition terminal_menubar :: "terminal \<Rightarrow> terminal option" where
  "terminal_menubar t = do { c \<leftarrow> menubar_draw (con t); Some (t \<lparr> con := c \<rparr>) }"

definition sys_workspace_load :: "u32 \<Rightarrow> bool \<Rightarrow> terminal \<Rightarrow> terminal option" where
  "sys_workspace_load workspace_id render t =
     (let t = workspace_load_state workspace_id render t
      in if render \<and> rendered_workspace_id t \<noteq> workspace_id
         then do { t \<leftarrow> terminal_menubar t; Some (t \<lparr> rendered_workspace_id := workspace_id \<rparr>) }
         else Some t)"

definition sys_init_terminals :: "terminal \<Rightarrow> terminal" where
  "sys_init_terminals t =
     (let fg = color (con t); bg = background_color (con t);
          fresh = \<lparr> display_buffer = replicate CELLS 32, text_colors = replicate CELLS fg,
            background_colors = replicate CELLS bg, saved_cursor_x = 0, saved_cursor_y = 1,
            saved_text_color = fg, saved_background_color = bg, saved_video_cursor_x = 0,
            saved_video_cursor_y = 0, saved_cursor_visible = False, saved_video_mode = False \<rparr>
      in sys_workspace_save 0
           (t \<lparr> workspaces := replicate (unat MAX_TERMINALS) fresh, con := (con t) \<lparr> current_terminal_id := 0 \<rparr>,
                kbd := (kbd t) \<lparr> switch_requested := False \<rparr>, workspace_generation := 0,
                rendered_workspace_id := 0 \<rparr>))"

definition scheduler_current_workspace :: "terminal \<Rightarrow> u32" where
  "scheduler_current_workspace t = task_workspaces t ! current_task t"

definition scheduler_set_shell_workspace :: "u32 \<Rightarrow> terminal \<Rightarrow> terminal" where
  "scheduler_set_shell_workspace workspace_id t =
     (if workspace_id \<ge> MAX_TERMINALS then t
      else t \<lparr> task_workspaces := (task_workspaces t)[0 := workspace_id] \<rparr>)"

definition displayed :: "terminal \<Rightarrow> u32" where
  "displayed t = word_of_int (current_terminal_id (con t))"

definition sys_switch_terminal :: "terminal \<Rightarrow> terminal option" where
  "sys_switch_terminal t =
     (let t = sys_workspace_save (scheduler_current_workspace t) t;
          t = t \<lparr> con := (con t) \<lparr> current_terminal_id := (current_terminal_id (con t) + 1) mod 4 \<rparr>,
                  workspace_generation := workspace_generation t + 1,
                  kbd := dogeio_discard_pending_keys (kbd t) \<rparr>;
          t = scheduler_set_shell_workspace (displayed t) t;
          t = workspace_load_state (displayed t) True t
      in do { t \<leftarrow> terminal_menubar t; Some (t \<lparr> rendered_workspace_id := displayed t \<rparr>) })"

section \<open>Every workspace keeps its screen\<close>

text \<open>A screen without the row of the menu bar.\<close>

definition body :: "workspace \<Rightarrow> workspace" where
  "body w = w \<lparr> display_buffer := drop 160 (display_buffer w), text_colors := drop 160 (text_colors w),
     background_colors := drop 160 (background_colors w) \<rparr>"

text \<open>The screen of a workspace: the console for the one of the running task, else what is saved.\<close>

definition screen :: "terminal \<Rightarrow> nat \<Rightarrow> workspace" where
  "screen t i = body (if i = unat (scheduler_current_workspace t) then save_console (con t) else workspaces t ! i)"

definition wf_workspace :: "workspace \<Rightarrow> bool" where
  "wf_workspace w \<longleftrightarrow> length (display_buffer w) = CELLS \<and> length (text_colors w) = CELLS
     \<and> length (background_colors w) = CELLS \<and> saved_cursor_x w < TERMINAL_COLS \<and> saved_cursor_y w < TERMINAL_ROWS
     \<and> \<not> saved_video_mode w"

definition wf_terminal :: "terminal \<Rightarrow> bool" where
  "wf_terminal t \<longleftrightarrow> wf_console (con t) \<and> \<not> video_mode (con t) \<and> length (workspaces t) = 4
     \<and> (\<forall>w\<in>set (workspaces t). wf_workspace w) \<and> length (task_workspaces t) = SCHEDULER_TASK_LIMIT
     \<and> (\<forall>i\<in>set (task_workspaces t). i < MAX_TERMINALS) \<and> current_task t < SCHEDULER_TASK_LIMIT"

lemma wf_save: "wf_console c \<Longrightarrow> \<not> video_mode c \<Longrightarrow> wf_workspace (save_console c)"
  by (simp add: wf_console_def wf_grids_def on_screen_def wf_workspace_def save_console_def)

lemma wf_load: "wf_workspace w \<Longrightarrow> bar_ok c \<Longrightarrow> wf_console (load_console w c) \<and> \<not> video_mode (load_console w c)"
  by (simp add: wf_console_def wf_grids_def on_screen_def wf_workspace_def load_console_def bar_ok_def)

lemma save_load [simp]: "save_console (load_console w c) = w"
  by (simp add: save_console_def load_console_def)

lemma save_ignores [simp]:
  "save_console (c \<lparr> current_terminal_id := i \<rparr>) = save_console c"
  "save_console (dogeio_set_render_enabled b c) = save_console c"
  by (simp_all add: save_console_def dogeio_set_render_enabled_def)

lemma wf_console_render [simp]: "wf_console (dogeio_set_render_enabled b c) = wf_console c"
  "video_mode (dogeio_set_render_enabled b c) = video_mode c"
  by (simp_all add: dogeio_set_render_enabled_def wf_console_def wf_grids_def on_screen_def bar_ok_def)

lemma current_workspace_less: "wf_terminal t \<Longrightarrow> scheduler_current_workspace t < MAX_TERMINALS"
  by (simp add: wf_terminal_def scheduler_current_workspace_def)

lemma displayed_less: "wf_terminal t \<Longrightarrow> unat (displayed t) < 4 \<and> displayed t < MAX_TERMINALS
    \<and> unat (displayed t) = nat (current_terminal_id (con t))"
proof -
  assume "wf_terminal t"
  then have "current_terminal_id (con t) \<in> {0, 1, 2, 3}" by (auto simp: wf_terminal_def wf_console_def bar_ok_def)
  then show ?thesis by (auto simp: displayed_def)
qed

lemma menubar_keeps_screen:
  assumes "wf_console c" and "\<not> video_mode c"
  shows "\<exists>c'. menubar_draw c = Some c' \<and> wf_console c' \<and> same_mode c c' \<and> render_enabled c' = render_enabled c
     \<and> body (save_console c') = body (save_console c)"
proof -
  have "wf_grids c" "bar_ok c" using assms(1) by (simp_all add: wf_console_def)
  from menubar_draw_ok [OF this(1) assms(2) this(2)] obtain c' where c': "menubar_draw c = Some c'" "wf_grids c'"
    "same_mode c c'" "cursor_x c' = cursor_x c" "cursor_y c' = cursor_y c" "drawn_within 160 c c'" by auto
  moreover have "wf_console c'" using assms c' by (simp add: wf_console_def on_screen_def bar_ok_same)
  moreover have "body (save_console c') = body (save_console c)"
    using c' by (simp add: body_def save_console_def drawn_within_def same_mode_def)
  ultimately show ?thesis by (auto simp: drawn_within_def)
qed
lemma sys_workspace_save_con: "con (sys_workspace_save i t) = con t"
  by (simp add: sys_workspace_save_def)

text \<open>Switching stores the running screen, and shows the stored one of the next workspace.\<close>

lemma sys_switch_terminal_ok:
  assumes "wf_terminal t"
  shows "\<exists>t'. sys_switch_terminal t = Some t' \<and> wf_terminal t' \<and> current_task t' = current_task t
     \<and> unat (displayed t') = Suc (unat (displayed t)) mod 4 \<and> task_workspaces t' = (task_workspaces t)[0 := displayed t']
     \<and> body (save_console (con t')) = body (workspaces t' ! unat (displayed t'))
     \<and> (\<forall>i<4. body (workspaces t' ! i) = screen t i) \<and> workspace_generation t' = workspace_generation t + 1
     \<and> pending (kbd t') = [] \<and> rendered_workspace_id t' = displayed t' \<and> render_enabled (con t')"
proof -
  let ?a = "scheduler_current_workspace t"
  have a: "?a < MAX_TERMINALS" "unat ?a < 4"
    using current_workspace_less [OF assms] by (simp_all add: word_less_nat_alt)
  obtain n where n_def: "(current_terminal_id (con t) + 1) mod 4 = n" by simp
  obtain d where d_def: "(word_of_int n :: u32) = d" by simp
  note w = assms [unfolded wf_terminal_def]
  have "current_terminal_id (con t) \<in> {0, 1, 2, 3}" using w by (auto simp: wf_console_def bar_ok_def)
  then have d: "0 \<le> n" "n < 4" "d < MAX_TERMINALS" "unat d < 4" "unat d = nat n"
      "unat d = Suc (unat (displayed t)) mod 4"
    by (auto simp: n_def [symmetric] d_def [symmetric] displayed_def)
  define ws where "ws = (workspaces t)[unat ?a := save_console (con t)]"
  have ws: "length ws = 4" "\<forall>v\<in>set ws. wf_workspace v" "\<forall>i<4. body (ws ! i) = screen t i"
    using w wf_save [of "con t"] by (auto simp: ws_def screen_def nth_list_update dest!: set_update_subset_insert [THEN subsetD])
  define c where "c = dogeio_set_render_enabled True (load_console (ws ! unat d) ((con t) \<lparr> current_terminal_id := n \<rparr>))"
  have "bar_ok ((con t) \<lparr> current_terminal_id := n \<rparr>)" using w d by (simp add: wf_console_def bar_ok_def)
  moreover have "wf_workspace (ws ! unat d)" using ws(1,2) d(4) by simp
  ultimately have c: "wf_console c" "\<not> video_mode c" "body (save_console c) = body (ws ! unat d)"
    using wf_load [of "ws ! unat d"] by (simp_all add: c_def)
  have m: "current_terminal_id c = n" "render_enabled c"
    by (simp_all add: c_def load_console_def dogeio_set_render_enabled_def)
  from menubar_keeps_screen [OF c(1,2)] obtain c' where c': "menubar_draw c = Some c'" "wf_console c'"
    "same_mode c c'" "body (save_console c') = body (save_console c)" "render_enabled c'" using m(2) by auto
  let ?t = "t \<lparr> con := c', workspaces := ws, workspace_generation := workspace_generation t + 1,
    kbd := dogeio_discard_pending_keys (kbd t), task_workspaces := (task_workspaces t)[0 := d],
    rendered_workspace_id := d \<rparr>"
  have n': "(current_terminal_id (con (sys_workspace_save ?a t)) + 1) mod 4 = n"
    using n_def by (simp only: sys_workspace_save_con)
  have nd: "\<not> MAX_TERMINALS \<le> d" "\<not> MAX_TERMINALS \<le> ?a" using d(3) a(1) by (simp_all add: not_le)
  have s: "sys_switch_terminal t = Some ?t"
    unfolding sys_switch_terminal_def Let_def n' using nd c'(1,3) m(1)
    by (simp add: sys_workspace_save_def scheduler_set_shell_workspace_def
        workspace_load_state_def displayed_def terminal_menubar_def d_def ws_def [symmetric] c_def [symmetric] same_mode_def)
  have dd: "displayed ?t = d" using c'(3) m(1) by (simp add: displayed_def d_def same_mode_def)
  have "wf_terminal ?t" using w ws c' c(2) d(3)
    by (auto simp: wf_terminal_def same_mode_def dest!: set_update_subset_insert [THEN subsetD])
  moreover have "pending (kbd ?t) = []" by (simp add: dogeio_discard_pending_keys_def pending_def)
  ultimately show ?thesis using s dd ws(3) c'(4,5) c(3) d(6) by auto
qed

text \<open>The shell runs and owns the displayed workspace.\<close>

definition shell_shown :: "terminal \<Rightarrow> bool" where
  "shell_shown t \<longleftrightarrow> current_task t = 0 \<and> scheduler_current_workspace t = displayed t"

lemma switch_screen:
  assumes "wf_terminal t" and "shell_shown t"
  shows "\<exists>t'. sys_switch_terminal t = Some t' \<and> wf_terminal t' \<and> shell_shown t'
     \<and> unat (displayed t') = Suc (unat (displayed t)) mod 4 \<and> (\<forall>i<4. screen t' i = screen t i)"
proof -
  from sys_switch_terminal_ok [OF assms(1)] obtain t' where t': "sys_switch_terminal t = Some t'" "wf_terminal t'"
    "current_task t' = current_task t" "unat (displayed t') = Suc (unat (displayed t)) mod 4"
    "task_workspaces t' = (task_workspaces t)[0 := displayed t']"
    "body (save_console (con t')) = body (workspaces t' ! unat (displayed t'))"
    "\<forall>i<4. body (workspaces t' ! i) = screen t i" by blast
  have "scheduler_current_workspace t' = displayed t'"
    using assms t'(2,3,5) by (simp add: shell_shown_def scheduler_current_workspace_def wf_terminal_def)
  moreover from this t'(6,7) have "\<forall>i<4. screen t' i = screen t i" by (simp add: screen_def)
  ultimately show ?thesis using t' assms(2) by (auto simp: shell_shown_def)
qed

lemma switches_screen:
  assumes "wf_terminal t" and "shell_shown t"
  shows "\<exists>t'. for_each (\<lambda>_. sys_switch_terminal) (replicate n ()) t = Some t' \<and> wf_terminal t' \<and> shell_shown t'
     \<and> unat (displayed t') = (unat (displayed t) + n) mod 4 \<and> (\<forall>i<4. screen t' i = screen t i)"
  using assms
proof (induction n arbitrary: t)
  case 0
  then show ?case using displayed_less [THEN conjunct1, of t] by simp
next
  case (Suc n)
  from switch_screen [OF Suc.prems] obtain u where u: "sys_switch_terminal t = Some u" "wf_terminal u" "shell_shown u"
    "unat (displayed u) = Suc (unat (displayed t)) mod 4" "\<forall>i<4. screen u i = screen t i" by blast
  from Suc.IH [OF u(2,3)] obtain t' where "for_each (\<lambda>_. sys_switch_terminal) (replicate n ()) u = Some t'" "wf_terminal t'"
    "shell_shown t'" "unat (displayed t') = (unat (displayed u) + n) mod 4" "\<forall>i<4. screen t' i = screen u i" by blast
  with u show ?case by (auto simp: mod_simps)
qed

text \<open>The terminal after \<open>sys_init_terminals\<close>.\<close>

definition boot_terminal :: terminal where
  "boot_terminal = sys_init_terminals \<lparr> con = blank_console, kbd = fresh_keyboard, workspaces = [],
     workspace_generation = 0, rendered_workspace_id = 0, task_workspaces = replicate SCHEDULER_TASK_LIMIT 0,
     current_task = 0, timer = init_pit 100 \<lparr> pit_ticks = 0, pit_ticks_per_second = 0, status_bar_refresh_pending = False \<rparr>,
     status_bar_enabled = True \<rparr>"

lemma boot_terminal_ok: "wf_terminal boot_terminal \<and> shell_shown boot_terminal \<and> con boot_terminal = blank_console"
proof -
  have c: "con boot_terminal = blank_console"
    by (simp add: boot_terminal_def sys_init_terminals_def sys_workspace_save_def Let_def blank_console_def)
  have "wf_workspace w" if "w \<in> set (workspaces boot_terminal)" for w
    using that by (auto simp: boot_terminal_def sys_init_terminals_def sys_workspace_save_def Let_def wf_workspace_def
        save_console_def blank_console_def set_update_subset_insert [THEN subsetD] dest!: set_update_subset_insert [THEN subsetD])
  moreover have "length (workspaces boot_terminal) = 4" "length (task_workspaces boot_terminal) = SCHEDULER_TASK_LIMIT"
    "\<forall>i\<in>set (task_workspaces boot_terminal). i < MAX_TERMINALS" "current_task boot_terminal = 0"
    by (simp_all add: boot_terminal_def sys_init_terminals_def sys_workspace_save_def Let_def)
  ultimately show ?thesis using c blank_wf
    by (simp add: wf_terminal_def shell_shown_def scheduler_current_workspace_def displayed_def)
      (simp add: boot_terminal_def sys_init_terminals_def sys_workspace_save_def Let_def blank_console_def)
qed

section \<open>Properties\<close>



end
