(* ===== verification/LineInput.thy ===== *)
theory LineInput
  imports Workspaces
begin

text \<open>
  Waiting for keys and editing a line: \<open>dogeio_get_key\<close> and \<open>dogeio_input\<close> of
  \<open>helper/dogeio/input.c\<close>. The interrupts to come are part of the state and are taken one at a time
  where the processor halts; when none is left the machine waits forever, which is \<open>None\<close>. A timer
  interrupt runs the scheduler with the waiting task as the only active one. The line buffer is a
  list of its real size, so that a store behind its end, or outside the character grid, is \<open>None\<close>.
\<close>

section \<open>Interrupts\<close>

datatype irq = Timer | Scancode u8

record tty =
  trm :: terminal
  irqs :: "irq list"

text \<open>\<open>isr_common_handler\<close> for the timer, with \<open>scheduler_on_timer\<close> finding no other task: the screen
  is saved, a requested switch happens, and the screen of the task is loaded again.\<close>

definition timer_tick :: "terminal \<Rightarrow> terminal option" where
  "timer_tick t =
     (let t = t \<lparr> timer := pit_handler (timer t) \<rparr>;
          t = sys_workspace_save (scheduler_current_workspace t) t;
          (requested, k) = sys_workspace_take_switch_request (kbd t);
          t = t \<lparr> kbd := k \<rparr>
      in do {
        t \<leftarrow> (if requested then sys_switch_terminal t else Some t);
        let w = scheduler_current_workspace t;
        sys_workspace_load w (w = displayed t) t
      })"

definition take_interrupt :: "tty \<Rightarrow> tty option" where
  "take_interrupt s =
     (case irqs s of
        [] \<Rightarrow> None
      | Timer # r \<Rightarrow> do { t \<leftarrow> timer_tick (trm s); Some (s \<lparr> trm := t, irqs := r \<rparr>) }
      | Scancode c # r \<Rightarrow>
          Some (s \<lparr> trm := (trm s) \<lparr> kbd := dogeio_keyboard_irq c (kbd (trm s)) \<rparr>, irqs := r \<rparr>))"

section \<open>Keys\<close>

definition refresh_status_bar :: "terminal \<Rightarrow> terminal option" where
  "refresh_status_bar t =
     (if status_bar_enabled t \<and> \<not> is_kernel_dead (bar (con t))
      then let (refresh, p) = pit_take_status_bar_refresh (timer t); t = t \<lparr> timer := p \<rparr>
           in if refresh then terminal_menubar t else Some t
      else Some t)"

partial_function (option) get_key_wait :: "u32 \<Rightarrow> tty \<Rightarrow> (u16 \<times> tty) option" where
  "get_key_wait generation s =
     (if generation \<noteq> workspace_generation (trm s) then Some (KEY_CTRL_TAB, s)
      else if scheduler_current_workspace (trm s) \<noteq> displayed (trm s)
      then do { s \<leftarrow> take_interrupt s; get_key_wait generation s }
      else do {
        t \<leftarrow> refresh_status_bar (trm s);
        (case take_scancode (kbd t) of
           None \<Rightarrow> do { s \<leftarrow> take_interrupt (s \<lparr> trm := t \<rparr>); get_key_wait generation s }
         | Some (scancode, k) \<Rightarrow>
             (case dogeio_decode_key scancode k of
                (key, k) \<Rightarrow>
                  if key \<noteq> KEY_UNKNOWN
                  then do { t \<leftarrow> refresh_status_bar (t \<lparr> kbd := k \<rparr>); Some (key, s \<lparr> trm := t \<rparr>) }
                  else get_key_wait generation (s \<lparr> trm := t \<lparr> kbd := k \<rparr> \<rparr>)))
      })"

definition dogeio_get_key :: "tty \<Rightarrow> (u16 \<times> tty) option" where
  "dogeio_get_key s = get_key_wait (workspace_generation (trm s)) s"

section \<open>The line\<close>

text \<open>The buffer, the length of the line and the position of the cursor in it.\<close>

record line =
  buffer :: bytes
  llen :: nat
  pos :: nat

definition step_right :: "console \<Rightarrow> console" where
  "step_right c =
     (let c = c \<lparr> cursor_x := cursor_x c + 1 \<rparr>
      in if cursor_x c \<ge> TERMINAL_COLS then c \<lparr> cursor_x := 0, cursor_y := cursor_y c + 1 \<rparr> else c)"

text \<open>Redrawing characters from the cursor on; the cursor returns to where it was.\<close>

definition redraw :: "bytes \<Rightarrow> console \<Rightarrow> console option" where
  "redraw s c =
     do {
       d \<leftarrow> for_each (\<lambda>ch c. do { c \<leftarrow> put_cell ch c; Some (step_right c) }) s c;
       Some (d \<lparr> cursor_x := cursor_x c, cursor_y := cursor_y c \<rparr>)
     }"

definition shift_up :: "nat \<Rightarrow> line \<Rightarrow> bytes option" where
  "shift_up k l =
     for_each (\<lambda>i b. do { v \<leftarrow> buf_get b (i - k); buf_set b i v }) (rev [pos l + k..<Suc (llen l + k)]) (buffer l)"

definition shift_down :: "line \<Rightarrow> bytes option" where
  "shift_down l =
     for_each (\<lambda>i b. do { v \<leftarrow> buf_get b (i + 1); buf_set b i v }) [pos l - 1..<llen l] (buffer l)"

text \<open>Inserting a run of \<open>k\<close> equal characters: one for a character key, eight for a tabulator.\<close>

definition insert_run :: "nat \<Rightarrow> u8 \<Rightarrow> nat \<Rightarrow> line \<Rightarrow> console \<Rightarrow> (line \<times> console) option" where
  "insert_run k ch max_size l c =
     (if llen l + k < max_size
      then do {
        let c = dogeio_cursor_hide c;
        b \<leftarrow> shift_up k l;
        b \<leftarrow> for_each (\<lambda>i b. buf_set b (pos l + i) ch) [0..<k] b;
        b \<leftarrow> buf_set b (llen l + k) 0;
        c \<leftarrow> redraw (drop (pos l) (take (llen l + k) b)) c;
        Some (\<lparr> buffer = b, llen = llen l + k, pos = pos l + k \<rparr>, dogeio_cursor_show ((step_right ^^ k) c))
      }
      else Some (l, c))"

definition move_left :: "line \<Rightarrow> console \<Rightarrow> line \<times> console" where
  "move_left l c =
     (if pos l > 0 then (l \<lparr> pos := pos l - 1 \<rparr>, dogeio_cursor_show (back_cell (dogeio_cursor_hide c))) else (l, c))"

definition move_right :: "line \<Rightarrow> console \<Rightarrow> line \<times> console" where
  "move_right l c =
     (if pos l < llen l then (l \<lparr> pos := pos l + 1 \<rparr>, dogeio_cursor_show (step_right (dogeio_cursor_hide c))) else (l, c))"

definition erase_left :: "line \<Rightarrow> console \<Rightarrow> (line \<times> console) option" where
  "erase_left l c =
     (if pos l > 0
      then do {
        let c = dogeio_cursor_hide c;
        b \<leftarrow> shift_down l;
        let n = llen l - 1; let p = pos l - 1;
        b \<leftarrow> buf_set b n 0;
        c \<leftarrow> redraw (drop p (take n b) @ [32]) (back_cell c);
        Some (\<lparr> buffer = b, llen = n, pos = p \<rparr>, dogeio_cursor_show c)
      }
      else Some (l, c))"

definition edit_key :: "nat \<Rightarrow> u16 \<Rightarrow> line \<Rightarrow> console \<Rightarrow> (line \<times> console) option" where
  "edit_key max_size key l c =
     (if key = KEY_LEFT then Some (move_left l c)
      else if key = KEY_TAB \<or> key = 9 \<or> key = 0x000F \<or> key = 0x000D then insert_run 8 32 max_size l c
      else if key = KEY_RIGHT then Some (move_right l c)
      else if key = KEY_BACKSPACE then erase_left l c
      else if key \<ge> 32 \<and> key < 127 then insert_run 1 (ucast key) max_size l c
      else Some (l, c))"

section \<open>Reading a line\<close>

definition on_console :: "(console \<Rightarrow> console option) \<Rightarrow> tty \<Rightarrow> tty option" where
  "on_console f s = do { c \<leftarrow> f (con (trm s)); Some (s \<lparr> trm := (trm s) \<lparr> con := c \<rparr> \<rparr>) }"

definition announce_cancel :: "console \<Rightarrow> console option" where
  "announce_cancel c =
     do { c \<leftarrow> dogeio_println (Some []) c; dogeio_println (Some (asc ''[Input cancelled]'')) c }"

definition empty_line :: "bytes \<Rightarrow> line option" where
  "empty_line b = do { b \<leftarrow> buf_set b 0 0; Some \<lparr> buffer = b, llen = 0, pos = 0 \<rparr> }"

definition show_prompt :: "bytes option \<Rightarrow> console \<Rightarrow> console option" where
  "show_prompt prompt c = do { c \<leftarrow> dogeio_print prompt c; Some (dogeio_cursor_show c) }"

partial_function (option) input_loop ::
  "bytes option \<Rightarrow> nat \<Rightarrow> u32 \<Rightarrow> line \<Rightarrow> tty \<Rightarrow> (line \<times> tty) option" where
  "input_loop prompt max_size generation l s =
     do {
       (key, s) \<leftarrow> dogeio_get_key s;
       (if generation \<noteq> workspace_generation (trm s) then do {
          s \<leftarrow> on_console announce_cancel s;
          l \<leftarrow> empty_line (buffer l);
          let generation = workspace_generation (trm s);
          s \<leftarrow> on_console (show_prompt prompt) s;
          input_loop prompt max_size generation l s
        }
        else if key = KEY_CTRL_TAB then do {
          s \<leftarrow> on_console announce_cancel s;
          t \<leftarrow> sys_switch_terminal (trm s);
          let s = s \<lparr> trm := t \<rparr>;
          l \<leftarrow> empty_line (buffer l);
          let generation = workspace_generation (trm s);
          s \<leftarrow> on_console (show_prompt prompt) s;
          input_loop prompt max_size generation l s
        }
        else if key = KEY_ENTER then do { s \<leftarrow> on_console (dogeio_print (Some [10])) s; Some (l, s) }
        else do {
          (l, c) \<leftarrow> edit_key max_size key l (con (trm s));
          input_loop prompt max_size generation l (s \<lparr> trm := (trm s) \<lparr> con := c \<rparr> \<rparr>)
        })
     }"

definition dogeio_input :: "bytes option \<Rightarrow> bytes \<Rightarrow> nat \<Rightarrow> tty \<Rightarrow> (bytes \<times> tty) option" where
  "dogeio_input prompt buf max_size s =
     do {
       s \<leftarrow> on_console (dogeio_print prompt) s;
       l \<leftarrow> empty_line buf;
       s \<leftarrow> on_console (\<lambda>c. Some (dogeio_cursor_show c)) s;
       (l, s) \<leftarrow> input_loop prompt max_size (workspace_generation (trm s)) l s;
       s \<leftarrow> on_console (\<lambda>c. Some (dogeio_cursor_hide c)) s;
       b \<leftarrow> buf_set (buffer l) (llen l) 0;
       Some (b, s)
     }"

section \<open>Cursor steps and redrawing\<close>

lemma step_right_at:
  assumes "on_screen c" and "Suc (place c) < CELLS"
  shows "step_right c = at (Suc (place c)) c"
proof -
  have xy: "unat (cursor_x c) < 160" "unat (cursor_y c) < 50"
    using assms(1) by (simp_all add: on_screen_def word_less_nat_alt)
  have x1: "unat (cursor_x c + 1) = unat (cursor_x c) + 1" using xy by (simp add: unat_word_ariths)
  show ?thesis
  proof (cases "unat (cursor_x c) = 159")
    case True
    then have "Suc (place c) = (unat (cursor_y c) + 1) * 160" by (simp add: place_def)
    moreover have "of_nat (unat (cursor_y c) + 1) = cursor_y c + 1" by simp
    ultimately show ?thesis using x1 True
      by (simp add: step_right_def Let_def at_def word_le_nat_alt)
  next
    case False
    then have x: "Suc (unat (cursor_x c)) < 160" using xy by simp
    then have "Suc (place c) mod 160 = Suc (unat (cursor_x c))" "Suc (place c) div 160 = unat (cursor_y c)"
      unfolding place_def by (simp_all add: mod_Suc div_Suc)
    then show ?thesis using x1 x by (simp add: step_right_def Let_def at_def word_le_nat_alt)
  qed
qed

lemma steps_right_at:
  "on_screen c \<Longrightarrow> place c + k < CELLS \<Longrightarrow> (step_right ^^ k) c = at (place c + k) c"
proof (induction k)
  case 0
  then show ?case by (simp add: at_place)
next
  case (Suc k)
  have "place (at (place c + k) c) = place c + k" "on_screen (at (place c + k) c)"
    using place_at [of "place c + k" c] Suc.prems(2) by simp_all
  with Suc step_right_at [of "at (place c + k) c"] show ?case by simp
qed

lemma back_cell_at:
  assumes "on_screen c" and "160 < place c"
  shows "back_cell c = at (place c - 1) c"
proof (cases "cursor_x c = 0")
  case True
  then have p: "place c = unat (cursor_y c) * 160" by (simp add: place_def)
  with assms(2) have "1 < unat (cursor_y c)" by simp
  then obtain y where y: "unat (cursor_y c) = Suc y" "0 < y" by (cases "unat (cursor_y c)") auto
  have "unat (cursor_y c - 1) = y" using y(1) unat_minus_one [of "cursor_y c"] by (metis diff_Suc_1 nat.distinct(1) unat_0)
  then have "of_nat y = cursor_y c - 1" by (metis of_nat_unat ucast_id)
  moreover have "(place c - 1) mod 160 = 159" "(place c - 1) div 160 = y" using p y(1) by simp_all
  moreover have "1 < cursor_y c" using \<open>1 < unat (cursor_y c)\<close> by (simp add: word_less_nat_alt)
  ultimately show ?thesis using True by (simp add: back_cell_def at_def)
next
  case False
  then have x: "0 < unat (cursor_x c)" by (simp add: unat_gt_0)
  moreover have "unat (cursor_x c) < 160" using assms(1) by (simp add: on_screen_def word_less_nat_alt)
  ultimately have "(place c - 1) mod 160 = unat (cursor_x c) - 1" "(place c - 1) div 160 = unat (cursor_y c)"
    unfolding place_def by (cases "unat (cursor_x c)"; simp)+
  moreover have "of_nat (unat (cursor_x c) - 1) = cursor_x c - 1" using x by (simp add: of_nat_diff)
  ultimately show ?thesis using False x by (simp add: back_cell_def at_def word_gt_0)
qed

lemma draw_string_append: "draw_string p (s @ u) c = draw_string (p + length s) u (draw_string p s c)"
  by (induction s arbitrary: p c) simp_all

lemma restore_cursor [simp]:
  "(at q d) \<lparr> cursor_x := cursor_x d, cursor_y := cursor_y d \<rparr> = d"
  by (simp add: at_def)

lemma redraw_eq:
  assumes "wf_grids c" and "on_screen c" and "place c + length s < CELLS"
  shows "redraw s c = Some (draw_string (place c) s c)"
proof -
  have "for_each (\<lambda>ch c. do { c \<leftarrow> put_cell ch c; Some (step_right c) }) s c
      = Some (at (place c + length s) (draw_string (place c) s c))"
    using assms
  proof (induction s arbitrary: c)
    case Nil
    then show ?case by (simp add: at_place)
  next
    case (Cons ch s)
    let ?c = "at (Suc (place c)) (draw (place c) ch c)"
    have "put_cell ch c = Some (draw (place c) ch c)" using Cons.prems by (simp add: put_cell_eq)
    moreover have "step_right (draw (place c) ch c) = ?c"
      using step_right_at [of "draw (place c) ch c"] Cons.prems by simp
    moreover have "place ?c = Suc (place c)" "on_screen ?c" using place_at [of "Suc (place c)"] Cons.prems(3) by simp_all
    ultimately show ?case using Cons.IH [of ?c] Cons.prems by (simp add: draw_string_at)
  qed
  then show ?thesis
    using restore_cursor [where q = "place c + length s" and d = "draw_string (place c) s c"] by (simp add: redraw_def)
qed

section \<open>The buffer\<close>

lemma copy_up:
  assumes "a + k + n \<le> length b"
  shows "for_each (\<lambda>i b. do { v \<leftarrow> buf_get b (i - k); buf_set b i v }) (rev [a + k..<a + k + n]) b
    = Some (buf_put b (a + k) (take n (drop a b)))"
  using assms
proof (induction n arbitrary: b)
  case (Suc n)
  let ?b = "b[a + k + n := b ! (a + n)]"
  have "take n (drop a ?b) = take n (drop a b)"
    by (rule nth_equalityI) (use Suc.prems in \<open>auto simp: nth_list_update\<close>)
  moreover have "buf_put ?b (a + k) (take n (drop a b)) = buf_put b (a + k) (take (Suc n) (drop a b))"
    using Suc.prems by (simp add: buf_put_def take_Suc_conv_app_nth drop_update_swap upd_conv_take_nth_drop)
  moreover have "rev [a + k..<a + k + Suc n] = (a + k + n) # rev [a + k..<a + k + n]" by simp
  ultimately show ?case using Suc.IH [of ?b] Suc.prems by (simp add: buf_get_def buf_set_def)
qed simp

lemma copy_down:
  assumes "a + n < length b"
  shows "for_each (\<lambda>i b. do { v \<leftarrow> buf_get b (i + 1); buf_set b i v }) [a..<a + n] b
    = Some (buf_put b a (take n (drop (Suc a) b)))"
  using assms
proof (induction n arbitrary: a b)
  case (Suc n)
  let ?b = "b[a := b ! Suc a]"
  have "take n (drop (Suc (Suc a)) ?b) = take n (drop (Suc (Suc a)) b)" by simp
  moreover have "take (Suc n) (drop (Suc a) b) = b ! Suc a # take n (drop (Suc (Suc a)) b)"
    using Suc.prems by (simp add: Cons_nth_drop_Suc [symmetric])
  moreover have "[a..<a + Suc n] = a # [Suc a..<Suc a + n]" by (simp add: upt_conv_Cons)
  ultimately show ?case using Suc.IH [of "Suc a" ?b] Suc.prems
    by (simp add: buf_get_def buf_set_def buf_put_step)
qed simp

lemma fill_run:
  assumes "p + k \<le> length b"
  shows "for_each (\<lambda>i b. buf_set b (p + i) ch) [0..<k] b = Some (buf_put b p (replicate k ch))"
proof -
  have "for_each (\<lambda>i b. buf_set b (p + i) ch) [j..<j + n] b = Some (buf_put b (p + j) (replicate n ch))"
    if "p + j + n \<le> length b" for j n
    using that
  proof (induction n arbitrary: j b)
    case (Suc n)
    moreover have "[j..<j + Suc n] = j # [Suc j..<Suc j + n]" by (simp add: upt_conv_Cons)
    ultimately show ?case using Suc.IH [of "Suc j" "b[p + j := ch]"] by (simp add: buf_set_def buf_put_step)
  qed simp
  from this [of 0 k] assms show ?thesis by simp
qed

section \<open>The line editor\<close>

text \<open>What the keys mean: a text split at the cursor, the left part reversed.\<close>

type_synonym zipper = "bytes \<times> bytes"

definition z_text :: "zipper \<Rightarrow> bytes" where
  "z_text z = rev (fst z) @ snd z"

definition z_insert :: "nat \<Rightarrow> u8 \<Rightarrow> nat \<Rightarrow> zipper \<Rightarrow> zipper" where
  "z_insert k ch max_size z =
     (if length (z_text z) + k < max_size then (replicate k ch @ fst z, snd z) else z)"

fun z_left :: "zipper \<Rightarrow> zipper" where
  "z_left (x # ls, rs) = (ls, x # rs)"
| "z_left ([], rs) = ([], rs)"

fun z_right :: "zipper \<Rightarrow> zipper" where
  "z_right (ls, x # rs) = (x # ls, rs)"
| "z_right (ls, []) = (ls, [])"

fun z_erase :: "zipper \<Rightarrow> zipper" where
  "z_erase (x # ls, rs) = (ls, rs)"
| "z_erase ([], rs) = ([], rs)"

definition edit :: "nat \<Rightarrow> u16 \<Rightarrow> zipper \<Rightarrow> zipper" where
  "edit max_size key z =
     (if key = KEY_LEFT then z_left z
      else if key \<in> {KEY_TAB, 0xF, 0xD} then z_insert 8 32 max_size z
      else if key = KEY_RIGHT then z_right z
      else if key = KEY_BACKSPACE then z_erase z
      else if 32 \<le> key \<and> key < 127 then z_insert 1 (ucast key) max_size z
      else z)"

text \<open>The line in its buffer and on the screen: the text starts at place \<open>p\<close>, and outside the area of
  the line the screen is \<open>g\<close>, apart from the menu bar.\<close>

definition line_in :: "nat \<Rightarrow> zipper \<Rightarrow> line \<Rightarrow> bool" where
  "line_in max_size z l \<longleftrightarrow> (\<exists>r. buffer l = z_text z @ 0 # r) \<and> llen l = length (z_text z) \<and> pos l = length (fst z)
     \<and> length (z_text z) < max_size \<and> max_size \<le> length (buffer l)"

definition line_on :: "nat \<Rightarrow> nat \<Rightarrow> bytes \<Rightarrow> zipper \<Rightarrow> console \<Rightarrow> bool" where
  "line_on max_size p g z c \<longleftrightarrow> wf_grids c \<and> on_screen c \<and> place c = p + length (fst z) \<and> plain_text (z_text z)
     \<and> take (length (z_text z)) (drop p (text_grid c)) = z_text z
     \<and> take (p - 160) (drop 160 (text_grid c)) = take (p - 160) (drop 160 g)
     \<and> drop (p + max_size) (text_grid c) = drop (p + max_size) g"

lemma z_text_moves [simp]:
  "z_text (z_left z) = z_text z" "z_text (z_right z) = z_text z"
  by (cases z rule: z_left.cases; simp add: z_text_def) (cases z rule: z_right.cases; simp add: z_text_def)

lemma shown_plain: "plain_text s \<Longrightarrow> map (shown c) s = s"
proof -
  assume "plain_text s"
  have "shown c ch = ch" if "ch \<in> set s" for ch
  proof -
    have "ch < 127" using that \<open>plain_text s\<close> by (simp add: plain_text_def)
    then have "\<not> 128 \<le> ch" by (simp add: word_le_nat_alt word_less_nat_alt)
    then show ?thesis by (simp add: shown_def)
  qed
  then show ?thesis by (simp add: map_idI)
qed

lemma draw_string_text:
  assumes "p + length s \<le> CELLS" and "wf_grids c"
  shows "text_grid (draw_string p s c) = buf_put (text_grid c) p (map (shown c) s)"
  using assms
proof (induction s arbitrary: p c)
  case (Cons ch s)
  have "shown (draw p ch c) = shown c" by (simp add: shown_def fun_eq_iff)
  moreover have "text_grid (draw p ch c) = (text_grid c)[p := shown c ch]" by (simp add: draw_def)
  moreover have "length (text_grid c) = CELLS" using Cons.prems(2) by (simp add: wf_grids_def)
  ultimately show ?case using Cons.IH [of "Suc p" "draw p ch c"] Cons.prems by (simp add: buf_put_step)
qed (simp add: buf_put_def)

lemma put_behind:
  assumes "take (length u) (drop p g) = u" and "p + length u + length s \<le> length g"
  shows "take (length u + length s) (drop p (buf_put g (p + length u) s)) = u @ s"
  using assms by (simp add: buf_put_def drop_take)

text \<open>Redrawing the line from the cursor on, with the text before the cursor already there.\<close>

lemma redraw_line:
  assumes "wf_grids c" and "on_screen c" and "place c = p + length u" and "plain_text s"
    and "take (length u) (drop p (text_grid c)) = u" and "160 \<le> p" and "p + length u + length s < CELLS"
    and "length u + length s \<le> max_size"
  shows "\<exists>d. redraw s c = Some d \<and> wf_grids d \<and> on_screen d \<and> place d = place c \<and> same_mode c d
     \<and> take (length u + length s) (drop p (text_grid d)) = u @ s
     \<and> take (p - 160) (drop 160 (text_grid d)) = take (p - 160) (drop 160 (text_grid c))
     \<and> drop (p + max_size) (text_grid d) = drop (p + max_size) (text_grid c)"
proof -
  let ?d = "draw_string (place c) s c"
  have g: "text_grid ?d = buf_put (text_grid c) (p + length u) s"
    using draw_string_text [of "place c" s c] assms(1,3,4,7) by (simp add: shown_plain)
  have l: "length (text_grid c) = CELLS" using assms(1) by (simp add: wf_grids_def)
  have "take (p - 160) (drop 160 (text_grid ?d)) = take (p - 160) (drop 160 (text_grid c))"
    unfolding g using assms(6,7) l by (simp add: buf_put_def drop_take min_def)
  moreover have "drop (p + max_size) (text_grid ?d) = drop (p + max_size) (text_grid c)"
    unfolding g using assms(7,8) l by (simp add: buf_put_def add.commute)
  moreover have "take (length u + length s) (drop p (text_grid ?d)) = u @ s"
    unfolding g using put_behind [OF assms(5), of s] assms(7) l by simp
  moreover have "on_screen ?d" "place ?d = place c" using assms(2) by (simp_all add: on_screen_def place_def)
  ultimately show ?thesis using redraw_eq [OF assms(1,2), of s] assms(1,3,7) by (simp add: same_mode_def)
qed

lemma insert_buffer:
  assumes "buffer l = rev ls @ rs @ 0 # r" and "llen l = length ls + length rs" and "pos l = length ls"
    and "llen l + k < length (buffer l)"
  shows "do { b \<leftarrow> shift_up k l; b \<leftarrow> for_each (\<lambda>i b. buf_set b (pos l + i) ch) [0..<k] b; buf_set b (llen l + k) 0 }
    = Some (rev ls @ replicate k ch @ rs @ 0 # drop k r)"
proof -
  let ?b = "rev ls @ rs @ 0 # r" and ?n = "length ls + length rs"
  have k: "k \<le> length r" using assms(1,2,4) by simp
  have "Suc (?n + k) = length ls + k + Suc (length rs)" by simp
  then have "shift_up k l = Some (buf_put ?b (length ls + k) (take (Suc (length rs)) (drop (length ls) ?b)))"
    unfolding shift_up_def assms(1-3) using copy_up [of "length ls" k "Suc (length rs)" ?b] k by (simp only:) simp
  then have 1: "shift_up k l = Some (buf_put ?b (length ls + k) (rs @ [0]))" by simp
  have 2: "for_each (\<lambda>i b. buf_set b (pos l + i) ch) [0..<k] (buf_put ?b (length ls + k) (rs @ [0]))
      = Some (buf_put (buf_put ?b (length ls + k) (rs @ [0])) (length ls) (replicate k ch))"
    using fill_run [of "length ls" k "buf_put ?b (length ls + k) (rs @ [0])" ch] k by (simp add: assms(3))
  have 3: "buf_put (buf_put ?b (length ls + k) (rs @ [0])) (length ls) (replicate k ch)
      = rev ls @ replicate k ch @ rs @ 0 # drop k r" using k by (simp add: buf_put_def)
  have 4: "buf_set (rev ls @ replicate k ch @ rs @ 0 # drop k r) (llen l + k) 0
      = Some (rev ls @ replicate k ch @ rs @ 0 # drop k r)"
    using k by (simp add: buf_set_def assms(2) list_update_append)
  show ?thesis using 1 2 3 4 by simp
qed

lemma erase_buffer:
  assumes "buffer l = rev (x # ls) @ rs @ 0 # r" and "llen l = Suc (length ls + length rs)" and "pos l = Suc (length ls)"
  shows "do { b \<leftarrow> shift_down l; buf_set b (llen l - 1) 0 } = Some (rev ls @ rs @ 0 # 0 # r)"
proof -
  let ?b = "rev (x # ls) @ rs @ 0 # r" and ?n = "length rs"
  have "shift_down l = Some (buf_put ?b (length ls) (take (Suc ?n) (drop (Suc (length ls)) ?b)))"
    using copy_down [of "length ls" "Suc ?n" ?b] by (simp add: shift_down_def assms)
  moreover have "buf_put ?b (length ls) (take (Suc ?n) (drop (Suc (length ls)) ?b)) = rev ls @ rs @ 0 # 0 # r"
    by (simp add: buf_put_def)
  ultimately show ?thesis by (simp add: assms(2) buf_set_def list_update_append)
qed

lemma insert_run_redraw:
  assumes "buffer l = rev ls @ rs @ 0 # r" and "llen l = length ls + length rs" and "pos l = length ls"
    and "llen l + k < max_size" and "max_size \<le> length (buffer l)"
  shows "insert_run k ch max_size l c = do {
    c \<leftarrow> redraw (replicate k ch @ rs) (c \<lparr> cursor_visible := False \<rparr>);
    Some (\<lparr> buffer = rev ls @ replicate k ch @ rs @ 0 # drop k r, llen = llen l + k, pos = pos l + k \<rparr>,
          dogeio_cursor_show ((step_right ^^ k) c)) }"
proof -
  let ?b = "rev ls @ replicate k ch @ rs @ 0 # drop k r"
  have "do { b \<leftarrow> shift_up k l; b \<leftarrow> for_each (\<lambda>i b. buf_set b (pos l + i) ch) [0..<k] b; buf_set b (llen l + k) 0 } = Some ?b"
    using assms by (intro insert_buffer) auto
  then obtain b1 b2 where "shift_up k l = Some b1" "for_each (\<lambda>i b. buf_set b (pos l + i) ch) [0..<k] b1 = Some b2"
      "buf_set b2 (llen l + k) 0 = Some ?b"
    by (auto simp only: bind_eq_Some_conv)
  moreover have "drop (pos l) (take (llen l + k) ?b) = replicate k ch @ rs" using assms(2,3) by simp
  ultimately show ?thesis using assms(4) by (simp add: insert_run_def dogeio_cursor_hide_def del: buf_set_Some)
qed

lemma console_cursor [simp]:
  "wf_grids (c \<lparr> cursor_visible := v \<rparr>) = wf_grids c" "on_screen (c \<lparr> cursor_visible := v \<rparr>) = on_screen c"
  "place (c \<lparr> cursor_visible := v \<rparr>) = place c" "same_mode (c \<lparr> cursor_visible := v \<rparr>) d = same_mode c d"
  "same_mode c (d \<lparr> cursor_visible := v \<rparr>) = same_mode c d" "same_mode c (at q d) = same_mode c d"
  "same_mode c c"
  by (simp_all add: wf_grids_def on_screen_def place_def same_mode_def)

lemma insert_run_ok:
  assumes "line_in max_size z l" and "line_on max_size p g z c" and "160 \<le> p" and "p + max_size \<le> CELLS"
    and "32 \<le> ch" and "ch < 127"
  shows "\<exists>l' c'. insert_run k ch max_size l c = Some (l', c') \<and> line_in max_size (z_insert k ch max_size z) l'
     \<and> line_on max_size p g (z_insert k ch max_size z) c' \<and> same_mode c c' \<and> length (buffer l') = length (buffer l)"
proof (cases "llen l + k < max_size")
  case False
  then have "insert_run k ch max_size l c = Some (l, c)" "z_insert k ch max_size z = z"
    using assms(1) by (simp_all add: insert_run_def z_insert_def line_in_def)
  then show ?thesis using assms(1,2) by simp
next
  case True
  obtain ls rs where z: "z = (ls, rs)" by (cases z)
  note i = assms(1) [unfolded line_in_def z_text_def z, simplified]
  note o' = assms(2) [unfolded line_on_def z_text_def z, simplified]
  obtain r where r: "buffer l = rev ls @ rs @ 0 # r" using i by auto
  let ?b = "rev ls @ replicate k ch @ rs @ 0 # drop k r" and ?s = "replicate k ch @ rs"
  have k: "k \<le> length r" using i r True by simp
  let ?c = "c \<lparr> cursor_visible := False \<rparr>"
  have "take (length ls) (drop p (text_grid c)) = rev ls"
    using o' by (metis (no_types, lifting) append_eq_conv_conj length_rev min.absorb1 le_add1 take_take)
  then have "\<exists>d. redraw ?s ?c = Some d \<and> wf_grids d \<and> on_screen d \<and> place d = place ?c \<and> same_mode ?c d
     \<and> take (length (rev ls) + length ?s) (drop p (text_grid d)) = rev ls @ ?s
     \<and> take (p - 160) (drop 160 (text_grid d)) = take (p - 160) (drop 160 (text_grid ?c))
     \<and> drop (p + max_size) (text_grid d) = drop (p + max_size) (text_grid ?c)"
    using o' i True assms(3-6) by (intro redraw_line) (auto simp: plain_text_def)
  then obtain d where d: "redraw ?s ?c = Some d" "wf_grids d" "on_screen d" "place d = place c" "same_mode c d"
     "take (length ls + length ?s) (drop p (text_grid d)) = rev ls @ ?s"
     "take (p - 160) (drop 160 (text_grid d)) = take (p - 160) (drop 160 (text_grid c))"
     "drop (p + max_size) (text_grid d) = drop (p + max_size) (text_grid c)" by auto
  have q: "place d + k < CELLS" using d(4) o' i True assms(4) by simp
  have e: "(step_right ^^ k) d = at (place d + k) d" using steps_right_at [OF d(3) q] .
  let ?l = "\<lparr> buffer = ?b, llen = llen l + k, pos = pos l + k \<rparr>"
  have "insert_run k ch max_size l c = Some (?l, dogeio_cursor_show (at (place d + k) d))"
    using insert_run_redraw [OF r, of k max_size ch c] i True d(1) e by simp
  moreover have zi: "z_insert k ch max_size z = (replicate k ch @ ls, rs)"
    using True i by (simp add: z_insert_def z z_text_def)
  moreover have "line_in max_size (replicate k ch @ ls, rs) ?l"
    using i r True k by (auto simp: line_in_def z_text_def)
  moreover have "line_on max_size p g (replicate k ch @ ls, rs) (dogeio_cursor_show (at (place d + k) d))"
    using d place_at [OF q, of d] o' assms(5,6)
    by (auto simp: line_on_def z_text_def dogeio_cursor_show_def plain_text_def ac_simps)
  ultimately show ?thesis using d(5) r k by (auto simp: dogeio_cursor_show_def)
qed

lemma move_left_ok:
  assumes "line_in max_size z l" and "line_on max_size p g z c" and "160 \<le> p" and "p + max_size \<le> CELLS"
    and "move_left l c = (l', c')"
  shows "line_in max_size (z_left z) l' \<and> line_on max_size p g (z_left z) c' \<and> same_mode c c'
     \<and> length (buffer l') = length (buffer l)"
proof (cases z rule: z_left.cases)
  case (1 x ls rs)
  note i = assms(1) [unfolded line_in_def 1, simplified]
  note o' = assms(2) [unfolded line_on_def 1, simplified]
  have q: "p + length ls < CELLS" using i assms(4) by (simp add: z_text_def)
  have "back_cell (c \<lparr> cursor_visible := False \<rparr>) = at (p + length ls) (c \<lparr> cursor_visible := False \<rparr>)"
    using back_cell_at [of "c \<lparr> cursor_visible := False \<rparr>"] o' assms(3) by simp
  then have c': "c' = at (p + length ls) c \<lparr> cursor_visible := True \<rparr>" "l' = l \<lparr> pos := length ls \<rparr>"
    using assms(5) i by (auto simp: move_left_def dogeio_cursor_show_def dogeio_cursor_hide_def at_def)
  show ?thesis using i o' place_at [OF q, of c] unfolding c'
    by (simp add: 1 line_in_def line_on_def z_text_def)
next
  case (2 rs)
  then show ?thesis using assms by (simp add: move_left_def line_in_def)
qed

lemma move_right_ok:
  assumes "line_in max_size z l" and "line_on max_size p g z c" and "p + max_size \<le> CELLS"
    and "move_right l c = (l', c')"
  shows "line_in max_size (z_right z) l' \<and> line_on max_size p g (z_right z) c' \<and> same_mode c c'
     \<and> length (buffer l') = length (buffer l)"
proof (cases z rule: z_right.cases)
  case (1 ls x rs)
  note i = assms(1) [unfolded line_in_def 1, simplified]
  note o' = assms(2) [unfolded line_on_def 1, simplified]
  have q: "Suc (p + length ls) < CELLS" using i assms(3) by (simp add: z_text_def)
  have "step_right (c \<lparr> cursor_visible := False \<rparr>) = at (Suc (p + length ls)) (c \<lparr> cursor_visible := False \<rparr>)"
    using step_right_at [of "c \<lparr> cursor_visible := False \<rparr>"] o' q by simp
  then have c': "c' = at (Suc (p + length ls)) c \<lparr> cursor_visible := True \<rparr>" "l' = l \<lparr> pos := Suc (length ls) \<rparr>"
    using assms(4) i by (auto simp: move_right_def dogeio_cursor_show_def dogeio_cursor_hide_def at_def z_text_def)
  show ?thesis using i o' place_at [OF q, of c] unfolding c'
    by (simp add: 1 line_in_def line_on_def z_text_def)
next
  case (2 ls)
  then show ?thesis using assms by (simp add: move_right_def line_in_def z_text_def)
qed

lemma erase_left_ok:
  assumes "line_in max_size z l" and "line_on max_size p g z c" and "160 \<le> p" and "p + max_size \<le> CELLS"
  shows "\<exists>l' c'. erase_left l c = Some (l', c') \<and> line_in max_size (z_erase z) l'
     \<and> line_on max_size p g (z_erase z) c' \<and> same_mode c c' \<and> length (buffer l') = length (buffer l)"
proof (cases z rule: z_erase.cases)
  case (1 x ls rs)
  note i = assms(1) [unfolded line_in_def 1 z_text_def, simplified]
  note o' = assms(2) [unfolded line_on_def 1 z_text_def, simplified]
  obtain r where r: "buffer l = rev (x # ls) @ rs @ 0 # r" using i by auto
  let ?b = "rev ls @ rs @ 0 # 0 # r" and ?s = "rs @ [32]"
  have "do { b \<leftarrow> shift_down l; buf_set b (llen l - 1) 0 } = Some ?b"
    using i r by (intro erase_buffer) auto
  then obtain b1 where b: "shift_down l = Some b1" "buf_set b1 (llen l - 1) 0 = Some ?b"
    by (auto simp only: bind_eq_Some_conv)
  have s: "drop (pos l - 1) (take (llen l - 1) ?b) = rs" using i by simp
  let ?c = "at (p + length ls) (c \<lparr> cursor_visible := False \<rparr>)"
  have q: "p + length ls < CELLS" using i assms(4) by simp
  have e: "back_cell (c \<lparr> cursor_visible := False \<rparr>) = ?c"
    using back_cell_at [of "c \<lparr> cursor_visible := False \<rparr>"] o' assms(3) by simp
  have "take (length ls) (drop p (text_grid c)) = take (length ls) (rev ls @ x # rs)"
    using o' by (metis (no_types, lifting) min.absorb1 le_add1 take_take add_Suc_right add_Suc)
  then have "take (length ls) (drop p (text_grid c)) = rev ls" by simp
  then have "\<exists>d. redraw ?s ?c = Some d \<and> wf_grids d \<and> on_screen d \<and> place d = place ?c \<and> same_mode ?c d
     \<and> take (length (rev ls) + length ?s) (drop p (text_grid d)) = rev ls @ ?s
     \<and> take (p - 160) (drop 160 (text_grid d)) = take (p - 160) (drop 160 (text_grid ?c))
     \<and> drop (p + max_size) (text_grid d) = drop (p + max_size) (text_grid ?c)"
    using o' i assms(3,4) place_at [OF q, of "c \<lparr> cursor_visible := False \<rparr>"]
    by (intro redraw_line) auto
  then obtain d where d: "redraw ?s ?c = Some d" "wf_grids d" "on_screen d" "place d = p + length ls" "same_mode c d"
     "take (length ls + length ?s) (drop p (text_grid d)) = rev ls @ ?s"
     "take (p - 160) (drop 160 (text_grid d)) = take (p - 160) (drop 160 (text_grid c))"
     "drop (p + max_size) (text_grid d) = drop (p + max_size) (text_grid c)"
    using place_at [OF q, of "c \<lparr> cursor_visible := False \<rparr>"] by (auto simp: same_mode_def)
  have "take (length ls + length rs) (drop p (text_grid d)) = take (length ls + length rs) (rev ls @ ?s)"
    using d(6) by (metis (no_types, lifting) length_append min.absorb1 le_add1 take_take add.assoc)
  then have t: "take (length ls + length rs) (drop p (text_grid d)) = rev ls @ rs" by simp
  let ?l = "\<lparr> buffer = ?b, llen = llen l - 1, pos = pos l - 1 \<rparr>"
  have "erase_left l c = Some (?l, dogeio_cursor_show d)"
    using i b s e d(1) by (simp add: erase_left_def dogeio_cursor_hide_def Let_def del: buf_set_Some)
  moreover have "line_in max_size (ls, rs) ?l" using i r by (auto simp: line_in_def z_text_def)
  moreover have "line_on max_size p g (ls, rs) (dogeio_cursor_show d)"
    using d t o' by (auto simp: line_on_def z_text_def dogeio_cursor_show_def)
  ultimately show ?thesis using d(5) r 1 by (auto simp: dogeio_cursor_show_def)
next
  case (2 rs)
  then show ?thesis using assms by (simp add: erase_left_def line_in_def)
qed

lemma edit_key_ok:
  assumes "line_in max_size z l" and "line_on max_size p g z c" and "160 \<le> p" and "p + max_size \<le> CELLS"
  shows "\<exists>l' c'. edit_key max_size key l c = Some (l', c') \<and> line_in max_size (edit max_size key z) l'
     \<and> line_on max_size p g (edit max_size key z) c' \<and> same_mode c c' \<and> length (buffer l') = length (buffer l)"
proof -
  have ch: "32 \<le> (ucast key :: u8) \<and> (ucast key :: u8) < 127" if "32 \<le> key" "key < 127"
  proof -
    have "32 \<le> unat key" "unat key < 127" using that by (simp_all add: word_le_nat_alt word_less_nat_alt)
    moreover from this have "unat (ucast key :: u8) = unat key" by (simp add: unat_ucast)
    ultimately show ?thesis by (simp add: word_le_nat_alt word_less_nat_alt)
  qed
  obtain ll cl where ml: "move_left l c = (ll, cl)" by (cases "move_left l c")
  obtain lr cr where mr: "move_right l c = (lr, cr)" by (cases "move_right l c")
  note ops = move_left_ok [OF assms ml] move_right_ok [OF assms(1,2,4) mr] erase_left_ok [OF assms]
    insert_run_ok [OF assms, of 32 8] insert_run_ok [OF assms, of "ucast key" 1]
  show ?thesis
  proof (cases "key \<in> {KEY_LEFT, KEY_TAB, 0xF, 0xD, KEY_RIGHT, KEY_BACKSPACE}")
    case True
    then show ?thesis using ops(1-4) ml mr by (auto simp: edit_key_def edit_def)
  next
    case False
    then show ?thesis using ops(5) ch assms(1,2) by (auto simp: edit_key_def edit_def)
  qed
qed

section \<open>Waiting for a key\<close>

text \<open>The shell waits, and no switch of workspaces is on the way.\<close>

definition quiet :: "terminal \<Rightarrow> bool" where
  "quiet t \<longleftrightarrow> wf_terminal t \<and> shell_shown t \<and> kb_ok (kbd t) \<and> \<not> switch_requested (kbd t) \<and> \<not> irq_ctrl_pressed (kbd t)"

text \<open>Only the menu bar may have changed.\<close>

definition calm :: "terminal \<Rightarrow> terminal \<Rightarrow> bool" where
  "calm t t' \<longleftrightarrow> body (save_console (con t')) = body (save_console (con t)) \<and> same_mode (con t) (con t')
     \<and> wf_terminal t' \<and> shell_shown t' \<and> workspace_generation t' = workspace_generation t"

lemma calm_trans: "calm t u \<Longrightarrow> calm u v \<Longrightarrow> calm t v"
  by (auto simp: calm_def same_mode_def)

lemma calm_kbd [simp]: "calm t (u \<lparr> kbd := k \<rparr>) = calm t u" "calm (t \<lparr> kbd := k \<rparr>) u = calm t u"
  by (simp_all add: calm_def wf_terminal_def shell_shown_def scheduler_current_workspace_def displayed_def)

lemma wf_terminal_upds [simp]:
  "wf_terminal (t \<lparr> timer := p \<rparr>) = wf_terminal t" "wf_terminal (t \<lparr> kbd := k \<rparr>) = wf_terminal t"
  "wf_terminal (t \<lparr> rendered_workspace_id := i \<rparr>) = wf_terminal t"
  "shell_shown (t \<lparr> timer := p \<rparr>) = shell_shown t" "shell_shown (t \<lparr> kbd := k \<rparr>) = shell_shown t"
  "shell_shown (t \<lparr> rendered_workspace_id := i \<rparr>) = shell_shown t"
  by (simp_all add: wf_terminal_def shell_shown_def scheduler_current_workspace_def displayed_def)

lemma menubar_calm:
  assumes "wf_terminal t" and "shell_shown t"
  shows "\<exists>t'. terminal_menubar t = Some t' \<and> calm t t' \<and> kbd t' = kbd t"
proof -
  have "wf_console (con t)" "\<not> video_mode (con t)" using assms(1) by (simp_all add: wf_terminal_def)
  from menubar_keeps_screen [OF this] obtain c' where c': "menubar_draw (con t) = Some c'" "wf_console c'"
    "same_mode (con t) c'" "body (save_console c') = body (save_console (con t))" by blast
  then have "calm t (t \<lparr> con := c' \<rparr>)" using assms
    by (auto simp: calm_def wf_terminal_def shell_shown_def scheduler_current_workspace_def displayed_def same_mode_def)
  with c'(1) show ?thesis by (simp add: terminal_menubar_def)
qed

lemma refresh_calm:
  assumes "wf_terminal t" and "shell_shown t"
  shows "\<exists>t'. refresh_status_bar t = Some t' \<and> calm t t' \<and> kbd t' = kbd t"
proof -
  have u: "calm t (t \<lparr> timer := p \<rparr>)" "calm t t" for p using assms by (simp_all add: calm_def same_mode_def)
  show ?thesis
  proof (cases "status_bar_enabled t \<and> \<not> is_kernel_dead (bar (con t)) \<and> status_bar_refresh_pending (timer t)")
    case True
    let ?t = "t \<lparr> timer := (timer t) \<lparr> status_bar_refresh_pending := False \<rparr> \<rparr>"
    from menubar_calm [of ?t] assms obtain t' where "terminal_menubar ?t = Some t'" "calm ?t t'" "kbd t' = kbd t" by auto
    moreover have "calm t t'" using u(1) \<open>calm ?t t'\<close> by (rule calm_trans)
    ultimately show ?thesis using True by (simp add: refresh_status_bar_def pit_take_status_bar_refresh_def Let_def)
  next
    case False
    then show ?thesis using u by (auto simp: refresh_status_bar_def pit_take_status_bar_refresh_def Let_def)
  qed
qed

lemma load_save [simp]: "load_console (save_console c) c = c"
  by (simp add: load_console_def save_console_def)

lemma timer_tick_calm:
  assumes "wf_terminal t" and "shell_shown t" and "\<not> switch_requested (kbd t)"
  shows "\<exists>t'. timer_tick t = Some t' \<and> calm t t' \<and> kbd t' = kbd t"
proof -
  define w where "w = displayed t"
  have w: "\<not> MAX_TERMINALS \<le> w" "unat w < 4" using displayed_less [OF assms(1)] by (auto simp: w_def not_le)
  have sw: "scheduler_current_workspace t = w" using assms(2) by (simp add: shell_shown_def w_def)
  have k: "sys_workspace_take_switch_request (kbd t) = (False, kbd t)"
    using assms(3) by (cases "kbd t") (simp add: sys_workspace_take_switch_request_def)
  define u where "u = t \<lparr> timer := pit_handler (timer t), workspaces := (workspaces t)[unat w := save_console (con t)],
    con := dogeio_set_render_enabled True (con t) \<rparr>"
  have l: "length (workspaces t) = 4" using assms(1) by (simp add: wf_terminal_def)
  have "timer_tick t = sys_workspace_load w True (t \<lparr> timer := pit_handler (timer t),
      workspaces := (workspaces t)[unat w := save_console (con t)] \<rparr>)"
    using sw w(1) k by (simp add: timer_tick_def Let_def sys_workspace_save_def scheduler_current_workspace_def
        displayed_def w_def)
  also have "\<dots> = (if rendered_workspace_id u \<noteq> w
      then do { t \<leftarrow> terminal_menubar u; Some (t \<lparr> rendered_workspace_id := w \<rparr>) } else Some u)"
    using w l by (simp add: sys_workspace_load_def workspace_load_state_def u_def Let_def)
  finally have e: "timer_tick t = \<dots>" .
  have "wf_console (con t)" "\<not> video_mode (con t)" using assms(1) by (simp_all add: wf_terminal_def)
  from wf_save [OF this] have cu: "calm t u" "kbd u = kbd t" using assms(1,2)
    by (auto simp: u_def calm_def wf_terminal_def shell_shown_def scheduler_current_workspace_def displayed_def
        same_mode_def dogeio_set_render_enabled_def wf_console_def wf_grids_def on_screen_def bar_ok_def
        save_console_def dest!: set_update_subset_insert [THEN subsetD])
  then have "wf_terminal u" "shell_shown u" by (simp_all add: calm_def)
  from menubar_calm [OF this] obtain v where v: "terminal_menubar u = Some v" "calm u v" "kbd v = kbd u" by blast
  have "calm t (v \<lparr> rendered_workspace_id := w \<rparr>)"
    using calm_trans [OF cu(1) v(2)] by (simp add: calm_def)
  with e cu v show ?thesis by simp
qed

text \<open>What the interrupts mean: the first key they decode to, and all of them.\<close>

fun next_key :: "irq list \<Rightarrow> keyboard \<Rightarrow> (u16 \<times> irq list \<times> keyboard) option" where
  "next_key [] k = None"
| "next_key (Timer # is) k = next_key is k"
| "next_key (Scancode c # is) k =
     (case dogeio_decode_key c k of (key, k') \<Rightarrow> if key \<noteq> KEY_UNKNOWN then Some (key, is, k') else next_key is k')"

fun typed_keys :: "irq list \<Rightarrow> keyboard \<Rightarrow> u16 list" where
  "typed_keys [] k = []"
| "typed_keys (Timer # is) k = typed_keys is k"
| "typed_keys (Scancode c # is) k =
     (case dogeio_decode_key c k of (key, k') \<Rightarrow> if key \<noteq> KEY_UNKNOWN then key # typed_keys is k' else typed_keys is k')"

text \<open>Decoding looks at three of the modifiers only.\<close>

definition alike :: "keyboard \<Rightarrow> keyboard \<Rightarrow> bool" where
  "alike k k' \<longleftrightarrow> shift_pressed k = shift_pressed k' \<and> ctrl_pressed k = ctrl_pressed k' \<and> escaped k = escaped k'"

lemma decode_state:
  "snd (dogeio_decode_key c k) = k \<lparr>
     shift_pressed := if c = 0x2A \<or> c = 0x36 then True else if c = 0xAA \<or> c = 0xB6 then False else shift_pressed k,
     ctrl_pressed := if c = 0x1D then True else if c = 0x9D then False else ctrl_pressed k,
     escaped := if c = 0xE0 then True
       else if c \<in> {0x2A, 0x36, 0xAA, 0xB6, 0x1D, 0x9D} then escaped k else False \<rparr>"
  by (simp add: dogeio_decode_key_def)

lemma decode_alike:
  assumes "alike k k'" and "dogeio_decode_key c k = (key, k1)" and "dogeio_decode_key c k' = (key', k1')"
  shows "key = key' \<and> alike k1 k1' \<and> pending k1 = pending k \<and> kb_ok k1 = kb_ok k
    \<and> switch_requested k1 = switch_requested k \<and> irq_ctrl_pressed k1 = irq_ctrl_pressed k"
proof -
  have "char_key k c = char_key k' c" using assms(1) unfolding alike_def char_key_def by (elim conjE) (simp only:)
  then have "fst (dogeio_decode_key c k) = fst (dogeio_decode_key c k')"
    using assms(1) unfolding dogeio_decode_key_def alike_def if_distrib [of fst] fst_conv by (elim conjE) (simp only:)
  then have "key = key'" using assms(2,3) by simp
  then show ?thesis using assms(1) decode_state [of c k] decode_state [of c k'] unfolding assms(2,3) snd_conv
    by (simp add: alike_def pending_def kb_ok_def)
qed

lemma pending_Nil: "pending k = [] \<longleftrightarrow> scancode_tail k = scancode_head k"
  by (auto simp: pending_def unat_eq_0)

lemma next_key_scancode:
  assumes "kb_ok k" and "pending k = []" and "c \<noteq> 0x1D" and "\<not> irq_ctrl_pressed k"
  shows "\<exists>k'. take_scancode (dogeio_keyboard_irq c k) = Some (c, k') \<and> pending k' = [] \<and> alike k k' \<and> kb_ok k'
    \<and> switch_requested k' = switch_requested k \<and> \<not> irq_ctrl_pressed k'"
proof -
  let ?k = "k \<lparr> irq_ctrl_pressed := False \<rparr>"
  have irq: "dogeio_keyboard_irq c k = put_scancode c ?k"
    using assms(3,4) by (cases k) (simp add: dogeio_keyboard_irq_def)
  have "scancode_head k + 1 \<noteq> scancode_tail k" using assms(2) by (simp add: pending_Nil)
  moreover have "unat (scancode_head k) < length (scancodes k)" using assms(1) unsigned_less [of "scancode_head k"] by (simp add: kb_ok_def)
  ultimately show ?thesis unfolding irq using assms
    by (simp add: put_scancode_def take_scancode_def Let_def pending_Nil alike_def kb_ok_def)
qed

lemma get_key_halt:
  assumes "quiet (trm s)" and "pending (kbd (trm s)) = []"
  shows "\<exists>t. calm (trm s) t \<and> kbd t = kbd (trm s) \<and> get_key_wait (workspace_generation (trm s)) s
    = do { s \<leftarrow> take_interrupt (s \<lparr> trm := t \<rparr>); get_key_wait (workspace_generation t) s }"
proof -
  have q: "wf_terminal (trm s)" "shell_shown (trm s)" using assms(1) by (simp_all add: quiet_def)
  from refresh_calm [OF q] obtain t where t: "refresh_status_bar (trm s) = Some t" "calm (trm s) t" "kbd t = kbd (trm s)"
    by blast
  have "take_scancode (kbd t) = None" using assms(2) t(3) by (simp add: take_scancode_def pending_Nil)
  moreover have "workspace_generation t = workspace_generation (trm s)" using t(2) by (simp add: calm_def)
  ultimately show ?thesis using t q(2) by (subst get_key_wait.simps) (auto simp: shell_shown_def)
qed

lemma get_key_take:
  assumes "wf_terminal (trm s)" and "shell_shown (trm s)" and "take_scancode (kbd (trm s)) = Some (c, k)"
    and "dogeio_decode_key c k = (key, k')"
  shows "\<exists>t. calm (trm s) t \<and> kbd t = k' \<and> get_key_wait (workspace_generation (trm s)) s
    = (if key \<noteq> KEY_UNKNOWN then Some (key, s \<lparr> trm := t \<rparr>)
       else get_key_wait (workspace_generation t) (s \<lparr> trm := t \<rparr>))"
proof -
  from refresh_calm [OF assms(1,2)] obtain t where t: "refresh_status_bar (trm s) = Some t" "calm (trm s) t"
    "kbd t = kbd (trm s)" by blast
  then have "wf_terminal (t \<lparr> kbd := k' \<rparr>)" "shell_shown (t \<lparr> kbd := k' \<rparr>)" "workspace_generation t = workspace_generation (trm s)"
    by (simp_all add: calm_def)
  from refresh_calm [OF this(1,2)] obtain u where u: "refresh_status_bar (t \<lparr> kbd := k' \<rparr>) = Some u"
    "calm t u" "kbd u = k'" by auto
  have c: "calm (trm s) u" using t(2) u(2) by (rule calm_trans)
  show ?thesis
  proof (cases "key = KEY_UNKNOWN")
    case True
    then show ?thesis using t assms(2-4) \<open>workspace_generation t = workspace_generation (trm s)\<close>
      by (intro exI [of _ "t \<lparr> kbd := k' \<rparr>"], subst get_key_wait.simps) (simp add: shell_shown_def)
  next
    case False
    then show ?thesis using t u c assms(2-4)
      by (intro exI [of _ u], subst get_key_wait.simps) (simp add: shell_shown_def)
  qed
qed

lemma get_key_next:
  assumes "quiet (trm s)" and "pending (kbd (trm s)) = []" and "alike (kbd (trm s)) k"
    and "Scancode 0x1D \<notin> set (irqs s)" and "next_key (irqs s) k = Some (key, rest, k')"
  shows "\<exists>s'. dogeio_get_key s = Some (key, s') \<and> irqs s' = rest \<and> calm (trm s) (trm s') \<and> quiet (trm s')
    \<and> pending (kbd (trm s')) = [] \<and> alike (kbd (trm s')) k'"
  using assms
proof (induction "irqs s" k arbitrary: s rule: next_key.induct)
  case (1 k)
  then show ?case by simp
next
  case (2 "is" k)
  from get_key_halt [OF "2.prems"(1,2)] obtain t where t: "calm (trm s) t" "kbd t = kbd (trm s)"
    "get_key_wait (workspace_generation (trm s)) s
      = do { s \<leftarrow> take_interrupt (s \<lparr> trm := t \<rparr>); get_key_wait (workspace_generation t) s }" by blast
  have "wf_terminal t" "shell_shown t" "\<not> switch_requested (kbd t)"
    using t(1,2) "2.prems"(1) by (simp_all add: calm_def quiet_def)
  from timer_tick_calm [OF this] obtain u where u: "timer_tick t = Some u" "calm t u" "kbd u = kbd t" by blast
  let ?s = "s \<lparr> trm := u, irqs := is \<rparr>"
  have c: "calm (trm s) u" using t(1) u(2) by (rule calm_trans)
  have g: "dogeio_get_key s = dogeio_get_key ?s"
    using t(3) u(1,2) "2.hyps"(2) [symmetric] by (simp add: dogeio_get_key_def take_interrupt_def calm_def)
  have "quiet u" using c "2.prems"(1) u(3) t(2) by (simp add: quiet_def calm_def)
  with "2.hyps"(1) [of ?s] "2.prems" "2.hyps"(2) [symmetric] u(3) t(2) c show ?case unfolding g
    by (auto intro: calm_trans)
next
  case (3 c "is" k)
  from get_key_halt [OF "3.prems"(1,2)] obtain t where t: "calm (trm s) t" "kbd t = kbd (trm s)"
    "get_key_wait (workspace_generation (trm s)) s
      = do { s \<leftarrow> take_interrupt (s \<lparr> trm := t \<rparr>); get_key_wait (workspace_generation t) s }" by blast
  have "kb_ok (kbd t)" "\<not> irq_ctrl_pressed (kbd t)" "pending (kbd t) = []" "c \<noteq> 0x1D"
    using t(2) "3.prems"(1,2,4) "3.hyps"(2) [symmetric] by (auto simp: quiet_def)
  from next_key_scancode [OF this(1,3,4,2)] obtain k1 where
    k1: "take_scancode (dogeio_keyboard_irq c (kbd t)) = Some (c, k1)" "pending k1 = []" "alike (kbd t) k1" "kb_ok k1"
      "switch_requested k1 = switch_requested (kbd t)" "\<not> irq_ctrl_pressed k1" by blast
  obtain key1 k2 where d: "dogeio_decode_key c k1 = (key1, k2)" by fastforce
  obtain key2 k3 where d': "dogeio_decode_key c k = (key2, k3)" by fastforce
  have "alike k1 k" using k1(3) "3.prems"(3) t(2) by (simp add: alike_def)
  note a = decode_alike [OF this d d']
  let ?s = "s \<lparr> trm := t \<lparr> kbd := dogeio_keyboard_irq c (kbd t) \<rparr>, irqs := is \<rparr>"
  have "wf_terminal (trm ?s)" "shell_shown (trm ?s)" using t(1) by (simp_all add: calm_def)
  from get_key_take [OF this, of c k1 key1 k2] k1(1) d obtain u where u: "calm t u" "kbd u = k2"
    "get_key_wait (workspace_generation t) ?s = (if key1 \<noteq> KEY_UNKNOWN then Some (key1, ?s \<lparr> trm := u \<rparr>)
       else get_key_wait (workspace_generation u) (?s \<lparr> trm := u \<rparr>))" by auto
  have g: "dogeio_get_key s = get_key_wait (workspace_generation t) ?s"
    using t(3) "3.hyps"(2) [symmetric] by (simp add: dogeio_get_key_def take_interrupt_def)
  have c: "calm (trm s) u" using t(1) u(1) by (rule calm_trans)
  have q: "quiet u" using c a k1 u(2) "3.prems"(1) t(2) by (simp add: quiet_def calm_def)
  show ?case
  proof (cases "key1 = KEY_UNKNOWN")
    case False
    then show ?thesis using g u a k1(2) c q "3.prems"(5) "3.hyps"(2) [symmetric] d' by auto
  next
    case True
    let ?u = "?s \<lparr> trm := u \<rparr>"
    have "dogeio_get_key s = dogeio_get_key ?u" using g u(3) True by (simp add: dogeio_get_key_def)
    moreover have "is = irqs ?u" by simp
    ultimately show ?thesis
      using "3.hyps"(1) [OF d' [symmetric] _ \<open>is = irqs ?u\<close>] True a k1(2) q u(2) c "3.prems"(4,5) "3.hyps"(2) [symmetric] d'
      by (auto intro: calm_trans)
  qed
qed

section \<open>Reading a line\<close>

lemma typed_next:
  "typed_keys is k = key # ks \<Longrightarrow> \<exists>rest k'. next_key is k = Some (key, rest, k') \<and> typed_keys rest k' = ks \<and> set rest \<subseteq> set is"
proof (induction "is" k rule: typed_keys.induct)
  case (3 c "is" k)
  obtain key1 k1 where d: "dogeio_decode_key c k = (key1, k1)" by fastforce
  show ?case
  proof (cases "key1 = KEY_UNKNOWN")
    case True
    from "3.IH" [OF d [symmetric]] True "3.prems" d show ?thesis by auto
  next
    case False
    with "3.prems" d show ?thesis by auto
  qed
qed auto

lemma line_on_calm:
  assumes "line_on max_size p g z (con t)" and "calm t t'" and "160 \<le> p"
  shows "line_on max_size p g z (con t')"
proof -
  have b: "drop 160 (text_grid (con t')) = drop 160 (text_grid (con t))" "cursor_x (con t') = cursor_x (con t)"
      "cursor_y (con t') = cursor_y (con t)" and w: "wf_grids (con t')"
    using assms(2) by (auto simp: calm_def body_def save_console_def wf_terminal_def wf_console_def)
  have "drop n (text_grid (con t')) = drop n (text_grid (con t))" if "160 \<le> n" for n
    using b(1) that by (metis drop_drop le_add_diff_inverse2)
  with assms(1,3) b w show ?thesis by (simp add: line_on_def on_screen_def place_def)
qed

lemma quiet_con:
  assumes "quiet t" and "wf_grids c" and "on_screen c" and "same_mode (con t) c"
  shows "quiet (t \<lparr> con := c \<rparr>)"
  using assms bar_ok_same [OF assms(4)]
  by (auto simp: quiet_def wf_terminal_def wf_console_def shell_shown_def scheduler_current_workspace_def displayed_def same_mode_def)

lemma print_newline: "wf_console c \<Longrightarrow> \<exists>c'. dogeio_print (Some [10]) c = Some c'"
  using print_with_ok [of c "[10]"] by (auto simp: dogeio_print_def print_string_with_def)

lemma dogeio_print_keeps:
  assumes "wf_console c" and "\<And>u. prompt = Some u \<Longrightarrow> short_numbers 0 u" and "dogeio_print prompt c = Some d"
  shows "wf_console d \<and> same_mode c d"
proof (cases prompt)
  case None
  then show ?thesis using assms(1,3) by (simp add: dogeio_print_def)
next
  case (Some u)
  from print_with_ok [OF assms(1) assms(2) [OF Some]] show ?thesis
    using assms(1,3) Some by (auto simp: dogeio_print_def print_string_with_def split: if_splits)
qed

lemma input_loop_ok:
  assumes "quiet (trm s)" and "pending (kbd (trm s)) = []" and "alike (kbd (trm s)) k"
    and "Scancode 0x1D \<notin> set (irqs s)" and "typed_keys (irqs s) k = ks @ KEY_ENTER # ks'"
    and "KEY_ENTER \<notin> set ks" and "KEY_CTRL_TAB \<notin> set ks"
    and "line_in max_size z l" and "line_on max_size p g z (con (trm s))" and "160 \<le> p" and "p + max_size \<le> CELLS"
  shows "\<exists>l' s'. input_loop prompt max_size (workspace_generation (trm s)) l s = Some (l', s')
     \<and> line_in max_size (fold (edit max_size) ks z) l' \<and> plain_text (z_text (fold (edit max_size) ks z))
     \<and> length (buffer l') = length (buffer l)"
  using assms
proof (induction ks arbitrary: s k l z)
  case Nil
  then obtain rest k' where "next_key (irqs s) k = Some (KEY_ENTER, rest, k')" using typed_next [of "irqs s" k] by auto
  from get_key_next [OF Nil.prems(1-4) this] obtain s1 where
    s1: "dogeio_get_key s = Some (KEY_ENTER, s1)" "calm (trm s) (trm s1)" by blast
  then have "wf_console (con (trm s1))" by (simp add: calm_def wf_terminal_def)
  from print_newline [OF this] obtain c where "dogeio_print (Some [10]) (con (trm s1)) = Some c" by blast
  then show ?case using s1 Nil.prems(8,9)
    by (subst input_loop.simps) (simp add: on_console_def calm_def line_on_def)
next
  case (Cons key ks)
  then obtain rest k' where n: "next_key (irqs s) k = Some (key, rest, k')" "typed_keys rest k' = ks @ KEY_ENTER # ks'"
    "set rest \<subseteq> set (irqs s)" using typed_next [of "irqs s" k] by auto
  from get_key_next [OF Cons.prems(1-4) n(1)] obtain s1 where
    s1: "dogeio_get_key s = Some (key, s1)" "irqs s1 = rest" "calm (trm s) (trm s1)" "quiet (trm s1)"
      "pending (kbd (trm s1)) = []" "alike (kbd (trm s1)) k'" by blast
  have o1: "line_on max_size p g z (con (trm s1))" using line_on_calm [OF Cons.prems(9) s1(3) Cons.prems(10)] .
  from edit_key_ok [OF Cons.prems(8) o1 Cons.prems(10,11), of key] obtain l2 c2 where
    e: "edit_key max_size key l (con (trm s1)) = Some (l2, c2)" "line_in max_size (edit max_size key z) l2"
      "line_on max_size p g (edit max_size key z) c2" "same_mode (con (trm s1)) c2" "length (buffer l2) = length (buffer l)"
    by blast
  let ?s = "s1 \<lparr> trm := (trm s1) \<lparr> con := c2 \<rparr> \<rparr>"
  have g: "workspace_generation (trm s1) = workspace_generation (trm s)" using s1(3) by (simp add: calm_def)
  have "input_loop prompt max_size (workspace_generation (trm s)) l s
      = input_loop prompt max_size (workspace_generation (trm ?s)) l2 ?s"
    using s1(1) e(1) g Cons.prems(6,7) by (subst input_loop.simps) simp
  moreover have "quiet (trm ?s)" using quiet_con [OF s1(4) _ _ e(4)] e(3) by (simp add: line_on_def)
  moreover have "Scancode 0x1D \<notin> set (irqs ?s)" using Cons.prems(4) n(3) s1(2) by auto
  ultimately show ?case using Cons.IH [of ?s k' "edit max_size key z" l2] s1 n(2) e Cons.prems(6,7,10,11) by simp
qed

lemma dogeio_input_ok:
  assumes "quiet (trm s)" and "pending (kbd (trm s)) = []" and "Scancode 0x1D \<notin> set (irqs s)"
    and "typed_keys (irqs s) (kbd (trm s)) = ks @ KEY_ENTER # ks'"
    and "KEY_ENTER \<notin> set ks" and "KEY_CTRL_TAB \<notin> set ks"
    and "\<And>u. prompt = Some u \<Longrightarrow> short_numbers 0 u" and "dogeio_print prompt (con (trm s)) = Some c"
    and "160 \<le> place c" and "place c + max_size \<le> CELLS" and "0 < max_size" and "max_size \<le> length buf"
  shows "\<exists>b s'. dogeio_input prompt buf max_size s = Some (b, s') \<and> cstr b = z_text (fold (edit max_size) ks ([], []))"
proof -
  have "wf_console (con (trm s))" using assms(1) by (simp add: quiet_def wf_terminal_def)
  then have c: "wf_console c" "same_mode (con (trm s)) c"
    using dogeio_print_keeps assms(7,8) by blast+
  let ?c = "c \<lparr> cursor_visible := True \<rparr>" and ?l = "\<lparr> buffer = buf[0 := 0], llen = 0, pos = 0 \<rparr>"
  let ?s = "s \<lparr> trm := (trm s) \<lparr> con := ?c \<rparr> \<rparr>"
  have q: "quiet (trm ?s)" using quiet_con [OF assms(1), of ?c] c by (simp add: wf_console_def)
  obtain r where "buf[0 := 0] = 0 # r" using assms(11,12) by (cases buf) auto
  moreover from this have "length buf = Suc (length r)" by (metis length_Cons length_list_update)
  ultimately have li: "line_in max_size ([], []) ?l" using assms(11,12) by (simp add: line_in_def z_text_def)
  have lo: "line_on max_size (place c) (text_grid c) ([], []) ?c"
    using c(1) by (simp add: line_on_def wf_console_def z_text_def)
  have "\<exists>l' s'. input_loop prompt max_size (workspace_generation (trm ?s)) ?l ?s = Some (l', s')
     \<and> line_in max_size (fold (edit max_size) ks ([], [])) l' \<and> plain_text (z_text (fold (edit max_size) ks ([], [])))
     \<and> length (buffer l') = length (buffer ?l)"
    by (rule input_loop_ok [where k = "kbd (trm s)" and ks' = ks' and p = "place c" and g = "text_grid c"])
      (use q li lo assms(2-6,9,10) in \<open>simp_all add: alike_def\<close>)
  then obtain l' s' where l: "input_loop prompt max_size (workspace_generation (trm s)) ?l ?s = Some (l', s')"
    "line_in max_size (fold (edit max_size) ks ([], [])) l'" "plain_text (z_text (fold (edit max_size) ks ([], [])))" by auto
  let ?t = "z_text (fold (edit max_size) ks ([], []))"
  from l(2) obtain r where r: "buffer l' = ?t @ 0 # r" "llen l' = length ?t" by (auto simp: line_in_def)
  have "0 \<notin> set ?t" using l(3) by (auto simp: plain_text_def)
  then have "cstr ((buffer l')[llen l' := 0]) = ?t" using r by (simp add: list_update_append cstr_app)
  moreover have "llen l' < length (buffer l')" using r by simp
  moreover have "buf \<noteq> []" using assms(11,12) by auto
  ultimately show ?thesis using l(1) assms(8)
    by (simp add: dogeio_input_def on_console_def empty_line_def buf_set_def dogeio_cursor_show_def)
qed

section \<open>The end of the screen\<close>

lemma corner:
  assumes "on_screen c" and "place c = 7999"
  shows "cursor_x c = 159" and "cursor_y c = 49"
proof -
  have "at 7999 c = c" using at_place [OF assms(1)] assms(2) by simp
  moreover have "cursor_x (at 7999 c) = 159" "cursor_y (at 7999 c) = 49" by (simp_all add: at_def)
  ultimately show "cursor_x c = 159" "cursor_y c = 49" by simp_all
qed

lemma insert_corner:
  assumes "line_in max_size ([], []) l" and "wf_grids c" and "on_screen c" and "place c = 7999" and "1 < max_size"
  shows "\<exists>l' c'. insert_run 1 ch max_size l c = Some (l', c') \<and> line_in max_size ([ch], []) l'
    \<and> cursor_x c' = 0 \<and> cursor_y c' = 50 \<and> wf_grids c'"
proof -
  obtain r where r: "buffer l = 0 # r" "llen l = 0" "pos l = 0" "max_size \<le> length (buffer l)"
    using assms(1) by (auto simp: line_in_def z_text_def)
  let ?c = "c \<lparr> cursor_visible := False \<rparr>"
  note xy = corner [OF assms(3,4)]
  have "put_cell ch ?c = Some (draw 7999 ch ?c)" using put_cell_eq [of ?c ch] assms(2-4) by simp
  then have "redraw [ch] ?c = Some (draw 7999 ch ?c)" using xy by (simp add: redraw_def step_right_def)
  then have "insert_run 1 ch max_size l c
      = Some (\<lparr> buffer = ch # 0 # drop 1 r, llen = 1, pos = 1 \<rparr>, dogeio_cursor_show (step_right (draw 7999 ch ?c)))"
    using assms(5) r insert_run_redraw [of l "[]" "[]" r 1 max_size ch c] by simp
  moreover have "length r > 0" using r assms(5) by (cases r) auto
  ultimately show ?thesis using xy r assms(2,5)
    by (cases r) (auto simp: step_right_def dogeio_cursor_show_def line_in_def z_text_def wf_grids_def draw_def)
qed

lemma insert_below:
  assumes "line_in max_size ([ch], []) l" and "cursor_x c = 0" and "cursor_y c = 50" and "wf_grids c" and "2 < max_size"
  shows "insert_run 1 ch' max_size l c = None"
proof -
  obtain r where r: "buffer l = ch # 0 # r" "llen l = 1" "pos l = 1" "max_size \<le> length (buffer l)"
    using assms(1) by (auto simp: line_in_def z_text_def)
  have "put_cell ch' (c \<lparr> cursor_visible := False \<rparr>) = None"
    using assms(2-4) by (simp add: put_cell_def set_text_def cell_def buf_set_def wf_grids_def)
  then have "redraw [ch'] (c \<lparr> cursor_visible := False \<rparr>) = None" by (simp add: redraw_def)
  with r assms(5) insert_run_redraw [of l "[ch]" "[]" r 1 max_size ch' c] show ?thesis by simp
qed

lemma plain_keys:
  assumes "\<not> shift_pressed k" and "\<not> ctrl_pressed k" and "\<not> escaped k"
  shows "dogeio_decode_key 0x23 k = (104, k)" and "dogeio_decode_key 0xA3 k = (KEY_UNKNOWN, k)"
    and "dogeio_decode_key 0x17 k = (105, k)" and "dogeio_decode_key 0x1C k = (KEY_ENTER, k)"
  using assms by (cases k; simp add: dogeio_decode_key_def char_key_def arrow_key_def map_lower_def asc_def)+

section \<open>Properties\<close>





text \<open>
  C39: the line editor does not scroll. With the cursor in the last cell of the screen, the first
  character is still stored, and the second one is written behind the end of the character grid.
\<close>

theorem dogeio_input_overruns_screen:
  assumes "line_in max_size ([], []) l" and "wf_grids c" and "on_screen c" and "place c = 7999" and "2 < max_size"
    and "32 \<le> key" and "key < 127" and "32 \<le> key'" and "key' < 127"
  shows "\<exists>l' c'. edit_key max_size key l c = Some (l', c') \<and> edit_key max_size key' l' c' = None"
proof -
  have k: "edit_key max_size x d e = insert_run 1 (ucast x) max_size d e" if "32 \<le> x" "x < 127" for x d e
  proof -
    have "32 \<le> unat x" "unat x < 127" using that by (simp_all add: word_le_nat_alt word_less_nat_alt)
    then have "x \<notin> {KEY_LEFT, KEY_TAB, 0xF, 0xD, KEY_RIGHT, KEY_BACKSPACE}" by auto
    with that show ?thesis by (auto simp: edit_key_def)
  qed
  from insert_corner [OF assms(1-4), of "ucast key"] assms(5) obtain l' c' where
    "insert_run 1 (ucast key) max_size l c = Some (l', c')" "line_in max_size ([ucast key], []) l'"
    "cursor_x c' = 0" "cursor_y c' = 50" "wf_grids c'" by auto
  with insert_below [of max_size "ucast key" l' c' "ucast key'"] k assms(5-9) show ?thesis by auto
qed

theorem dogeio_input_overruns_screen_witness:
  "\<exists>l' c'. edit_key 10 120 \<lparr> buffer = replicate 10 0, llen = 0, pos = 0 \<rparr> (at 7999 blank_console) = Some (l', c')
     \<and> edit_key 10 121 l' c' = None"
proof -
  have "line_in 10 ([], []) \<lparr> buffer = replicate 10 0, llen = 0, pos = 0 \<rparr>"
    by (simp add: line_in_def z_text_def numeral_eq_Suc)
  moreover have "wf_grids (at 7999 blank_console)" "on_screen (at 7999 blank_console)" "place (at 7999 blank_console) = 7999"
    using blank_wf place_at [of 7999 blank_console] by (simp_all add: wf_console_def)
  ultimately show ?thesis using dogeio_input_overruns_screen [of 10 _ "at 7999 blank_console" 120 121] by simp
qed

end
