(* ===== verification/Pmm.thy ===== *)
theory Pmm
  imports Prelude
begin

text \<open>
  Physical memory of \<open>helper/core/memory/mmu.c\<close> (lines 25-170) and the kernel heap of
  \<open>helper/core/memory/kernel.c\<close>. Memory is a map from slot addresses (multiples of eight) to
  64-bit values; an access through the higher-half direct map, \<open>phys + hhdm_offset\<close>, is an access
  to \<open>phys\<close>. The bootloader's memory map and direct-map responses are optional, as in the code;
  \<open>None\<close> as the result of an operation stands for a halted machine or undefined behaviour. The
  TLB (\<open>invlpg\<close>, reloading \<open>cr3\<close>) is not modelled: translation reads the tables.
\<close>

type_synonym memory = "u64 \<Rightarrow> u64"

record memmap_entry =
  base :: u64
  len :: u64
  kind :: u64

abbreviation (input) LIMINE_MEMMAP_USABLE :: u64 where
  "LIMINE_MEMMAP_USABLE \<equiv> 0"

record machine =
  mem :: memory
  cr3 :: u64
  efer :: u64
  free_page_head :: u64
  alloc_index :: nat
  alloc_offset :: u64
  memmap :: "memmap_entry list option"
  hhdm :: "u64 option"

abbreviation (input) PAGE_PRESENT :: u64 where "PAGE_PRESENT \<equiv> 0x1"
abbreviation (input) PAGE_WRITABLE :: u64 where "PAGE_WRITABLE \<equiv> 0x2"
abbreviation (input) PAGE_USER :: u64 where "PAGE_USER \<equiv> 0x4"
abbreviation (input) PAGE_WRITE_THROUGH :: u64 where "PAGE_WRITE_THROUGH \<equiv> 0x8"
abbreviation (input) PAGE_CACHE_DISABLE :: u64 where "PAGE_CACHE_DISABLE \<equiv> 0x10"
abbreviation (input) PAGE_LARGE :: u64 where "PAGE_LARGE \<equiv> 0x80"
abbreviation (input) PAGE_NO_EXECUTE :: u64 where "PAGE_NO_EXECUTE \<equiv> 0x8000000000000000"
abbreviation (input) PAGE_ADDRESS_MASK :: u64 where "PAGE_ADDRESS_MASK \<equiv> 0x000FFFFFFFFFF000"
abbreviation (input) EFER_NXE :: u64 where "EFER_NXE \<equiv> 0x800"
abbreviation (input) PAGE_USER_FLAGS :: u64 where "PAGE_USER_FLAGS \<equiv> 0x7"

definition zero_page :: "u64 \<Rightarrow> memory \<Rightarrow> memory" where
  "zero_page p m = (\<lambda>a. if a - p < 4096 then 0 else m a)"

definition pmm_free_page :: "u64 \<Rightarrow> machine \<Rightarrow> machine" where
  "pmm_free_page phys_addr st =
     (if phys_addr = 0 \<or> \<not> page_aligned phys_addr then st
      else st \<lparr> mem := (mem st) (phys_addr := free_page_head st), free_page_head := phys_addr \<rparr>)"

text \<open>\<open>free_user_table phys level\<close>: level 1 is a page table; the code calls it with levels 3 to 1.\<close>

primrec free_user_table :: "nat \<Rightarrow> u64 \<Rightarrow> machine \<Rightarrow> machine" where
  "free_user_table 0 phys_addr st = st"
| "free_user_table (Suc l) phys_addr st =
     pmm_free_page phys_addr
       (fold (\<lambda>i st.
          let entry = mem st (slot phys_addr i) in
          if entry AND PAGE_USER = 0 then st
          else if l = 0 then
            (let child_phys = entry AND PAGE_ADDRESS_MASK in
             if child_phys \<noteq> 0 then pmm_free_page child_phys st else st)
          else if entry AND PAGE_PRESENT \<noteq> 0 then free_user_table l (page_of entry) st
          else st) [0..<512] st)"

abbreviation user_present :: "u64 \<Rightarrow> bool" where
  "user_present e \<equiv> e AND (PAGE_PRESENT OR PAGE_USER) = PAGE_PRESENT OR PAGE_USER"

definition detach_user_tables :: "machine \<Rightarrow> u64 list \<times> machine" where
  "detach_user_tables st =
     (let pml4 = page_of (cr3 st) in
      fold (\<lambda>i (user_tables, st).
        if user_present (mem st (slot pml4 i))
        then (user_tables @ [page_of (mem st (slot pml4 i))],
              st \<lparr> mem := (mem st) (slot pml4 i := 0) \<rparr>)
        else (user_tables @ [0], st)) [0..<256] ([], st))"

definition cleanup_user_pages :: "machine \<Rightarrow> machine" where
  "cleanup_user_pages st =
     (case hhdm st of None \<Rightarrow> st
      | Some _ \<Rightarrow>
        let (user_tables, st) = detach_user_tables st
        in fold (\<lambda>t st. if t \<noteq> 0 then free_user_table 3 t st else st) user_tables st)"

function pmm_scan :: "memmap_entry list \<Rightarrow> nat \<Rightarrow> u64 \<Rightarrow> u64 option \<times> nat \<times> u64" where
  "pmm_scan es i off =
     (if i < length es
      then if kind (es ! i) \<noteq> LIMINE_MEMMAP_USABLE then pmm_scan es (Suc i) 0
           else if off + 4096 \<le> len (es ! i) then (Some (base (es ! i) + off), i, off + 4096)
           else pmm_scan es (Suc i) 0
      else (None, i, off))"
  by pat_completeness auto
termination by (relation "measure (\<lambda>(es, i, off). length es - i)") auto

declare pmm_scan.simps [simp del]

definition pmm_alloc_zeroed_page :: "machine \<Rightarrow> (u64 \<times> machine) option" where
  "pmm_alloc_zeroed_page st =
     do {
       es \<leftarrow> memmap st;
       _ \<leftarrow> hhdm st;
       Some (if free_page_head st \<noteq> 0
             then let phys_addr = free_page_head st in
               (phys_addr, st \<lparr> free_page_head := mem st phys_addr,
                                mem := zero_page phys_addr (mem st) \<rparr>)
             else case pmm_scan es (alloc_index st) (alloc_offset st) of
               (r, i, off) \<Rightarrow>
                 let st = st \<lparr> alloc_index := i, alloc_offset := off \<rparr> in
                 (case r of
                    Some phys_addr \<Rightarrow> (phys_addr, st \<lparr> mem := zero_page phys_addr (mem st) \<rparr>)
                  | None \<Rightarrow> (0, cleanup_user_pages st)))
     }"

partial_function (option) count_free_list :: "memory \<Rightarrow> u64 \<Rightarrow> u64 \<Rightarrow> u64 \<Rightarrow> u64 option" where
  "count_free_list m hhdm_offset current_free n =
     (if current_free = 0 then Some n
      else if hhdm_offset \<noteq> 0 then count_free_list m hhdm_offset (m current_free) (n + 1)
      else Some (n + 1))"

definition pmm_get_free_page_count :: "machine \<Rightarrow> u64 option" where
  "pmm_get_free_page_count st =
     (case memmap st of None \<Rightarrow> Some 0
      | Some es \<Rightarrow>
        do {
          n \<leftarrow> count_free_list (mem st) (case hhdm st of None \<Rightarrow> 0 | Some h \<Rightarrow> h)
                 (free_page_head st) 0;
          Some (fold (\<lambda>e n. if kind e = LIMINE_MEMMAP_USABLE then n + len e div 4096 else n) es n)
        })"

text \<open>The bump allocator behind \<open>kmalloc\<close>: \<open>current_heap_ptr\<close> is its static variable,
  \<open>endkernel\<close> the linker symbol. \<open>kfree\<close> does nothing.\<close>

definition align_up16 :: "u64 \<Rightarrow> u64" where
  "align_up16 p = (p + 15) AND NOT 15"

definition kmalloc :: "memmap_entry list option \<Rightarrow> u64 \<Rightarrow> u64 \<Rightarrow> u64 \<Rightarrow> u64 \<times> u64" where
  "kmalloc response endkernel current_heap_ptr sz =
     (let p = (if current_heap_ptr = 0
               then case response of None \<Rightarrow> 0
                    | Some es \<Rightarrow>
                      (case filter (\<lambda>e. kind e = LIMINE_MEMMAP_USABLE) es of
                         [] \<Rightarrow> 0 | e # _ \<Rightarrow> base e)
               else current_heap_ptr);
          p = (if p = 0 then endkernel else p);
          p = align_up16 p
      in (p, p + sz))"

definition kfree :: "u64 \<Rightarrow> u64 \<Rightarrow> u64" where
  "kfree current_heap_ptr ptr = current_heap_ptr"

section \<open>The pages the allocator can still hand out\<close>

text \<open>The free list threads the freed pages through their first slots.\<close>

fun free_list :: "memory \<Rightarrow> u64 \<Rightarrow> u64 list \<Rightarrow> bool" where
  "free_list m h [] \<longleftrightarrow> h = 0"
| "free_list m h (p # ps) \<longleftrightarrow>
     h = p \<and> p \<noteq> 0 \<and> page_aligned p \<and> p \<notin> set ps \<and> free_list m (m p) ps"

text \<open>The pages of a usable entry from an offset on, and the pages the scan has not passed.\<close>

definition entry_pages :: "memmap_entry \<Rightarrow> u64 \<Rightarrow> u64 set" where
  "entry_pages e off =
     (if kind e = LIMINE_MEMMAP_USABLE
      then {p. \<exists>k. unat p = unat (base e) + 4096 * k \<and> unat off \<le> 4096 * k
                 \<and> 4096 * k + 4096 \<le> unat (len e)}
      else {})"

definition remaining :: "memmap_entry list \<Rightarrow> nat \<Rightarrow> u64 \<Rightarrow> u64 set" where
  "remaining es i off =
     (\<Union>j\<in>{i..<length es}. entry_pages (es ! j) (if j = i then off else 0))"

text \<open>What the bootloader guarantees of its map: usable entries are page-aligned, do not
  contain page zero, lie below \<open>2 ^ 52\<close> and do not overlap.\<close>

definition entry_wf :: "memmap_entry \<Rightarrow> bool" where
  "entry_wf e \<longleftrightarrow> page_aligned (base e) \<and> base e \<noteq> 0 \<and> unat (base e) + unat (len e) \<le> 2 ^ 52"

definition apart :: "memmap_entry \<Rightarrow> memmap_entry \<Rightarrow> bool" where
  "apart d e \<longleftrightarrow> unat (base d) + unat (len d) \<le> unat (base e)
                \<or> unat (base e) + unat (len e) \<le> unat (base d)"

definition memmap_wf :: "memmap_entry list \<Rightarrow> bool" where
  "memmap_wf es \<longleftrightarrow>
     (\<forall>e\<in>set es. kind e = LIMINE_MEMMAP_USABLE \<longrightarrow> entry_wf e) \<and>
     sorted_wrt (\<lambda>d e. kind d = LIMINE_MEMMAP_USABLE \<longrightarrow> kind e = LIMINE_MEMMAP_USABLE \<longrightarrow> apart d e) es"

definition scan_wf :: "u64 \<Rightarrow> bool" where
  "scan_wf off \<longleftrightarrow> page_aligned off \<and> unat off \<le> 2 ^ 52"

text \<open>\<open>pmm_pool st F\<close>: the allocator is in a consistent state and \<open>F\<close> is the set of pages it
  can still hand out.\<close>

definition pmm_pool :: "machine \<Rightarrow> u64 set \<Rightarrow> bool" where
  "pmm_pool st F \<longleftrightarrow>
     (\<exists>es ps. memmap st = Some es \<and> hhdm st \<noteq> None \<and> memmap_wf es \<and> scan_wf (alloc_offset st)
        \<and> free_list (mem st) (free_page_head st) ps
        \<and> set ps \<inter> remaining es (alloc_index st) (alloc_offset st) = {}
        \<and> F = set ps \<union> remaining es (alloc_index st) (alloc_offset st))"

lemma free_list_frame:
  "free_list m h ps \<Longrightarrow> (\<And>p. p \<in> set ps \<Longrightarrow> m' p = m p) \<Longrightarrow> free_list m' h ps"
  by (induction m h ps rule: free_list.induct) auto

lemma free_list_pages: "free_list m h ps \<Longrightarrow> p \<in> set ps \<Longrightarrow> p \<noteq> 0 \<and> page_aligned p"
  by (induction m h ps rule: free_list.induct) auto

lemma zero_page_aligned:
  "page_aligned p \<Longrightarrow> zero_page p m a = (if page_of a = p then 0 else m a)"
  by (simp add: zero_page_def page_range_iff)

lemma entry_pages_aligned:
  assumes "entry_wf e" and "p \<in> entry_pages e off"
  shows "p \<noteq> 0 \<and> page_aligned p"
proof -
  from assms(2) obtain k where p: "unat p = unat (base e) + 4096 * k"
    by (auto simp: entry_pages_def split: if_splits)
  moreover have "unat (base e) \<noteq> 0" using assms(1) by (simp add: entry_wf_def unat_eq_zero)
  moreover from assms(1) have "unat (base e) mod 4096 = 0"
    by (simp add: entry_wf_def page_aligned_iff)
  ultimately show ?thesis by (auto simp: page_aligned_iff)
qed

lemma remaining_step:
  assumes "i < length es"
  shows "remaining es i off = entry_pages (es ! i) off \<union> remaining es (Suc i) 0"
proof -
  have "{i..<length es} = insert i {Suc i..<length es}" using assms by auto
  then show ?thesis by (auto simp: remaining_def)
qed

lemma remaining_aligned:
  assumes "memmap_wf es" and "p \<in> remaining es i off"
  shows "p \<noteq> 0 \<and> page_aligned p"
proof -
  from assms(2) obtain j off' where "j < length es" "p \<in> entry_pages (es ! j) off'"
    by (auto simp: remaining_def)
  moreover from this have "kind (es ! j) = LIMINE_MEMMAP_USABLE"
    by (auto simp: entry_pages_def split: if_splits)
  ultimately show ?thesis
    using assms(1) entry_pages_aligned [of "es ! j" p off'] by (simp add: memmap_wf_def)
qed

lemma entry_pages_none:
  assumes "entry_wf e" and "scan_wf off" and "\<not> off + 4096 \<le> len e"
  shows "entry_pages e off = {}"
proof -
  have "unat (off + 4096) = unat off + 4096"
    using assms(2) by (simp add: scan_wf_def unat_word_ariths)
  then have "unat (len e) < unat off + 4096" using assms(3) by (simp add: word_le_nat_alt)
  then show ?thesis by (auto simp: entry_pages_def)
qed

lemma entry_pages_next:
  assumes "entry_wf e" and "scan_wf off" and "off + 4096 \<le> len e"
    and "kind e = LIMINE_MEMMAP_USABLE"
  shows "scan_wf (off + 4096)" "entry_pages e off = insert (base e + off) (entry_pages e (off + 4096))"
    "base e + off \<notin> entry_pages e (off + 4096)"
proof -
  have o: "unat (off + 4096) = unat off + 4096"
    using assms(2) by (simp add: scan_wf_def unat_word_ariths)
  have l: "unat off + 4096 \<le> unat (len e)" using assms(3) o by (simp add: word_le_nat_alt)
  have b: "unat (base e + off) = unat (base e) + unat off"
    using assms(1) l by (simp add: entry_wf_def unat_word_ariths)
  from assms(2) obtain c where c: "unat off = 4096 * c"
    by (auto simp: scan_wf_def elim: page_alignedE)
  show "scan_wf (off + 4096)"
    using assms(1) l c o by (simp add: scan_wf_def page_aligned_iff entry_wf_def)
  show "base e + off \<notin> entry_pages e (off + 4096)"
    using assms(4) by (simp add: entry_pages_def b o c)
  have "k = c \<or> Suc c \<le> k" if "4096 * c \<le> 4096 * k" for k using that by auto
  then show "entry_pages e off = insert (base e + off) (entry_pages e (off + 4096))"
    using assms(4) l by (auto simp: entry_pages_def word_unat_eq_iff b o c)
qed

lemma entry_pages_apart:
  assumes "apart d e" and "p \<in> entry_pages d off" shows "p \<notin> entry_pages e off'"
  using assms by (auto simp: apart_def entry_pages_def split: if_splits)

lemma remaining_later:
  assumes "memmap_wf es" and "i < length es" and "p \<in> entry_pages (es ! i) off"
  shows "p \<notin> remaining es (Suc i) 0"
proof
  assume "p \<in> remaining es (Suc i) 0"
  then obtain j off' where j: "i < j" "j < length es" "p \<in> entry_pages (es ! j) off'"
    unfolding remaining_def by (auto simp: Suc_le_eq)
  have "kind (es ! i) = LIMINE_MEMMAP_USABLE" "kind (es ! j) = LIMINE_MEMMAP_USABLE"
    using assms(3) j(3) by (auto simp: entry_pages_def split: if_splits)
  then have "apart (es ! i) (es ! j)"
    using assms(1) j by (auto simp: memmap_wf_def sorted_wrt_iff_nth_less)
  from entry_pages_apart [OF this assms(3)] j(3) show False by blast
qed

lemma pmm_scan_correct:
  assumes "memmap_wf es" and "scan_wf off" and "pmm_scan es i off = (r, i', off')"
  shows "scan_wf off' \<and> (case r of
      None \<Rightarrow> remaining es i off = {} \<and> remaining es i' off' = {}
    | Some p \<Rightarrow> p \<in> remaining es i off \<and> remaining es i' off' = remaining es i off - {p})"
  using assms
proof (induction es i off rule: pmm_scan.induct)
  case (1 es i off)
  have zero: "scan_wf 0" by (simp add: scan_wf_def page_aligned_def)
  show ?case
  proof (cases "i < length es")
    case False
    with 1 show ?thesis by (simp add: pmm_scan.simps [of es] remaining_def)
  next
    case True
    let ?e = "es ! i"
    have wf: "kind ?e = LIMINE_MEMMAP_USABLE \<Longrightarrow> entry_wf ?e"
      using 1(3) True by (auto simp: memmap_wf_def)
    show ?thesis
    proof (cases "kind ?e = LIMINE_MEMMAP_USABLE \<and> off + 4096 \<le> len ?e")
      case fit: True
      then have r: "r = Some (base ?e + off)" "i' = i" "off' = off + 4096"
        using True 1(5) by (auto simp: pmm_scan.simps [of es i])
      note nx = entry_pages_next [OF wf 1(4)]
      have "base ?e + off \<notin> remaining es (Suc i) 0"
        by (rule remaining_later [OF 1(3) True, of _ off]) (use fit nx in auto)
      with fit nx show ?thesis unfolding r by (auto simp: remaining_step [OF True])
    next
      case skip: False
      then have e: "entry_pages ?e off = {}"
        using entry_pages_none [OF wf 1(4)] by (auto simp: entry_pages_def)
      have "pmm_scan es (Suc i) 0 = (r, i', off')"
        using skip True 1(5) by (auto simp: pmm_scan.simps [of es i] split: if_splits)
      with skip True have "scan_wf off' \<and> (case r of
          None \<Rightarrow> remaining es (Suc i) 0 = {} \<and> remaining es i' off' = {}
        | Some p \<Rightarrow> p \<in> remaining es (Suc i) 0
            \<and> remaining es i' off' = remaining es (Suc i) 0 - {p})"
        using 1(1,2) 1(3) zero by blast
      then show ?thesis by (cases r) (simp_all add: remaining_step [OF True] e)
    qed
  qed
qed

section \<open>The contract of the page allocator\<close>

lemma pool_pages: "pmm_pool st F \<Longrightarrow> p \<in> F \<Longrightarrow> p \<noteq> 0 \<and> page_aligned p"
  unfolding pmm_pool_def using free_list_pages remaining_aligned by blast

lemma pool_frame:
  assumes "pmm_pool st F" and "\<And>p. p \<in> F \<Longrightarrow> mem st' p = mem st p"
    and "memmap st' = memmap st" and "hhdm st' = hhdm st"
    and "free_page_head st' = free_page_head st"
    and "alloc_index st' = alloc_index st" and "alloc_offset st' = alloc_offset st"
  shows "pmm_pool st' F"
proof -
  from assms(1) obtain es ps where p: "memmap st = Some es" "hhdm st \<noteq> None" "memmap_wf es"
      "scan_wf (alloc_offset st)" "free_list (mem st) (free_page_head st) ps"
      "set ps \<inter> remaining es (alloc_index st) (alloc_offset st) = {}"
      "F = set ps \<union> remaining es (alloc_index st) (alloc_offset st)"
    unfolding pmm_pool_def by blast
  moreover have "free_list (mem st') (free_page_head st) ps"
    using p(5) by (rule free_list_frame) (simp add: assms(2) p(7))
  ultimately show ?thesis unfolding pmm_pool_def assms(3-7) by blast
qed

lemma pool_alloc:
  assumes "pmm_pool st F" and "F \<noteq> {}"
  shows "\<exists>p st'. pmm_alloc_zeroed_page st = Some (p, st') \<and> p \<in> F \<and> pmm_pool st' (F - {p})
           \<and> mem st' = zero_page p (mem st) \<and> cr3 st' = cr3 st \<and> efer st' = efer st
           \<and> hhdm st' = hhdm st"
proof -
  let ?i = "alloc_index st" and ?off = "alloc_offset st"
  from assms(1) obtain es ps h where p: "memmap st = Some es" "hhdm st = Some h" "memmap_wf es"
      "scan_wf ?off" "free_list (mem st) (free_page_head st) ps"
      "set ps \<inter> remaining es ?i ?off = {}" "F = set ps \<union> remaining es ?i ?off"
    unfolding pmm_pool_def by blast
  show ?thesis
  proof (cases ps)
    case (Cons q qs)
    let ?st = "st \<lparr> free_page_head := mem st q, mem := zero_page q (mem st) \<rparr>"
    have q: "free_page_head st = q" "q \<noteq> 0" "page_aligned q" "q \<notin> set qs"
        "free_list (mem st) (mem st q) qs" using p(5) Cons by auto
    have "free_list (zero_page q (mem st)) (mem st q) qs"
      using q(5) by (rule free_list_frame)
        (use free_list_pages [OF q(5)] q(4) in \<open>auto simp: zero_page_aligned [OF q(3)]\<close>)
    moreover have "F - {q} = set qs \<union> remaining es ?i ?off" using p(6,7) q(4) Cons by auto
    ultimately have "pmm_pool ?st (F - {q})"
      unfolding pmm_pool_def using p Cons by (intro exI [of _ es] exI [of _ qs]) auto
    moreover have "pmm_alloc_zeroed_page st = Some (q, ?st)"
      using p q by (simp add: pmm_alloc_zeroed_page_def)
    ultimately show ?thesis using p(7) Cons by auto
  next
    case Nil
    then have h: "free_page_head st = 0" using p(5) by simp
    obtain r i off where s: "pmm_scan es ?i ?off = (r, i, off)" by (metis prod_cases3)
    note c = pmm_scan_correct [OF p(3,4) s]
    from c assms(2) Nil p(7) obtain q where q: "r = Some q" by (cases r) auto
    let ?st = "st \<lparr> alloc_index := i, alloc_offset := off, mem := zero_page q (mem st) \<rparr>"
    have "pmm_alloc_zeroed_page st = Some (q, ?st)"
      using p h s q by (simp add: pmm_alloc_zeroed_page_def)
    moreover have "q \<in> F" and "F - {q} = remaining es i off" using c p(7) Nil q by auto
    moreover have "pmm_pool ?st (remaining es i off)"
      unfolding pmm_pool_def using p c h by (intro exI [of _ es] exI [of _ "[]"]) auto
    ultimately show ?thesis by auto
  qed
qed

lemma pool_free:
  assumes "pmm_pool st F" and "p \<notin> F" and "p \<noteq> 0" and "page_aligned p"
  shows "pmm_pool (pmm_free_page p st) (insert p F)"
proof -
  let ?i = "alloc_index st" and ?off = "alloc_offset st"
  from assms(1) obtain es ps where p: "memmap st = Some es" "hhdm st \<noteq> None" "memmap_wf es"
      "scan_wf ?off" "free_list (mem st) (free_page_head st) ps"
      "set ps \<inter> remaining es ?i ?off = {}" "F = set ps \<union> remaining es ?i ?off"
    unfolding pmm_pool_def by blast
  have "free_list ((mem st)(p := free_page_head st)) (free_page_head st) ps"
    using p(5) by (rule free_list_frame) (use assms(2) p(7) in auto)
  then have "free_list ((mem st)(p := free_page_head st)) p (p # ps)"
    using assms p(7) by simp
  then show ?thesis
    unfolding pmm_pool_def using p assms
    by (intro exI [of _ es] exI [of _ "p # ps"]) (auto simp: pmm_free_page_def)
qed

lemma mem_free_page:
  "p \<noteq> 0 \<Longrightarrow> page_aligned p \<Longrightarrow> mem (pmm_free_page p st) = (mem st)(p := free_page_head st)"
  by (simp add: pmm_free_page_def)

text \<open>A client sees a set of free pages: an allocation takes a zeroed page out of it, a release
  puts one back, and neither touches any other page.\<close>

locale page_pool =
  fixes pool :: "'s \<Rightarrow> u64 set \<Rightarrow> bool"
    and alloc :: "'s \<Rightarrow> (u64 \<times> 's) option"
    and release :: "u64 \<Rightarrow> 's \<Rightarrow> 's"
    and peek :: "'s \<Rightarrow> memory"
  assumes good_pages: "pool s F \<Longrightarrow> p \<in> F \<Longrightarrow> p \<noteq> 0 \<and> page_aligned p"
    and alloc_page: "pool s F \<Longrightarrow> F \<noteq> {} \<Longrightarrow>
      \<exists>p s'. alloc s = Some (p, s') \<and> p \<in> F \<and> pool s' (F - {p})
        \<and> (\<forall>a. peek s' a = (if page_of a = p then 0 else peek s a))"
    and release_page: "pool s F \<Longrightarrow> p \<notin> F \<Longrightarrow> p \<noteq> 0 \<Longrightarrow> page_aligned p \<Longrightarrow>
      pool (release p s) (insert p F) \<and> (\<forall>a. a \<noteq> p \<longrightarrow> peek (release p s) a = peek s a)"
begin

lemma alloc_result:
  assumes "pool s F" and "F \<noteq> {}" and "alloc s = Some (p, s')"
  shows "p \<in> F" and "pool s' (F - {p})" and "peek s' a = (if page_of a = p then 0 else peek s a)"
  using alloc_page [OF assms(1,2)] assms(3) by auto

end

primrec alloc_many :: "('s \<Rightarrow> (u64 \<times> 's) option) \<Rightarrow> nat \<Rightarrow> 's \<Rightarrow> (u64 list \<times> 's) option" where
  "alloc_many alloc 0 s = Some ([], s)"
| "alloc_many alloc (Suc n) s =
     do { (p, s) \<leftarrow> alloc s; (ps, s) \<leftarrow> alloc_many alloc n s; Some (p # ps, s) }"

context page_pool
begin

lemma alloc_many_fresh:
  assumes "pool s F" and "n \<le> card F"
  shows "\<exists>ps s'. alloc_many alloc n s = Some (ps, s') \<and> length ps = n \<and> distinct ps \<and> set ps \<subseteq> F
           \<and> pool s' (F - set ps)
           \<and> (\<forall>a. peek s' a = (if page_of a \<in> set ps then 0 else peek s a))"
  using assms
proof (induction n arbitrary: s F)
  case 0
  then show ?case by simp
next
  case (Suc n)
  then have "F \<noteq> {}" by auto
  from alloc_page [OF Suc.prems(1) this] obtain p s1 where a: "alloc s = Some (p, s1)" "p \<in> F"
      "pool s1 (F - {p})" "\<forall>a. peek s1 a = (if page_of a = p then 0 else peek s a)" by blast
  have "n \<le> card (F - {p})" using Suc.prems(2) a(2) by simp
  from Suc.IH [OF a(3) this] obtain ps s2 where b: "alloc_many alloc n s1 = Some (ps, s2)"
      "length ps = n" "distinct ps" "set ps \<subseteq> F - {p}" "pool s2 (F - {p} - set ps)"
      "\<forall>a. peek s2 a = (if page_of a \<in> set ps then 0 else peek s1 a)" by blast
  have "F - {p} - set ps = F - set (p # ps)" by auto
  with a b show ?case by (intro exI [of _ "p # ps"] exI [of _ s2]) auto
qed

end

interpretation pmm: page_pool pmm_pool pmm_alloc_zeroed_page pmm_free_page mem
proof
  fix st F assume "pmm_pool st F" "F \<noteq> {}"
  from pool_alloc [OF this] pool_pages [OF \<open>pmm_pool st F\<close>]
  show "\<exists>p s'. pmm_alloc_zeroed_page st = Some (p, s') \<and> p \<in> F \<and> pmm_pool s' (F - {p})
      \<and> (\<forall>a. mem s' a = (if page_of a = p then 0 else mem st a))"
    by (metis zero_page_aligned)
qed (simp_all add: pool_pages pool_free mem_free_page)

section \<open>Properties of the allocator\<close>

text \<open>How the kernel uses the allocator: pages are allocated, written while in use, and released;
  \<open>L\<close> is the set of pages in use. A failed allocation is not a step.\<close>

inductive pmm_step :: "machine \<times> u64 set \<Rightarrow> machine \<times> u64 set \<Rightarrow> bool" where
  take: "pmm_alloc_zeroed_page st = Some (p, st') \<Longrightarrow> p \<noteq> 0 \<Longrightarrow> pmm_step (st, L) (st', insert p L)"
| give: "p \<in> L \<Longrightarrow> pmm_step (st, L) (pmm_free_page p st, L - {p})"
| store: "page_of a \<in> L \<Longrightarrow> pmm_step (st, L) (st \<lparr> mem := (mem st)(a := v) \<rparr>, L)"

inductive_cases pmm_stepE: "pmm_step (st, L) (st', L')"

definition conserved :: "u64 set \<Rightarrow> machine \<times> u64 set \<Rightarrow> bool" where
  "conserved F0 = (\<lambda>(st, L). \<exists>F. pmm_pool st F \<and> F \<inter> L = {} \<and> F \<union> L = F0)"

lemma alloc_from_empty:
  assumes "pmm_pool st {}" and "pmm_alloc_zeroed_page st = Some (p, st')"
  shows "p = 0"
proof -
  let ?i = "alloc_index st" and ?off = "alloc_offset st"
  from assms(1) obtain es h where p: "memmap st = Some es" "hhdm st = Some h" "memmap_wf es"
      "scan_wf ?off" "free_page_head st = 0" "remaining es ?i ?off = {}"
    unfolding pmm_pool_def by auto
  obtain r i off where s: "pmm_scan es ?i ?off = (r, i, off)" by (metis prod_cases3)
  from pmm_scan_correct [OF p(3,4) s] p(6) have "r = None" by (cases r) auto
  with assms(2) p s show ?thesis by (simp add: pmm_alloc_zeroed_page_def)
qed

lemma conserved_step:
  assumes "pmm_step (st, L) (st', L')" and "conserved F0 (st, L)" and "\<forall>p\<in>F0. p \<noteq> 0 \<and> page_aligned p"
  shows "conserved F0 (st', L')"
proof -
  from assms(2) obtain F where F: "pmm_pool st F" "F \<inter> L = {}" "F \<union> L = F0"
    by (auto simp: conserved_def)
  from assms(1) show ?thesis
  proof (rule pmm_stepE)
    fix p assume t: "L' = insert p L" "pmm_alloc_zeroed_page st = Some (p, st')" "p \<noteq> 0"
    then have "F \<noteq> {}" using alloc_from_empty F(1) by auto
    note r = pmm.alloc_result [OF F(1) this t(2)]
    with F t(1) show ?thesis by (auto simp: conserved_def)
  next
    fix p assume g: "st' = pmm_free_page p st" "L' = L - {p}" "p \<in> L"
    then have "pmm_pool st' (insert p F)" 
      unfolding g(1) by (intro pool_free [OF F(1)]) (use F g assms(3) in auto)
    with F g show ?thesis by (auto simp: conserved_def)
  next
    fix a v :: u64
    assume w: "st' = st\<lparr>mem := (mem st)(a := v)\<rparr>" "L = L'" "page_of a \<in> L'"
    have "q \<noteq> a" if "q \<in> F" for q
      using that w(2,3) F(2) pool_pages [OF F(1) that] by auto
    then have "pmm_pool st' F" unfolding w(1) by (intro pool_frame [OF F(1)]) auto
    with F w show ?thesis by (auto simp: conserved_def)
  qed
qed

lemma conserved_steps:
  assumes "pmm_step\<^sup>*\<^sup>* s s'" and "conserved F0 s" and "\<forall>p\<in>F0. p \<noteq> 0 \<and> page_aligned p"
  shows "conserved F0 s'"
  using assms(1,2)
proof (induction rule: rtranclp_induct)
  case (step y z)
  then show ?case using conserved_step [OF _ _ assms(3)] by (cases y; cases z) auto
qed simp

text \<open>
  C6: however allocations, releases and writes to pages in use are interleaved, no page is ever
  lost or handed out twice: the free pages and the pages in use stay disjoint and together are
  exactly the pages of the initial pool, and as long as one is free the next allocation succeeds
  with a zeroed page that is not in use.
\<close>

theorem pmm_pages_conserved:
  assumes "pmm_pool st0 F0" and "pmm_step\<^sup>*\<^sup>* (st0, {}) (st, L)"
  shows "L \<subseteq> F0 \<and> pmm_pool st (F0 - L) \<and>
    (F0 \<noteq> L \<longrightarrow> (\<exists>p st'. pmm_alloc_zeroed_page st = Some (p, st') \<and> p \<noteq> 0 \<and> page_aligned p \<and> p \<notin> L
       \<and> (\<forall>a. mem st' a = (if page_of a = p then 0 else mem st a))))"
proof -
  have "conserved F0 (st0, {})" using assms(1) by (simp add: conserved_def)
  then have "conserved F0 (st, L)"
    using conserved_steps [OF assms(2)] pool_pages [OF assms(1)] by blast
  then obtain F where F: "pmm_pool st F" "F \<inter> L = {}" "F \<union> L = F0" by (auto simp: conserved_def)
  then have "F = F0 - L" by auto
  moreover have "\<exists>p st'. pmm_alloc_zeroed_page st = Some (p, st') \<and> p \<noteq> 0 \<and> page_aligned p \<and> p \<notin> L
       \<and> (\<forall>a. mem st' a = (if page_of a = p then 0 else mem st a))" if "F0 \<noteq> L"
  proof -
    have "F \<noteq> {}" using that F by auto
    from pmm.alloc_page [OF F(1) this] pool_pages [OF F(1)] F(2) show ?thesis by blast
  qed
  ultimately show ?thesis using F by auto
qed

text \<open>A machine with three usable pages at \<open>0x1000\<close>, for concrete instances.\<close>

definition small_map :: "memmap_entry list" where
  "small_map = [\<lparr> base = 0, len = 0x1000, kind = 1 \<rparr>, \<lparr> base = 0x1000, len = 0x3000, kind = 0 \<rparr>]"

definition small_machine :: machine where
  "small_machine = \<lparr> mem = (\<lambda>_. 7), cr3 = 0, efer = 0, free_page_head = 0, alloc_index = 0,
     alloc_offset = 0, memmap = Some small_map, hhdm = Some 0xFFFF800000000000 \<rparr>"

lemma small_pool: "pmm_pool small_machine (remaining small_map 0 0)"
proof -
  have "memmap_wf small_map" "scan_wf 0"
    by (simp_all add: small_map_def memmap_wf_def entry_wf_def scan_wf_def page_aligned_def)
  then show ?thesis
    unfolding pmm_pool_def
    by (intro exI [of _ small_map] exI [of _ "[]"]) (simp add: small_machine_def)
qed

lemma small_pages: "remaining small_map 0 0 = {0x1000, 0x2000, 0x3000}"
proof -
  have "{k. 4096 * k + 4096 \<le> (12288 :: nat)} = {0, 1, 2}" by auto
  then have "entry_pages (small_map ! 1) 0 = {p. unat p = 4096 \<or> unat p = 8192 \<or> unat p = 12288}"
    by (auto simp: small_map_def entry_pages_def)
  moreover have "entry_pages (small_map ! 0) 0 = {}" by (simp add: small_map_def entry_pages_def)
  moreover have "{0..<length small_map} = {0, 1}" by (auto simp: small_map_def)
  ultimately show ?thesis by (auto simp: remaining_def word_unat_eq_iff)
qed

theorem pmm_pages_conserved_witness:
  "\<exists>st p st'. pmm_step\<^sup>*\<^sup>* (small_machine, {}) (st, {0x1000}) \<and>
     pmm_alloc_zeroed_page st = Some (p, st') \<and> p \<noteq> 0 \<and> p \<noteq> 0x1000 \<and> mem st' p = 0"
proof -
  obtain st where "pmm_alloc_zeroed_page small_machine = Some (0x1000, st)"
    by (simp add: pmm_alloc_zeroed_page_def small_machine_def small_map_def pmm_scan.simps)
  then have s: "pmm_step\<^sup>*\<^sup>* (small_machine, {}) (st, {0x1000})"
    using take [of small_machine "0x1000" st "{}"] by auto
  have "{0x1000, 0x2000, 0x3000} \<noteq> {0x1000 :: u64}" by auto
  with pmm_pages_conserved [OF small_pool [unfolded small_pages] s]
  obtain p st' where "pmm_alloc_zeroed_page st = Some (p, st')" "p \<noteq> 0" "page_aligned p" "p \<notin> {0x1000}"
     "\<forall>a. mem st' a = (if page_of a = p then 0 else mem st a)" by blast
  with s show ?thesis by (intro exI [of _ st] exI [of _ p] exI [of _ st']) auto
qed

lemma align_16:
  fixes p :: u64
  assumes "page_aligned p"
  shows "align_up16 p = p"
proof -
  obtain k where k: "unat p = 4096 * k" "k < 2 ^ 52" using assms by (rule page_alignedE)
  have u: "unat (p + 15) = 4096 * k + 15" using k by (simp add: unat_word_ariths)
  have "align_up16 p = (p + 15) AND NOT (mask 4)"
    unfolding align_up16_def by (simp add: mask_eq_exp_minus_1)
  also have "\<dots> = push_bit 4 (drop_bit 4 (p + 15))"
    by (rule bit_word_eqI) (auto simp: bit_simps)
  also have "\<dots> = p"
    using k by (simp add: word_unat_eq_iff push_bit_eq_mult drop_bit_eq_div unat_word_ariths
        unat_div u)
  finally show ?thesis .
qed

text \<open>
  C37: the kernel heap and the page allocator give out the same memory: the first \<open>kmalloc\<close>
  returns the base of the first usable entry, which is also the first page the page allocator
  hands out on the same map.
\<close>

theorem kmalloc_overlaps_pmm:
  assumes "memmap st = Some (os @ e # es)" and "\<forall>d\<in>set os. kind d \<noteq> LIMINE_MEMMAP_USABLE"
    and "kind e = LIMINE_MEMMAP_USABLE" and "entry_wf e" and "4096 \<le> len e"
    and "hhdm st \<noteq> None" and "free_page_head st = 0" and "alloc_index st = 0" and "alloc_offset st = 0"
  shows "\<exists>st'. pmm_alloc_zeroed_page st = Some (fst (kmalloc (memmap st) endkernel 0 sz), st')"
proof -
  let ?es = "os @ e # es"
  have scan: "i \<le> length os \<Longrightarrow> pmm_scan ?es i 0 = (Some (base e), length os, 4096)" for i
  proof (induction "length os - i" arbitrary: i)
    case 0
    then have "i = length os" by simp
    with assms(3,5) show ?case by (subst pmm_scan.simps) simp
  next
    case (Suc k)
    then have "i < length os" "?es ! i \<in> set os" by (auto simp: nth_append)
    with Suc assms(2) show ?case by (subst pmm_scan.simps) simp
  qed
  have "page_aligned (base e)" "base e \<noteq> 0" using assms(4) by (simp_all add: entry_wf_def)
  then have "align_up16 (base e) = base e" by (simp add: align_16)
  moreover have "filter (\<lambda>e. kind e = LIMINE_MEMMAP_USABLE) (os @ e # es)
      = e # filter (\<lambda>e. kind e = LIMINE_MEMMAP_USABLE) es" using assms(2,3) by simp
  ultimately have "fst (kmalloc (memmap st) endkernel 0 sz) = base e"
    using \<open>base e \<noteq> 0\<close>
    by (simp only: kmalloc_def Let_def assms(1) option.case list.case if_True if_False fst_conv simp_thms)
  then show ?thesis
    using assms(1,6-9) scan [of 0] by (auto simp: pmm_alloc_zeroed_page_def simp del: append.simps)
qed

theorem kmalloc_overlaps_pmm_witness:
  "\<exists>st'. pmm_alloc_zeroed_page small_machine = Some (fst (kmalloc (Some small_map) 0 0 64), st')"
  using kmalloc_overlaps_pmm [of small_machine "[small_map ! 0]" "small_map ! 1" "[]" 0 64]
  by (simp add: small_machine_def small_map_def entry_wf_def page_aligned_def)

lemma count_free_list_eq:
  assumes "free_list m h ps" and "off \<noteq> 0"
  shows "count_free_list m off h n = Some (n + of_nat (length ps))"
  using assms(1)
proof (induction ps arbitrary: h n)
  case Nil
  then show ?case by (subst count_free_list.simps) simp
next
  case (Cons p ps)
  then show ?case by (subst count_free_list.simps) (simp add: assms(2))
qed

text \<open>
  \<open>pmm_get_free_page_count\<close> counts the free list and, on top, every page of every usable entry
  whether or not it has been handed out. So it always returns, but what it returns is not the
  number of pages left.
\<close>

theorem pmm_free_count_is_not_free:
  assumes "memmap st = Some es" and "hhdm st = Some h" and "h \<noteq> 0"
    and "free_list (mem st) (free_page_head st) ps"
  shows "pmm_get_free_page_count st = Some (of_nat (length ps) +
    (\<Sum>e\<leftarrow>filter (\<lambda>e. kind e = LIMINE_MEMMAP_USABLE) es. len e div 4096))"
proof -
  have "fold (\<lambda>e n. if kind e = 0 then n + len e div 4096 else n) es n
      = n + (\<Sum>e\<leftarrow>filter (\<lambda>e. kind e = 0) es. len e div 4096)" for n
    by (induction es arbitrary: n) simp_all
  with assms show ?thesis
    by (simp add: pmm_get_free_page_count_def count_free_list_eq [OF assms(4,3)])
qed

theorem pmm_free_count_is_not_free_witness:
  "\<exists>p st. pmm_alloc_zeroed_page small_machine = Some (p, st) \<and> pmm_pool st {0x2000, 0x3000}
     \<and> pmm_get_free_page_count st = Some 3"
proof -
  obtain p st where a: "pmm_alloc_zeroed_page small_machine = Some (p, st)" "p = 0x1000"
      "memmap st = Some small_map" "hhdm st = Some 0xFFFF800000000000" "free_page_head st = 0"
    by (simp add: pmm_alloc_zeroed_page_def small_machine_def small_map_def pmm_scan.simps)
  have "pmm_pool st ({0x1000, 0x2000, 0x3000} - {p})"
    by (rule pmm.alloc_result(2) [OF small_pool [unfolded small_pages] _ a(1)]) simp
  then have "pmm_pool st {0x2000, 0x3000}" by (simp add: a(2) insert_Diff_if)
  moreover have "pmm_get_free_page_count st = Some 3"
    using pmm_free_count_is_not_free [OF a(3,4), of "[]"] a(5) by (simp add: small_map_def)
  ultimately show ?thesis using a(1) by blast
qed

end
