(* ===== verification/Paging.thy ===== *)
theory Paging
  imports Pmm
begin

text \<open>
  The four-level page tables of \<open>helper/core/memory/mmu.c\<close> (lines 27-63 and 172-471), over the
  physical memory of \<open>Pmm\<close>: mapping, unmapping and protecting user pages, the suspend/restore of
  the user half, user address spaces, device mappings and program cleanup.
\<close>

section \<open>Bytes of physical memory\<close>

definition peek8 :: "memory \<Rightarrow> u64 \<Rightarrow> u8" where
  "peek8 m a = ucast (drop_bit (8 * unat (a AND 7)) (m (a AND NOT 7)))"

definition poke8 :: "u64 \<Rightarrow> u8 \<Rightarrow> memory \<Rightarrow> memory" where
  "poke8 a v m =
     (let s = a AND NOT 7; k = 8 * unat (a AND 7)
      in m (s := (m s AND NOT (push_bit k 0xFF)) OR push_bit k (ucast v)))"

fun poke_bytes :: "u64 \<Rightarrow> bytes \<Rightarrow> memory \<Rightarrow> memory" where
  "poke_bytes a [] m = m"
| "poke_bytes a (v # vs) m = poke_bytes (a + 1) vs (poke8 a v m)"

section \<open>Walking and changing the tables\<close>

definition indices :: "u64 \<Rightarrow> nat list" where
  "indices va = map (\<lambda>k. unat (drop_bit k va AND 0x1FF)) [39, 30, 21, 12]"

abbreviation root :: "machine \<Rightarrow> u64" where
  "root st \<equiv> page_of (cr3 st)"

text \<open>The first three levels of a walk, following only entries that are present and user.\<close>

fun user_walk :: "memory \<Rightarrow> u64 \<Rightarrow> nat list \<Rightarrow> u64 option" where
  "user_walk m table [] = Some table"
| "user_walk m table (i # is) =
     (if user_present (m (slot table i)) then user_walk m (page_of (m (slot table i))) is
      else None)"

definition user_entry :: "machine \<Rightarrow> u64 \<Rightarrow> u64 option" where
  "user_entry st va =
     map_option (\<lambda>table. slot table (indices va ! 3))
       (user_walk (mem st) (root st) (take 3 (indices va)))"

definition get_or_alloc_table :: "u64 \<Rightarrow> nat \<Rightarrow> machine \<Rightarrow> (u64 \<times> machine) option" where
  "get_or_alloc_table table i st =
     do {
       (e, st) \<leftarrow> (if mem st (slot table i) AND PAGE_PRESENT = 0
                   then do { (p, st) \<leftarrow> pmm_alloc_zeroed_page st; Some (p OR PAGE_USER_FLAGS, st) }
                   else Some (mem st (slot table i) OR PAGE_USER_FLAGS, st));
       Some (page_of e, st \<lparr> mem := (mem st)(slot table i := e) \<rparr>)
     }"

definition map_user_page :: "u64 \<Rightarrow> u64 \<Rightarrow> machine \<Rightarrow> machine option" where
  "map_user_page virt_addr phys_addr st =
     do {
       _ \<leftarrow> hhdm st;
       (pdpt, st) \<leftarrow> get_or_alloc_table (root st) (indices virt_addr ! 0) st;
       (pd, st) \<leftarrow> get_or_alloc_table pdpt (indices virt_addr ! 1) st;
       (pt, st) \<leftarrow> get_or_alloc_table pd (indices virt_addr ! 2) st;
       Some (st \<lparr> mem := (mem st)
               (slot pt (indices virt_addr ! 3) := page_of phys_addr OR PAGE_USER_FLAGS) \<rparr>)
     }"

definition protected_entry :: "u64 \<Rightarrow> bool \<Rightarrow> bool \<Rightarrow> bool \<Rightarrow> u64 \<Rightarrow> u64" where
  "protected_entry ef present write_access execute_access e =
     (let e = e AND NOT (PAGE_PRESENT OR PAGE_WRITABLE OR PAGE_NO_EXECUTE);
          e = (if present then e OR PAGE_PRESENT else e);
          e = (if write_access then e OR PAGE_WRITABLE else e)
      in if \<not> execute_access \<and> ef AND EFER_NXE \<noteq> 0 then e OR PAGE_NO_EXECUTE else e)"

definition protect_user_page ::
    "u64 \<Rightarrow> bool \<Rightarrow> bool \<Rightarrow> bool \<Rightarrow> machine \<Rightarrow> bool \<times> machine" where
  "protect_user_page virt_addr present write_access execute_access st =
     (case (hhdm st, user_entry st virt_addr) of
        (Some _, Some a) \<Rightarrow>
          (let entry = mem st a in
           if entry AND PAGE_USER = 0 \<or> entry AND PAGE_ADDRESS_MASK = 0 then (False, st)
           else (True, st \<lparr> mem := (mem st)
                   (a := protected_entry (efer st) present write_access execute_access entry) \<rparr>))
      | _ \<Rightarrow> (False, st))"

definition user_page_mapped :: "machine \<Rightarrow> u64 \<Rightarrow> bool" where
  "user_page_mapped st virt_addr =
     (case (hhdm st, user_entry st virt_addr) of
        (Some _, Some a) \<Rightarrow> mem st a AND PAGE_USER \<noteq> 0 \<and> mem st a AND PAGE_ADDRESS_MASK \<noteq> 0
      | _ \<Rightarrow> False)"

definition unmap_user_page :: "u64 \<Rightarrow> machine \<Rightarrow> bool \<times> machine" where
  "unmap_user_page virt_addr st =
     (case (hhdm st, user_entry st virt_addr) of
        (Some _, Some a) \<Rightarrow>
          (let phys_addr = mem st a AND PAGE_ADDRESS_MASK in
           if mem st a AND PAGE_USER = 0 \<or> phys_addr = 0 then (False, st)
           else (True, pmm_free_page phys_addr (st \<lparr> mem := (mem st)(a := 0) \<rparr>)))
      | _ \<Rightarrow> (False, st))"

fun mmio_walk :: "u64 \<Rightarrow> nat list \<Rightarrow> machine \<Rightarrow> (u64 option \<times> machine) option" where
  "mmio_walk table [] st = Some (Some table, st)"
| "mmio_walk table (i # is) st =
     (let entry = mem st (slot table i) in
      if entry AND PAGE_PRESENT \<noteq> 0 then
        (if entry AND PAGE_LARGE \<noteq> 0 then Some (None, st)
         else mmio_walk (entry AND PAGE_ADDRESS_MASK) is st)
      else do {
        (p, st) \<leftarrow> pmm_alloc_zeroed_page st;
        if p = 0 then Some (None, st)
        else mmio_walk p is
               (st \<lparr> mem := (mem st)(slot table i := p OR PAGE_PRESENT OR PAGE_WRITABLE) \<rparr>)
      })"

definition map_kernel_mmio_page :: "u64 \<Rightarrow> u64 \<Rightarrow> machine \<Rightarrow> (u64 \<times> machine) option" where
  "map_kernel_mmio_page virt_addr phys_addr st =
     (if hhdm st = None \<or> \<not> page_aligned virt_addr \<or> \<not> page_aligned phys_addr then Some (0, st)
      else do {
        (table, st) \<leftarrow> mmio_walk (cr3 st AND PAGE_ADDRESS_MASK) (take 3 (indices virt_addr)) st;
        Some (case table of None \<Rightarrow> (0, st)
          | Some t \<Rightarrow>
            (let a = slot t (indices virt_addr ! 3);
                 e = (phys_addr AND PAGE_ADDRESS_MASK) OR PAGE_PRESENT OR PAGE_WRITABLE
                     OR PAGE_WRITE_THROUGH OR PAGE_CACHE_DISABLE;
                 e = (if efer st AND EFER_NXE \<noteq> 0 then e OR PAGE_NO_EXECUTE else e)
             in if mem st a AND PAGE_PRESENT \<noteq> 0
                   \<and> mem st a AND PAGE_ADDRESS_MASK \<noteq> phys_addr AND PAGE_ADDRESS_MASK
                then (0, st)
                else (virt_addr, st \<lparr> mem := (mem st)(a := e) \<rparr>)))
      })"

section \<open>Address spaces\<close>

fun copy_slots :: "u64 \<Rightarrow> u64 \<Rightarrow> nat list \<Rightarrow> memory \<Rightarrow> memory" where
  "copy_slots dst src [] m = m"
| "copy_slots dst src (i # is) m = copy_slots dst src is (m (slot dst i := m (slot src i)))"

definition create_user_pml4 :: "machine \<Rightarrow> (u64 \<times> machine) option" where
  "create_user_pml4 st =
     (if hhdm st = None then Some (0, st)
      else do {
        (new_pml4, st) \<leftarrow> pmm_alloc_zeroed_page st;
        if new_pml4 = 0 then Some (0, st)
        else Some (new_pml4, st \<lparr> mem := copy_slots new_pml4 (root st) [256..<512] (mem st) \<rparr>)
      })"

definition switch_user_pml4 :: "u64 \<Rightarrow> machine \<Rightarrow> machine" where
  "switch_user_pml4 pml4_phys st =
     (if pml4_phys \<noteq> 0 then st \<lparr> cr3 := page_of pml4_phys \<rparr> else st)"

definition destroy_user_pml4 :: "u64 \<Rightarrow> machine \<Rightarrow> machine" where
  "destroy_user_pml4 pml4_phys st =
     (if pml4_phys = 0 \<or> hhdm st = None then st
      else let current_cr3 = page_of (cr3 st);
               target_cr3 = page_of pml4_phys;
               st = (if current_cr3 \<noteq> target_cr3 then st \<lparr> cr3 := target_cr3 \<rparr> else st);
               st = cleanup_user_pages st;
               st = (if current_cr3 \<noteq> target_cr3 then st \<lparr> cr3 := current_cr3 \<rparr> else st)
           in pmm_free_page target_cr3 st)"

text \<open>The 256 saved entries are the caller's \<open>page_table_context\<close>; a null pointer is \<open>None\<close>.\<close>

fun take_slots :: "u64 \<Rightarrow> nat list \<Rightarrow> u64 list \<Rightarrow> memory \<Rightarrow> u64 list \<times> memory" where
  "take_slots r [] c m = (c, m)"
| "take_slots r (i # is) c m = take_slots r is (c @ [m (slot r i)]) (m (slot r i := 0))"

fun store_slots :: "u64 \<Rightarrow> nat list \<Rightarrow> u64 list \<Rightarrow> memory \<Rightarrow> memory" where
  "store_slots r [] c m = m"
| "store_slots r (i # is) c m = store_slots r is c (m (slot r i := c ! i))"

definition suspend_user_pages :: "u64 list option \<Rightarrow> machine \<Rightarrow> bool \<times> u64 list option \<times> machine" where
  "suspend_user_pages context st =
     (if context = None \<or> hhdm st = None then (False, context, st)
      else let (c, m) = take_slots (root st) [0..<256] [] (mem st)
           in (True, Some c, st \<lparr> mem := m \<rparr>))"

definition restore_user_pages :: "u64 list option \<Rightarrow> machine \<Rightarrow> bool \<times> machine" where
  "restore_user_pages context st =
     (case context of
        None \<Rightarrow> (False, st)
      | Some c \<Rightarrow>
        if hhdm st = None then (False, st)
        else let st = cleanup_user_pages st
             in (True, st \<lparr> mem := store_slots (root st) [0..<256] c (mem st) \<rparr>))"

section \<open>Programs\<close>

record program_region =
  rstart :: u64
  rend :: u64

record program_memory =
  regions :: "program_region list"
  region_count :: nat
  stack_base :: u64
  stack_pages :: nat

abbreviation unmap_if_mapped :: "u64 \<Rightarrow> machine \<Rightarrow> machine" where
  "unmap_if_mapped a st \<equiv> (if user_page_mapped st a then snd (unmap_user_page a st) else st)"

partial_function (option) unmap_range :: "u64 \<Rightarrow> u64 \<Rightarrow> machine \<Rightarrow> machine option" where
  "unmap_range addr end_addr st =
     (if addr < end_addr then unmap_range (addr + 4096) end_addr (unmap_if_mapped addr st)
      else Some st)"

fun unmap_regions :: "program_region list \<Rightarrow> nat \<Rightarrow> machine \<Rightarrow> machine option" where
  "unmap_regions rs 0 st = Some st"
| "unmap_regions [] (Suc n) st = None"
| "unmap_regions (r # rs) (Suc n) st =
     do { st \<leftarrow> unmap_range (rstart r) (rend r) st; unmap_regions rs n st }"

definition cleanup_program_pages :: "program_memory option \<Rightarrow> machine \<Rightarrow> machine option" where
  "cleanup_program_pages program st =
     (case program of None \<Rightarrow> Some st
      | Some p \<Rightarrow>
        do {
          st \<leftarrow> unmap_regions (regions p) (region_count p) st;
          Some (fold (\<lambda>i. unmap_if_mapped (stack_base p + of_nat i * 4096)) [0..<stack_pages p] st)
        })"

function load_code :: "u64 \<Rightarrow> bytes \<Rightarrow> machine \<Rightarrow> machine option" where
  "load_code virt code st =
     (if code = [] then Some st
      else do {
        (code_phys, st) \<leftarrow> pmm_alloc_zeroed_page st;
        let st = st \<lparr> mem := poke_bytes code_phys (take 4096 code) (mem st) \<rparr>;
        st \<leftarrow> map_user_page virt code_phys st;
        load_code (virt + 4096) (drop 4096 code) st
      })"
  by pat_completeness auto
termination by (relation "measure (\<lambda>(virt, code, st). length code)") auto

definition setup_ring3_memory :: "u64 \<Rightarrow> u64 \<Rightarrow> bytes \<Rightarrow> machine \<Rightarrow> machine option" where
  "setup_ring3_memory user_code_virt user_stack_virt user_code st =
     do {
       _ \<leftarrow> hhdm st;
       st \<leftarrow> load_code user_code_virt user_code st;
       (stack_phys, st) \<leftarrow> pmm_alloc_zeroed_page st;
       if stack_phys = 0 then Some st
       else do {
         st \<leftarrow> map_user_page user_stack_virt stack_phys st;
         let user_data_virt = user_stack_virt - 8192;
         (data_phys, st) \<leftarrow> pmm_alloc_zeroed_page st;
         st \<leftarrow> map_user_page user_data_virt data_phys st;
         (data_phys, st) \<leftarrow> pmm_alloc_zeroed_page st;
         map_user_page (user_data_virt + 4096) data_phys st
       }
     }"

section \<open>The tables as a tree\<close>

text \<open>The table a path of indices leads to, following present entries.\<close>

fun tab :: "memory \<Rightarrow> u64 \<Rightarrow> nat list \<Rightarrow> u64 option" where
  "tab m a [] = Some a"
| "tab m a (i # p) =
     (if m (slot a i) AND PAGE_PRESENT = 0 then None else tab m (page_of (m (slot a i))) p)"

text \<open>Paths into the user half: at most three levels of 512 entries, the first below 256.\<close>

definition path_ok :: "nat list \<Rightarrow> bool" where
  "path_ok p \<longleftrightarrow> length p \<le> 3 \<and> (\<forall>i\<in>set p. i < 512) \<and> (p \<noteq> [] \<longrightarrow> hd p < 256)"

definition tables :: "memory \<Rightarrow> u64 \<Rightarrow> u64 set" where
  "tables m r = {a. \<exists>p. path_ok p \<and> tab m r p = Some a}"

text \<open>No table is reached by two paths, and the user half has only user tables.\<close>

definition tree :: "memory \<Rightarrow> u64 \<Rightarrow> bool" where
  "tree m r \<longleftrightarrow> page_aligned r
     \<and> (\<forall>p q a. path_ok p \<longrightarrow> path_ok q \<longrightarrow> tab m r p = Some a \<longrightarrow> tab m r q = Some a \<longrightarrow> p = q)
     \<and> (\<forall>p. path_ok p \<longrightarrow> user_walk m r p = tab m r p)"

lemma tab_append:
  "tab m a (p @ q) = (case tab m a p of None \<Rightarrow> None | Some b \<Rightarrow> tab m b q)"
  by (induction p arbitrary: a) auto

lemma user_walk_append:
  "user_walk m a (p @ q) = (case user_walk m a p of None \<Rightarrow> None | Some b \<Rightarrow> user_walk m b q)"
  by (induction p arbitrary: a) auto

lemma path_ok_prefix: "path_ok (p @ q) \<Longrightarrow> path_ok p"
  by (cases p) (auto simp: path_ok_def)

lemma path_ok_index: "path_ok (p @ i # q) \<Longrightarrow> i < 512"
  by (simp add: path_ok_def)

lemma tab_aligned: "page_aligned a \<Longrightarrow> tab m a p = Some b \<Longrightarrow> page_aligned b"
proof (induction p arbitrary: a)
  case (Cons i p)
  then show ?case using Cons.IH [of "page_of (m (slot a i))"] by (simp split: if_splits)
qed simp

text \<open>A walk depends only on the slots it reads, up to the bits it looks at.\<close>

lemma tab_cong:
  assumes "\<And>q i q' t. p = q @ i # q' \<Longrightarrow> tab m a q = Some t \<Longrightarrow>
      (m' (slot t i) AND PAGE_PRESENT = 0 \<longleftrightarrow> m (slot t i) AND PAGE_PRESENT = 0)
      \<and> (m (slot t i) AND PAGE_PRESENT \<noteq> 0 \<longrightarrow> page_of (m' (slot t i)) = page_of (m (slot t i)))"
  shows "tab m' a p = tab m a p"
  using assms
proof (induction p arbitrary: a)
  case (Cons i p)
  let ?e = "m (slot a i)" and ?e' = "m' (slot a i)"
  have e: "?e' AND PAGE_PRESENT = 0 \<longleftrightarrow> ?e AND PAGE_PRESENT = 0"
      "?e AND PAGE_PRESENT \<noteq> 0 \<longrightarrow> page_of ?e' = page_of ?e"
    using Cons.prems [of "[]" i p a] by auto
  show ?case
  proof (cases "?e AND PAGE_PRESENT = 0")
    case False
    have "tab m' (page_of ?e) p = tab m (page_of ?e) p"
      by (rule Cons.IH) (use Cons.prems [of "i # _"] False in auto)
    with e False show ?thesis by simp
  qed (use e in simp)
qed simp

lemma user_walk_cong:
  assumes "\<And>q i q' t. p = q @ i # q' \<Longrightarrow> user_walk m a q = Some t \<Longrightarrow>
      (user_present (m' (slot t i)) \<longleftrightarrow> user_present (m (slot t i)))
      \<and> (user_present (m (slot t i)) \<longrightarrow> page_of (m' (slot t i)) = page_of (m (slot t i)))"
  shows "user_walk m' a p = user_walk m a p"
  using assms
proof (induction p arbitrary: a)
  case (Cons i p)
  let ?e = "m (slot a i)" and ?e' = "m' (slot a i)"
  have e: "user_present ?e' \<longleftrightarrow> user_present ?e" "user_present ?e \<longrightarrow> page_of ?e' = page_of ?e"
    using Cons.prems [of "[]" i p a] by auto
  show ?case
  proof (cases "user_present ?e")
    case True
    have "user_walk m' (page_of ?e) p = user_walk m (page_of ?e) p"
      by (rule Cons.IH) (use Cons.prems [of "i # _"] True in auto)
    with e True show ?thesis by simp
  qed (use e in simp)
qed simp

lemma tree_inject:
  "tree m r \<Longrightarrow> path_ok p \<Longrightarrow> path_ok q \<Longrightarrow> tab m r p = Some a \<Longrightarrow> tab m r q = Some a \<Longrightarrow> p = q"
  unfolding tree_def by blast

lemma tree_user: "tree m r \<Longrightarrow> path_ok p \<Longrightarrow> user_walk m r p = tab m r p"
  unfolding tree_def by blast

lemma tree_aligned: "tree m r \<Longrightarrow> tab m r p = Some a \<Longrightarrow> page_aligned a"
  unfolding tree_def using tab_aligned by blast

lemma tables_aligned: "tree m r \<Longrightarrow> a \<in> tables m r \<Longrightarrow> page_aligned a"
  unfolding tables_def using tree_aligned by blast

text \<open>Writing one entry of one table changes only the walks through that entry.\<close>

lemma slot_in_tree:
  assumes "tree m r" and "path_ok p" and "path_ok q" and "i < 512" and "j < 512"
    and "tab m r p = Some t" and "tab m r q = Some u"
  shows "slot t i = slot u j \<longleftrightarrow> p = q \<and> i = j"
proof
  assume *: "slot t i = slot u j"
  have "page_aligned t" "page_aligned u" using tree_aligned assms by blast+
  with * have "t = u" "i = j" using slot_inject assms(4,5) by blast+
  with tree_inject [OF assms(1-3)] assms(6,7) show "p = q \<and> i = j" by blast
qed (use assms in auto)

lemma walk_store:
  assumes "tree m r" and "path_ok p" and "i < 512" and "tab m r p = Some t"
    and "path_ok q" and "\<And>q'. q \<noteq> p @ i # q'"
  shows "tab (m (slot t i := v)) r q = tab m r q"
    and "user_walk (m (slot t i := v)) r q = user_walk m r q"
proof -
  have other: "slot u j \<noteq> slot t i" if "q = q1 @ j # q2" "tab m r q1 = Some u" for q1 j q2 u
    using slot_in_tree [OF assms(1) path_ok_prefix assms(2) path_ok_index assms(3) that(2) assms(4)]
      assms(5,6) that(1) by blast
  show "tab (m (slot t i := v)) r q = tab m r q"
    by (rule tab_cong) (use other in auto)
  show "user_walk (m (slot t i := v)) r q = user_walk m r q"
  proof (rule user_walk_cong)
    fix q1 j q2 u assume *: "q = q1 @ j # q2" "user_walk m r q1 = Some u"
    then have "tab m r q1 = Some u"
      using tree_user [OF assms(1)] path_ok_prefix assms(5) by metis
    with other * show "(user_present ((m (slot t i := v)) (slot u j)) \<longleftrightarrow> user_present (m (slot u j)))
        \<and> (user_present (m (slot u j)) \<longrightarrow>
           page_of ((m (slot t i := v)) (slot u j)) = page_of (m (slot u j)))" by auto
  qed
qed

section \<open>Entry bits\<close>

lemma flag_zero:
  "e AND PAGE_PRESENT = 0 \<longleftrightarrow> \<not> bit e 0" "e AND PAGE_WRITABLE = 0 \<longleftrightarrow> \<not> bit e 1"
  "e AND PAGE_USER = 0 \<longleftrightarrow> \<not> bit e 2" for e :: u64
  using and_exp_eq_0_iff_not_bit [of e 0] and_exp_eq_0_iff_not_bit [of e 1]
    and_exp_eq_0_iff_not_bit [of e 2] by simp_all

lemma bit_user_present: "bit (5 :: u64) n \<longleftrightarrow> n = 0 \<or> n = 2"
  by (auto simp: bit_numeral_rec bit_1_iff split: nat.splits)

lemma bit_user_flags: "bit (7 :: u64) n \<longleftrightarrow> n < 3"
proof -
  have "(7 :: u64) = mask 3" by (simp add: mask_eq_exp_minus_1)
  then show ?thesis by (simp only: bit_mask_iff) auto
qed

lemma user_present_bits: "user_present e \<longleftrightarrow> bit e 0 \<and> bit e 2"
proof
  assume "user_present e"
  then have "bit (e AND 5) n = bit (5 :: u64) n" for n by simp
  then show "bit e 0 \<and> bit e 2" unfolding bit_and_iff bit_user_present by blast
next
  assume "bit e 0 \<and> bit e 2"
  then have "e AND 5 = 5"
    by (intro bit_word_eqI) (simp only: bit_and_iff bit_user_present, auto)
  then show "user_present e" by simp
qed

lemma bit_page_of: "bit (page_of e) n \<longleftrightarrow> bit e n \<and> 12 \<le> n"
  unfolding page_of_shift by (auto simp: bit_simps dest: bit_imp_le_length)

lemma or_flags:
  "page_of (e OR PAGE_USER_FLAGS) = page_of e"
  "(e OR PAGE_USER_FLAGS) AND PAGE_PRESENT \<noteq> 0" "user_present (e OR PAGE_USER_FLAGS)"
proof -
  show "page_of (e OR PAGE_USER_FLAGS) = page_of e"
    by (rule bit_word_eqI) (simp only: bit_page_of bit_or_iff bit_user_flags, auto)
  show "(e OR PAGE_USER_FLAGS) AND PAGE_PRESENT \<noteq> 0" "user_present (e OR PAGE_USER_FLAGS)"
    unfolding user_present_bits flag_zero bit_or_iff bit_user_flags by simp_all
qed

section \<open>Address spaces as functions\<close>

text \<open>The entry of the last level for a path and an index, \<open>0\<close> when there is no table.\<close>

definition leaf :: "memory \<Rightarrow> u64 \<Rightarrow> nat list \<Rightarrow> nat \<Rightarrow> u64" where
  "leaf m r p i = (case tab m r p of None \<Rightarrow> 0 | Some t \<Rightarrow> m (slot t i))"

definition leaf_ok :: "nat list \<Rightarrow> nat \<Rightarrow> bool" where
  "leaf_ok p i \<longleftrightarrow> path_ok p \<and> length p = 3 \<and> i < 512"

text \<open>Storing a last-level entry.\<close>

lemma leaf_store:
  assumes "tree m r" and "leaf_ok p i" and "tab m r p = Some t"
  shows "tree (m (slot t i := v)) r" and "tables (m (slot t i := v)) r = tables m r"
    and "path_ok q \<Longrightarrow> j < 512 \<Longrightarrow>
      leaf (m (slot t i := v)) r q j = (if q = p \<and> j = i then v else leaf m r q j)"
proof -
  let ?m = "m (slot t i := v)"
  have p: "path_ok p" "length p = 3" "i < 512" using assms(2) by (auto simp: leaf_ok_def)
  have "q \<noteq> p @ i # q'" if "path_ok q" for q q' using that p by (auto simp: path_ok_def)
  note w = walk_store [OF assms(1) p(1,3) assms(3) _ this, of _ v]
  show "tree ?m r" using assms(1) w unfolding tree_def by simp
  show "tables ?m r = tables m r" using w by (auto simp: tables_def)
  assume q: "path_ok q" "j < 512"
  show "leaf ?m r q j = (if q = p \<and> j = i then v else leaf m r q j)"
  proof (cases "tab m r q")
    case None
    with q assms(3) w(1) [of q] show ?thesis by (auto simp: leaf_def)
  next
    case (Some u)
    with slot_in_tree [OF assms(1) _ p(1) _ p(3) Some assms(3), of j] q w(1) [of q]
    show ?thesis by (auto simp: leaf_def)
  qed
qed

text \<open>Memory that agrees on the pages of the tables has the same tree.\<close>

lemma tree_frame:
  assumes "tree m r" and same: "\<And>a. page_of a \<in> tables m r \<Longrightarrow> m' a = m a"
  shows "tree m' r" and "tables m' r = tables m r"
    and "path_ok q \<Longrightarrow> j < 512 \<Longrightarrow> leaf m' r q j = leaf m r q j"
    and "path_ok q \<Longrightarrow> tab m' r q = tab m r q"
proof -
  have s: "m' (slot t i) = m (slot t i)" if "path_ok p" "tab m r p = Some t" "i < 512" for p t i
    using that same [of "slot t i"] slot_facts(1) [OF tree_aligned [OF assms(1) that(2)] that(3)]
    by (auto simp: tables_def)
  have t: "tab m' r p = tab m r p" if "path_ok p" for p
  proof (rule tab_cong)
    fix q i q' a assume *: "p = q @ i # q'" "tab m r q = Some a"
    then have "path_ok q" "i < 512" using that path_ok_prefix path_ok_index by blast+
    with * s [of q a i]
    show "(m' (slot a i) AND PAGE_PRESENT = 0 \<longleftrightarrow> m (slot a i) AND PAGE_PRESENT = 0) \<and>
        (m (slot a i) AND PAGE_PRESENT \<noteq> 0 \<longrightarrow> page_of (m' (slot a i)) = page_of (m (slot a i)))"
      by simp
  qed
  have u: "user_walk m' r p = user_walk m r p" if "path_ok p" for p
  proof (rule user_walk_cong)
    fix q i q' a assume *: "p = q @ i # q'" "user_walk m r q = Some a"
    then have "path_ok q" "i < 512" using that path_ok_prefix path_ok_index by blast+
    with * s [of q a i] tree_user [OF assms(1)]
    show "(user_present (m' (slot a i)) \<longleftrightarrow> user_present (m (slot a i))) \<and>
        (user_present (m (slot a i)) \<longrightarrow> page_of (m' (slot a i)) = page_of (m (slot a i)))" by simp
  qed
  show "tree m' r" using assms(1) t u unfolding tree_def by simp
  show "path_ok q \<Longrightarrow> tab m' r q = tab m r q" by (rule t)
  show "tables m' r = tables m r" using t by (auto simp: tables_def)
  show "path_ok q \<Longrightarrow> j < 512 \<Longrightarrow> leaf m' r q j = leaf m r q j"
    using t [of q] s [of q] by (auto simp: leaf_def split: option.splits)
qed

text \<open>Setting the user flags of an entry that leads to a table.\<close>

lemma flags_store:
  assumes "tree m r" and "path_ok (p @ [i])" and "tab m r p = Some t"
    and "m (slot t i) AND PAGE_PRESENT \<noteq> 0" and "v = m (slot t i) OR PAGE_USER_FLAGS"
  shows "tree (m (slot t i := v)) r" and "tables (m (slot t i := v)) r = tables m r"
    and "path_ok q \<Longrightarrow> j < 512 \<Longrightarrow>
      leaf (m (slot t i := v)) r q j = (if q = p \<and> j = i then v else leaf m r q j)"
    and "path_ok q \<Longrightarrow> tab (m (slot t i := v)) r q = tab m r q"
proof -
  let ?m = "m (slot t i := v)" and ?e = "m (slot t i)"
  have p: "path_ok p" "i < 512" using assms(2) path_ok_prefix path_ok_index by blast+
  have "user_walk m r (p @ [i]) \<noteq> None"
    using tree_user [OF assms(1,2)] assms(3,4) by (simp add: tab_append)
  then have ue: "user_present ?e"
    using tree_user [OF assms(1) p(1)] assms(3) by (simp add: user_walk_append split: if_splits)
  note v = or_flags [of ?e, folded assms(5)]
  have t: "tab ?m r q = tab m r q" for q
    by (rule tab_cong) (use v assms(4) in auto)
  have u: "user_walk ?m r q = user_walk m r q" for q
    by (rule user_walk_cong) (use v ue in auto)
  show "tree ?m r" using assms(1) t u unfolding tree_def by simp
  show "tables ?m r = tables m r" "path_ok q \<Longrightarrow> tab ?m r q = tab m r q"
    using t by (auto simp: tables_def)
  assume q: "path_ok q" "j < 512"
  have "slot a j = slot t i \<longleftrightarrow> q = p \<and> j = i" if "tab m r q = Some a" for a
    by (rule slot_in_tree [OF assms(1) q(1) p(1) q(2) p(2) that assms(3)])
  then show "leaf ?m r q j = (if q = p \<and> j = i then v else leaf m r q j)"
    using assms(3) by (auto simp: leaf_def t split: option.splits)
qed

text \<open>Hanging a fresh, zeroed table under an absent entry.\<close>

lemma link_walk:
  assumes "tree m r" and "path_ok (p @ [i])" and "tab m r p = Some t"
    and "m (slot t i) AND PAGE_PRESENT = 0"
    and "n \<notin> tables m r" and "page_aligned n" and "\<And>a. page_of a = n \<Longrightarrow> m a = 0"
    and "path_ok q"
  shows "tab (m (slot t i := n OR PAGE_USER_FLAGS)) r q =
      (if q = p @ [i] then Some n else tab m r q)"
    and "user_walk (m (slot t i := n OR PAGE_USER_FLAGS)) r q =
      (if q = p @ [i] then Some n else tab m r q)"
proof -
  let ?m = "m (slot t i := n OR PAGE_USER_FLAGS)"
  have p: "path_ok p" "i < 512" using assms(2) path_ok_prefix path_ok_index by blast+
  note ws = walk_store [OF assms(1) p assms(3), of _ "n OR PAGE_USER_FLAGS"]
  have nt: "n \<noteq> t" using assms(3,5) p(1) by (auto simp: tables_def)
  have at: "tab ?m r p = Some t" "user_walk ?m r p = Some t"
    using ws [OF p(1)] assms(3) tree_user [OF assms(1) p(1)] by auto
  have zero: "?m (slot n j) = 0" if "j < 512" for j
    using that slot_inject [of n t j i] slot_facts(1) [of n j] nt assms(6,7) p(2)
      tree_aligned [OF assms(1,3)] by auto
  have step: "?m (slot t i) = n OR PAGE_USER_FLAGS" "page_of (n OR PAGE_USER_FLAGS) = n"
    using or_flags(1) [of n] assms(6) by simp_all
  have "(tab ?m r q = (if q = p @ [i] then Some n else tab m r q))
      \<and> (user_walk ?m r q = (if q = p @ [i] then Some n else tab m r q))"
  proof (cases "\<exists>q'. q = p @ i # q'")
    case True
    then obtain q' where q': "q = p @ i # q'" by blast
    have old: "tab m r q = None" using assms(3,4) by (simp add: q' tab_append)
    have "tab ?m r q = tab ?m n q'"
      unfolding q' tab_append at(1) using step or_flags(2) [of n] by simp
    moreover have "user_walk ?m r q = user_walk ?m n q'"
      unfolding q' user_walk_append at(2) using step or_flags(3) [of n] by simp
    moreover have "tab ?m n q' = None \<and> user_walk ?m n q' = None" if "q' = j # q2" for j q2
      using that zero [of j] assms(8) q' by (simp add: path_ok_def)
    ultimately show ?thesis using old q' by (cases q') auto
  next
    case False
    then have "tab ?m r q = tab m r q" "user_walk ?m r q = user_walk m r q"
      using ws [OF assms(8)] by blast+
    with False tree_user [OF assms(1,8)] show ?thesis by auto
  qed
  then show "tab ?m r q = (if q = p @ [i] then Some n else tab m r q)"
    and "user_walk ?m r q = (if q = p @ [i] then Some n else tab m r q)" by blast+
qed

lemma link_store:
  assumes "tree m r" and "path_ok (p @ [i])" and "tab m r p = Some t"
    and "m (slot t i) AND PAGE_PRESENT = 0"
    and "n \<notin> tables m r" and "page_aligned n" and "\<And>a. page_of a = n \<Longrightarrow> m a = 0"
    and m': "m' = m (slot t i := n OR PAGE_USER_FLAGS)"
  shows "tree m' r" and "tables m' r = insert n (tables m r)"
    and "path_ok q \<Longrightarrow> j < 512 \<Longrightarrow>
      leaf m' r q j = (if q = p \<and> j = i then n OR PAGE_USER_FLAGS else leaf m r q j)"
    and "tab m' r (p @ [i]) = Some n"
proof -
  note w = link_walk [OF assms(1-7), folded m']
  have none: "tab m r (p @ [i]) = None" using assms(3,4) by (simp add: tab_append)
  show "tab m' r (p @ [i]) = Some n" using w(1) assms(2) by simp
  show "tables m' r = insert n (tables m r)"
  proof (rule set_eqI, rule iffI)
    fix a assume "a \<in> tables m' r"
    then obtain q where "path_ok q" "tab m' r q = Some a" by (auto simp: tables_def)
    then show "a \<in> insert n (tables m r)"
      using w(1) [of q] by (auto simp: tables_def split: if_splits)
  next
    fix a assume "a \<in> insert n (tables m r)"
    then consider "a = n" | q where "path_ok q" "tab m r q = Some a" by (auto simp: tables_def)
    then show "a \<in> tables m' r"
    proof cases
      case 1
      then show ?thesis using assms(2) w(1) by (auto simp: tables_def)
    next
      case 2
      then have "q \<noteq> p @ [i]" using none by auto
      then show ?thesis using 2 w(1) [of q] by (auto simp: tables_def)
    qed
  qed
  have "q = q'" if "path_ok q" "path_ok q'" "tab m' r q = Some a" "tab m' r q' = Some a" for q q' a
  proof -
    have "n \<noteq> b" if "path_ok s" "tab m r s = Some b" for s b
      using assms(5) that by (auto simp: tables_def)
    then show ?thesis
      using that w(1) [of q] w(1) [of q'] tree_inject [OF assms(1), of q q' a]
      by (metis option.inject)
  qed
  then show "tree m' r" using assms(1) w unfolding tree_def by (metis (no_types, lifting))
  assume q: "path_ok q" "j < 512"
  have p: "path_ok p" "i < 512" using assms(2) path_ok_prefix path_ok_index by blast+
  have zero: "m' (slot n j) = 0"
    using q m' slot_inject [of n t j i] slot_facts(1) [of n j] assms(3,5-7) p
      tree_aligned [OF assms(1,3)] by (auto simp: tables_def)
  have "slot a j = slot t i \<longleftrightarrow> q = p \<and> j = i" if "tab m r q = Some a" for a
    by (rule slot_in_tree [OF assms(1) q(1) p(1) q(2) p(2) that assms(3)])
  then show "leaf m' r q j = (if q = p \<and> j = i then n OR PAGE_USER_FLAGS else leaf m r q j)"
    using w(1) [of q] q zero none assms(3) by (auto simp: leaf_def m' split: option.splits)
qed

section \<open>The invariant of a user address space\<close>

definition space :: "machine \<Rightarrow> u64 set \<Rightarrow> bool" where
  "space st F \<longleftrightarrow> pmm_pool st F \<and> tree (mem st) (root st) \<and> F \<inter> tables (mem st) (root st) = {}"

lemma pool_store:
  assumes "pmm_pool st F" and "page_of a \<notin> F"
  shows "pmm_pool (st \<lparr> mem := (mem st)(a := v) \<rparr>) F"
proof -
  have "p \<noteq> a" if "p \<in> F" for p using that assms pool_pages [OF assms(1) that] by auto
  then show ?thesis by (intro pool_frame [OF assms(1)]) auto
qed

lemma table_in: "path_ok p \<Longrightarrow> tab m r p = Some t \<Longrightarrow> t \<in> tables m r"
  by (auto simp: tables_def)

lemma page_of_table_slot:
  assumes "tree m r" and "path_ok (p @ i # q)" and "tab m r p = Some t"
  shows "page_of (slot t i) = t"
  using slot_facts(1) [OF tree_aligned [OF assms(1,3)]] path_ok_index [OF assms(2)] by blast

text \<open>What one level of \<open>map_user_page\<close> does: at most one page leaves the pool, no last-level
  entry changes, an entry of the upper levels changes at most its flags or gets a page of the pool,
  and the path now leads to the table it returns.\<close>

definition linked :: "u64 set \<Rightarrow> u64 \<Rightarrow> u64 \<Rightarrow> bool" where
  "linked F e e' \<longleftrightarrow> e' = e \<or> e AND PAGE_PRESENT \<noteq> 0 \<and> e' = e OR PAGE_USER_FLAGS
     \<or> (\<exists>n\<in>F. e' = n OR PAGE_USER_FLAGS)"

lemma linked_trans: "linked F e e1 \<Longrightarrow> linked F1 e1 e2 \<Longrightarrow> F1 \<subseteq> F \<Longrightarrow> linked F e e2"
  unfolding linked_def by (auto simp: or.assoc)

definition grows :: "machine \<Rightarrow> u64 set \<Rightarrow> nat \<Rightarrow> machine \<Rightarrow> u64 set \<Rightarrow> bool" where
  "grows st F n st' F' \<longleftrightarrow> F' \<subseteq> F \<and> card F \<le> card F' + n \<and> space st' F'
    \<and> tables (mem st') (root st') \<subseteq> tables (mem st) (root st) \<union> (F - F')
    \<and> (\<forall>q j. leaf_ok q j \<longrightarrow> leaf (mem st') (root st') q j = leaf (mem st) (root st) q j)
    \<and> (\<forall>q j. path_ok q \<longrightarrow> j < 512 \<longrightarrow> linked F (leaf (mem st) (root st) q j) (leaf (mem st') (root st') q j))
    \<and> cr3 st' = cr3 st \<and> hhdm st' = hhdm st \<and> efer st' = efer st"

definition level_step :: "machine \<Rightarrow> u64 set \<Rightarrow> nat list \<Rightarrow> u64 \<Rightarrow> machine \<Rightarrow> u64 set \<Rightarrow> bool" where
  "level_step st F p t' st' F' \<longleftrightarrow>
     grows st F 1 st' F' \<and> tab (mem st') (root st') p = Some t'"

lemma grows_trans:
  assumes "grows st F m st1 F1" and "grows st1 F1 n st2 F2"
  shows "grows st F (m + n) st2 F2"
proof -
  have "tables (mem st2) (root st2) \<subseteq> tables (mem st) (root st) \<union> (F - F2)" "F2 \<subseteq> F"
    using assms unfolding grows_def by blast+
  moreover have "card F \<le> card F2 + (m + n)" using assms unfolding grows_def by linarith
  moreover have "leaf (mem st2) (root st2) q j = leaf (mem st) (root st) q j"
    if "leaf_ok q j" for q j using assms that unfolding grows_def by metis
  moreover have "linked F (leaf (mem st) (root st) q j) (leaf (mem st2) (root st2) q j)"
    if "path_ok q" "j < 512" for q j
    using linked_trans [of F _ _ F1] assms that unfolding grows_def by blast
  ultimately show ?thesis using assms by (simp add: grows_def)
qed

lemma level_present:
  assumes "space st F" and "path_ok (p @ [i])" and "tab (mem st) (root st) p = Some t"
    and "mem st (slot t i) AND PAGE_PRESENT \<noteq> 0"
  shows "\<exists>t' st'. get_or_alloc_table t i st = Some (t', st') \<and> level_step st F (p @ [i]) t' st' F"
proof -
  let ?e = "mem st (slot t i)"
  let ?st = "st \<lparr> mem := (mem st)(slot t i := ?e OR PAGE_USER_FLAGS) \<rparr>"
  have pool: "pmm_pool st F" and tr: "tree (mem st) (root st)"
    and dis: "F \<inter> tables (mem st) (root st) = {}" using assms(1) by (auto simp: space_def)
  have "t \<in> tables (mem st) (root st)" using table_in path_ok_prefix assms(2,3) by blast
  moreover have "page_of (slot t i) = t" using page_of_table_slot tr assms(2,3) by blast
  ultimately have "pmm_pool ?st F" by (intro pool_store [OF pool]) (use dis in auto)
  moreover note f = flags_store [OF tr assms(2,3,4) refl]
  moreover have "leaf_ok q j \<Longrightarrow> leaf (mem ?st) (root ?st) q j = leaf (mem st) (root st) q j" for q j
    using f(3) [of q j] assms(2) by (auto simp: leaf_ok_def path_ok_def)
  moreover have "leaf (mem st) (root st) p i = ?e" using assms(3) by (simp add: leaf_def)
  then have "linked F (leaf (mem st) (root st) q j) (leaf (mem ?st) (root ?st) q j)" if "path_ok q" "j < 512" for q j
    using f(3) [OF that] assms(4) by (auto simp: linked_def)
  moreover have "tab (mem ?st) (root ?st) (p @ [i]) = Some (page_of ?e)"
    using f(4) [OF assms(2)] assms(3,4) by (simp add: tab_append)
  ultimately have "level_step st F (p @ [i]) (page_of ?e) ?st F"
    using dis by (simp add: level_step_def grows_def space_def)
  moreover have "get_or_alloc_table t i st = Some (page_of ?e, ?st)"
    using assms(4) or_flags(1) [of ?e] by (simp add: get_or_alloc_table_def)
  ultimately show ?thesis by blast
qed

lemma level_absent:
  assumes "space st F" and "F \<noteq> {}" and "path_ok (p @ [i])" and "tab (mem st) (root st) p = Some t"
    and "mem st (slot t i) AND PAGE_PRESENT = 0"
  shows "\<exists>t' st' F'. get_or_alloc_table t i st = Some (t', st') \<and> level_step st F (p @ [i]) t' st' F'"
proof -
  let ?r = "root st" and ?m = "mem st"
  have pool: "pmm_pool st F" and tr: "tree ?m ?r" and dis: "F \<inter> tables ?m ?r = {}"
    using assms(1) by (auto simp: space_def)
  have t: "t \<in> tables ?m ?r" using table_in path_ok_prefix assms(3,4) by blast
  have pg: "page_of (slot t i) = t" using page_of_table_slot tr assms(3,4) by blast
  from pool_alloc [OF pool assms(2)] obtain n st1 where a: "pmm_alloc_zeroed_page st = Some (n, st1)"
      "n \<in> F" "pmm_pool st1 (F - {n})" "mem st1 = zero_page n ?m" "cr3 st1 = cr3 st"
      "efer st1 = efer st" "hhdm st1 = hhdm st" by blast
  let ?st = "st1 \<lparr> mem := (mem st1)(slot t i := n OR PAGE_USER_FLAGS) \<rparr>"
  have n: "page_aligned n" using pool_pages [OF pool a(2)] by blast
  have z: "mem st1 b = (if page_of b = n then 0 else ?m b)" for b
    using a(4) zero_page_aligned [OF n] by simp
  have "mem st1 b = ?m b" if "page_of b \<in> tables ?m ?r" for b using that z a(2) dis by auto
  note fr = tree_frame [OF tr this]
  have t1: "tab (mem st1) ?r p = Some t" using fr(4) path_ok_prefix assms(3,4) by metis
  have ab: "mem st1 (slot t i) AND PAGE_PRESENT = 0" using assms(5) z by auto
  have n1: "n \<notin> tables (mem st1) ?r" using fr(2) dis a(2) by auto
  have z0: "\<And>b. page_of b = n \<Longrightarrow> mem st1 b = 0" using z by simp
  note l = link_store [OF fr(1) assms(3) t1 ab n1 n z0 refl]
  have g: "get_or_alloc_table t i st = Some (n, ?st)"
    using assms(5) a(1) or_flags(1) [of n] n by (simp add: get_or_alloc_table_def)
  have "pmm_pool ?st (F - {n})" by (rule pool_store [OF a(3)]) (use pg t dis in auto)
  then have "space ?st (F - {n})" using dis a(5) l(1,2) fr(2) by (auto simp: space_def)
  moreover have "card F \<le> Suc (card (F - {n}))" 
    using a(2) card_Suc_Diff1 [of F n] by simp
  moreover have "tables (mem ?st) (root ?st) \<subseteq> tables ?m ?r \<union> (F - (F - {n}))"
    using l(2) fr(2) a(2,5) by auto
  moreover have lf: "leaf (mem ?st) (root ?st) q j = (if q = p \<and> j = i then n OR PAGE_USER_FLAGS else leaf ?m ?r q j)"
    if "path_ok q" "j < 512" for q j using l(3) fr(3) a(5) that by simp
  moreover have "\<forall>q j. leaf_ok q j \<longrightarrow> leaf (mem ?st) (root ?st) q j = leaf ?m ?r q j"
    using lf assms(3) by (auto simp: leaf_ok_def path_ok_def)
  moreover have "linked F (leaf ?m ?r q j) (leaf (mem ?st) (root ?st) q j)" if "path_ok q" "j < 512" for q j
    using lf [OF that] a(2) by (auto simp: linked_def)
  moreover have "tab (mem ?st) (root ?st) (p @ [i]) = Some n" using l(4) a(5) by simp
  ultimately have "level_step st F (p @ [i]) n ?st (F - {n})"
    unfolding level_step_def grows_def using a(5-7) by (intro conjI) auto
  with g show ?thesis by blast
qed

lemma get_or_alloc_table_ok:
  assumes "space st F" and "F \<noteq> {}" and "path_ok (p @ [i])" and "tab (mem st) (root st) p = Some t"
  shows "\<exists>t' st' F'. get_or_alloc_table t i st = Some (t', st') \<and> level_step st F (p @ [i]) t' st' F'"
  using level_present [OF assms(1,3,4)] level_absent [OF assms] by blast

section \<open>Virtual addresses\<close>

definition user_va :: "u64 \<Rightarrow> bool" where
  "user_va va \<longleftrightarrow> va < 0x800000000000"

definition aspace :: "machine \<Rightarrow> u64 \<Rightarrow> u64" where
  "aspace st va = leaf (mem st) (root st) (take 3 (indices va)) (indices va ! 3)"

lemma index_eq: "unat (drop_bit k va AND 0x1FF) = unat va div 2 ^ k mod 512" for va :: u64
proof -
  have "drop_bit k va AND 0x1FF = take_bit 9 (drop_bit k va)"
    by (simp add: take_bit_eq_mask mask_eq_exp_minus_1)
  moreover have "unat (take_bit 9 (drop_bit k va)) = take_bit 9 (drop_bit k (unat va))"
    using take_bit_nat_eq_self [OF unat_bound [of va]]
    by (simp only: unsigned_take_bit_eq unsigned_drop_bit_eq)
  ultimately show ?thesis by (simp only: take_bit_eq_mod drop_bit_eq_div) simp
qed

lemma indices_eq:
  "indices va = [unat va div 2 ^ 39 mod 512, unat va div 2 ^ 30 mod 512,
     unat va div 2 ^ 21 mod 512, unat va div 2 ^ 12 mod 512]"
  unfolding indices_def by (simp only: list.map index_eq)

lemma indices_split: "indices va = take 3 (indices va) @ [indices va ! 3]"
  by (simp add: indices_eq)

lemma user_path:
  assumes "user_va va"
  shows "leaf_ok (take 3 (indices va)) (indices va ! 3)"
    and "path_ok [indices va ! 0]" and "path_ok ([indices va ! 0] @ [indices va ! 1])"
    and "path_ok ([indices va ! 0, indices va ! 1] @ [indices va ! 2])"
    and "take 3 (indices va) = [indices va ! 0, indices va ! 1] @ [indices va ! 2]"
proof -
  have "unat va < 2 ^ 47" using assms by (simp add: user_va_def word_less_nat_alt)
  then have "unat va div 2 ^ 39 < 256" by simp
  then have "unat va div 2 ^ 39 mod 512 < 256" by simp
  then show "leaf_ok (take 3 (indices va)) (indices va ! 3)"
    "path_ok [indices va ! 0]" "path_ok ([indices va ! 0] @ [indices va ! 1])"
    "path_ok ([indices va ! 0, indices va ! 1] @ [indices va ! 2])"
    "take 3 (indices va) = [indices va ! 0, indices va ! 1] @ [indices va ! 2]"
    by (simp_all add: leaf_ok_def path_ok_def indices_eq)
qed

lemma same_indices:
  assumes "user_va v" and "user_va w"
  shows "indices v = indices w \<longleftrightarrow> page_of v = page_of w"
proof -
  let ?x = "unat v div 4096" and ?y = "unat w div 4096"
  have digits: "x = y" if "x < 512 ^ 4" "y < 512 ^ 4" "x mod 512 = y mod 512"
      "x div 512 mod 512 = y div 512 mod 512" "x div 512 ^ 2 mod 512 = y div 512 ^ 2 mod 512"
      "x div 512 ^ 3 mod 512 = y div 512 ^ 3 mod 512" for x y :: nat
  proof -
    have step: "a = b" if "a mod 512 = b mod 512" "a div 512 = b div 512" for a b :: nat
      using that by (metis div_mult_mod_eq)
    have "x div 512 ^ 3 < 512" "y div 512 ^ 3 < 512" using that(1,2) by simp_all
    then have "x div 512 ^ 3 = y div 512 ^ 3" using that(6) by simp
    then have "x div 512 ^ 2 = y div 512 ^ 2"
      by (intro step [OF that(5)]) (simp add: div_mult2_eq [symmetric])
    then have "x div 512 = y div 512"
      by (intro step [OF that(4)]) (simp add: div_mult2_eq [symmetric])
    then show ?thesis by (rule step [OF that(3)])
  qed
  have "?x < 512 ^ 4" "?y < 512 ^ 4"
    using assms by (simp_all add: user_va_def word_less_nat_alt)
  moreover have "unat u div 2 ^ 39 = unat u div 4096 div 512 ^ 3"
      "unat u div 2 ^ 30 = unat u div 4096 div 512 ^ 2"
      "unat u div 2 ^ 21 = unat u div 4096 div 512" for u :: u64
    by (simp_all add: div_mult2_eq [symmetric])
  ultimately have "indices v = indices w \<longleftrightarrow> ?x = ?y"
    using digits [of ?x ?y] unfolding indices_eq by auto
  then show ?thesis by (simp add: word_unat_eq_iff unat_page_of)
qed

lemma space_hhdm:
  assumes "space st F" obtains h where "hhdm st = Some h"
  using assms by (auto simp: space_def pmm_pool_def)

lemma user_entry_tab:
  assumes "space st F" and "user_va va"
  shows "user_entry st va = map_option (\<lambda>t. slot t (indices va ! 3))
      (tab (mem st) (root st) (take 3 (indices va)))"
  using assms user_path(1) [OF assms(2)] tree_user
  by (simp add: user_entry_def space_def leaf_ok_def)

lemma user_page_mapped_iff:
  assumes "space st F" and "user_va va"
  shows "user_page_mapped st va \<longleftrightarrow>
     aspace st va AND PAGE_USER \<noteq> 0 \<and> aspace st va AND PAGE_ADDRESS_MASK \<noteq> 0"
proof -
  obtain h where "hhdm st = Some h" using assms(1) by (rule space_hhdm)
  then show ?thesis using user_entry_tab [OF assms]
    by (auto simp: user_page_mapped_def aspace_def leaf_def split: option.splits)
qed

text \<open>Storing into the last level, seen from the address space.\<close>

lemma leaf_step:
  assumes "space st F" and "leaf_ok p i" and "tab (mem st) (root st) p = Some t"
    and "st' = st \<lparr> mem := (mem st)(slot t i := v) \<rparr>"
  shows "space st' F" and "tables (mem st') (root st') = tables (mem st) (root st)"
    and "path_ok q \<Longrightarrow> j < 512 \<Longrightarrow> leaf (mem st') (root st') q j
           = (if q = p \<and> j = i then v else leaf (mem st) (root st) q j)"
proof -
  have tr: "tree (mem st) (root st)" and dis: "F \<inter> tables (mem st) (root st) = {}"
    and pool: "pmm_pool st F" using assms(1) by (auto simp: space_def)
  note l = leaf_store [OF tr assms(2,3), where v = v]
  have p: "path_ok p" "i < 512" using assms(2) by (auto simp: leaf_ok_def)
  have "page_of (slot t i) = t" using slot_facts(1) [OF tree_aligned [OF tr assms(3)] p(2)] .
  moreover have "t \<in> tables (mem st) (root st)" using table_in p(1) assms(3) by blast
  ultimately have "pmm_pool st' F" unfolding assms(4) by (intro pool_store [OF pool]) (use dis in auto)
  with l dis show "space st' F" by (simp add: space_def assms(4))
  show "tables (mem st') (root st') = tables (mem st) (root st)"
    "path_ok q \<Longrightarrow> j < 512 \<Longrightarrow> leaf (mem st') (root st') q j
       = (if q = p \<and> j = i then v else leaf (mem st) (root st) q j)"
    using l by (simp_all add: assms(4))
qed

definition map_effect :: "machine \<Rightarrow> u64 set \<Rightarrow> u64 \<Rightarrow> u64 \<Rightarrow> machine \<Rightarrow> u64 set \<Rightarrow> bool" where
  "map_effect st F va v st' F' \<longleftrightarrow> F' \<subseteq> F \<and> card F \<le> card F' + 3 \<and> space st' F'
     \<and> tables (mem st') (root st') \<subseteq> tables (mem st) (root st) \<union> (F - F')
     \<and> cr3 st' = cr3 st \<and> efer st' = efer st
     \<and> (\<forall>q j. leaf_ok q j \<longrightarrow> leaf (mem st') (root st') q j =
         (if q = take 3 (indices va) \<and> j = indices va ! 3 then v
          else leaf (mem st) (root st) q j))
     \<and> (\<forall>q j. path_ok (q @ [j]) \<longrightarrow> linked F (leaf (mem st) (root st) q j) (leaf (mem st') (root st') q j))"

lemma inner_path: "path_ok (q @ [j]) \<Longrightarrow> path_ok q \<and> j < 512 \<and> length q \<noteq> 3"
  by (auto simp: path_ok_def)

lemma leaf_ok_path: "leaf_ok q j \<Longrightarrow> path_ok q \<and> j < 512 \<and> length q = 3"
  by (simp add: leaf_ok_def)

lemma map_user_page_ok:
  assumes "space st F" and "3 \<le> card F" and "user_va va"
  shows "\<exists>st' F'. map_user_page va pa st = Some st'
     \<and> map_effect st F va (page_of pa OR PAGE_USER_FLAGS) st' F'"
proof -
  note up = user_path [OF assms(3)]
  let ?i = "indices va ! 0" and ?j = "indices va ! 1" and ?k = "indices va ! 2" and ?l = "indices va ! 3"
  obtain h where h: "hhdm st = Some h" using assms(1) by (rule space_hhdm)
  have ne: "F0 \<noteq> {}" if "0 < card F0" for F0 :: "u64 set" using that by auto
  obtain t1 st1 F1 where 1: "get_or_alloc_table (root st) ?i st = Some (t1, st1)"
      "level_step st F ([] @ [?i]) t1 st1 F1"
    using get_or_alloc_table_ok [of st F "[]" ?i "root st"] assms up(2) ne [of F] by auto
  have g1: "grows st F 1 st1 F1" "tab (mem st1) (root st1) [?i] = Some t1" "space st1 F1" "2 \<le> card F1"
    using 1(2) assms(2) by (auto simp: level_step_def grows_def simp del: tab.simps)
  obtain t2 st2 F2 where 2: "get_or_alloc_table t1 ?j st1 = Some (t2, st2)"
      "level_step st1 F1 ([?i] @ [?j]) t2 st2 F2"
    using get_or_alloc_table_ok [OF g1(3) ne up(3) g1(2)] g1(4) by auto
  have g2: "grows st1 F1 1 st2 F2" "tab (mem st2) (root st2) [?i, ?j] = Some t2" "space st2 F2"
      "1 \<le> card F2"
    using 2(2) g1(4) by (auto simp: level_step_def grows_def simp del: tab.simps)
  obtain t3 st3 F3 where 3: "get_or_alloc_table t2 ?k st2 = Some (t3, st3)"
      "level_step st2 F2 ([?i, ?j] @ [?k]) t3 st3 F3"
    using get_or_alloc_table_ok [OF g2(3) ne up(4) g2(2)] g2(4) by auto
  have g3: "grows st2 F2 1 st3 F3" "tab (mem st3) (root st3) (take 3 (indices va)) = Some t3"
      "space st3 F3"
    using 3(2) up(5) by (auto simp: level_step_def grows_def simp del: tab.simps)
  let ?v = "page_of pa OR PAGE_USER_FLAGS"
  let ?st = "st3 \<lparr> mem := (mem st3)(slot t3 ?l := ?v) \<rparr>"
  have "map_user_page va pa st = Some ?st"
    using 1(1) 2(1) 3(1) h by (simp add: map_user_page_def)
  moreover have g: "grows st F 3 st3 F3"
    using grows_trans [OF grows_trans [OF g1(1) g2(1)] g3(1)] by (simp add: eval_nat_numeral)
  note l = leaf_step [OF g3(3) up(1) g3(2) refl, where v = ?v]
  have "leaf (mem ?st) (root ?st) q j = leaf (mem st3) (root st3) q j" if "path_ok (q @ [j])" for q j
    using l(3) [of q j] inner_path [OF that] leaf_ok_path [OF up(1)] by auto
  then have "map_effect st F va ?v ?st F3"
    using g l inner_path leaf_ok_path unfolding map_effect_def grows_def by (intro conjI) auto
  ultimately show ?thesis by blast
qed

lemma aspace_update:
  assumes "user_va va" and "user_va v"
    and "\<And>q j. leaf_ok q j \<Longrightarrow> leaf (mem st') (root st') q j =
      (if q = take 3 (indices va) \<and> j = indices va ! 3 then x else leaf (mem st) (root st) q j)"
  shows "aspace st' v = (if page_of v = page_of va then x else aspace st v)"
proof -
  have "take 3 (indices v) = take 3 (indices va) \<and> indices v ! 3 = indices va ! 3 \<longleftrightarrow> indices v = indices va"
    by (metis indices_split)
  then show ?thesis
    unfolding aspace_def assms(3) [OF user_path(1) [OF assms(2)]]
    using same_indices [OF assms(2,1)] by simp
qed

text \<open>
  C17: \<open>map_user_page\<close> implements the update of an address space: with at least three free pages it
  returns, every user address in the page of \<open>virt_addr\<close> now has the entry for \<open>phys_addr\<close> with
  the present, writable and user flags, every other user address keeps its entry, and the tables
  and the allocator stay consistent.
\<close>

theorem map_user_page_refines:
  assumes "space st F" and "3 \<le> card F" and "user_va va"
  shows "\<exists>st' F'. map_user_page va pa st = Some st' \<and> F' \<subseteq> F \<and> space st' F' \<and>
    (\<forall>v. user_va v \<longrightarrow> aspace st' v =
       (if page_of v = page_of va then page_of pa OR PAGE_USER_FLAGS else aspace st v))"
proof -
  from map_user_page_ok [OF assms] obtain st' F' where *: "map_user_page va pa st = Some st'"
      "map_effect st F va (page_of pa OR PAGE_USER_FLAGS) st' F'" by blast
  with aspace_update [OF assms(3)] show ?thesis
    unfolding map_effect_def by (intro exI [of _ st'] exI [of _ F']) auto
qed

lemma frame_aligned: "page_aligned (e AND PAGE_ADDRESS_MASK)" for e :: u64
proof -
  have "(e AND 0x000FFFFFFFFFF000) AND 0xFFF = e AND (0x000FFFFFFFFFF000 AND 0xFFF)"
    by (simp only: and.assoc)
  then show ?thesis by (simp add: page_aligned_def)
qed

lemma free_step:
  assumes "space st F" and "f \<notin> F" and "f \<notin> tables (mem st) (root st)" and "f \<noteq> 0" and "page_aligned f"
    and st': "st' = pmm_free_page f st"
  shows "space st' (insert f F)" and "tables (mem st') (root st') = tables (mem st) (root st)"
    and "cr3 st' = cr3 st"
    and "path_ok q \<Longrightarrow> j < 512 \<Longrightarrow> leaf (mem st') (root st') q j = leaf (mem st) (root st) q j"
proof -
  have tr: "tree (mem st) (root st)" and dis: "F \<inter> tables (mem st) (root st) = {}"
    and pool: "pmm_pool st F" using assms(1) by (auto simp: space_def)
  have m: "mem st' = (mem st)(f := free_page_head st)" and c: "cr3 st' = cr3 st"
    using assms(4,5) by (simp_all add: st' pmm_free_page_def)
  have "mem st' b = mem st b" if "page_of b \<in> tables (mem st) (root st)" for b
    using that assms(3,5) by (auto simp: m)
  note fr = tree_frame [OF tr this]
  show "space st' (insert f F)"
    using pool_free [OF pool assms(2,4,5), folded st'] fr(1,2) dis assms(3)
    by (simp add: space_def c)
  show "tables (mem st') (root st') = tables (mem st) (root st)" "cr3 st' = cr3 st"
    "path_ok q \<Longrightarrow> j < 512 \<Longrightarrow> leaf (mem st') (root st') q j = leaf (mem st) (root st) q j"
    using fr(2,3) c by simp_all
qed

lemma unmap_user_page_ok:
  assumes "space st F" and "user_va va" and "user_page_mapped st va"
    and f: "f = aspace st va AND PAGE_ADDRESS_MASK" and "f \<notin> F" and "f \<notin> tables (mem st) (root st)"
  shows "\<exists>st'. unmap_user_page va st = (True, st') \<and> space st' (insert f F)
     \<and> tables (mem st') (root st') = tables (mem st) (root st) \<and> cr3 st' = cr3 st
     \<and> (\<forall>q j. path_ok q \<longrightarrow> j < 512 \<longrightarrow> leaf (mem st') (root st') q j =
          (if q = take 3 (indices va) \<and> j = indices va ! 3 then 0 else leaf (mem st) (root st) q j))"
proof -
  note m = assms(3) [unfolded user_page_mapped_iff [OF assms(1,2)]]
  let ?p = "take 3 (indices va)" and ?i = "indices va ! 3"
  obtain t where t: "tab (mem st) (root st) ?p = Some t"
    using m by (cases "tab (mem st) (root st) ?p") (auto simp: aspace_def leaf_def)
  let ?a = "slot t ?i"
  have ue: "user_entry st va = Some ?a" "mem st ?a = aspace st va"
    using user_entry_tab [OF assms(1,2)] t by (auto simp: aspace_def leaf_def)
  obtain h where h: "hhdm st = Some h" using assms(1) by (rule space_hhdm)
  let ?st1 = "st \<lparr> mem := (mem st)(?a := 0) \<rparr>"
  note l = leaf_step [OF assms(1) user_path(1) [OF assms(2)] t refl, where v = 0]
  have u: "unmap_user_page va st = (True, pmm_free_page f ?st1)"
    using ue h m f by (simp add: unmap_user_page_def Let_def)
  have fz: "f \<noteq> 0" "page_aligned f" using f m frame_aligned by auto
  have "f \<notin> tables (mem ?st1) (root ?st1)" using l(2) assms(6) by simp
  note fs = free_step [OF l(1) assms(5) this fz refl]
  show ?thesis
    by (intro exI [of _ "pmm_free_page f ?st1"] conjI) (use u fs l(2,3) in simp_all)
qed

lemma protect_user_page_ok:
  assumes "space st F" and "user_va va" and "user_page_mapped st va"
  shows "\<exists>st'. protect_user_page va pr wr ex st = (True, st') \<and> space st' F
     \<and> tables (mem st') (root st') = tables (mem st) (root st) \<and> cr3 st' = cr3 st
     \<and> (\<forall>q j. path_ok q \<longrightarrow> j < 512 \<longrightarrow> leaf (mem st') (root st') q j =
          (if q = take 3 (indices va) \<and> j = indices va ! 3
           then protected_entry (efer st) pr wr ex (aspace st va) else leaf (mem st) (root st) q j))"
proof -
  note m = assms(3) [unfolded user_page_mapped_iff [OF assms(1,2)]]
  let ?p = "take 3 (indices va)" and ?i = "indices va ! 3"
  obtain t where t: "tab (mem st) (root st) ?p = Some t"
    using m by (cases "tab (mem st) (root st) ?p") (auto simp: aspace_def leaf_def)
  let ?a = "slot t ?i" and ?v = "protected_entry (efer st) pr wr ex (aspace st va)"
  have ue: "user_entry st va = Some ?a" "mem st ?a = aspace st va"
    using user_entry_tab [OF assms(1,2)] t by (auto simp: aspace_def leaf_def)
  obtain h where h: "hhdm st = Some h" using assms(1) by (rule space_hhdm)
  let ?st1 = "st \<lparr> mem := (mem st)(?a := ?v) \<rparr>"
  note l = leaf_step [OF assms(1) user_path(1) [OF assms(2)] t refl, where v = ?v]
  have "protect_user_page va pr wr ex st = (True, ?st1)"
    using ue h m by (simp add: protect_user_page_def Let_def)
  with l show ?thesis by (intro exI [of _ ?st1]) simp
qed

section \<open>Isolation\<close>

text \<open>A last-level slot owns the frame its user entry names. In an isolated space no owned frame
  is free or holds a table, and no frame has two owners.\<close>

definition owned :: "machine \<Rightarrow> nat list \<Rightarrow> nat \<Rightarrow> u64 \<Rightarrow> bool" where
  "owned st p i f \<longleftrightarrow> leaf_ok p i \<and> leaf (mem st) (root st) p i AND PAGE_USER \<noteq> 0
     \<and> leaf (mem st) (root st) p i AND PAGE_ADDRESS_MASK = f \<and> f \<noteq> 0"

definition isolated :: "machine \<Rightarrow> u64 set \<Rightarrow> bool" where
  "isolated st F \<longleftrightarrow> space st F \<and> (\<forall>f\<in>F. f AND PAGE_ADDRESS_MASK = f)
     \<and> (\<forall>p i f. owned st p i f \<longrightarrow> f \<notin> F \<union> tables (mem st) (root st))
     \<and> (\<forall>p i q j f. owned st p i f \<longrightarrow> owned st q j f \<longrightarrow> p = q \<and> i = j)"

lemma isolated_update:
  assumes "isolated st F" and "space st' F'" and "\<forall>f\<in>F'. f AND PAGE_ADDRESS_MASK = f"
    and leafs: "\<And>q j. leaf_ok q j \<Longrightarrow> leaf (mem st') (root st') q j =
      (if q = p \<and> j = i then x else leaf (mem st) (root st) q j)"
    and reserved: "\<And>f. f \<in> F' \<union> tables (mem st') (root st') \<Longrightarrow>
      f \<in> F \<union> tables (mem st) (root st) \<or> (\<forall>q j. owned st q j f \<longrightarrow> q = p \<and> j = i)"
    and new: "x AND PAGE_USER \<noteq> 0 \<Longrightarrow> x AND PAGE_ADDRESS_MASK \<noteq> 0 \<Longrightarrow>
      x AND PAGE_ADDRESS_MASK \<notin> F' \<union> tables (mem st') (root st')
      \<and> (\<forall>q j. owned st q j (x AND PAGE_ADDRESS_MASK) \<longrightarrow> q = p \<and> j = i)"
  shows "isolated st' F'"
proof -
  have cases: "(q = p \<and> j = i \<and> x AND PAGE_USER \<noteq> 0 \<and> x AND PAGE_ADDRESS_MASK = f \<and> f \<noteq> 0)
      \<or> (\<not> (q = p \<and> j = i) \<and> owned st q j f)" if "owned st' q j f" for q j f
    using that leafs [of q j] unfolding owned_def by (cases "q = p \<and> j = i") auto
  have "f \<notin> F' \<union> tables (mem st') (root st')" if "owned st' q j f" for q j f
    using cases [OF that] new reserved assms(1) unfolding isolated_def by metis
  moreover have "q = q' \<and> j = j'" if "owned st' q j f" "owned st' q' j' f" for q j q' j' f
    using cases [OF that(1)] cases [OF that(2)] new assms(1) unfolding isolated_def by metis
  ultimately show ?thesis using assms(2,3) unfolding isolated_def by blast
qed

lemma free_list_unique: "free_list m h ps \<Longrightarrow> free_list m h qs \<Longrightarrow> ps = qs"
proof (induction ps arbitrary: h qs)
  case Nil
  then show ?case by (cases qs) auto
next
  case (Cons p ps)
  then show ?case by (cases qs) auto
qed

lemma pool_unique: "pmm_pool st F \<Longrightarrow> pmm_pool st G \<Longrightarrow> F = G"
  unfolding pmm_pool_def using free_list_unique by (metis option.inject)

lemma alloc_space:
  assumes "space st F" and "F \<noteq> {}" and "pmm_alloc_zeroed_page st = Some (n, st')"
  shows "n \<in> F" and "space st' (F - {n})" and "cr3 st' = cr3 st"
    and "tables (mem st') (root st') = tables (mem st) (root st)"
    and "path_ok q \<Longrightarrow> j < 512 \<Longrightarrow> leaf (mem st') (root st') q j = leaf (mem st) (root st) q j"
proof -
  have tr: "tree (mem st) (root st)" and dis: "F \<inter> tables (mem st) (root st) = {}"
    and pool: "pmm_pool st F" using assms(1) by (auto simp: space_def)
  have a: "n \<in> F" "pmm_pool st' (F - {n})" "mem st' = zero_page n (mem st)" "cr3 st' = cr3 st"
    using pool_alloc [OF pool assms(2)] assms(3) by auto
  then show "n \<in> F" "cr3 st' = cr3 st" by blast+
  have n: "page_aligned n" using pool_pages [OF pool a(1)] by blast
  have "mem st' b = mem st b" if "page_of b \<in> tables (mem st) (root st)" for b
    using that dis a(1) by (auto simp: a(3) zero_page_aligned [OF n])
  note fr = tree_frame [OF tr this]
  show "space st' (F - {n})" using a(2,4) fr(1,2) dis by (auto simp: space_def)
  show "tables (mem st') (root st') = tables (mem st) (root st)"
    "path_ok q \<Longrightarrow> j < 512 \<Longrightarrow> leaf (mem st') (root st') q j = leaf (mem st) (root st) q j"
    using fr(2,3) a(4) by simp_all
qed

lemma mapped_frame: "n AND PAGE_ADDRESS_MASK = n \<Longrightarrow>
    (page_of n OR PAGE_USER_FLAGS) AND PAGE_ADDRESS_MASK = n" for n :: u64
proof -
  assume n: "n AND PAGE_ADDRESS_MASK = n"
  then have "page_of n = n" using frame_aligned [of n] by simp
  moreover have "(n OR 7) AND 0x000FFFFFFFFFF000 = (n AND 0x000FFFFFFFFFF000) OR (7 AND 0x000FFFFFFFFFF000)"
    by (rule bit.conj_disj_distrib2)
  ultimately show ?thesis using n by simp
qed

text \<open>How the kernel changes the address space of the running program: a fresh page is allocated
  and mapped (with four pages free, enough for the page and three tables), a page is unmapped and
  released, or its protection is changed.\<close>

inductive vm_step :: "machine \<Rightarrow> machine \<Rightarrow> bool" where
  map_new: "pmm_pool st F \<Longrightarrow> 4 \<le> card F \<Longrightarrow> user_va va \<Longrightarrow>
     pmm_alloc_zeroed_page st = Some (n, st1) \<Longrightarrow> map_user_page va n st1 = Some st' \<Longrightarrow> vm_step st st'"
| unmap: "user_va va \<Longrightarrow> vm_step st (snd (unmap_user_page va st))"
| protect: "user_va va \<Longrightarrow> vm_step st (snd (protect_user_page va pr wr ex st))"

inductive_cases vm_stepE: "vm_step st st'"

lemma isolated_map_new:
  assumes "isolated st F" and "4 \<le> card F" and "user_va va"
    and "pmm_alloc_zeroed_page st = Some (n, st1)" and "map_user_page va n st1 = Some st'"
  shows "\<exists>F'. isolated st' F'"
proof -
  have sp: "space st F" and mk: "\<forall>f\<in>F. f AND PAGE_ADDRESS_MASK = f"
    and ow: "\<And>p i f. owned st p i f \<Longrightarrow> f \<notin> F \<union> tables (mem st) (root st)"
    using assms(1) unfolding isolated_def by blast+
  have "F \<noteq> {}" using assms(2) by auto
  note a = alloc_space [OF sp this assms(4)]
  have "3 \<le> card (F - {n})" using assms(2) a(1) by simp
  from map_user_page_ok [OF a(2) this assms(3), of n] assms(5) obtain F' where
    "map_effect st1 (F - {n}) va (page_of n OR PAGE_USER_FLAGS) st' F'" by auto
  then have e: "F' \<subseteq> F - {n}" "space st' F'" "tables (mem st') (root st') \<subseteq> tables (mem st1) (root st1) \<union> (F - {n} - F')"
      "\<And>q j. leaf_ok q j \<Longrightarrow> leaf (mem st') (root st') q j =
         (if q = take 3 (indices va) \<and> j = indices va ! 3 then page_of n OR PAGE_USER_FLAGS
          else leaf (mem st1) (root st1) q j)" unfolding map_effect_def by blast+
  note mf = mapped_frame [OF mk [rule_format, OF a(1)]]
  have nt: "n \<notin> tables (mem st) (root st)" using sp a(1) by (auto simp: space_def)
  have "isolated st' F'"
    by (rule isolated_update [OF assms(1) e(2), of "take 3 (indices va)" "indices va ! 3"
          "page_of n OR PAGE_USER_FLAGS"])
      (use mk e(1,3,4) a nt ow mf in \<open>auto dest: leaf_ok_path\<close>)
  then show ?thesis ..
qed

lemma owned_aspace:
  assumes "user_va va"
  shows "owned st (take 3 (indices va)) (indices va ! 3) f \<longleftrightarrow>
     aspace st va AND PAGE_USER \<noteq> 0 \<and> aspace st va AND PAGE_ADDRESS_MASK = f \<and> f \<noteq> 0"
  using user_path(1) [OF assms] by (auto simp: owned_def aspace_def)

lemma frame_mask: "(e AND PAGE_ADDRESS_MASK) AND PAGE_ADDRESS_MASK = e AND PAGE_ADDRESS_MASK" for e :: u64
  by (simp add: and.assoc)

lemma isolated_unmap:
  assumes "isolated st F" and "user_va va"
  shows "\<exists>F'. isolated (snd (unmap_user_page va st)) F'"
proof (cases "user_page_mapped st va")
  case False
  then have "snd (unmap_user_page va st) = st"
    by (auto simp: user_page_mapped_def unmap_user_page_def Let_def split: option.splits)
  then show ?thesis using assms(1) by auto
next
  case True
  let ?p = "take 3 (indices va)" and ?i = "indices va ! 3"
  define f where "f = aspace st va AND PAGE_ADDRESS_MASK"
  have sp: "space st F" and mk: "\<forall>f\<in>F. f AND PAGE_ADDRESS_MASK = f"
    using assms(1) unfolding isolated_def by blast+
  have own: "owned st ?p ?i f"
    using True user_page_mapped_iff [OF sp assms(2)] owned_aspace [OF assms(2)] by (simp add: f_def)
  then have fr: "f \<notin> F \<union> tables (mem st) (root st)" "\<And>q j. owned st q j f \<Longrightarrow> q = ?p \<and> j = ?i"
    using assms(1) unfolding isolated_def by blast+
  from unmap_user_page_ok [OF sp assms(2) True f_def] fr(1) obtain st' where u:
      "unmap_user_page va st = (True, st')" "space st' (insert f F)"
      "tables (mem st') (root st') = tables (mem st) (root st)"
      "\<And>q j. path_ok q \<Longrightarrow> j < 512 \<Longrightarrow> leaf (mem st') (root st') q j =
          (if q = ?p \<and> j = ?i then 0 else leaf (mem st) (root st) q j)" by auto
  have "isolated st' (insert f F)"
    by (rule isolated_update [OF assms(1) u(2) _ u(4)])
      (use mk fr u(3) leaf_ok_path frame_mask [of "aspace st va"] in \<open>auto simp: f_def\<close>)
  then show ?thesis using u(1) by auto
qed

lemma protected_frame:
  "protected_entry ef pr wr ex e AND PAGE_ADDRESS_MASK = e AND PAGE_ADDRESS_MASK"
  by (simp add: protected_entry_def Let_def bit.conj_disj_distrib2 and.assoc)

lemma isolated_protect:
  assumes "isolated st F" and "user_va va"
  shows "isolated (snd (protect_user_page va pr wr ex st)) F"
proof (cases "user_page_mapped st va")
  case False
  then have "snd (protect_user_page va pr wr ex st) = st"
    by (auto simp: user_page_mapped_def protect_user_page_def Let_def split: option.splits)
  then show ?thesis using assms(1) by auto
next
  case True
  let ?p = "take 3 (indices va)" and ?i = "indices va ! 3"
  let ?f = "aspace st va AND PAGE_ADDRESS_MASK"
  have sp: "space st F" and mk: "\<forall>f\<in>F. f AND PAGE_ADDRESS_MASK = f"
    using assms(1) unfolding isolated_def by blast+
  have own: "owned st ?p ?i ?f"
    using True user_page_mapped_iff [OF sp assms(2)] owned_aspace [OF assms(2)] by simp
  then have fr: "?f \<notin> F \<union> tables (mem st) (root st)" "\<And>q j. owned st q j ?f \<Longrightarrow> q = ?p \<and> j = ?i"
    using assms(1) unfolding isolated_def by blast+
  from protect_user_page_ok [OF sp assms(2) True, of pr wr ex] obtain st' where u:
      "protect_user_page va pr wr ex st = (True, st')" "space st' F"
      "tables (mem st') (root st') = tables (mem st) (root st)"
      "\<And>q j. path_ok q \<Longrightarrow> j < 512 \<Longrightarrow> leaf (mem st') (root st') q j =
          (if q = ?p \<and> j = ?i then protected_entry (efer st) pr wr ex (aspace st va)
           else leaf (mem st) (root st) q j)" by auto
  have "isolated st' F"
    by (rule isolated_update [OF assms(1) u(2) mk u(4)]) (use fr u(3) leaf_ok_path protected_frame in auto)
  then show ?thesis using u(1) by simp
qed

lemma isolated_steps:
  assumes "vm_step\<^sup>*\<^sup>* st st'" and "isolated st F"
  shows "\<exists>F'. isolated st' F'"
  using assms
proof (induction rule: rtranclp_induct)
  case (step st1 st2)
  then obtain F1 where i: "isolated st1 F1" by blast
  from step(2) show ?case
  proof (rule vm_stepE)
    fix G va n st3
    assume m: "pmm_pool st1 G" "4 \<le> card G" "user_va va" "pmm_alloc_zeroed_page st1 = Some (n, st3)"
      "map_user_page va n st3 = Some st2"
    moreover from m(1) i have "G = F1" using pool_unique by (auto simp: isolated_def space_def)
    ultimately show ?thesis using isolated_map_new [OF i] by blast
  qed (use isolated_unmap isolated_protect i in blast)+
qed blast


text \<open>An empty address space at \<open>0x1000\<close> with eight free pages, for concrete instances.\<close>

definition vm_map :: "memmap_entry list" where
  "vm_map = [\<lparr> base = 0x10000, len = 0x8000, kind = 0 \<rparr>]"

definition vm_machine :: machine where
  "vm_machine = \<lparr> mem = (\<lambda>_. 0), cr3 = 0x1000, efer = 0x800, free_page_head = 0, alloc_index = 0,
     alloc_offset = 0, memmap = Some vm_map, hhdm = Some 0xFFFF800000000000 \<rparr>"

lemma vm_pool: "pmm_pool vm_machine (remaining vm_map 0 0)"
proof -
  have "memmap_wf vm_map" "scan_wf 0"
    by (simp_all add: vm_map_def memmap_wf_def entry_wf_def scan_wf_def page_aligned_def)
  then show ?thesis
    unfolding pmm_pool_def by (intro exI [of _ vm_map] exI [of _ "[]"]) (simp add: vm_machine_def)
qed

lemma vm_pages: "remaining vm_map 0 0 = (\<lambda>k. 0x10000 + 0x1000 * of_nat k) ` {..<8}"
proof -
  have "p \<in> (\<lambda>k. 0x10000 + 0x1000 * of_nat k) ` {..<8} \<longleftrightarrow> (\<exists>k<8. unat p = 65536 + 4096 * k)" for p :: u64
  proof -
    have "unat (0x10000 + 0x1000 * of_nat k :: u64) = 65536 + 4096 * k" if "k < 8" for k
      using that by (simp add: unat_word_ariths unat_of_nat)
    then show ?thesis by (force simp: word_unat_eq_iff image_iff)
  qed
  moreover have "4096 * k + 4096 \<le> 32768 \<longleftrightarrow> k < 8" for k :: nat by auto
  ultimately show ?thesis
    by (auto simp: remaining_def vm_map_def entry_pages_def conj_commute)
qed

lemma vm_pages_list:
  "remaining vm_map 0 0 = {0x10000, 0x11000, 0x12000, 0x13000, 0x14000, 0x15000, 0x16000, 0x17000}"
proof -
  have "{..<8 :: nat} = {0, 1, 2, 3, 4, 5, 6, 7}" by auto
  then show ?thesis unfolding vm_pages by simp
qed

lemma vm_tab: "tab (mem vm_machine) r p = (if p = [] then Some r else None)"
  by (cases p) (auto simp: vm_machine_def)

lemma vm_root: "root vm_machine = 0x1000"
  by (simp add: vm_machine_def page_of_def)

lemma vm_space: "space vm_machine (remaining vm_map 0 0)"
proof -
  have "user_walk (mem vm_machine) 0x1000 p = tab (mem vm_machine) 0x1000 p" for p
    by (cases p) (auto simp: vm_machine_def)
  then have "tree (mem vm_machine) 0x1000"
    unfolding tree_def by (simp add: vm_tab page_aligned_def)
  moreover have "tables (mem vm_machine) 0x1000 = {0x1000}"
    by (auto simp: tables_def vm_tab path_ok_def)
  ultimately show ?thesis unfolding space_def vm_root vm_pages_list using vm_pool vm_pages_list by simp
qed

lemma vm_isolated: "isolated vm_machine (remaining vm_map 0 0)"
proof -
  have "\<not> owned vm_machine p i f" for p i f
    by (simp add: owned_def leaf_def vm_tab) (simp add: vm_machine_def)
  moreover have "\<forall>f\<in>remaining vm_map 0 0. f AND PAGE_ADDRESS_MASK = f" by (simp add: vm_pages_list)
  ultimately show ?thesis using vm_space by (simp add: isolated_def)
qed

theorem map_user_page_refines_witness:
  "\<exists>st'. map_user_page 0x400000 0x9000 vm_machine = Some st' \<and> aspace st' 0x400123 = 0x9007
     \<and> aspace st' 0x401000 = 0"
proof -
  from map_user_page_refines [OF vm_space, of "0x400000" "0x9000"] obtain st' where
    "map_user_page 0x400000 0x9000 vm_machine = Some st'"
    "\<forall>v. user_va v \<longrightarrow> aspace st' v = (if page_of v = page_of 0x400000
        then page_of 0x9000 OR PAGE_USER_FLAGS else aspace vm_machine v)"
    by (auto simp: vm_pages_list user_va_def)
  moreover have "aspace vm_machine 0x401000 = 0"
    by (simp add: aspace_def leaf_def vm_tab) (simp add: vm_machine_def)
  ultimately show ?thesis by (intro exI [of _ st']) (simp add: user_va_def page_of_def)
qed


section \<open>Switching address spaces\<close>

lemma store_slots_eq:
  assumes "page_aligned r" and "\<forall>i\<in>set is. i < 512" and "distinct is"
  shows "(\<forall>i\<in>set is. store_slots r is c m (slot r i) = c ! i)
     \<and> (\<forall>a. a \<notin> slot r ` set is \<longrightarrow> store_slots r is c m a = m a)"
  using assms(2,3)
proof (induction "is" arbitrary: m)
  case (Cons i "is")
  then have "slot r i \<notin> slot r ` set is" using slot_inject [OF assms(1,1)] by auto
  with Cons show ?case by auto
qed simp

lemma take_slots_eq:
  assumes "page_aligned r" and "\<forall>i\<in>set is. i < 512" and "distinct is"
  shows "fst (take_slots r is c m) = c @ map (\<lambda>i. m (slot r i)) is
     \<and> (\<forall>a. snd (take_slots r is c m) a = (if a \<in> slot r ` set is then 0 else m a))"
  using assms(2,3)
proof (induction "is" arbitrary: c m)
  case (Cons i "is")
  then have "slot r j \<noteq> slot r i" if "j \<in> set is" for j
    using that slot_inject [OF assms(1,1)] by auto
  with Cons show ?case by auto
qed simp

lemma copy_slots_eq:
  assumes "page_aligned dst" and "page_aligned src" and "dst \<noteq> src"
    and "\<forall>i\<in>set is. i < 512" and "distinct is"
  shows "(\<forall>i\<in>set is. copy_slots dst src is m (slot dst i) = m (slot src i))
     \<and> (\<forall>a. a \<notin> slot dst ` set is \<longrightarrow> copy_slots dst src is m a = m a)"
  using assms(4,5)
proof (induction "is" arbitrary: m)
  case (Cons i "is")
  have "slot src j \<noteq> slot dst i" if "j < 512" for j
    using that Cons.prems slot_inject [OF assms(2,1)] assms(3) by auto
  moreover have "slot dst i \<notin> slot dst ` set is"
    using Cons.prems slot_inject [OF assms(1,1)] by auto
  ultimately show ?case using Cons by auto
qed simp

lemma detach_nothing:
  assumes "\<And>i. i < 256 \<Longrightarrow> mem st (slot (root st) i) = 0"
  shows "detach_user_tables st = (replicate 256 0, st)"
proof -
  have "n \<le> 256 \<Longrightarrow> fold (\<lambda>i (user_tables, st).
        if user_present (mem st (slot (root st') i))
        then (user_tables @ [page_of (mem st (slot (root st') i))],
              st \<lparr> mem := (mem st) (slot (root st') i := 0) \<rparr>)
        else (user_tables @ [0], st)) [0..<n] ([], st') = (replicate n 0, st')"
    if "st' = st" for n st'
    using assms that by (induction n) (simp_all add: replicate_append_same)
  then show ?thesis by (simp add: detach_user_tables_def Let_def)
qed

lemma cleanup_nothing:
  assumes "\<And>i. i < 256 \<Longrightarrow> mem st (slot (root st) i) = 0"
  shows "cleanup_user_pages st = st"
proof -
  have "fold (\<lambda>t st. if t \<noteq> 0 then free_user_table 3 t st else st) (replicate n 0) st = st" for n
    by (induction n) auto
  then show ?thesis
    by (simp add: cleanup_user_pages_def detach_nothing [OF assms] split: option.splits)
qed

lemma root_aligned: "page_aligned (root st)"
  by simp

lemma no_top_not_mapped:
  assumes "mem st (slot (root st) (indices va ! 0)) = 0"
  shows "\<not> user_page_mapped st va"
  using assms by (simp add: user_page_mapped_def user_entry_def indices_eq split: option.splits)

lemma top_index: "user_va va \<Longrightarrow> indices va ! 0 < 256"
  using user_path(2) by (auto simp: path_ok_def)

text \<open>
  C18: suspending an address space saves its user half and hides it completely, so that no user
  page is mapped, and restoring the saved context brings back exactly the memory as it was.
\<close>

theorem suspend_restore_roundtrip:
  assumes "hhdm st \<noteq> None" and "suspend_user_pages (Some c0) st = (ok, c, st1)"
  shows "ok \<and> (\<forall>va. user_va va \<longrightarrow> \<not> user_page_mapped st1 va) \<and> restore_user_pages c st1 = (True, st)"
proof -
  let ?r = "root st"
  note t = take_slots_eq [of ?r "[0..<256]" "[]" "mem st"]
  obtain cs m where cm: "take_slots ?r [0..<256] [] (mem st) = (cs, m)" by fastforce
  have s: "ok" "c = Some cs" "st1 = st \<lparr> mem := m \<rparr>"
    using assms cm by (auto simp: suspend_user_pages_def)
  have cs: "i < 256 \<Longrightarrow> cs ! i = mem st (slot ?r i)" for i using t by (simp add: cm)
  have m: "m a = (if a \<in> slot ?r ` {0..<256} then 0 else mem st a)" for a using t by (simp add: cm)
  have z: "mem st1 (slot (root st1) i) = 0" if "i < 256" for i using that m by (simp add: s(3))
  have "store_slots ?r [0..<256] cs m a = mem st a" for a
    using store_slots_eq [of ?r "[0..<256]" cs m] cs m by (cases "a \<in> slot ?r ` {0..<256}") auto
  then have "restore_user_pages c st1 = (True, st)"
    using assms(1) cleanup_nothing [of st1, OF z]
    by (auto simp: restore_user_pages_def s(2)) (simp_all add: s(3) fun_eq_iff)
  with s(1) z no_top_not_mapped top_index show ?thesis by blast
qed

theorem suspend_restore_roundtrip_witness:
  "\<exists>c st1. suspend_user_pages (Some []) vm_machine = (True, c, st1)
     \<and> restore_user_pages c st1 = (True, vm_machine)"
  using suspend_restore_roundtrip [of vm_machine "[]"]
  by (cases "suspend_user_pages (Some []) vm_machine") (auto simp: vm_machine_def)

lemma pool_hhdm: "pmm_pool st F \<Longrightarrow> hhdm st \<noteq> None"
  by (auto simp: pmm_pool_def)

text \<open>
  C19: a new address space shares the kernel half of the current one and is otherwise empty: after
  switching to it no user page is mapped, its tables are consistent with the allocator, and the
  kernel entries 256 to 511 are those of the address space it was created from.
\<close>

theorem create_user_pml4_fresh:
  assumes "pmm_pool st F" and "F \<noteq> {}" and "root st \<notin> F"
  shows "\<exists>p st'. create_user_pml4 st = Some (p, st') \<and> p \<in> F \<and>
     space (switch_user_pml4 p st') (F - {p}) \<and>
     (\<forall>va. user_va va \<longrightarrow> \<not> user_page_mapped (switch_user_pml4 p st') va) \<and>
     (\<forall>i. 256 \<le> i \<longrightarrow> i < 512 \<longrightarrow> mem st' (slot p i) = mem st (slot (root st) i))"
proof -
  from pool_alloc [OF assms(1,2)] obtain p st1 where a: "pmm_alloc_zeroed_page st = Some (p, st1)"
      "p \<in> F" "pmm_pool st1 (F - {p})" "mem st1 = zero_page p (mem st)" "cr3 st1 = cr3 st" by blast
  have p: "p \<noteq> 0" "page_aligned p" using pool_pages [OF assms(1) a(2)] by auto
  have ne: "p \<noteq> root st1" using a(2,5) assms(3) by auto
  define m2 where "m2 = copy_slots p (root st1) [256..<512] (mem st1)"
  let ?st = "st1 \<lparr> mem := m2 \<rparr>"
  have "\<forall>i\<in>set [256..<512]. i < 512" by (simp only: set_upt) simp
  note copied = copy_slots_eq [OF p(2) root_aligned ne this distinct_upt, of "mem st1", folded m2_def,
      unfolded set_upt]
  have z: "mem st1 b = (if page_of b = p then 0 else mem st b)" for b
    using a(4) zero_page_aligned [OF p(2)] by simp
  have c: "create_user_pml4 st = Some (p, ?st)"
    using a(1) p(1) pool_hhdm [OF assms(1)]
    by (simp add: create_user_pml4_def m2_def del: upt_rec_numeral)
  have low: "m2 (slot p i) = 0" if "i < 256" for i
  proof -
    have "slot p i \<notin> slot p ` {256..<512}" using that slot_inject [OF p(2,2)] by auto
    then show ?thesis using copied z slot_facts(1) [OF p(2), of i] that by simp
  qed
  have high: "m2 (slot p i) = mem st (slot (root st) i)" if "256 \<le> i" "i < 512" for i
    using that copied z slot_facts(1) [OF root_aligned, of i st1] ne a(5) by simp
  let ?sw = "switch_user_pml4 p ?st"
  have sw: "mem ?sw = m2" "root ?sw = p" using p by (simp_all add: switch_user_pml4_def)
  have "m2 q = mem st1 q" if "q \<in> F - {p}" for q
  proof -
    have "q \<notin> slot p ` {256..<512}"
      using that pool_pages [OF assms(1), of q] slot_facts(1) [OF p(2)] by force
    then show ?thesis using copied by simp
  qed
  then have pool: "pmm_pool ?sw (F - {p})"
    using p(1) by (intro pool_frame [OF a(3)]) (simp_all add: switch_user_pml4_def)
  have "tab (mem ?sw) p q = (if q = [] then Some p else None)"
      "user_walk (mem ?sw) p q = (if q = [] then Some p else None)" if "path_ok q" for q
    unfolding sw(1) using that low by (cases q; simp add: path_ok_def)+
  moreover have "path_ok []" by (simp add: path_ok_def)
  ultimately have "tree (mem ?sw) p" "tables (mem ?sw) p = {p}"
    using p(2) unfolding tree_def tables_def by (auto split: if_splits)
  with pool have "space ?sw (F - {p})" by (simp add: space_def sw(2))
  moreover have "\<not> user_page_mapped ?sw va" if "user_va va" for va
    using no_top_not_mapped [of ?sw va] low [OF top_index [OF that]] sw by simp
  moreover have "\<forall>i. 256 \<le> i \<longrightarrow> i < 512 \<longrightarrow> mem ?st (slot p i) = mem st (slot (root st) i)"
    using high by simp
  ultimately show ?thesis using c a(2) by blast
qed

theorem create_user_pml4_fresh_witness:
  "\<exists>p st'. create_user_pml4 vm_machine = Some (p, st') \<and>
     \<not> user_page_mapped (switch_user_pml4 p st') 0x400000 \<and> mem st' (slot p 511) = 0"
proof -
  have "root vm_machine \<notin> remaining vm_map 0 0" by (simp add: vm_root vm_pages_list)
  from create_user_pml4_fresh [OF vm_pool _ this] obtain p st' where
    "create_user_pml4 vm_machine = Some (p, st')"
    "\<forall>va. user_va va \<longrightarrow> \<not> user_page_mapped (switch_user_pml4 p st') va"
    "\<forall>i. 256 \<le> i \<longrightarrow> i < 512 \<longrightarrow> mem st' (slot p i) = mem vm_machine (slot (root vm_machine) i)"
    by (auto simp: vm_pages_list)
  then show ?thesis
    by (intro exI [of _ p] exI [of _ st']) (simp add: user_va_def vm_machine_def)
qed

text \<open>
  C38: out of memory is not handled while mapping: when no page is free and a table is missing,
  \<open>get_or_alloc_table\<close> does not fail but installs physical page zero as the table.
\<close>

theorem out_of_memory_maps_page_zero:
  assumes "pmm_pool st {}" and "mem st (slot table i) AND PAGE_PRESENT = 0"
  shows "\<exists>st'. get_or_alloc_table table i st = Some (0, st') \<and> mem st' (slot table i) = PAGE_USER_FLAGS"
proof -
  obtain es h where "memmap st = Some es" "hhdm st = Some h"
    using assms(1) by (auto simp: pmm_pool_def)
  then obtain p st1 where a: "pmm_alloc_zeroed_page st = Some (p, st1)"
    by (fastforce simp: pmm_alloc_zeroed_page_def)
  moreover from alloc_from_empty [OF assms(1) a] have "p = 0" .
  ultimately show ?thesis using assms(2) by (simp add: get_or_alloc_table_def page_of_def)
qed

theorem out_of_memory_maps_page_zero_witness:
  "\<exists>st'. get_or_alloc_table 0x1000 1 (vm_machine \<lparr> alloc_index := 1 \<rparr>) = Some (0, st')"
proof -
  have "remaining vm_map 1 0 = {}" by (simp add: remaining_def vm_map_def)
  moreover have "memmap_wf vm_map" "scan_wf 0"
    by (simp_all add: vm_map_def memmap_wf_def entry_wf_def scan_wf_def page_aligned_def)
  ultimately have "pmm_pool (vm_machine \<lparr> alloc_index := 1 \<rparr>) {}"
    unfolding pmm_pool_def by (intro exI [of _ vm_map] exI [of _ "[]"]) (simp add: vm_machine_def)
  from out_of_memory_maps_page_zero [OF this, of "0x1000" 1] show ?thesis
    by (auto simp: vm_machine_def)
qed

lemma unmap_range_returns:
  assumes "unat end_addr + 4096 \<le> 2 ^ 64"
  shows "\<exists>st'. unmap_range addr end_addr st = Some st'"
proof (induction "unat end_addr - unat addr" arbitrary: addr st rule: less_induct)
  case less
  show ?case
  proof (cases "addr < end_addr")
    case True
    then have "unat addr < unat end_addr" by (simp add: word_less_nat_alt)
    then have "unat (addr + 4096) = unat addr + 4096" using assms by (simp add: unat_word_ariths)
    then have "unat end_addr - unat (addr + 4096) < unat end_addr - unat addr"
      using \<open>unat addr < unat end_addr\<close> by simp
    from less [OF this] True show ?thesis by (subst unmap_range.simps) simp
  next
    case False
    then show ?thesis by (subst unmap_range.simps) simp
  qed
qed

end
