(* ===== verification/UserMem.thy ===== *)
theory UserMem
  imports Paging
begin

text \<open>
  User memory as the system calls see it (\<open>helper/core/syscall/syscall.c\<close>, lines 73-268): the
  checks of user addresses before the kernel touches them, the copying of user strings, and the
  map, protect and unmap calls on ranges of pages. \<open>translate\<close> is what the processor does with a
  user address; a load or a store of a user address that does not translate is \<open>None\<close>, a page
  fault in the kernel.
\<close>

abbreviation USER_ADDRESS_LIMIT :: u64 where "USER_ADDRESS_LIMIT \<equiv> 0x800000000000"
abbreviation USER_MEMORY_WRITE :: u64 where "USER_MEMORY_WRITE \<equiv> 2"
abbreviation USER_MEMORY_EXEC :: u64 where "USER_MEMORY_EXEC \<equiv> 4"
abbreviation USER_MEMORY_MAX_SIZE :: u64 where "USER_MEMORY_MAX_SIZE \<equiv> 0x1000000"

section \<open>The processor's view\<close>

text \<open>A four-level walk: every entry has to be present, user and, for a write, writable; an entry
  of the second or third level may map a large page.\<close>

definition denied :: "bool \<Rightarrow> u64 \<Rightarrow> bool" where
  "denied write_access entry \<longleftrightarrow>
     \<not> user_present entry \<or> write_access \<and> entry AND PAGE_WRITABLE = 0"

fun hw_walk :: "memory \<Rightarrow> bool \<Rightarrow> u64 \<Rightarrow> u64 \<Rightarrow> (nat \<times> nat) list \<Rightarrow> u64 option" where
  "hw_walk m w va table [] = Some (table + (va AND 0xFFF))"
| "hw_walk m w va table ((k, i) # is) =
     (let entry = m (slot table i) in
      if denied w entry then None
      else if (k = 30 \<or> k = 21) \<and> entry AND PAGE_LARGE \<noteq> 0
           then Some ((entry AND PAGE_ADDRESS_MASK AND NOT (mask k)) + (va AND mask k))
      else hw_walk m w va (entry AND PAGE_ADDRESS_MASK) is)"

definition translate :: "machine \<Rightarrow> bool \<Rightarrow> u64 \<Rightarrow> u64 option" where
  "translate st w va =
     (if va < USER_ADDRESS_LIMIT
      then hw_walk (mem st) w va (cr3 st AND PAGE_ADDRESS_MASK) (zip [39, 30, 21, 12] (indices va))
      else None)"

definition user_load :: "machine \<Rightarrow> u64 \<Rightarrow> u8 option" where
  "user_load st va = map_option (peek8 (mem st)) (translate st False va)"

definition user_store :: "u64 \<Rightarrow> u8 \<Rightarrow> machine \<Rightarrow> machine option" where
  "user_store va v st =
     map_option (\<lambda>pa. st \<lparr> mem := poke8 pa v (mem st) \<rparr>) (translate st True va)"

fun user_loads :: "machine \<Rightarrow> u64 \<Rightarrow> nat \<Rightarrow> bytes option" where
  "user_loads st va 0 = Some []"
| "user_loads st va (Suc n) =
     do { b \<leftarrow> user_load st va; bs \<leftarrow> user_loads st (va + 1) n; Some (b # bs) }"

fun user_stores :: "u64 \<Rightarrow> bytes \<Rightarrow> machine \<Rightarrow> machine option" where
  "user_stores va [] st = Some st"
| "user_stores va (b # bs) st = do { st \<leftarrow> user_store va b st; user_stores (va + 1) bs st }"

section \<open>Checks of user addresses\<close>

definition valid_user_memory_range :: "u64 \<Rightarrow> u64 \<Rightarrow> u64 option" where
  "valid_user_memory_range address sz =
     (if address = 0 \<or> address \<ge> USER_ADDRESS_LIMIT \<or> sz = 0 \<or> sz > USER_MEMORY_MAX_SIZE
         \<or> \<not> page_aligned address \<or> sz > USER_ADDRESS_LIMIT - address
      then None
      else let rounded = page_of (sz + 4096 - 1) in
        if rounded < sz \<or> rounded > USER_ADDRESS_LIMIT - address then None else Some rounded)"

fun access_walk :: "memory \<Rightarrow> bool \<Rightarrow> u64 \<Rightarrow> nat \<Rightarrow> nat list \<Rightarrow> bool" where
  "access_walk m write_access table level [] = True"
| "access_walk m write_access table level (i # is) =
     (let entry = m (slot table i) in
      if \<not> user_present entry \<or> write_access \<and> entry AND PAGE_WRITABLE = 0 then False
      else if (level = 1 \<or> level = 2) \<and> entry AND PAGE_LARGE \<noteq> 0 then True
      else access_walk m write_access (page_of entry) (level + 1) is)"

definition user_page_accessible :: "machine \<Rightarrow> u64 \<Rightarrow> bool \<Rightarrow> bool" where
  "user_page_accessible st address write_access =
     (if address \<ge> USER_ADDRESS_LIMIT \<or> hhdm st = None then False
      else access_walk (mem st) write_access (root st) 0 (indices address))"

lemma accessible_user: "user_page_accessible st va w \<Longrightarrow> va < USER_ADDRESS_LIMIT"
  by (auto simp: user_page_accessible_def split: if_splits)

lemma next_page:
  fixes va :: u64
  assumes "va < USER_ADDRESS_LIMIT" shows "unat (va + 4096) = unat va + 4096"
proof -
  have "unat va < 0x800000000000" using assms by (simp add: word_less_nat_alt)
  then show ?thesis by (simp add: unat_word_ariths)
qed

text \<open>The loop over the pages of a range ends because no page above the user half is accessible.\<close>

function range_walk :: "machine \<Rightarrow> bool \<Rightarrow> u64 \<Rightarrow> u64 \<Rightarrow> bool" where
  "range_walk st write_access page last_page =
     (if \<not> user_page_accessible st page write_access then False
      else if page = last_page then True
      else range_walk st write_access (page + 4096) last_page)"
  by pat_completeness auto
termination
  by (relation "measure (\<lambda>(st, w, page, last_page). 2 ^ 64 - unat page)")
    (auto dest!: accessible_user simp: next_page word_less_nat_alt intro!: diff_less_mono2)

declare range_walk.simps [simp del]

definition user_range_accessible :: "machine \<Rightarrow> u64 \<Rightarrow> u64 \<Rightarrow> bool \<Rightarrow> bool" where
  "user_range_accessible st address sz write_access =
     (if sz = 0 then address < USER_ADDRESS_LIMIT
      else if address = 0 \<or> address \<ge> USER_ADDRESS_LIMIT
              \<or> sz - 1 > (USER_ADDRESS_LIMIT - 1) - address then False
      else range_walk st write_access (page_of address) (page_of (address + sz - 1)))"

section \<open>User strings\<close>

text \<open>One character of a user string: \<open>None\<close> is a fault, \<open>Some None\<close> an address the checks of
  the loops refuse.\<close>

definition user_char :: "machine \<Rightarrow> u64 \<Rightarrow> u64 \<Rightarrow> u8 option option" where
  "user_char st address i =
     (if address \<ge> USER_ADDRESS_LIMIT \<or> i \<ge> USER_ADDRESS_LIMIT - address
         \<or> \<not> user_range_accessible st (address + i) 1 False
      then Some None else map_option Some (user_load st (address + i)))"

text \<open>The loop of both string functions; \<open>n\<close> is what is left of the capacity. The result is the
  string without its terminator.\<close>

fun string_loop :: "machine \<Rightarrow> u64 \<Rightarrow> u64 \<Rightarrow> nat \<Rightarrow> bytes option option" where
  "string_loop st address i 0 = Some None"
| "string_loop st address i (Suc n) =
     do {
       c \<leftarrow> user_char st address i;
       case c of
         None \<Rightarrow> Some None
       | Some c \<Rightarrow>
           if c = 0 then Some (Some [])
           else do { s \<leftarrow> string_loop st address (i + 1) n; Some (map_option ((#) c) s) }
     }"

definition copy_user_string :: "machine \<Rightarrow> u64 \<Rightarrow> u64 \<Rightarrow> bytes option option" where
  "copy_user_string st address capacity =
     (if capacity = 0 \<or> address = 0 then Some None
      else string_loop st address 0 (unat capacity))"

definition user_string_length :: "machine \<Rightarrow> u64 \<Rightarrow> u64 \<Rightarrow> u64 option option" where
  "user_string_length st address capacity =
     (if address = 0 then Some None
      else map_option (map_option (\<lambda>s. of_nat (length s))) (string_loop st address 0 (unat capacity)))"

section \<open>Ranges of pages\<close>

text \<open>The pages a loop \<open>for (page = a; page < e; page += PAGE_SIZE)\<close> visits.\<close>

definition pages :: "u64 \<Rightarrow> u64 \<Rightarrow> u64 list" where
  "pages a e = map (\<lambda>i. a + of_nat i * 4096) [0..<(unat e - unat a + 4095) div 4096]"

definition unmap_pages :: "u64 list \<Rightarrow> machine \<Rightarrow> machine" where
  "unmap_pages ps st = fold (\<lambda>page st. snd (unmap_user_page page st)) ps st"

fun native_map_loop :: "u64 \<Rightarrow> u64 \<Rightarrow> u64 list \<Rightarrow> machine \<Rightarrow> (bool \<times> machine) option" where
  "native_map_loop address permissions [] st = Some (True, st)"
| "native_map_loop address permissions (page # ps) st =
     do {
       (phys, st) \<leftarrow> pmm_alloc_zeroed_page st;
       st \<leftarrow> map_user_page page phys st;
       case protect_user_page page (permissions \<noteq> 0) (permissions AND USER_MEMORY_WRITE \<noteq> 0)
              (permissions AND USER_MEMORY_EXEC \<noteq> 0) st of
         (True, st) \<Rightarrow> native_map_loop address permissions ps st
       | (False, st) \<Rightarrow> Some (False, unmap_pages (pages address (page + 4096)) st)
     }"

definition native_user_memory_map :: "u64 \<Rightarrow> u64 \<Rightarrow> u64 \<Rightarrow> machine \<Rightarrow> (u64 \<times> machine) option" where
  "native_user_memory_map address sz permissions st =
     (case valid_user_memory_range address sz of
        Some rounded_length \<Rightarrow>
          if hhdm st = None \<or> permissions AND NOT 7 \<noteq> 0 then Some (- 1, st)
          else if list_ex (user_page_mapped st) (pages address (address + rounded_length))
               then Some (- 1, st)
          else do {
            (ok, st) \<leftarrow> native_map_loop address permissions (pages address (address + rounded_length)) st;
            Some (if ok then address else - 1, st)
          }
      | None \<Rightarrow> Some (- 1, st))"

fun native_protect_loop :: "u64 \<Rightarrow> u64 list \<Rightarrow> machine \<Rightarrow> u64 \<times> machine" where
  "native_protect_loop permissions [] st = (0, st)"
| "native_protect_loop permissions (page # ps) st =
     (case protect_user_page page (permissions \<noteq> 0) (permissions AND USER_MEMORY_WRITE \<noteq> 0)
             (permissions AND USER_MEMORY_EXEC \<noteq> 0) st of
        (True, st) \<Rightarrow> native_protect_loop permissions ps st
      | (False, st) \<Rightarrow> (- 1, st))"

definition native_user_memory_protect :: "u64 \<Rightarrow> u64 \<Rightarrow> u64 \<Rightarrow> machine \<Rightarrow> u64 \<times> machine" where
  "native_user_memory_protect address sz permissions st =
     (case valid_user_memory_range address sz of
        Some rounded_length \<Rightarrow>
          if permissions AND NOT 7 \<noteq> 0 then (- 1, st)
          else if \<not> list_all (user_page_mapped st) (pages address (address + rounded_length))
               then (- 1, st)
          else native_protect_loop permissions (pages address (address + rounded_length)) st
      | None \<Rightarrow> (- 1, st))"

fun native_unmap_loop :: "u64 list \<Rightarrow> machine \<Rightarrow> u64 \<times> machine" where
  "native_unmap_loop [] st = (0, st)"
| "native_unmap_loop (page # ps) st =
     (case unmap_user_page page st of
        (True, st) \<Rightarrow> native_unmap_loop ps st
      | (False, st) \<Rightarrow> (- 1, st))"

definition native_user_memory_unmap :: "u64 \<Rightarrow> u64 \<Rightarrow> machine \<Rightarrow> u64 \<times> machine" where
  "native_user_memory_unmap address sz st =
     (case valid_user_memory_range address sz of
        Some rounded_length \<Rightarrow>
          if \<not> list_all (user_page_mapped st) (pages address (address + rounded_length))
          then (- 1, st)
          else native_unmap_loop (pages address (address + rounded_length)) st
      | None \<Rightarrow> (- 1, st))"

section \<open>What the checks guarantee\<close>

lemma indices_page_of [simp]: "indices (page_of va) = indices va"
proof -
  have "n div 4096 * 4096 div (4096 * c) = n div (4096 * c)" for n c :: nat
    by (simp add: div_mult2_eq)
  from this [of "unat va" "2 ^ 27"] this [of "unat va" "2 ^ 18"] this [of "unat va" "2 ^ 9"]
  show ?thesis unfolding indices_eq unat_page_of by simp
qed

lemma user_page_of [simp]: "page_of va < USER_ADDRESS_LIMIT \<longleftrightarrow> va < USER_ADDRESS_LIMIT"
proof -
  have "n div 4096 * 4096 < c * 4096 \<longleftrightarrow> n < c * 4096" for n c :: nat
    by (simp add: div_less_iff_less_mult)
  from this [of _ "0x800000000"] show ?thesis by (simp add: word_less_nat_alt unat_page_of)
qed

lemma accessible_page_of [simp]:
  "user_page_accessible st (page_of va) w = user_page_accessible st va w"
  by (simp add: user_page_accessible_def linorder_not_less [symmetric])

text \<open>The walk over the pages checks exactly the pages of the range.\<close>

lemma range_walk_iff:
  assumes "page_aligned p" and "unat l = unat p + k * 4096"
  shows "range_walk st w p l \<longleftrightarrow> (\<forall>j<Suc k. user_page_accessible st (p + of_nat j * 4096) w)"
  using assms
proof (induction k arbitrary: p)
  case 0
  then have "l = p" by (simp add: word_unat_eq_iff)
  then show ?case by (subst range_walk.simps) simp
next
  case (Suc k)
  show ?case
  proof (cases "user_page_accessible st p w")
    case True
    note n = next_page [OF accessible_user [OF True]]
    have "page_aligned (p + 4096)" using Suc.prems(1) n by (simp add: page_aligned_iff)
    with Suc n have "range_walk st w (p + 4096) l
        \<longleftrightarrow> (\<forall>j<Suc k. user_page_accessible st (p + 4096 + of_nat j * 4096) w)" by simp
    moreover have "p \<noteq> l" using Suc.prems(2) by auto
    moreover have "p + of_nat (Suc j) * 4096 = p + 4096 + of_nat j * 4096" for j
      by (simp add: algebra_simps)
    ultimately show ?thesis using True
      by (subst range_walk.simps, subst All_less_Suc2) (simp add: add.assoc)
  next
    case False
    then show ?thesis by (subst range_walk.simps, subst All_less_Suc2) (simp add: add.assoc)
  qed
qed

text \<open>A range is accessible when it lies in the user half, does not start at zero, and every byte
  of it lies on an accessible page.\<close>

lemma range_pages:
  fixes a n :: u64
  assumes "n \<noteq> 0" and "unat a + unat n \<le> 0x800000000000"
  shows "unat (page_of (a + n - 1)) = unat (page_of a) + ((unat a + unat n - 1) div 4096 - unat a div 4096) * 4096"
    and "i < unat n \<Longrightarrow> unat (a + of_nat i) = unat a + i"
proof -
  have "0 < unat n" using assms(1) by (simp add: unat_gt_0)
  moreover have "unat (a + n) = unat a + unat n" using assms(2) by (simp add: unat_word_ariths)
  ultimately have "unat (a + n - 1) = unat a + unat n - 1" by (subst unat_sub_if') (simp add: word_le_nat_alt)
  moreover have "unat a div 4096 \<le> (unat a + unat n - 1) div 4096"
    using \<open>0 < unat n\<close> by (intro div_le_mono) simp
  ultimately show "unat (page_of (a + n - 1)) = unat (page_of a) + ((unat a + unat n - 1) div 4096 - unat a div 4096) * 4096"
    by (simp add: unat_page_of diff_mult_distrib)
  show "unat (a + of_nat i) = unat a + i" if "i < unat n"
    using that assms(2) by (simp add: unat_word_ariths unat_of_nat)
qed

lemma block_index:
  fixes a :: nat
  assumes "j \<le> (a + n - 1) div B - a div B" and "0 < n" and "0 < B"
  obtains i where "i < n" and "(a + i) div B - a div B = j"
proof (cases "j = 0")
  case True
  then show ?thesis using that [of 0] assms(2) by simp
next
  case False
  let ?x = "(a div B + j) * B"
  have "a < (a div B + 1) * B" using assms(3) by (simp add: dividend_less_div_times)
  also have "\<dots> \<le> ?x" using False by (intro mult_right_mono) auto
  finally have "a \<le> ?x" by simp
  have "a div B + j \<le> (a + n - 1) div B" using assms(1) False by linarith
  then have "?x \<le> (a + n - 1) div B * B" by (rule mult_right_mono) simp
  also have "\<dots> \<le> a + n - 1" by simp
  finally have "?x < a + n" using assms(2) by linarith
  with \<open>a \<le> ?x\<close> assms(3) show ?thesis using that [of "?x - a"] by simp
qed

lemma user_range_accessible_iff:
  fixes a n :: u64
  assumes "n \<noteq> 0"
  shows "user_range_accessible st a n w \<longleftrightarrow>
     a \<noteq> 0 \<and> unat a + unat n \<le> 0x800000000000 \<and> (\<forall>i<unat n. user_page_accessible st (a + of_nat i) w)"
proof -
  have n: "0 < unat n" using assms by (simp add: unat_gt_0)
  have lim: "\<not> (a \<ge> USER_ADDRESS_LIMIT \<or> n - 1 > (USER_ADDRESS_LIMIT - 1) - a) \<longleftrightarrow>
      unat a + unat n \<le> 0x800000000000"
  proof (cases "a < USER_ADDRESS_LIMIT")
    case True
    then have "unat ((USER_ADDRESS_LIMIT - 1) - a) = 0x7FFFFFFFFFFF - unat a"
      by (subst unat_sub) (simp_all add: word_less_nat_alt word_le_nat_alt)
    moreover have "unat (n - 1) = unat n - 1" using n by (subst unat_sub) (simp_all add: word_le_nat_alt)
    ultimately show ?thesis using True n by (auto simp: word_less_nat_alt word_le_nat_alt)
  qed (use n in \<open>auto simp: word_less_nat_alt word_le_nat_alt\<close>)
  have "range_walk st w (page_of a) (page_of (a + n - 1)) \<longleftrightarrow>
      (\<forall>i<unat n. user_page_accessible st (a + of_nat i) w)" (is "_ \<longleftrightarrow> ?bytes")
      if u: "unat a + unat n \<le> 0x800000000000"
  proof -
    note r = range_pages [OF assms u]
    have step: "page_of (a + of_nat i) = page_of a + of_nat ((unat a + i) div 4096 - unat a div 4096) * 4096"
      if "i < unat n" for i
    proof -
      have "unat a div 4096 \<le> (unat a + i) div 4096" by (intro div_le_mono) simp
      then have "unat (page_of (a + of_nat i)) = unat (page_of a) + ((unat a + i) div 4096 - unat a div 4096) * 4096"
        using that by (simp add: unat_page_of r(2) diff_mult_distrib)
      then have "of_nat (unat (page_of (a + of_nat i)))
          = (of_nat (unat (page_of a) + ((unat a + i) div 4096 - unat a div 4096) * 4096) :: u64)" by simp
      then show ?thesis by (simp only: of_nat_add of_nat_mult of_nat_numeral of_nat_unat ucast_id)
    qed
    have "range_walk st w (page_of a) (page_of (a + n - 1)) \<longleftrightarrow>
        (\<forall>j<Suc ((unat a + unat n - 1) div 4096 - unat a div 4096).
           user_page_accessible st (page_of a + of_nat j * 4096) w)" (is "_ \<longleftrightarrow> ?pages")
      by (rule range_walk_iff [OF page_aligned_page_of r(1)])
    also have "\<dots> \<longleftrightarrow> ?bytes"
    proof
      assume p: ?pages
      show ?bytes
      proof (intro allI impI)
        fix i assume i: "i < unat n"
        then have "(unat a + i) div 4096 - unat a div 4096 < Suc ((unat a + unat n - 1) div 4096 - unat a div 4096)"
          by (auto simp: less_Suc_eq_le intro!: diff_le_mono div_le_mono)
        with p step [OF i] show "user_page_accessible st (a + of_nat i) w"
          by (metis accessible_page_of)
      qed
    next
      assume b: ?bytes
      show ?pages
      proof (intro allI impI)
        fix j assume "j < Suc ((unat a + unat n - 1) div 4096 - unat a div 4096)"
        with n obtain i where "i < unat n" "(unat a + i) div 4096 - unat a div 4096 = j"
          using block_index [of j "unat a" "unat n" 4096] by auto
        with b step [of i] show "user_page_accessible st (page_of a + of_nat j * 4096) w"
          by (metis accessible_page_of)
      qed
    qed
    finally show ?thesis .
  qed
  then show ?thesis using lim assms by (auto simp: user_range_accessible_def)
qed

section \<open>Reading and writing user memory\<close>

text \<open>Tables as the kernel builds them: every entry that names a table is user and writable, the
  table lies where the entry can name it, no entry of the user half maps a large page, and no
  present page is the frame at address zero.\<close>

definition names_table :: "u64 \<Rightarrow> bool" where
  "names_table e \<longleftrightarrow> e AND PAGE_PRESENT = 0
     \<or> user_present e \<and> e AND PAGE_WRITABLE \<noteq> 0 \<and> e AND PAGE_LARGE = 0
       \<and> e AND PAGE_ADDRESS_MASK = page_of e"

definition plain :: "machine \<Rightarrow> bool" where
  "plain st \<longleftrightarrow> cr3 st AND PAGE_ADDRESS_MASK = root st
     \<and> (\<forall>p i. path_ok (p @ [i]) \<longrightarrow> names_table (leaf (mem st) (root st) p i))
     \<and> (\<forall>p i. leaf_ok p i \<longrightarrow> user_present (leaf (mem st) (root st) p i) \<longrightarrow>
          leaf (mem st) (root st) p i AND PAGE_ADDRESS_MASK \<noteq> 0)"

definition sound :: "machine \<Rightarrow> u64 set \<Rightarrow> bool" where
  "sound st F \<longleftrightarrow> isolated st F \<and> plain st"

lemma user_present_present: "user_present e \<Longrightarrow> e AND PAGE_PRESENT \<noteq> 0"
  unfolding user_present_bits flag_zero by blast

lemma plain_entry:
  assumes "plain st" and "path_ok (p @ [i])" and "tab (mem st) (root st) p = Some t"
    and "user_present (mem st (slot t i))"
  shows "mem st (slot t i) AND PAGE_LARGE = 0"
    and "mem st (slot t i) AND PAGE_ADDRESS_MASK = page_of (mem st (slot t i))"
    and "tab (mem st) (root st) (p @ [i]) = Some (page_of (mem st (slot t i)))"
proof -
  have "leaf (mem st) (root st) p i = mem st (slot t i)" using assms(3) by (simp add: leaf_def)
  then have "names_table (mem st (slot t i))" using assms(1,2) unfolding plain_def by metis
  then show "mem st (slot t i) AND PAGE_LARGE = 0" "mem st (slot t i) AND PAGE_ADDRESS_MASK = page_of (mem st (slot t i))"
    using user_present_present [OF assms(4)] by (simp_all add: names_table_def)
  show "tab (mem st) (root st) (p @ [i]) = Some (page_of (mem st (slot t i)))"
    using assms(3) user_present_present [OF assms(4)] by (simp add: tab_append)
qed

lemma denied_present: "\<not> denied w e \<Longrightarrow> user_present e"
  unfolding denied_def by blast

lemma table_denied: "names_table e \<Longrightarrow> denied w e \<longleftrightarrow> e AND PAGE_PRESENT = 0"
  unfolding names_table_def denied_def using user_present_present by blast

lemma plain_cut:
  assumes "plain st" and "path_ok (p @ [i])" and "tab (mem st) (root st) p = Some t"
    and "denied w (mem st (slot t i))"
  shows "tab (mem st) (root st) (p @ i # q) = None"
proof -
  have "leaf (mem st) (root st) p i = mem st (slot t i)" using assms(3) by (simp add: leaf_def)
  then have "names_table (mem st (slot t i))" using assms(1,2) unfolding plain_def by metis
  from table_denied [OF this, of w] assms(3,4) show ?thesis by (simp add: tab_append)
qed

text \<open>In such tables the processor translates exactly the addresses the kernel's check admits.\<close>

lemma translate_plain:
  assumes "plain st" and "hhdm st \<noteq> None"
  shows "translate st w va =
     (if user_page_accessible st va w
      then Some ((aspace st va AND PAGE_ADDRESS_MASK) + (va AND 0xFFF)) else None)
     \<and> (user_page_accessible st va w \<longleftrightarrow> va < USER_ADDRESS_LIMIT \<and> \<not> denied w (aspace st va))"
proof (cases "va < USER_ADDRESS_LIMIT")
  case True
  then have "user_va va" by (simp add: user_va_def)
  note up = user_path [OF this]
  let ?m = "mem st"
  obtain i j k l where ix: "indices va = [i, j, k, l]" by (simp add: indices_eq)
  have p: "path_ok ([] @ [i])" "path_ok ([i] @ [j])" "path_ok ([i, j] @ [k])" using up by (simp_all add: ix)
  define e0 where "e0 = ?m (slot (root st) i)"
  define e1 where "e1 = ?m (slot (page_of e0) j)"
  define e2 where "e2 = ?m (slot (page_of e1) k)"
  define e3 where "e3 = ?m (slot (page_of e2) l)"
  note es = e0_def [symmetric] e1_def [symmetric] e2_def [symmetric] e3_def [symmetric]
  have 0: "e0 AND PAGE_ADDRESS_MASK = page_of e0" "tab ?m (root st) [i] = Some (page_of e0)"
    if "\<not> denied w e0"
    using plain_entry [OF assms(1) p(1), of "root st"] denied_present [OF that] by (simp_all add: es)
  have 1: "e1 AND PAGE_ADDRESS_MASK = page_of e1" "e1 AND PAGE_LARGE = 0" "tab ?m (root st) [i, j] = Some (page_of e1)"
    if "\<not> denied w e0" "\<not> denied w e1"
    using plain_entry [OF assms(1) p(2) 0(2) [OF that(1)]] denied_present [OF that(2)]
    by (simp_all add: es del: tab.simps)
  have 2: "e2 AND PAGE_ADDRESS_MASK = page_of e2" "e2 AND PAGE_LARGE = 0" "tab ?m (root st) [i, j, k] = Some (page_of e2)"
    if "\<not> denied w e0" "\<not> denied w e1" "\<not> denied w e2"
    using plain_entry [OF assms(1) p(3) 1(3) [OF that(1,2)]] denied_present [OF that(3)]
    by (simp_all add: es del: tab.simps)
  have 3: "aspace st va = e3" if "\<not> denied w e0" "\<not> denied w e1" "\<not> denied w e2"
    using 2(3) [OF that] by (simp add: aspace_def leaf_def ix es del: tab.simps)
  have acc: "user_page_accessible st va w \<longleftrightarrow> \<not> denied w e0 \<and> \<not> denied w e1 \<and> \<not> denied w e2 \<and> \<not> denied w e3"
    using True assms(2) 1(2) 2(2)
    by (auto simp: user_page_accessible_def ix es Let_def denied_def split: if_splits)
  have "tab ?m (root st) [i, j, k] = None" if "denied w e0 \<or> denied w e1 \<or> denied w e2"
    using that plain_cut [OF assms(1) p(1), of "root st" w "[j, k]"] plain_cut [OF assms(1) p(2) 0(2), of w "[k]"]
      plain_cut [OF assms(1) p(3) 1(3), of w "[]"] by (auto simp: es simp del: tab.simps(2))
  then have no: "denied w (aspace st va)" if "denied w e0 \<or> denied w e1 \<or> denied w e2"
    using that by (auto simp: aspace_def leaf_def ix denied_def simp del: tab.simps)
  have root: "cr3 st AND PAGE_ADDRESS_MASK = root st" using assms(1) by (simp add: plain_def)
  show ?thesis
    using True 0(1) 1(1,2) 2(1,2) 3 no
    by (cases "denied w e0"; cases "denied w e1"; cases "denied w e2"; cases "denied w e3")
      (simp_all add: acc translate_def root ix es)
next
  case False
  then show ?thesis by (auto simp: translate_def dest: accessible_user)
qed

text \<open>Changing memory outside the tables and the free pages changes no access.\<close>

lemma access_walk_frame:
  assumes "tree m r" and same: "\<And>a. page_of a \<in> tables m r \<Longrightarrow> m' a = m a"
    and "path_ok p" and "tab m r p = Some t" and "length p + length is \<le> 4"
    and "\<forall>i\<in>set is. i < 512" and "p = [] \<and> is \<noteq> [] \<longrightarrow> hd is < 256"
  shows "access_walk m' w t level is = access_walk m w t level is"
  using assms(3-7)
proof (induction "is" arbitrary: p t level)
  case (Cons i "is")
  have "page_of (slot t i) = t"
    using slot_facts(1) [OF tree_aligned [OF assms(1) Cons.prems(2)]] Cons.prems(4) by simp
  then have e: "m' (slot t i) = m (slot t i)" using same table_in [OF Cons.prems(1,2)] by simp
  show ?case
  proof (cases "user_present (m (slot t i)) \<and> is \<noteq> []")
    case True
    then have "0 < length is" by simp
    then have "length p < 3" using Cons.prems(3) unfolding list.size by linarith
    then have "path_ok (p @ [i])" using Cons.prems(1,4,5) by (cases p) (auto simp: path_ok_def)
    moreover have "tab m r (p @ [i]) = Some (page_of (m (slot t i)))"
      using Cons.prems(2) True user_present_present by (simp add: tab_append)
    ultimately have "access_walk m' w (page_of (m (slot t i))) (level + 1) is
        = access_walk m w (page_of (m (slot t i))) (level + 1) is"
      using Cons.prems by (intro Cons.IH) auto
    with e show ?thesis by simp
  qed (use e in auto)
qed simp

lemma accessible_frame:
  assumes "tree (mem st) (root st)" and "\<And>a. page_of a \<in> tables (mem st) (root st) \<Longrightarrow> m' a = mem st a"
  shows "user_page_accessible (st \<lparr> mem := m' \<rparr>) va w = user_page_accessible st va w"
proof (cases "va < USER_ADDRESS_LIMIT")
  case True
  then have "unat va < 2 ^ 47" by (simp add: word_less_nat_alt)
  then have "unat va div 2 ^ 39 < 256" by simp
  then have "unat va div 2 ^ 39 mod 512 < 256" by simp
  then have "access_walk m' w (root st) 0 (indices va) = access_walk (mem st) w (root st) 0 (indices va)"
    by (intro access_walk_frame [OF assms, where p = "[]"]) (auto simp: path_ok_def indices_eq)
  then show ?thesis by (simp add: user_page_accessible_def)
qed (auto simp: user_page_accessible_def)

lemma sound_frame:
  assumes "sound st F" and same: "\<And>a. page_of a \<in> F \<union> tables (mem st) (root st) \<Longrightarrow> m' a = mem st a"
  shows "sound (st \<lparr> mem := m' \<rparr>) F"
    and "user_va va \<Longrightarrow> aspace (st \<lparr> mem := m' \<rparr>) va = aspace st va"
    and "user_page_accessible (st \<lparr> mem := m' \<rparr>) va w = user_page_accessible st va w"
proof -
  have sp: "space st F" using assms(1) by (simp add: sound_def isolated_def)
  then have tr: "tree (mem st) (root st)" and pool: "pmm_pool st F" by (simp_all add: space_def)
  have s: "\<And>a. page_of a \<in> tables (mem st) (root st) \<Longrightarrow> m' a = mem st a" using same by blast
  note f = tree_frame [OF tr s]
  have "pmm_pool (st \<lparr> mem := m' \<rparr>) F"
    by (rule pool_frame [OF pool]) (use pool_pages [OF pool] same in auto)
  with f sp have sp': "space (st \<lparr> mem := m' \<rparr>) F" by (simp add: space_def)
  have o: "owned (st \<lparr> mem := m' \<rparr>) p i fr = owned st p i fr" for p i fr
    using f(3) leaf_ok_path by (auto simp: owned_def)
  have iso: "isolated (st \<lparr> mem := m' \<rparr>) F"
    using assms(1) sp' f(2) unfolding sound_def isolated_def o by simp
  have "plain (st \<lparr> mem := m' \<rparr>)"
    using assms(1) f(3) inner_path leaf_ok_path unfolding sound_def plain_def by simp
  with iso show "sound (st \<lparr> mem := m' \<rparr>) F" by (simp add: sound_def)
  show "aspace (st \<lparr> mem := m' \<rparr>) va = aspace st va" if "user_va va"
    using f(3) leaf_ok_path [OF user_path(1) [OF that]] by (simp add: aspace_def)
  show "user_page_accessible (st \<lparr> mem := m' \<rparr>) va w = user_page_accessible st va w"
    by (rule accessible_frame [OF tr s])
qed

text \<open>Bytes of physical memory.\<close>

lemma low_bits: "a AND 7 = take_bit 3 a" "a AND NOT 7 = push_bit 3 (drop_bit 3 a)" for a :: u64
proof -
  have 7: "(7 :: u64) = mask 3" by (simp add: mask_eq_exp_minus_1)
  show "a AND 7 = take_bit 3 a" unfolding 7 by (simp add: take_bit_eq_mask)
  show "a AND NOT 7 = push_bit 3 (drop_bit 3 a)" unfolding 7
    by (rule bit_word_eqI) (auto simp: bit_simps)
qed

lemma byte_index: "unat (a AND 7) < 8" for a :: u64
  unfolding low_bits by (simp add: take_bit_eq_mod unat_mod)

lemma same_byte:
  assumes "a AND NOT 7 = b AND NOT 7" and "unat (a AND 7) = unat (b AND 7)"
  shows "a = (b :: u64)"
proof -
  have "x = (x AND NOT 7) + (x AND 7)" for x :: u64
    unfolding low_bits by (metis add.commute bits_ident)
  then show ?thesis using assms by (metis word_unat_eq_iff)
qed

lemma bit_peek8: "bit (peek8 m a) n \<longleftrightarrow> n < 8 \<and> bit (m (a AND NOT 7)) (8 * unat (a AND 7) + n)"
  by (auto simp: peek8_def bit_simps)

lemma bit_poke8:
  "bit (poke8 a v m b) n \<longleftrightarrow>
     (if b = a AND NOT 7 \<and> 8 * unat (a AND 7) \<le> n \<and> n < 8 * unat (a AND 7) + 8
      then bit v (n - 8 * unat (a AND 7)) else bit (m b) n)"
proof -
  define k where "k = 8 * unat (a AND 7)"
  have k: "k \<le> 56" using byte_index [of a] by (simp add: k_def)
  have ff: "(0xFF :: u64) = mask 8" by (simp add: mask_eq_exp_minus_1)
  have "bit (poke8 a v m b) n \<longleftrightarrow>
      (if b = a AND NOT 7 \<and> k \<le> n \<and> n < k + 8 then bit v (n - k) else bit (m b) n)"
    using k unfolding poke8_def k_def [symmetric] Let_def ff
    by (auto simp: bit_simps dest: bit_imp_le_length)
  then show ?thesis by (simp only: k_def)
qed

lemma peek8_poke8: "peek8 (poke8 a v m) b = (if b = a then v else peek8 m b)"
proof (cases "b AND NOT 7 = a AND NOT 7 \<and> unat (b AND 7) = unat (a AND 7)")
  case True
  then have "b = a" using same_byte by blast
  then show ?thesis by (intro bit_word_eqI) (simp add: bit_peek8 bit_poke8)
next
  case False
  then have "b \<noteq> a" by blast
  moreover have "peek8 (poke8 a v m) b = peek8 m b"
    using False by (intro bit_word_eqI) (auto simp: bit_peek8 bit_poke8)
  ultimately show ?thesis by simp
qed

lemma poke8_other: "c \<noteq> a AND NOT 7 \<Longrightarrow> poke8 a v m c = m c"
  by (simp add: poke8_def Let_def)

lemma page_of_word: "page_of (a AND NOT 7) = page_of a"
  unfolding page_of_shift low_bits by (rule bit_word_eqI) (auto simp: bit_simps)

text \<open>One byte stored at a user address.\<close>

definition phys :: "machine \<Rightarrow> u64 \<Rightarrow> u64" where
  "phys st va = (aspace st va AND PAGE_ADDRESS_MASK) + (va AND 0xFFF)"

lemma sound_hhdm: "sound st F \<Longrightarrow> hhdm st \<noteq> None"
  by (auto simp: sound_def isolated_def space_def pmm_pool_def)

lemma translate_sound:
  "sound st F \<Longrightarrow> translate st w va = (if user_page_accessible st va w then Some (phys st va) else None)"
  using translate_plain sound_hhdm unfolding sound_def phys_def by blast

lemma load_sound:
  "sound st F \<Longrightarrow> user_page_accessible st va False \<Longrightarrow> user_load st va = Some (peek8 (mem st) (phys st va))"
  using translate_sound [of st F False va] by (simp add: user_load_def)

lemma access_walk_read: "access_walk m w t level is \<Longrightarrow> access_walk m False t level is"
  by (induction m w t level "is" rule: access_walk.induct) (auto simp: Let_def split: if_splits)

lemma accessible_read: "user_page_accessible st va w \<Longrightarrow> user_page_accessible st va False"
  using access_walk_read by (auto simp: user_page_accessible_def split: if_splits)

lemma accessible_owned:
  assumes "sound st F" and "user_page_accessible st va w"
  shows "owned st (take 3 (indices va)) (indices va ! 3) (aspace st va AND PAGE_ADDRESS_MASK)"
proof -
  have u: "user_va va" using accessible_user [OF assms(2)] by (simp add: user_va_def)
  have "user_present (aspace st va)"
    using translate_plain [of st w va] sound_hhdm [OF assms(1)] assms denied_present unfolding sound_def by metis
  then show ?thesis using assms(1) user_path(1) [OF u] user_present_bits
    unfolding owned_aspace [OF u] flag_zero sound_def plain_def aspace_def by blast
qed

lemma page_of_frame:
  fixes va :: u64
  assumes "page_aligned f"
  shows "page_of (f + (va AND 0xFFF)) = f" and "unat (f + (va AND 0xFFF)) = unat f + unat va mod 4096"
  using page_of_add [OF assms, of "va AND 0xFFF"] unat_offset [of va] by simp_all

lemma phys_inject:
  assumes "sound st F" and "user_page_accessible st x w" and "user_page_accessible st y w'"
    and "phys st x = phys st y"
  shows "x = y"
proof -
  have f: "aspace st x AND PAGE_ADDRESS_MASK = aspace st y AND PAGE_ADDRESS_MASK"
    using assms(4) page_of_frame(1) [OF frame_aligned] unfolding phys_def by metis
  then have "take 3 (indices x) = take 3 (indices y) \<and> indices x ! 3 = indices y ! 3"
    using accessible_owned [OF assms(1,2)] accessible_owned [OF assms(1,3)] assms(1)
    unfolding sound_def isolated_def by metis
  then have "indices x = indices y" by (metis indices_split)
  then have "page_of x = page_of y"
    using same_indices accessible_user [OF assms(2)] accessible_user [OF assms(3)] by (simp add: user_va_def)
  moreover have "unat x mod 4096 = unat y mod 4096"
    using assms(4) f page_of_frame(2) [OF frame_aligned] unfolding phys_def by (metis add_left_cancel)
  ultimately show "x = y"
    by (metis div_mult_mod_eq unat_page_of word_unat_eq_iff)
qed

text \<open>What a store of the bytes \<open>bs\<close> at \<open>va\<close> does to the memory the program sees.\<close>

definition stored :: "machine \<Rightarrow> u64 set \<Rightarrow> u64 \<Rightarrow> bytes \<Rightarrow> machine \<Rightarrow> bool" where
  "stored st F va bs st' \<longleftrightarrow> sound st' F
     \<and> (\<forall>x w. user_page_accessible st' x w = user_page_accessible st x w)
     \<and> (\<forall>x. user_page_accessible st x False \<longrightarrow>
          user_load st' x = (if unat (x - va) < length bs then Some (bs ! unat (x - va)) else user_load st x))"

lemma user_store_ok:
  assumes "sound st F" and "user_page_accessible st va True"
  shows "\<exists>st'. user_store va v st = Some st' \<and> stored st F va [v] st'"
proof -
  let ?m = "poke8 (phys st va) v (mem st)"
  have "aspace st va AND PAGE_ADDRESS_MASK \<notin> F \<union> tables (mem st) (root st)"
    using accessible_owned [OF assms] assms(1) unfolding sound_def isolated_def by blast
  then have out: "page_of (phys st va) \<notin> F \<union> tables (mem st) (root st)"
    unfolding phys_def page_of_frame(1) [OF frame_aligned] .
  have "?m a = mem st a" if "page_of a \<in> F \<union> tables (mem st) (root st)" for a
    using that out page_of_word [of "phys st va"] by (intro poke8_other) metis
  note fr = sound_frame [OF assms(1) this]
  have "phys (st \<lparr> mem := ?m \<rparr>) x = phys st x" if "user_page_accessible st x False" for x
    using fr(2) accessible_user [OF that] by (simp add: phys_def user_va_def)
  then have "user_load (st \<lparr> mem := ?m \<rparr>) x = (if x = va then Some v else user_load st x)"
    if "user_page_accessible st x False" for x
    using that fr(3) load_sound [OF assms(1)] load_sound [OF fr(1), of x]
      phys_inject [OF assms(1) that assms(2)] by (auto simp: peek8_poke8)
  moreover have "unat (x - va) < Suc 0 \<longleftrightarrow> x = va" for x by (simp add: unat_eq_zero)
  moreover have "user_store va v st = Some (st \<lparr> mem := ?m \<rparr>)"
    using assms translate_sound [OF assms(1)] by (simp add: user_store_def)
  ultimately show ?thesis using fr(1,3) by (auto simp: stored_def)
qed

lemma user_stores_ok:
  assumes "sound st F" and "\<forall>i<length bs. user_page_accessible st (va + of_nat i) True"
    and "length bs \<le> 2 ^ 47"
  shows "\<exists>st'. user_stores va bs st = Some st' \<and> stored st F va bs st'"
  using assms
proof (induction bs arbitrary: va st)
  case (Cons b bs)
  have "user_page_accessible st va True" using Cons.prems(2) by (force dest: spec [of _ 0])
  from user_store_ok [OF Cons.prems(1) this] obtain st1 where
    1: "user_store va b st = Some st1" "stored st F va [b] st1" by blast
  have "user_page_accessible st1 (va + 1 + of_nat i) True" if "i < length bs" for i
    using that Cons.prems(2) 1(2) by (force simp: stored_def add.assoc dest: spec [of _ "Suc i"])
  with Cons.IH [of st1 "va + 1"] Cons.prems(3) 1(2) obtain st2 where
    2: "user_stores (va + 1) bs st1 = Some st2" "stored st1 F (va + 1) bs st2" by (auto simp: stored_def)
  have "user_load st2 x = (if unat (x - va) < Suc (length bs) then Some ((b # bs) ! unat (x - va)) else user_load st x)"
    if x: "user_page_accessible st x False" for x
  proof (cases "x = va")
    case True
    have "unat (- 1 :: u64) = 2 ^ 64 - 1" by (simp add: unsigned_minus_1_eq_mask mask_eq_exp_minus_1)
    then have "unat (x - (va + 1)) = 2 ^ 64 - 1" by (simp add: True)
    with x 1(2) 2(2) Cons.prems(3) True show ?thesis by (simp add: stored_def)
  next
    case False
    then have "0 < unat (x - va)" by (simp add: unat_gt_0)
    moreover have "unat (x - (va + 1)) = unat (x - va) - 1"
      using \<open>0 < unat (x - va)\<close> unat_minus_one [of "x - va"] by (simp add: diff_diff_add unat_gt_0)
    ultimately show ?thesis using x 1(2) 2(2) by (auto simp: stored_def)
  qed
  with 1 2 show ?case by (auto simp: stored_def)
qed (simp add: stored_def)

lemma user_loads_iff:
  "user_loads st va n = Some bs \<longleftrightarrow> length bs = n \<and> (\<forall>i<n. user_load st (va + of_nat i) = Some (bs ! i))"
proof (induction n arbitrary: va bs)
  case (Suc n)
  have "user_loads st va (Suc n) = Some bs \<longleftrightarrow>
      (\<exists>b bs'. bs = b # bs' \<and> user_load st va = Some b \<and> user_loads st (va + 1) n = Some bs')"
    by (cases "user_load st va"; cases "user_loads st (va + 1) n") auto
  also have "\<dots> \<longleftrightarrow> length bs = Suc n \<and> (\<forall>i<Suc n. user_load st (va + of_nat i) = Some (bs ! i))"
    by (cases bs) (auto simp: Suc.IH All_less_Suc2 add.assoc)
  finally show ?case .
qed auto

lemma copy_out_ok:
  assumes "sound st F" and "length bs = unat n" and "n \<noteq> 0" and "user_range_accessible st a n True"
  shows "\<exists>st'. user_stores a bs st = Some st' \<and> sound st' F
     \<and> user_loads st' a (length bs) = Some bs
     \<and> (\<forall>x. user_page_accessible st x False \<longrightarrow> unat (x - a) \<ge> unat n \<longrightarrow> user_load st' x = user_load st x)"
proof -
  have r: "unat a + unat n \<le> 2 ^ 47" "\<And>i. i < unat n \<Longrightarrow> user_page_accessible st (a + of_nat i) True"
    using assms(4) unfolding user_range_accessible_iff [OF assms(3)] by auto
  with user_stores_ok [OF assms(1), of bs a] assms(2) obtain st' where
    s: "user_stores a bs st = Some st'" "stored st F a bs st'" by auto
  have "user_load st' (a + of_nat i) = Some (bs ! i)" if "i < length bs" for i
  proof -
    have "unat (of_nat i :: u64) = i" using that assms(2) r(1) by (simp add: unat_of_nat)
    with that r(2) [of i] s(2) assms(2) accessible_read show ?thesis by (simp add: stored_def)
  qed
  then have "user_loads st' a (length bs) = Some bs"
    by (simp add: user_loads_iff)
  with s assms(2) show ?thesis by (auto simp: stored_def)
qed

text \<open>User strings.\<close>

lemma user_char_sound:
  assumes "sound st F"
  shows "\<exists>r. user_char st a i = Some r"
    and "user_char st a i = Some (Some c) \<longleftrightarrow> a + i \<noteq> 0 \<and> unat a + unat i < 0x800000000000
           \<and> user_page_accessible st (a + i) False \<and> user_load st (a + i) = Some c"
proof -
  let ?ok = "a + i \<noteq> 0 \<and> unat a + unat i < 0x800000000000 \<and> user_page_accessible st (a + i) False"
  have "\<not> (a \<ge> USER_ADDRESS_LIMIT \<or> i \<ge> USER_ADDRESS_LIMIT - a) \<longleftrightarrow> unat a + unat i < 0x800000000000"
  proof (cases "a < USER_ADDRESS_LIMIT")
    case True
    then have "unat (USER_ADDRESS_LIMIT - a) = 0x800000000000 - unat a"
      by (subst unat_sub) (simp_all add: word_less_nat_alt word_le_nat_alt)
    then show ?thesis using True by (auto simp: word_less_nat_alt word_le_nat_alt)
  qed (auto simp: word_less_nat_alt word_le_nat_alt)
  moreover have "unat (a + i) + 1 \<le> 0x800000000000" if "unat a + unat i < 0x800000000000"
    using that by (simp add: unat_word_ariths)
  ultimately have c: "user_char st a i = (if ?ok then map_option Some (user_load st (a + i)) else Some None)"
    unfolding user_char_def user_range_accessible_iff [OF one_neq_zero] by auto
  then show "\<exists>r. user_char st a i = Some r" using load_sound [OF assms, of "a + i"] by auto
  show "user_char st a i = Some (Some c) \<longleftrightarrow> a + i \<noteq> 0 \<and> unat a + unat i < 0x800000000000
           \<and> user_page_accessible st (a + i) False \<and> user_load st (a + i) = Some c"
    using c by auto
qed

lemma string_loop_spec:
  assumes "sound st F"
  shows "\<exists>r. string_loop st a i n = Some r \<and>
     (\<forall>s. r = Some s \<longleftrightarrow> length s < n \<and> 0 \<notin> set s
        \<and> (\<forall>j<Suc (length s). user_char st a (i + of_nat j) = Some (Some ((s @ [0]) ! j))))"
proof (induction n arbitrary: i)
  case (Suc n)
  from user_char_sound(1) [OF assms] obtain c where c: "user_char st a i = Some c" by blast
  from Suc [of "i + 1"] obtain r where r: "string_loop st a (i + 1) n = Some r"
    "\<And>s. r = Some s \<longleftrightarrow> length s < n \<and> 0 \<notin> set s
        \<and> (\<forall>j<Suc (length s). user_char st a (i + 1 + of_nat j) = Some (Some ((s @ [0]) ! j)))" by blast
  have split: "(\<forall>j<Suc (length s). user_char st a (i + of_nat j) = Some (Some ((s @ [0]) ! j))) \<longleftrightarrow>
      (case s of [] \<Rightarrow> c = Some 0
       | x # s' \<Rightarrow> c = Some x \<and>
           (\<forall>j<Suc (length s'). user_char st a (i + 1 + of_nat j) = Some (Some ((s' @ [0]) ! j))))" for s
    by (subst All_less_Suc2, cases s) (simp_all add: c add.assoc)
  show ?case
  proof (cases c)
    case None
    then show ?thesis using c by (auto simp: split split: list.splits)
  next
    case (Some x)
    show ?thesis
    proof (cases "x = 0")
      case True
      then show ?thesis using c Some by (auto simp: split split: list.splits)
    next
      case False
      have "map_option ((#) x) r = Some s \<longleftrightarrow> length s < Suc n \<and> 0 \<notin> set s
        \<and> (\<forall>j<Suc (length s). user_char st a (i + of_nat j) = Some (Some ((s @ [0]) ! j)))" for s
        unfolding split using r(2) False Some by (cases s) auto
      then show ?thesis using c Some False r(1) by simp
    qed
  qed
qed simp

section \<open>Mapping ranges of pages\<close>

text \<open>Linking a page of the pool, or setting flags, keeps an entry that names a table in order.\<close>

lemma or_flags_mask: "(e OR PAGE_USER_FLAGS) AND PAGE_ADDRESS_MASK = e AND PAGE_ADDRESS_MASK"
  "(e OR PAGE_USER_FLAGS) AND PAGE_LARGE = e AND PAGE_LARGE"
  "(e OR PAGE_USER_FLAGS) AND PAGE_WRITABLE \<noteq> 0" for e :: u64
proof -
  show "(e OR PAGE_USER_FLAGS) AND PAGE_ADDRESS_MASK = e AND PAGE_ADDRESS_MASK"
    "(e OR PAGE_USER_FLAGS) AND PAGE_LARGE = e AND PAGE_LARGE"
    using bit.conj_disj_distrib2 [of e 7 PAGE_ADDRESS_MASK] bit.conj_disj_distrib2 [of e 7 PAGE_LARGE] by simp_all
  show "(e OR PAGE_USER_FLAGS) AND PAGE_WRITABLE \<noteq> 0"
    unfolding flag_zero bit_or_iff bit_user_flags by simp
qed

lemma linked_table:
  assumes "linked F e e'" and "names_table e" and "\<forall>f\<in>F. f AND PAGE_ADDRESS_MASK = f"
  shows "names_table e'"
proof -
  have "names_table (n OR PAGE_USER_FLAGS)" if "n AND PAGE_ADDRESS_MASK = n" for n
  proof -
    have "page_of n = n" "page_aligned n" using that frame_aligned [of n] by simp_all
    moreover have "n AND PAGE_LARGE = (n AND PAGE_ADDRESS_MASK) AND PAGE_LARGE" by (simp only: that)
    then have "n AND PAGE_LARGE = 0" by (simp add: and.assoc)
    ultimately show ?thesis using that or_flags_mask or_flags [of n] by (simp add: names_table_def)
  qed
  moreover have "names_table (e OR PAGE_USER_FLAGS)" if "e AND PAGE_PRESENT \<noteq> 0"
    using that assms(2) or_flags_mask or_flags [of e] by (auto simp: names_table_def)
  ultimately show ?thesis using assms unfolding linked_def by blast
qed

lemma protected_user: "protected_entry ef pr wr ex e AND PAGE_USER = e AND PAGE_USER"
  by (simp add: protected_entry_def Let_def bit.conj_disj_distrib2 and.assoc)

lemma plain_update:
  assumes "plain st" and "cr3 st' = cr3 st" and "leaf_ok p i"
    and leafs: "\<And>q j. leaf_ok q j \<Longrightarrow> leaf (mem st') (root st') q j =
      (if q = p \<and> j = i then x else leaf (mem st) (root st) q j)"
    and inner: "\<And>q j. path_ok (q @ [j]) \<Longrightarrow> names_table (leaf (mem st) (root st) q j) \<Longrightarrow>
      names_table (leaf (mem st') (root st') q j)"
    and "user_present x \<longrightarrow> x AND PAGE_ADDRESS_MASK \<noteq> 0"
  shows "plain st'"
  using assms(1,2,6) leafs inner unfolding plain_def by simp

lemma path_update:
  assumes "\<And>q j. path_ok q \<Longrightarrow> j < 512 \<Longrightarrow> l' q j = (if q = p \<and> j = i then x else l q j)" and "leaf_ok p i"
  shows "leaf_ok q j \<Longrightarrow> l' q j = (if q = p \<and> j = i then x else l q j)"
    and "path_ok (q @ [j]) \<Longrightarrow> l' q j = l q j"
proof -
  show "leaf_ok q j \<Longrightarrow> l' q j = (if q = p \<and> j = i then x else l q j)" using assms(1) leaf_ok_path by blast
  assume "path_ok (q @ [j])"
  then show "l' q j = l q j" using assms(1) [of q j] inner_path [of q j] leaf_ok_path [OF assms(2)] by auto
qed

text \<open>The two ways a system call changes an entry of a sound address space, beside a fresh mapping.\<close>

lemma sound_unmap:
  assumes "sound st F" and "user_va va" and "user_page_mapped st va"
  shows "\<exists>st'. unmap_user_page va st = (True, st') \<and> sound st' (insert (aspace st va AND PAGE_ADDRESS_MASK) F)
     \<and> (\<forall>v. user_va v \<longrightarrow> aspace st' v = (if page_of v = page_of va then 0 else aspace st v))"
proof -
  define f where "f = aspace st va AND PAGE_ADDRESS_MASK"
  have i: "isolated st F" and pl: "plain st" using assms(1) by (simp_all add: sound_def)
  then have sp: "space st F" by (simp add: isolated_def)
  have "owned st (take 3 (indices va)) (indices va ! 3) f"
    using assms(3) user_page_mapped_iff [OF sp assms(2)] owned_aspace [OF assms(2)] by (simp add: f_def)
  then have "f \<notin> F" "f \<notin> tables (mem st) (root st)" using i unfolding isolated_def by blast+
  from unmap_user_page_ok [OF sp assms(2,3) f_def this] obtain st' where
    u: "unmap_user_page va st = (True, st')" "space st' (insert f F)" "cr3 st' = cr3 st"
      "\<And>q j. path_ok q \<Longrightarrow> j < 512 \<Longrightarrow> leaf (mem st') (root st') q j =
          (if q = take 3 (indices va) \<and> j = indices va ! 3 then 0 else leaf (mem st) (root st) q j)" by auto
  note n = path_update [OF u(4) user_path(1) [OF assms(2)]]
  from isolated_unmap [OF i assms(2)] u(1) obtain F' where "isolated st' F'" by auto
  moreover from this u(2) have "F' = insert f F" using pool_unique by (auto simp: isolated_def space_def)
  moreover have "plain st'"
    by (rule plain_update [OF pl u(3) user_path(1) [OF assms(2)] n(1)]) (simp_all add: n(2))
  ultimately have "sound st' (insert f F)" by (simp add: sound_def)
  moreover have "aspace st' v = (if page_of v = page_of va then 0 else aspace st v)" if "user_va v" for v
    by (rule aspace_update [OF assms(2) that]) (rule n(1))
  ultimately show ?thesis using u(1) by (auto simp: f_def)
qed

lemma sound_protect:
  assumes "sound st F" and "user_va va" and "user_page_mapped st va"
  shows "\<exists>st'. protect_user_page va pr wr ex st = (True, st') \<and> sound st' F \<and> efer st' = efer st
     \<and> (\<forall>v. user_va v \<longrightarrow> aspace st' v =
          (if page_of v = page_of va then protected_entry (efer st) pr wr ex (aspace st va) else aspace st v))"
proof -
  let ?e = "protected_entry (efer st) pr wr ex (aspace st va)"
  have i: "isolated st F" and pl: "plain st" using assms(1) by (simp_all add: sound_def)
  then have sp: "space st F" by (simp add: isolated_def)
  from protect_user_page_ok [OF sp assms(2,3), of pr wr ex] obtain st' where
    u: "protect_user_page va pr wr ex st = (True, st')" "cr3 st' = cr3 st"
      "\<And>q j. path_ok q \<Longrightarrow> j < 512 \<Longrightarrow> leaf (mem st') (root st') q j =
          (if q = take 3 (indices va) \<and> j = indices va ! 3 then ?e else leaf (mem st) (root st) q j)" by auto
  note n = path_update [OF u(3) user_path(1) [OF assms(2)]]
  have "isolated st' F" using isolated_protect [OF i assms(2), of pr wr ex] u(1) by simp
  moreover have "?e AND PAGE_ADDRESS_MASK \<noteq> 0"
    using assms(3) protected_frame unfolding user_page_mapped_iff [OF sp assms(2)] by simp
  then have "plain st'"
    by (intro plain_update [OF pl u(2) user_path(1) [OF assms(2)] n(1)]) (simp_all add: n(2))
  moreover have "aspace st' v = (if page_of v = page_of va then ?e else aspace st v)" if "user_va v" for v
    by (rule aspace_update [OF assms(2) that]) (rule n(1))
  moreover have "efer st' = efer st"
    using u(1) by (auto simp: protect_user_page_def Let_def split: option.splits if_splits)
  ultimately show ?thesis using u(1) by (simp add: sound_def)
qed

text \<open>A fresh page mapped, as every mapping call does it.\<close>

lemma sound_map:
  assumes "sound st F" and "4 \<le> card F" and "user_va va"
  shows "\<exists>n st1 st2 F'. pmm_alloc_zeroed_page st = Some (n, st1) \<and> map_user_page va n st1 = Some st2
     \<and> sound st2 F' \<and> card F \<le> card F' + 4 \<and> F' \<subseteq> F \<and> n \<in> F \<and> efer st2 = efer st
     \<and> user_page_mapped st2 va
     \<and> (\<forall>v. user_va v \<longrightarrow> aspace st2 v = (if page_of v = page_of va then n OR PAGE_USER_FLAGS else aspace st v))"
proof -
  have i: "isolated st F" and pl: "plain st" using assms(1) by (simp_all add: sound_def)
  then have sp: "space st F" and mk: "\<forall>f\<in>F. f AND PAGE_ADDRESS_MASK = f" unfolding isolated_def by blast+
  then have pool: "pmm_pool st F" by (simp add: space_def)
  have ne: "F \<noteq> {}" using assms(2) by auto
  from pool_alloc [OF pool ne] obtain n st1 where
    a: "pmm_alloc_zeroed_page st = Some (n, st1)" "efer st1 = efer st" by auto
  note al = alloc_space [OF sp ne a(1)]
  have n: "n AND PAGE_ADDRESS_MASK = n" "n \<noteq> 0" "page_of n = n"
    using mk al(1) pool_pages [OF pool al(1)] by auto
  have c: "card F = Suc (card (F - {n}))" using card_Suc_Diff1 [OF _ al(1)] card_ge_0_finite [of F] assms(2) by simp
  with assms(2) have "3 \<le> card (F - {n})" by simp
  from map_user_page_ok [OF al(2) this assms(3), of n] obtain st2 F2 where
    m: "map_user_page va n st1 = Some st2" "map_effect st1 (F - {n}) va (page_of n OR PAGE_USER_FLAGS) st2 F2"
    by blast
  then have e: "F2 \<subseteq> F" "card (F - {n}) \<le> card F2 + 3" "space st2 F2" "efer st2 = efer st" "cr3 st2 = cr3 st"
      "\<And>q j. leaf_ok q j \<Longrightarrow> leaf (mem st2) (root st2) q j =
         (if q = take 3 (indices va) \<and> j = indices va ! 3 then n OR PAGE_USER_FLAGS
          else leaf (mem st) (root st) q j)"
    using a(2) al(3,5) n(3) leaf_ok_path unfolding map_effect_def by auto
  have li: "linked (F - {n}) (leaf (mem st) (root st) q j) (leaf (mem st2) (root st2) q j)" if "path_ok (q @ [j])" for q j
    using m(2) that al(5) inner_path [OF that] unfolding map_effect_def by metis
  have inn: "names_table (leaf (mem st2) (root st2) q j)"
    if "path_ok (q @ [j])" "names_table (leaf (mem st) (root st) q j)" for q j
    by (rule linked_table [OF li [OF that(1)] that(2)]) (use mk in auto)
  have fr: "(n OR PAGE_USER_FLAGS) AND PAGE_ADDRESS_MASK = n" using mapped_frame [OF n(1)] n(3) by simp
  have "plain st2"
    by (rule plain_update [OF pl e(5) user_path(1) [OF assms(3)] e(6)])
      (use inn fr n(2) in auto)
  moreover obtain F' where i': "isolated st2 F'" using isolated_map_new [OF i assms(2,3) a(1) m(1)] by blast
  then have "F' = F2" using pool_unique [of st2 F' F2] e(3) by (simp add: isolated_def space_def)
  ultimately have "sound st2 F2" using i' by (simp add: sound_def)
  moreover have as2: "aspace st2 v = (if page_of v = page_of va then n OR PAGE_USER_FLAGS else aspace st v)" if "user_va v" for v
    by (rule aspace_update [OF assms(3) that e(6)])
  moreover have "user_page_mapped st2 va"
    using as2 [OF assms(3)] fr n or_flags(3) [of n] user_present_bits flag_zero
    unfolding user_page_mapped_iff [OF e(3) assms(3)] by simp
  moreover have "card F \<le> card F2 + 4" using c e(2) by linarith
  ultimately show ?thesis using a(1) m(1) e(1,4) al(1) by metis
qed

lemma native_map_loop_ok:
  assumes "sound st F" and "4 * length ps \<le> card F" and "\<forall>p\<in>set ps. user_va p"
    and "distinct (map page_of ps)"
  shows "\<exists>st' F'. native_map_loop a perm ps st = Some (True, st') \<and> sound st' F' \<and> F' \<subseteq> F
     \<and> efer st' = efer st
     \<and> (\<forall>v. user_va v \<longrightarrow> (if page_of v \<in> page_of ` set ps
          then \<exists>f\<in>F. aspace st' v = protected_entry (efer st) (perm \<noteq> 0) (perm AND USER_MEMORY_WRITE \<noteq> 0)
                 (perm AND USER_MEMORY_EXEC \<noteq> 0) (f OR PAGE_USER_FLAGS)
          else aspace st' v = aspace st v))"
  using assms
proof (induction ps arbitrary: st F)
  case Nil
  then show ?case by auto
next
  case (Cons p ps)
  let ?pr = "perm \<noteq> 0" and ?wr = "perm AND USER_MEMORY_WRITE \<noteq> 0" and ?ex = "perm AND USER_MEMORY_EXEC \<noteq> 0"
  have "4 \<le> card F" "user_va p" using Cons.prems(2,3) by auto
  from sound_map [OF Cons.prems(1) this] obtain n st1 st2 F1 where
    m: "pmm_alloc_zeroed_page st = Some (n, st1)" "map_user_page p n st1 = Some st2" "sound st2 F1"
      "card F \<le> card F1 + 4" "F1 \<subseteq> F" "n \<in> F" "efer st2 = efer st" "user_page_mapped st2 p"
      "\<And>v. user_va v \<Longrightarrow> aspace st2 v = (if page_of v = page_of p then n OR PAGE_USER_FLAGS else aspace st v)"
    by blast
  from sound_protect [OF m(3) \<open>user_va p\<close> m(8), of ?pr ?wr ?ex] obtain st3 where
    p: "protect_user_page p ?pr ?wr ?ex st2 = (True, st3)" "sound st3 F1" "efer st3 = efer st2"
      "\<And>v. user_va v \<Longrightarrow> aspace st3 v =
          (if page_of v = page_of p then protected_entry (efer st2) ?pr ?wr ?ex (aspace st2 p) else aspace st2 v)"
    by blast
  have s: "aspace st3 v = (if page_of v = page_of p
      then protected_entry (efer st) ?pr ?wr ?ex (n OR PAGE_USER_FLAGS) else aspace st v)" if "user_va v" for v
    using p(4) [OF that] m(9) [OF that] m(9) [OF \<open>user_va p\<close>] m(7) by simp
  have "4 * length ps \<le> card F1" using m(4) Cons.prems(2) by simp
  with Cons.IH [OF p(2)] Cons.prems(3,4) obtain st' F' where
    r: "native_map_loop a perm ps st3 = Some (True, st')" "sound st' F'" "F' \<subseteq> F1" "efer st' = efer st3"
      "\<And>v. user_va v \<Longrightarrow> (if page_of v \<in> page_of ` set ps
          then \<exists>f\<in>F1. aspace st' v = protected_entry (efer st3) ?pr ?wr ?ex (f OR PAGE_USER_FLAGS)
          else aspace st' v = aspace st3 v)" by auto
  have "native_map_loop a perm (p # ps) st = Some (True, st')" using m(1,2) p(1) r(1) by simp
  moreover have "if page_of v \<in> page_of ` set (p # ps)
      then \<exists>f\<in>F. aspace st' v = protected_entry (efer st) ?pr ?wr ?ex (f OR PAGE_USER_FLAGS)
      else aspace st' v = aspace st v" if "user_va v" for v
    using r(5) [OF that] s [OF that] m(5-7) p(3) Cons.prems(4)
    by (cases "page_of v = page_of p") (auto split: if_splits)
  ultimately show ?case using r(2-4) m(5,7) p(3) by (intro exI [of _ st'] exI [of _ F']) auto
qed

text \<open>The pages of a range.\<close>

lemma nth_pages:
  assumes "unat e \<le> 2 ^ 47" and "i < length (pages a e)"
  shows "pages a e ! i = a + of_nat i * 4096" and "unat (a + of_nat i * 4096) = unat a + i * 4096"
    and "unat a + i * 4096 < unat e"
proof -
  have i: "i < (unat e - unat a + 4095) div 4096" using assms(2) by (simp add: pages_def)
  then have "Suc i * 4096 \<le> unat e - unat a + 4095"
    using less_eq_div_iff_mult_less_eq [of 4096 "Suc i" "unat e - unat a + 4095"] by simp
  then show l: "unat a + i * 4096 < unat e" by simp
  then show "pages a e ! i = a + of_nat i * 4096" using i by (simp add: pages_def)
  have "unat (of_nat i * 4096 :: u64) = i * 4096"
    using l assms(1) by (simp add: unat_word_ariths unat_of_nat)
  then show "unat (a + of_nat i * 4096) = unat a + i * 4096"
    using l assms(1) by (simp add: unat_word_ariths)
qed

lemma set_pages:
  assumes "page_aligned a" and "page_aligned e" and "unat e \<le> 2 ^ 47"
  shows "\<forall>p\<in>set (pages a e). user_va p \<and> page_aligned p" and "distinct (map page_of (pages a e))"
    and "page_of v \<in> page_of ` set (pages a e) \<longleftrightarrow> a \<le> v \<and> v < e"
proof -
  note n = nth_pages [OF assms(3), of _ a]
  have al: "page_aligned (pages a e ! i)" if "i < length (pages a e)" for i
    using n(1,2) [OF that] assms(1) by (simp add: page_aligned_iff)
  have "user_va (pages a e ! i)" if "i < length (pages a e)" for i
    using n [OF that] assms(3) by (simp add: user_va_def word_less_nat_alt)
  with al show set: "\<forall>p\<in>set (pages a e). user_va p \<and> page_aligned p" by (metis in_set_conv_nth)
  then have id: "map page_of (pages a e) = pages a e" by (simp add: map_idI)
  have "pages a e ! i \<noteq> pages a e ! j" if "i < length (pages a e)" "j < length (pages a e)" "i \<noteq> j" for i j
    using n(1,2) [OF that(1)] n(1,2) [OF that(2)] that(3) by (auto simp: word_unat_eq_iff)
  then show "distinct (map page_of (pages a e))" unfolding id distinct_conv_nth by blast
  have "page_of ` set (pages a e) = set (pages a e)" using id by (metis list.set_map)
  moreover have "page_of v \<in> set (pages a e) \<longleftrightarrow> a \<le> v \<and> v < e"
  proof
    assume "page_of v \<in> set (pages a e)"
    then obtain i where i: "i < length (pages a e)" "page_of v = pages a e ! i" by (metis in_set_conv_nth)
    then have v: "unat v div 4096 * 4096 = unat a + i * 4096" "unat a + i * 4096 < unat e"
      using n [OF i(1)] unat_page_of [of v] by auto
    obtain y where y: "unat e = 4096 * y" using assms(2) by (rule page_alignedE)
    have "unat v div 4096 < y" using v y by linarith
    then have "unat v < unat e" unfolding y by (simp add: div_less_iff_less_mult mult.commute)
    moreover have "unat a \<le> unat v" using v(1) div_times_less_eq_dividend [of "unat v" 4096] by linarith
    ultimately have "unat a \<le> unat v" "unat v < unat e" by blast+
    then show "a \<le> v \<and> v < e" by (simp add: word_less_nat_alt word_le_nat_alt)
  next
    assume "a \<le> v \<and> v < e"
    then have le: "unat a \<le> unat v" "unat v < unat e" by (simp_all add: word_less_nat_alt word_le_nat_alt)
    obtain x where x: "unat a = 4096 * x" using assms(1) by (rule page_alignedE)
    obtain y where y: "unat e = 4096 * y" using assms(2) by (rule page_alignedE)
    let ?i = "unat v div 4096 - x"
    have "x \<le> unat v div 4096" using le(1) x by linarith
    moreover have "unat v div 4096 < y" using le(2) y by linarith
    moreover have "length (pages a e) = y - x" using x y by (simp add: pages_def diff_mult_distrib2 [symmetric])
    ultimately have i: "?i < length (pages a e)" by simp
    have "unat (page_of v) = unat (pages a e ! ?i)"
      unfolding n(1) [OF i] n(2) [OF i] unat_page_of using \<open>x \<le> unat v div 4096\<close> x by (simp add: algebra_simps)
    then show "page_of v \<in> set (pages a e)" using i by (metis nth_mem word_unat_eq_iff)
  qed
  ultimately show "page_of v \<in> page_of ` set (pages a e) \<longleftrightarrow> a \<le> v \<and> v < e" by simp
qed

lemma valid_range:
  assumes "valid_user_memory_range a n = Some r"
  shows "page_aligned a" and "page_aligned (a + r)" and "unat (a + r) = unat a + unat r"
    and "unat (a + r) \<le> 2 ^ 47" and "unat n \<le> unat r" and "length (pages a (a + r)) = unat r div 4096"
proof -
  have v: "a < USER_ADDRESS_LIMIT" "page_aligned a" "r = page_of (n + 4096 - 1)" "n \<le> r" "r \<le> USER_ADDRESS_LIMIT - a"
    using assms by (auto simp: valid_user_memory_range_def Let_def split: if_splits)
  then show "page_aligned a" "unat n \<le> unat r" by (simp_all add: word_le_nat_alt)
  have "unat (USER_ADDRESS_LIMIT - a) = 0x800000000000 - unat a"
    using v(1) by (subst unat_sub) (simp_all add: word_less_nat_alt word_le_nat_alt)
  with v(1,5) have l: "unat a + unat r \<le> 0x800000000000" by (simp add: word_less_nat_alt word_le_nat_alt)
  then show s: "unat (a + r) = unat a + unat r" by (simp add: unat_word_ariths)
  with l show "unat (a + r) \<le> 2 ^ 47" by simp
  have r: "page_aligned r" using v(3) by simp
  then show "page_aligned (a + r)" using v(2) unfolding page_aligned_iff s mod_eq_0_iff_dvd by (rule dvd_add [rotated])
  obtain k where "unat r = 4096 * k" using r by (rule page_alignedE)
  then show "length (pages a (a + r)) = unat r div 4096" by (simp add: pages_def s)
qed

lemma protected_denied:
  assumes "e AND PAGE_USER \<noteq> 0"
  shows "denied w (protected_entry ef pr wr ex e) \<longleftrightarrow> \<not> pr \<or> w \<and> \<not> wr"
proof -
  have b: "bit (1 :: u64) 0" "\<not> bit (1 :: u64) 1" "\<not> bit (1 :: u64) 2" "\<not> bit (2 :: u64) 0" "bit (2 :: u64) 1" "\<not> bit (2 :: u64) 2"
      "\<not> bit PAGE_NO_EXECUTE 0" "\<not> bit PAGE_NO_EXECUTE 1" "\<not> bit PAGE_NO_EXECUTE 2"
    by (simp_all add: bit_numeral_rec bit_1_iff)
  have "bit (protected_entry ef pr wr ex e) 0 = pr" "bit (protected_entry ef pr wr ex e) 1 = wr"
      "bit (protected_entry ef pr wr ex e) 2 = bit e 2"
    unfolding protected_entry_def Let_def
    by (cases pr; cases wr; cases "\<not> ex \<and> ef AND EFER_NXE \<noteq> 0";
        simp only: if_True if_False bit_or_iff bit_and_iff bit_not_iff b; simp add: possible_bit_def)+
  with assms show ?thesis unfolding denied_def user_present_bits flag_zero by blast
qed

lemma accessible_aspace:
  "sound st F \<Longrightarrow> user_va v \<Longrightarrow> user_page_accessible st v w \<longleftrightarrow> \<not> denied w (aspace st v)"
  using translate_plain [of st w v] sound_hhdm [of st F] by (simp add: sound_def user_va_def)

lemma native_map_ok:
  assumes "sound st F" and "valid_user_memory_range a n = Some r" and "perm AND NOT 7 = 0"
    and "\<forall>v. a \<le> v \<and> v < a + r \<longrightarrow> \<not> user_page_mapped st v" and "unat r div 1024 \<le> card F"
  shows "\<exists>st' F'. native_user_memory_map a n perm st = Some (a, st') \<and> sound st' F'
     \<and> (\<forall>v w. user_va v \<longrightarrow> user_page_accessible st' v w =
          (if a \<le> v \<and> v < a + r then perm \<noteq> 0 \<and> (w \<longrightarrow> perm AND USER_MEMORY_WRITE \<noteq> 0)
           else user_page_accessible st v w))"
proof -
  note v = valid_range [OF assms(2)]
  note ps = set_pages [OF v(1,2,4)]
  have mem: "x \<in> set (pages a (a + r)) \<Longrightarrow> a \<le> x \<and> x < a + r" for x using ps(3) [of x] by blast
  have "4 * length (pages a (a + r)) \<le> card F" using assms(5) v(6) by linarith
  from native_map_loop_ok [OF assms(1) this _ ps(2), of a perm] ps(1) obtain st' F' where
    l: "native_map_loop a perm (pages a (a + r)) st = Some (True, st')" "sound st' F'"
      "\<And>v. user_va v \<Longrightarrow> (if page_of v \<in> page_of ` set (pages a (a + r))
          then \<exists>f\<in>F. aspace st' v = protected_entry (efer st) (perm \<noteq> 0) (perm AND USER_MEMORY_WRITE \<noteq> 0)
                 (perm AND USER_MEMORY_EXEC \<noteq> 0) (f OR PAGE_USER_FLAGS)
          else aspace st' v = aspace st v)" by blast
  have "\<not> list_ex (user_page_mapped st) (pages a (a + r))" using assms(4) mem by (auto simp: list_ex_iff)
  then have "native_user_memory_map a n perm st = Some (a, st')"
    using assms(2,3) sound_hhdm [OF assms(1)] l(1) by (auto simp: native_user_memory_map_def)
  moreover have "user_page_accessible st' v w = (if a \<le> v \<and> v < a + r
      then perm \<noteq> 0 \<and> (w \<longrightarrow> perm AND USER_MEMORY_WRITE \<noteq> 0) else user_page_accessible st v w)" if "user_va v" for v w
  proof -
    have "(f OR PAGE_USER_FLAGS) AND PAGE_USER \<noteq> 0" for f
      using or_flags(3) [of f] unfolding user_present_bits flag_zero by blast
    with l(3) [OF that] show ?thesis
      unfolding ps(3) accessible_aspace [OF l(2) that] accessible_aspace [OF assms(1) that]
      by (auto simp: protected_denied split: if_splits)
  qed
  ultimately show ?thesis using l(2) by blast
qed

text \<open>The whole string, with its terminator, in one range.\<close>

lemma copy_user_string_spec:
  assumes "sound st F" and "a \<noteq> 0" and "capacity \<noteq> 0"
  shows "\<exists>r. copy_user_string st a capacity = Some r \<and>
     (\<forall>s. r = Some s \<longleftrightarrow> length s < unat capacity \<and> 0 \<notin> set s
        \<and> user_range_accessible st a (of_nat (length s) + 1) False
        \<and> user_loads st a (length s + 1) = Some (s @ [0]))"
proof -
  from string_loop_spec [OF assms(1), of a 0 "unat capacity"] obtain r where
    r: "string_loop st a 0 (unat capacity) = Some r"
      "\<And>s. r = Some s \<longleftrightarrow> length s < unat capacity \<and> 0 \<notin> set s
        \<and> (\<forall>j<Suc (length s). user_char st a (of_nat j) = Some (Some ((s @ [0]) ! j)))" by auto
  have "(\<forall>j<Suc (length s). user_char st a (of_nat j) = Some (Some ((s @ [0]) ! j))) \<longleftrightarrow>
      user_range_accessible st a (of_nat (length s) + 1) False \<and> user_loads st a (length s + 1) = Some (s @ [0])"
    (is "?chars \<longleftrightarrow> ?range \<and> ?loads") if s: "length s < unat capacity" for s
  proof -
    have "Suc (length s) < 2 ^ 64" using s unat_bound [of capacity] by simp
    then have N: "unat (of_nat (length s) + 1 :: u64) = Suc (length s)"
      by (simp add: unat_word_ariths unat_of_nat)
    then have "(of_nat (length s) + 1 :: u64) \<noteq> 0" by (metis Zero_not_Suc unat_0)
    note ra = user_range_accessible_iff [OF this, of st a False, unfolded N]
    have j: "unat (of_nat j :: u64) = j" if "j < Suc (length s)" for j
      using that \<open>Suc (length s) < 2 ^ 64\<close> by (simp add: unat_of_nat)
    have nz: "a + of_nat j \<noteq> 0" if "j < Suc (length s)" "unat a + j < 0x800000000000" for j
    proof -
      have "unat (a + of_nat j) = unat a + j" using that j [OF that(1)] by (simp add: unat_word_ariths)
      moreover have "0 < unat a" using assms(2) by (simp add: unat_gt_0)
      ultimately show ?thesis by (metis add_gr_0 less_numeral_extra(3) unat_0)
    qed
    have "?chars \<longleftrightarrow> (\<forall>j<Suc (length s). unat a + j < 0x800000000000
        \<and> user_page_accessible st (a + of_nat j) False \<and> user_load st (a + of_nat j) = Some ((s @ [0]) ! j))"
      using nz j unfolding user_char_sound(2) [OF assms(1)] by auto
    also have "\<dots> \<longleftrightarrow> ?range \<and> ?loads"
      unfolding ra user_loads_iff using assms(2) by fastforce
    finally show ?thesis .
  qed
  with r show ?thesis using assms(2,3) by (auto simp: copy_user_string_def)
qed

section \<open>Properties\<close>


lemma sound_vm: "sound vm_machine (remaining vm_map 0 0)"
proof -
  have l: "leaf (mem vm_machine) (root vm_machine) p i = 0" for p i
    by (simp add: leaf_def vm_tab) (simp add: vm_machine_def)
  then have "plain vm_machine"
    using vm_root unfolding plain_def l by (simp add: names_table_def) (simp add: vm_machine_def)
  then show ?thesis using vm_isolated by (simp add: sound_def)
qed

lemma vm_unmapped: "\<not> user_page_mapped vm_machine v"
proof -
  have "user_entry vm_machine v = None"
    by (simp add: user_entry_def indices_eq vm_machine_def)
  then show ?thesis by (simp add: user_page_mapped_def split: option.splits)
qed

lemma vm_valid: "valid_user_memory_range 0x400000 0x1000 = Some 0x1000"
  by (simp add: valid_user_memory_range_def page_aligned_def page_of_def)

text \<open>The machine after the program has mapped a page at \<open>0x400000\<close>.\<close>

lemma vm_mapped:
  obtains st F where "native_user_memory_map 0x400000 0x1000 3 vm_machine = Some (0x400000, st)"
    and "sound st F" and "\<And>n w. n \<noteq> 0 \<Longrightarrow> unat n \<le> 0x1000 \<Longrightarrow> user_range_accessible st 0x400000 n w"
proof -
  have "card (remaining vm_map 0 0) = 8" unfolding vm_pages_list by simp
  with native_map_ok [OF sound_vm vm_valid, of 3] vm_unmapped obtain st F where
    m: "native_user_memory_map 0x400000 0x1000 3 vm_machine = Some (0x400000, st)" "sound st F"
      "\<And>v w. user_va v \<Longrightarrow> 0x400000 \<le> v \<Longrightarrow> v < 0x401000 \<Longrightarrow> user_page_accessible st v w" by auto
  have "user_range_accessible st 0x400000 n w" if "n \<noteq> 0" "unat n \<le> 0x1000" for n w
  proof -
    have "user_page_accessible st (0x400000 + of_nat i) w" if "i < unat n" for i
    proof -
      have "unat (0x400000 + of_nat i :: u64) = 0x400000 + i"
        using that \<open>unat n \<le> 0x1000\<close> by (simp add: unat_word_ariths unat_of_nat)
      then show ?thesis using that \<open>unat n \<le> 0x1000\<close>
        by (intro m(3)) (simp_all add: user_va_def word_less_nat_alt word_le_nat_alt)
    qed
    then show ?thesis using that unfolding user_range_accessible_iff [OF that(1)] by simp
  qed
  with m(1,2) show ?thesis using that by blast
qed


text \<open>
  C24: \<open>copy_user_string\<close> always returns without a fault. It succeeds exactly when the program has a
  string at the address that ends within the capacity and lies in accessible memory, and then the
  result is that string.
\<close>

theorem copy_user_string_correct:
  assumes "sound st F" and "a \<noteq> 0" and "capacity \<noteq> 0"
  shows "\<exists>r. copy_user_string st a capacity = Some r \<and>
     (\<forall>s. r = Some s \<longleftrightarrow> length s < unat capacity \<and> 0 \<notin> set s
        \<and> user_range_accessible st a (of_nat (length s) + 1) False
        \<and> user_loads st a (length s + 1) = Some (s @ [0]))"
  using assms by (rule copy_user_string_spec)

theorem copy_user_string_correct_witness:
  "\<exists>st st'. native_user_memory_map 0x400000 0x1000 3 vm_machine = Some (0x400000, st)
     \<and> user_stores 0x400000 [72, 105, 0] st = Some st'
     \<and> copy_user_string st' 0x400000 256 = Some (Some [72, 105])"
proof (rule vm_mapped)
  fix st F
  assume m: "native_user_memory_map 0x400000 0x1000 3 vm_machine = Some (0x400000, st)" "sound st F"
    "\<And>n w. n \<noteq> 0 \<Longrightarrow> unat n \<le> 0x1000 \<Longrightarrow> user_range_accessible st 0x400000 n w"
  have acc: "user_range_accessible st 0x400000 3 w" for w by (rule m(3)) simp_all
  then have "\<forall>i<length [72, 105, 0]. user_page_accessible st (0x400000 + of_nat i) True"
    using user_range_accessible_iff [where n = 3 and a = "0x400000"] by simp
  from user_stores_ok [OF m(2) this] obtain st' where
    s: "user_stores 0x400000 [72, 105, 0] st = Some st'" "stored st F 0x400000 [72, 105, 0] st'" by auto
  have "user_loads st' 0x400000 3 = Some [72, 105, 0]"
    using copy_out_ok [OF m(2) _ _ acc, of "[72, 105, 0]"] s(1) by (simp only: list.size) auto
  moreover have "user_range_accessible st' 0x400000 3 False"
    using acc [of False] s(2) user_range_accessible_iff [where n = 3 and a = "0x400000"] by (simp add: stored_def)
  moreover have "sound st' F" using s(2) by (simp add: stored_def)
  from copy_user_string_correct [OF this, of "0x400000" 256] obtain r where
    r: "copy_user_string st' 0x400000 256 = Some r" "r = Some [72, 105] \<longleftrightarrow>
        user_range_accessible st' 0x400000 3 False \<and> user_loads st' 0x400000 3 = Some [72, 105, 0]"
    by (auto simp: numeral_3_eq_3)
  ultimately show ?thesis using m(1) s(1) by auto
qed



end
