(* ===== verification/Ata.thy ===== *)
theory Ata
  imports Prelude
begin

text \<open>
  The disks behind \<open>helper/drivers/filesystem/ata.c\<close>. This part is the contract the file system
  relies on: a drive is a map from sector numbers to 512-byte sectors, with a set of faulty
  sectors on which transfers fail.
\<close>

record disk =
  media :: "u64 \<Rightarrow> bytes"
  faulty :: "u64 \<Rightarrow> bool"
  capacity :: u64

record drives =
  current_drive :: u8
  units :: "u8 \<Rightarrow> disk option"

abbreviation (input) ATA_DRIVE_COUNT :: u8 where "ATA_DRIVE_COUNT \<equiv> 2"

definition drive_present :: "drives \<Rightarrow> u8 \<Rightarrow> bool" where
  "drive_present d drive \<longleftrightarrow> drive < ATA_DRIVE_COUNT \<and> units d drive \<noteq> None"

definition drive_sector_count :: "drives \<Rightarrow> u8 \<Rightarrow> u64" where
  "drive_sector_count d drive =
     (if drive < ATA_DRIVE_COUNT then case units d drive of None \<Rightarrow> 0 | Some k \<Rightarrow> capacity k else 0)"

definition drive_select :: "u8 \<Rightarrow> drives \<Rightarrow> drives option" where
  "drive_select drive d =
     (if drive < ATA_DRIVE_COUNT then Some (d \<lparr> current_drive := drive \<rparr>) else None)"

definition drive_read :: "drives \<Rightarrow> u8 \<Rightarrow> u64 \<Rightarrow> bytes option" where
  "drive_read d drive lba =
     (if \<not> drive_present d drive \<or> lba \<ge> 0x1000000000000 then None
      else case units d drive of None \<Rightarrow> None
        | Some k \<Rightarrow> if faulty k lba then None else Some (media k lba))"

definition drive_write :: "u8 \<Rightarrow> u64 \<Rightarrow> bytes \<Rightarrow> drives \<Rightarrow> drives option" where
  "drive_write drive lba buf d =
     (if \<not> drive_present d drive \<or> lba \<ge> 0x1000000000000 then None
      else case units d drive of None \<Rightarrow> None
        | Some k \<Rightarrow> if faulty k lba then None
                    else Some (d \<lparr> units := (units d)
                           (drive := Some (k \<lparr> media := (media k)(lba := buf) \<rparr>)) \<rparr>))"

end
