(* ===== verification/Exfat.thy ===== *)
theory Exfat
  imports Ata
begin

text \<open>
  The exFAT driver of \<open>helper/drivers/filesystem/exfat.c\<close> over the sectors of \<open>Ata\<close>. The record
  \<open>exfat\<close> holds the static variables of the file; on-disk structures are byte lists with the
  offsets of the packed C structs. A C string argument is the list of its characters, without
  NUL; writing one into a fixed array checks the capacity. Results: an operation that changes
  state returns its \<open>int\<close> code and the new state, inside an option whose \<open>None\<close> is undefined
  behaviour (an access outside a stack buffer). Loop counters are numbers; they stay below the
  32-bit sizes they are compared with. \<open>exfat_print_directory\<close> only prints and is left out.
\<close>

record exfat =
  blk :: drives
  g_current_cluster :: u32
  g_current_path :: bytes
  g_cluster_heap_offset :: u32
  g_sectors_per_cluster :: u32
  g_root_cluster :: u32
  g_cluster_count :: u32

abbreviation (input) EXFAT_PARTITION_LBA :: u64 where "EXFAT_PARTITION_LBA \<equiv> 4096"
abbreviation (input) EXFAT_TYPE_BITMAP :: u8 where "EXFAT_TYPE_BITMAP \<equiv> 0x81"
abbreviation (input) EXFAT_TYPE_UPCASE :: u8 where "EXFAT_TYPE_UPCASE \<equiv> 0x82"
abbreviation (input) EXFAT_TYPE_FILE :: u8 where "EXFAT_TYPE_FILE \<equiv> 0x85"
abbreviation (input) EXFAT_TYPE_STREAM :: u8 where "EXFAT_TYPE_STREAM \<equiv> 0xC0"
abbreviation (input) EXFAT_TYPE_NAME :: u8 where "EXFAT_TYPE_NAME \<equiv> 0xC1"

text \<open>Integers at an offset of a byte buffer.\<close>

definition rd16 :: "bytes \<Rightarrow> nat \<Rightarrow> u16" where
  "rd16 b i = of_le (take 2 (drop i b))"

definition rd32 :: "bytes \<Rightarrow> nat \<Rightarrow> u32" where
  "rd32 b i = of_le (take 4 (drop i b))"

definition rd64 :: "bytes \<Rightarrow> nat \<Rightarrow> u64" where
  "rd64 b i = of_le (take 8 (drop i b))"

record exfat_target =
  tcluster :: u32
  tsize :: u64
  tis_dir :: bool
  entry_lba :: u64
  entry_offset :: nat

section \<open>Sectors, checksums and the allocation bitmap\<close>

definition exfat_cluster_lba :: "exfat \<Rightarrow> u32 \<Rightarrow> u64" where
  "exfat_cluster_lba st cluster =
     ucast (4096 + g_cluster_heap_offset st) + ucast (cluster - 2) * ucast (g_sectors_per_cluster st)"

definition exfat_sector_read :: "exfat \<Rightarrow> u64 \<Rightarrow> bytes option" where
  "exfat_sector_read st lba =
     (if lba \<ge> 0x1000000000000 then None else drive_read (blk st) (current_drive (blk st)) lba)"

definition exfat_sector_write :: "u64 \<Rightarrow> bytes \<Rightarrow> exfat \<Rightarrow> exfat option" where
  "exfat_sector_write lba buf st =
     (if lba \<ge> 0x1000000000000 then None
      else map_option (\<lambda>d. st \<lparr> blk := d \<rparr>)
             (drive_write (current_drive (blk st)) lba buf (blk st)))"

fun boot_crc_loop :: "bytes \<Rightarrow> nat \<Rightarrow> bool \<Rightarrow> u32 \<Rightarrow> u32" where
  "boot_crc_loop [] i is_vbr crc = crc"
| "boot_crc_loop (b # bs) i is_vbr crc =
     boot_crc_loop bs (Suc i) is_vbr
       (if is_vbr \<and> (i = 106 \<or> i = 107 \<or> i = 112) then crc
        else (if crc AND 1 \<noteq> 0 then 0x80000000 else 0) + drop_bit 1 crc + ucast b)"

definition exfat_calc_boot_crc :: "bytes \<Rightarrow> u32 \<Rightarrow> bool \<Rightarrow> u32" where
  "exfat_calc_boot_crc sector crc is_vbr = boot_crc_loop sector 0 is_vbr crc"

fun entry_crc_loop :: "bytes \<Rightarrow> nat \<Rightarrow> u16 \<Rightarrow> u16" where
  "entry_crc_loop [] i crc = crc"
| "entry_crc_loop (b # bs) i crc =
     entry_crc_loop bs (Suc i)
       (if i = 2 \<or> i = 3 then crc
        else (if crc AND 1 \<noteq> 0 then 0x8000 else 0) + drop_bit 1 crc + ucast b)"

text \<open>\<open>exfat_calc_entry_crc(&buf[i], count)\<close>.\<close>

definition exfat_calc_entry_crc :: "bytes \<Rightarrow> nat \<Rightarrow> u8 \<Rightarrow> u16 option" where
  "exfat_calc_entry_crc buf i count =
     (if i + 32 * unat count \<le> length buf
      then Some (entry_crc_loop (take (32 * unat count) (drop i buf)) 0 0) else None)"

fun exfat_calc_name_hash :: "u16 list \<Rightarrow> u16 \<Rightarrow> u16" where
  "exfat_calc_name_hash [] hash = hash"
| "exfat_calc_name_hash (c # cs) hash =
     (let ch = (if c \<ge> 97 \<and> c \<le> 122 then c - 32 else c);
          hash = (if hash AND 1 \<noteq> 0 then 0x8000 else 0) + drop_bit 1 hash + (ch AND 0xFF);
          hash = (if hash AND 1 \<noteq> 0 then 0x8000 else 0) + drop_bit 1 hash + (drop_bit 8 ch AND 0xFF)
      in exfat_calc_name_hash cs hash)"

abbreviation bitmap_lba :: "exfat \<Rightarrow> u64" where
  "bitmap_lba st \<equiv> exfat_cluster_lba st 2"

text \<open>The search for \<open>count\<close> free bits in a row: \<open>Inl\<close> the first index of the run, or \<open>Inr\<close> the
  run so far (its length and start) at the end of the sector.\<close>

function scan_bits :: "bytes \<Rightarrow> nat \<Rightarrow> nat \<Rightarrow> nat \<Rightarrow> nat \<Rightarrow> nat \<Rightarrow> nat \<Rightarrow> nat + nat \<times> nat" where
  "scan_bits sector total_clusters count s bit_no consecutive start =
     (if bit_no < 4096 \<and> s * 4096 + bit_no < total_clusters
      then if \<not> bit (sector ! (bit_no div 8)) (bit_no mod 8)
           then let start = (if consecutive = 0 then s * 4096 + bit_no else start);
                    consecutive = Suc consecutive
                in if consecutive = count then Inl start
                   else scan_bits sector total_clusters count s (Suc bit_no) consecutive start
           else scan_bits sector total_clusters count s (Suc bit_no) 0 start
      else Inr (consecutive, start))"
  by pat_completeness auto
termination by (relation "measure (\<lambda>(sector, tc, count, s, b, c, st). 4096 - b)") auto

declare scan_bits.simps [simp del]

text \<open>Setting or clearing the bits of a range of clusters, a sector at a time.\<close>

fun mark_bits :: "nat \<Rightarrow> nat \<Rightarrow> exfat \<Rightarrow> exfat option \<times> exfat" where
  "mark_bits i 0 st = (Some st, st)"
| "mark_bits i (Suc n) st =
     (case exfat_sector_read st (bitmap_lba st + of_nat (i div 4096)) of
        None \<Rightarrow> (None, st)
      | Some b \<Rightarrow>
        let k = i mod 4096;
            b = b[k div 8 := b ! (k div 8) OR push_bit (k mod 8) 1]
        in (case exfat_sector_write (bitmap_lba st + of_nat (i div 4096)) b st of
              None \<Rightarrow> (None, st) | Some st \<Rightarrow> mark_bits (Suc i) n st))"

function scan_sectors :: "exfat \<Rightarrow> nat \<Rightarrow> nat \<Rightarrow> nat \<Rightarrow> nat \<Rightarrow> nat option" where
  "scan_sectors st count s consecutive start =
     (if s < (unat (g_cluster_count st) + 4095) div 4096
      then case exfat_sector_read st (bitmap_lba st + of_nat s) of
             None \<Rightarrow> None
           | Some sector \<Rightarrow>
             (case scan_bits sector (unat (g_cluster_count st)) count s 0 consecutive start of
                Inl first \<Rightarrow> Some first
              | Inr (consecutive, start) \<Rightarrow> scan_sectors st count (Suc s) consecutive start)
      else None)"
  by pat_completeness auto
termination
  by (relation "measure (\<lambda>(st, count, s, c, b). (unat (g_cluster_count st) + 4095) div 4096 - s)") auto

declare scan_sectors.simps [simp del]

text \<open>The result is the first cluster, or 0 for failure.\<close>

definition exfat_alloc_blocks :: "u32 \<Rightarrow> exfat \<Rightarrow> u32 \<times> exfat" where
  "exfat_alloc_blocks count st =
     (if count = 0 then (0, st)
      else case scan_sectors st (unat count) 0 0 0 of
             None \<Rightarrow> (0, st)
           | Some first \<Rightarrow>
             (case mark_bits first (unat count) st of
                (None, st) \<Rightarrow> (0, st)
              | (Some _, st) \<Rightarrow> (of_nat first + 2, st)))"

definition exfat_alloc_block :: "exfat \<Rightarrow> u32 \<times> exfat" where
  "exfat_alloc_block st = exfat_alloc_blocks 1 st"

fun clear_bits :: "nat \<Rightarrow> nat \<Rightarrow> exfat \<Rightarrow> exfat" where
  "clear_bits i 0 st = st"
| "clear_bits i (Suc n) st =
     clear_bits (Suc i) n
       (case exfat_sector_read st (bitmap_lba st + of_nat (i div 4096)) of
          None \<Rightarrow> st
        | Some b \<Rightarrow>
          let k = i mod 4096;
              b = b[k div 8 := b ! (k div 8) AND NOT (push_bit (k mod 8) 1)]
          in (case exfat_sector_write (bitmap_lba st + of_nat (i div 4096)) b st of
                None \<Rightarrow> st | Some st \<Rightarrow> st))"

definition exfat_free_blocks :: "u32 \<Rightarrow> u32 \<Rightarrow> exfat \<Rightarrow> exfat" where
  "exfat_free_blocks cluster count st =
     (if cluster < 2 \<or> count = 0 then st
      else if unat (cluster - 2) + unat count < 2 ^ 32
           then clear_bits (unat (cluster - 2)) (unat count) st else st)"

definition exfat_free_block :: "u32 \<Rightarrow> exfat \<Rightarrow> exfat" where
  "exfat_free_block cluster st = exfat_free_blocks cluster 1 st"

section \<open>Names and directory entries\<close>

definition to_lower :: "u8 \<Rightarrow> u8" where
  "to_lower c = (if c \<ge> 65 \<and> c \<le> 90 then c - 65 + 97 else c)"

fun exfat_name_equal :: "bytes \<Rightarrow> bytes \<Rightarrow> bool" where
  "exfat_name_equal (l # ls) (r # rs) \<longleftrightarrow> to_lower l = to_lower r \<and> exfat_name_equal ls rs"
| "exfat_name_equal [] [] \<longleftrightarrow> True"
| "exfat_name_equal _ _ \<longleftrightarrow> False"

text \<open>The characters of one name entry at offset \<open>i\<close>, appended to the name read so far.\<close>

fun name_chars :: "bytes \<Rightarrow> nat \<Rightarrow> nat \<Rightarrow> bytes \<Rightarrow> bytes" where
  "name_chars buf i 0 name_buf = name_buf"
| "name_chars buf i (Suc n) name_buf =
     (let ch = rd16 buf i in
      if ch = 0 then name_buf
      else name_chars buf (i + 2) n
             (if length name_buf < 255 then name_buf @ [ucast ch] else name_buf))"

function entry_name :: "bytes \<Rightarrow> nat \<Rightarrow> nat \<Rightarrow> nat \<Rightarrow> bytes \<Rightarrow> bytes" where
  "entry_name buf i secondary_count sec name_buf =
     (if sec \<le> secondary_count \<and> i + sec * 32 < 4096
      then entry_name buf i secondary_count (Suc sec)
             (if buf ! (i + sec * 32) = EXFAT_TYPE_NAME
              then name_chars buf (i + sec * 32 + 2) 15 name_buf else name_buf)
      else name_buf)"
  by pat_completeness auto
termination by (relation "measure (\<lambda>(buf, i, sc, sec, nb). Suc sc - sec)") auto

declare entry_name.simps [simp del]

definition read_cluster :: "exfat \<Rightarrow> u32 \<Rightarrow> bytes option" where
  "read_cluster st cluster =
     map_option concat
       (those (map (\<lambda>s. exfat_sector_read st (exfat_cluster_lba st cluster + of_nat s)) [0..<8]))"

function resolve_scan :: "bytes \<Rightarrow> u64 \<Rightarrow> bytes \<Rightarrow> nat \<Rightarrow> exfat_target option" where
  "resolve_scan buf base_lba target_name i =
     (if i \<le> 4096 - 96
      then if buf ! i = EXFAT_TYPE_FILE
           then let secondary_count = unat (buf ! (i + 1)) in
                if exfat_name_equal (cstr (entry_name buf i secondary_count 2 [])) target_name
                then Some \<lparr> tcluster = rd32 buf (i + 32 + 20), tsize = rd64 buf (i + 32 + 24),
                            tis_dir = (rd16 buf (i + 4) AND 0x10 \<noteq> 0),
                            entry_lba = base_lba + of_nat (i div 512), entry_offset = i mod 512 \<rparr>
                else resolve_scan buf base_lba target_name (i + secondary_count * 32 + 32)
           else resolve_scan buf base_lba target_name (i + 32)
      else None)"
  by pat_completeness auto
termination by (relation "measure (\<lambda>(buf, lba, name, i). 4096 - i)") auto

declare resolve_scan.simps [simp del]

definition exfat_resolve_entry :: "exfat \<Rightarrow> bytes \<Rightarrow> exfat_target option" where
  "exfat_resolve_entry st target_name =
     do {
       buf \<leftarrow> read_cluster st (g_current_cluster st);
       resolve_scan buf (exfat_cluster_lba st (g_current_cluster st)) target_name 0
     }"

definition exfat_get_info :: "exfat \<Rightarrow> bytes option \<Rightarrow> (u64 \<times> bool) option" where
  "exfat_get_info st name =
     do {
       name \<leftarrow> name;
       target \<leftarrow> exfat_resolve_entry st name;
       Some (tsize target, tis_dir target)
     }"

section \<open>Mounting and formatting\<close>

definition exfat_mount :: "exfat \<Rightarrow> int \<times> exfat" where
  "exfat_mount st =
     (case exfat_sector_read st EXFAT_PARTITION_LBA of
        None \<Rightarrow> (-1, st)
      | Some vbr \<Rightarrow>
        if take 8 (drop 3 vbr) \<noteq> asc ''EXFAT   '' then (0, st)
        else if vbr ! 108 \<noteq> 9 \<or> vbr ! 109 \<ge> 32 \<or> rd32 vbr 88 = 0 \<or> rd32 vbr 96 < 2
                \<or> rd32 vbr 92 = 0 then (-1, st)
        else (1, st \<lparr> g_cluster_heap_offset := rd32 vbr 88,
                      g_sectors_per_cluster := push_bit (unat (vbr ! 109)) 1,
                      g_root_cluster := rd32 vbr 96,
                      g_cluster_count := (if rd32 vbr 92 > 32768 then 32768 else rd32 vbr 92),
                      g_current_cluster := rd32 vbr 96,
                      g_current_path := asc ''/'' \<rparr>))"

text \<open>The boot sector built field by field.\<close>

definition format_vbr :: "u32 \<Rightarrow> u32 \<Rightarrow> u32 \<Rightarrow> bytes" where
  "format_vbr total_sectors cluster_cnt fat_len =
     (let s = replicate 512 0;
          s = buf_put s 0 [0xEB, 0x76, 0x90];
          s = buf_put s 3 (asc ''EXFAT   '');
          s = buf_put s 64 (le64 4096);
          s = buf_put s 72 (le64 (ucast total_sectors));
          s = buf_put s 80 (le32 128);
          s = buf_put s 84 (le32 fat_len);
          s = buf_put s 88 (le32 2048);
          s = buf_put s 92 (le32 cluster_cnt);
          s = buf_put s 96 (le32 4);
          s = buf_put s 100 (le32 0x87654321);
          s = buf_put s 104 (le16 0x0100);
          s = buf_put s 108 [9, 3, 1, 0x80]
      in buf_put s 510 (le16 0xAA55))"

fun write_all :: "(u64 \<times> bytes) list \<Rightarrow> exfat \<Rightarrow> bool \<times> exfat" where
  "write_all [] st = (True, st)"
| "write_all ((lba, b) # ws) st =
     (case exfat_sector_write lba b st of None \<Rightarrow> (False, st) | Some st \<Rightarrow> write_all ws st)"

definition format_writes :: "u32 \<Rightarrow> (u64 \<times> bytes) list" where
  "format_writes total_sectors =
     (let cluster_cnt = (total_sectors - 2048) div 8;
          fat_len = ((cluster_cnt + 2) * 4 + 511) div 512;
          vbr = format_vbr total_sectors cluster_cnt fat_len;
          zero = replicate 512 0;
          crc = fold (\<lambda>_ crc. exfat_calc_boot_crc zero crc False) [1..<11]
                  (exfat_calc_boot_crc vbr 0 True);
          crc_table = concat (replicate 128 (le32 crc));
          fat = buf_put zero 0 (le32 0xFFFFFFF8 @ le32 0xFFFFFFFF @ le32 0xFFFFFFFF
                                @ le32 0xFFFFFFFF @ le32 0xFFFFFFFF);
          bitmap_sectors = unat ((cluster_cnt + 4095) div 4096);
          upcase = buf_put zero 0 ([0x61, 0, 0, 0, 0x1A, 0, 0x41, 0] @ replicate 120 0);
          dir = buf_put zero 0 [EXFAT_TYPE_BITMAP];
          dir = buf_put dir 20 (le32 2);
          dir = buf_put dir 24 (le64 (ucast ((cluster_cnt + 7) div 8)));
          dir = buf_put dir 32 [EXFAT_TYPE_UPCASE];
          dir = buf_put dir 36 (le32 0xE6163351);
          dir = buf_put dir 52 (le32 3);
          dir = buf_put dir 56 (le64 128)
      in [(EXFAT_PARTITION_LBA, vbr), (EXFAT_PARTITION_LBA + 12, vbr)]
         @ concat (map (\<lambda>i. [(EXFAT_PARTITION_LBA + of_nat i, zero),
                              (EXFAT_PARTITION_LBA + 12 + of_nat i, zero)]) [1..<11])
         @ [(EXFAT_PARTITION_LBA + 11, crc_table), (EXFAT_PARTITION_LBA + 23, crc_table),
            (EXFAT_PARTITION_LBA + 128, fat)]
         @ map (\<lambda>i. (EXFAT_PARTITION_LBA + 2048 + of_nat i, if i = 0 then zero[0 := 7] else zero))
             [0..<bitmap_sectors]
         @ [(EXFAT_PARTITION_LBA + 2048 + 8, upcase), (EXFAT_PARTITION_LBA + 2048 + 16, dir)])"

definition exfat_wipe_and_format :: "exfat \<Rightarrow> int \<times> exfat" where
  "exfat_wipe_and_format st =
     (let drive_sector_count = drive_sector_count (blk st) (current_drive (blk st)) in
      if drive_sector_count \<le> EXFAT_PARTITION_LBA then (-1, st)
      else let available_sectors = drive_sector_count - EXFAT_PARTITION_LBA in
        if available_sectors < 4096 then (-1, st)
        else let total_sectors = (if available_sectors > 264192 then 264192
                                  else ucast available_sectors :: u32);
                 (ok, st) = write_all (format_writes total_sectors) st
             in if \<not> ok then (-1, st)
                else (0, st \<lparr> g_cluster_count := (total_sectors - 2048) div 8,
                              g_current_cluster := 4, g_current_path := asc ''/'' \<rparr>))"

section \<open>Creating entries\<close>

definition slot_fits :: "bytes \<Rightarrow> nat \<Rightarrow> nat \<Rightarrow> bool" where
  "slot_fits buf i entries \<longleftrightarrow> (\<forall>j<entries. buf ! (i + j * 32) AND 0x80 = 0)"

function find_slot :: "bytes \<Rightarrow> nat \<Rightarrow> nat \<Rightarrow> nat option" where
  "find_slot buf entries i =
     (if i + entries * 32 \<le> 4096
      then if slot_fits buf i entries then Some i else find_slot buf entries (i + 32)
      else None)"
  by pat_completeness auto
termination by (relation "measure (\<lambda>(buf, entries, i). 4128 - i)") auto

declare find_slot.simps [simp del]

text \<open>The entries of a new node: a file entry, a stream entry and the name, 15 characters per
  entry; characters are sign-extended to 16 bits. The checksum goes into bytes 2 and 3.\<close>

definition name_entry :: "u16 list \<Rightarrow> bytes" where
  "name_entry cs = [EXFAT_TYPE_NAME, 0] @ concat (map le16 cs) @ replicate (30 - 2 * length cs) 0"

fun name_entries :: "nat \<Rightarrow> u16 list \<Rightarrow> bytes" where
  "name_entries 0 cs = []"
| "name_entries (Suc n) cs = name_entry (take 15 cs) @ name_entries n (drop 15 cs)"

definition stream_entry :: "u8 \<Rightarrow> u16 \<Rightarrow> u32 \<Rightarrow> bytes" where
  "stream_entry name_length name_hash first_cluster =
     [EXFAT_TYPE_STREAM, 0x03, 0, name_length] @ le16 name_hash @ replicate 14 0
     @ le32 first_cluster @ replicate 8 0"

definition file_entry :: "u8 \<Rightarrow> u16 \<Rightarrow> u16 \<Rightarrow> bytes" where
  "file_entry secondary_count set_checksum file_attributes =
     [EXFAT_TYPE_FILE, secondary_count] @ le16 set_checksum @ le16 file_attributes @ replicate 26 0"

definition entry_set :: "bytes \<Rightarrow> bool \<Rightarrow> u32 \<Rightarrow> bytes" where
  "entry_set name is_dir new_cluster =
     (let len = min (length name) 255;
          name_ents = (len + 14) div 15;
          cs = map scast (take len name);
          attributes = (if is_dir then 0x10 else 0x20);
          rest = stream_entry (of_nat len) (exfat_calc_name_hash cs 0) new_cluster
                 @ name_entries name_ents cs;
          crc = entry_crc_loop (file_entry (of_nat (Suc name_ents)) 0 attributes @ rest) 0 0
      in file_entry (of_nat (Suc name_ents)) crc attributes @ rest)"

definition sector_of :: "bytes \<Rightarrow> nat \<Rightarrow> bytes" where
  "sector_of buf s = take 512 (drop (s * 512) buf)"

definition exfat_create_node :: "bytes option \<Rightarrow> bool \<Rightarrow> exfat \<Rightarrow> int \<times> exfat" where
  "exfat_create_node name is_dir st =
     (case name of None \<Rightarrow> (-1, st)
      | Some name \<Rightarrow>
        if name = [] then (-1, st)
        else (case read_cluster st (g_current_cluster st) of None \<Rightarrow> (-1, st)
        | Some cluster_buf \<Rightarrow>
          let base_lba = exfat_cluster_lba st (g_current_cluster st);
              total_entries = 2 + (min (length name) 255 + 14) div 15
          in (case find_slot cluster_buf total_entries 0 of None \<Rightarrow> (-1, st)
          | Some i \<Rightarrow>
            let (new_cluster, st) = exfat_alloc_block st in
            if new_cluster = 0 then (-1, st)
            else let (ok, st) =
                   (if is_dir
                    then write_all (map (\<lambda>s. (exfat_cluster_lba st new_cluster + of_nat s,
                                              replicate 512 0)) [0..<8]) st
                    else (True, st))
                 in if \<not> ok then (-1, st)
                    else let buf = buf_put cluster_buf i (entry_set name is_dir new_cluster);
                             start_sec = i div 512;
                             end_sec = (i + total_entries * 32 - 1) div 512;
                             (ok, st) = write_all (map (\<lambda>s. (base_lba + of_nat s, sector_of buf s))
                                          [start_sec..<Suc end_sec]) st
                         in (if ok then 0 else -1, st))))"

section \<open>File contents\<close>

definition cluster_span :: "u64 \<Rightarrow> u32" where
  "cluster_span n = (if n = 0 then 1 else ucast ((n + 4095) div 4096))"

text \<open>Sector \<open>i\<close> of the data, padded with zeros: \<open>memset\<close> and \<open>memcpy\<close> of one loop iteration.\<close>

definition data_sector :: "bytes \<Rightarrow> nat \<Rightarrow> bytes" where
  "data_sector data i = (let c = take 512 (drop (i * 512) data) in c @ replicate (512 - length c) 0)"

text \<open>Updating the first cluster and the length in the entry of a file, and its checksum. The
  buffer is one sector; fields past its end are undefined behaviour.\<close>

definition update_entry :: "bytes \<Rightarrow> nat \<Rightarrow> u32 option \<Rightarrow> u64 \<Rightarrow> bytes option" where
  "update_entry sector i first_cluster new_len =
     (if i + 64 \<le> length sector
      then let sector = (case first_cluster of None \<Rightarrow> sector
                         | Some c \<Rightarrow> buf_put sector (i + 32 + 20) (le32 c));
               sector = buf_put sector (i + 32 + 24) (le64 new_len);
               sector = buf_put sector (i + 32 + 8) (le64 new_len)
           in do {
             crc \<leftarrow> exfat_calc_entry_crc sector i (sector ! (i + 1) + 1);
             Some (buf_put sector (i + 2) (le16 crc))
           }
      else None)"

definition finish_entry :: "exfat_target \<Rightarrow> u32 option \<Rightarrow> u64 \<Rightarrow> exfat \<Rightarrow> (int \<times> exfat) option" where
  "finish_entry target first_cluster new_len st =
     (case exfat_sector_read st (entry_lba target) of
        None \<Rightarrow> Some (-1, st)
      | Some sector \<Rightarrow>
        do {
          sector \<leftarrow> update_entry sector (entry_offset target) first_cluster new_len;
          Some (case exfat_sector_write (entry_lba target) sector st of
                  None \<Rightarrow> (-1, st) | Some st \<Rightarrow> (0, st))
        })"

text \<open>\<open>data\<close> is the buffer of the caller and \<open>count\<close> the number of bytes to take from it.\<close>

definition exfat_write_file :: "bytes \<Rightarrow> bytes \<Rightarrow> u64 \<Rightarrow> exfat \<Rightarrow> (int \<times> exfat) option" where
  "exfat_write_file name data count st =
     (case exfat_resolve_entry st name of
        None \<Rightarrow> Some (-1, st)
      | Some target \<Rightarrow>
        let old_clusters = cluster_span (tsize target);
            new_clusters = cluster_span count;
            (active, st) =
              (if new_clusters \<noteq> old_clusters
               then let (allocated, st) = exfat_alloc_blocks new_clusters st in
                    if allocated = 0 then (None, st)
                    else (Some allocated, exfat_free_blocks (tcluster target) old_clusters st)
               else (Some (tcluster target), st))
        in (case active of None \<Rightarrow> Some (-1, st)
        | Some active_cluster \<Rightarrow>
          let base_lba = exfat_cluster_lba st active_cluster;
              sectors_needed = unat ((count + 511) div 512)
          in if length data < unat count then None
             else let (ok, st) = write_all (map (\<lambda>i. (base_lba + of_nat i,
                                   data_sector (take (unat count) data) i)) [0..<sectors_needed]) st
                  in if \<not> ok then Some (-1, st)
                     else finish_entry target (Some active_cluster) count st))"

fun copy_sectors :: "u64 \<Rightarrow> u64 \<Rightarrow> nat list \<Rightarrow> exfat \<Rightarrow> bool \<times> exfat" where
  "copy_sectors old_lba new_lba [] st = (True, st)"
| "copy_sectors old_lba new_lba (s # ss) st =
     (case exfat_sector_read st (old_lba + of_nat s) of None \<Rightarrow> (False, st)
      | Some temp \<Rightarrow>
        (case exfat_sector_write (new_lba + of_nat s) temp st of None \<Rightarrow> (False, st)
         | Some st \<Rightarrow> copy_sectors old_lba new_lba ss st))"

function append_loop :: "u64 \<Rightarrow> nat \<Rightarrow> bytes \<Rightarrow> exfat \<Rightarrow> bool \<times> exfat" where
  "append_loop start_lba current_offset src st =
     (if src = [] then (True, st)
      else let sec_index = current_offset div 512;
               sec_offset = current_offset mod 512;
               write_len = min (512 - sec_offset) (length src)
           in case (if sec_offset > 0 then exfat_sector_read st (start_lba + of_nat sec_index)
                    else Some (replicate 512 0)) of
                None \<Rightarrow> (False, st)
              | Some temp \<Rightarrow>
                (case exfat_sector_write (start_lba + of_nat sec_index)
                        (buf_put temp sec_offset (take write_len src)) st of
                   None \<Rightarrow> (False, st)
                 | Some st \<Rightarrow> append_loop start_lba (current_offset + write_len)
                                (drop write_len src) st))"
  by pat_completeness auto
termination by (relation "measure (\<lambda>(lba, off, src, st). length src)") (auto simp: min_def)

declare append_loop.simps [simp del]

definition exfat_append_file :: "bytes \<Rightarrow> bytes \<Rightarrow> u64 \<Rightarrow> exfat \<Rightarrow> (int \<times> exfat) option" where
  "exfat_append_file name data count st =
     (case exfat_resolve_entry st name of
        None \<Rightarrow> Some (-1, st)
      | Some target \<Rightarrow>
        if count = 0 then Some (0, st)
        else let new_total = tsize target + count;
                 old_clusters = cluster_span (tsize target);
                 new_clusters = ucast ((new_total + 4095) div 4096);
                 (active, st) =
                   (if new_clusters > old_clusters
                    then let (allocated, st) = exfat_alloc_blocks new_clusters st in
                         if allocated = 0 then (None, st)
                         else let (ok, st) = copy_sectors (exfat_cluster_lba st (tcluster target))
                                    (exfat_cluster_lba st allocated)
                                    [0..<unat ((tsize target + 511) div 512)] st
                              in if \<not> ok then (None, st)
                                 else (Some allocated,
                                       exfat_free_blocks (tcluster target) old_clusters st)
                    else (Some (tcluster target), st))
             in (case active of None \<Rightarrow> Some (-1, st)
             | Some active_cluster \<Rightarrow>
               if length data < unat count then None
               else let (ok, st) = append_loop (exfat_cluster_lba st active_cluster)
                                     (unat (tsize target)) (take (unat count) data) st
                    in if \<not> ok then Some (-1, st)
                       else finish_entry target (Some active_cluster) new_total st))"

function read_loop :: "exfat \<Rightarrow> u64 \<Rightarrow> nat \<Rightarrow> nat \<Rightarrow> bytes option" where
  "read_loop st lba offset left =
     (if left = 0 then Some []
      else do {
        sector \<leftarrow> exfat_sector_read st lba;
        let sector_offset = offset mod 512;
        let chunk = min (512 - sector_offset) left;
        rest \<leftarrow> read_loop st (lba + 1) 0 (left - chunk);
        Some (take chunk (drop sector_offset sector) @ rest)
      })"
  by pat_completeness auto
termination by (relation "measure (\<lambda>(st, lba, off, left). left)") (auto simp: min_def)

declare read_loop.simps [simp del]

text \<open>The result code and the bytes stored at the start of \<open>out_buf\<close>; the first argument says
  whether \<open>out_buf\<close> is a null pointer.\<close>

definition exfat_read_file_at :: "exfat \<Rightarrow> bytes \<Rightarrow> bool \<Rightarrow> u64 \<Rightarrow> u64 \<Rightarrow> int \<times> bytes" where
  "exfat_read_file_at st name null offset max_bytes =
     (if null \<and> max_bytes \<noteq> 0 then (-1, [])
      else case exfat_resolve_entry st name of None \<Rightarrow> (-1, [])
      | Some target \<Rightarrow>
        if offset \<ge> tsize target \<or> max_bytes = 0 then (0, [])
        else let base_lba = exfat_cluster_lba st (tcluster target) + offset div 512;
                 bytes_to_read = min (tsize target - offset) max_bytes
             in (case read_loop st base_lba (unat offset) (unat bytes_to_read) of
                   None \<Rightarrow> (-1, []) | Some bs \<Rightarrow> (sint bytes_to_read, bs)))"

definition exfat_read_file :: "exfat \<Rightarrow> bytes \<Rightarrow> bool \<Rightarrow> u64 \<Rightarrow> int \<times> bytes" where
  "exfat_read_file st name null max_bytes = exfat_read_file_at st name null 0 max_bytes"

fun clear_in_use :: "bytes \<Rightarrow> nat \<Rightarrow> nat \<Rightarrow> bytes option" where
  "clear_in_use sector i 0 = Some sector"
| "clear_in_use sector i (Suc n) =
     do {
       t \<leftarrow> buf_get sector i;
       sector \<leftarrow> buf_set sector i (t AND 0x7F);
       clear_in_use sector (i + 32) n
     }"

definition exfat_delete_node :: "bytes \<Rightarrow> exfat \<Rightarrow> (int \<times> exfat) option" where
  "exfat_delete_node name st =
     (case exfat_resolve_entry st name of
        None \<Rightarrow> Some (-1, st)
      | Some target \<Rightarrow>
        let st = exfat_free_blocks (tcluster target) (cluster_span (tsize target)) st in
        (case exfat_sector_read st (entry_lba target) of
           None \<Rightarrow> Some (-1, st)
         | Some sector \<Rightarrow>
           do {
             n \<leftarrow> buf_get sector (entry_offset target + 1);
             sector \<leftarrow> clear_in_use sector (entry_offset target) (unat (n + 1));
             Some (case exfat_sector_write (entry_lba target) sector st of
                     None \<Rightarrow> (-1, st) | Some st \<Rightarrow> (0, st))
           }))"

fun count_back :: "bytes \<Rightarrow> nat \<Rightarrow> nat \<Rightarrow> nat" where
  "count_back sector tail_offset n =
     (if sector ! tail_offset = 10 then n
      else case tail_offset of 0 \<Rightarrow> Suc n | Suc t \<Rightarrow> count_back sector t (Suc n))"

definition last_line_length :: "bytes \<Rightarrow> nat \<Rightarrow> nat" where
  "last_line_length sector tail_offset =
     (if sector ! tail_offset = 10
      then count_back sector
             (if tail_offset > 0 \<and> sector ! (tail_offset - 1) \<noteq> 10 then tail_offset - 1
              else tail_offset) 1
      else count_back sector tail_offset 0)"

definition exfat_truncate_last_line :: "bytes \<Rightarrow> exfat \<Rightarrow> (int \<times> exfat) option" where
  "exfat_truncate_last_line name st =
     (case exfat_resolve_entry st name of
        None \<Rightarrow> Some (-1, st)
      | Some target \<Rightarrow>
        if tsize target = 0 then Some (-1, st)
        else case exfat_sector_read st
                    (exfat_cluster_lba st (tcluster target) + (tsize target - 1) div 512) of
               None \<Rightarrow> Some (-1, st)
             | Some sector \<Rightarrow>
               let remove_count = of_nat (last_line_length sector (unat ((tsize target - 1) mod 512)));
                   new_len = (if tsize target > remove_count then tsize target - remove_count else 0)
               in finish_entry target None new_len st)"

section \<open>Listing and walking directories\<close>

fun list_chars :: "bytes \<Rightarrow> nat \<Rightarrow> nat \<Rightarrow> bytes \<Rightarrow> bool \<times> bytes" where
  "list_chars buf i 0 name = (True, name)"
| "list_chars buf i (Suc n) name =
     (if length name < 255
      then let codepoint = rd16 buf i in
           if codepoint = 0 then (True, name)
           else if codepoint > 0x7F then (False, name)
           else list_chars buf (i + 2) n (name @ [ucast codepoint])
      else (True, name))"

function list_name :: "bytes \<Rightarrow> nat \<Rightarrow> nat \<Rightarrow> nat \<Rightarrow> bytes \<Rightarrow> bool \<times> bytes" where
  "list_name buf offset secondary_count secondary name =
     (if secondary \<le> secondary_count
      then if offset + secondary * 32 + 32 > 4096 then (False, name)
           else if buf ! (offset + secondary * 32) \<noteq> EXFAT_TYPE_NAME
                then list_name buf offset secondary_count (Suc secondary) name
                else let (supported, name) = list_chars buf (offset + secondary * 32 + 2) 15 name
                     in if supported then list_name buf offset secondary_count (Suc secondary) name
                        else (False, name)
      else (True, name))"
  by pat_completeness auto
termination by (relation "measure (\<lambda>(buf, offset, sc, sec, name). Suc sc - sec)") auto

declare list_name.simps [simp del]

function list_scan :: "bytes \<Rightarrow> bool \<Rightarrow> nat \<Rightarrow> bytes list" where
  "list_scan buf include_directories offset =
     (if offset \<le> 4096 - 96 \<and> buf ! offset \<noteq> 0
      then if buf ! offset \<noteq> EXFAT_TYPE_FILE then list_scan buf include_directories (offset + 32)
           else let secondary_count = unat (buf ! (offset + 1));
                    (supported, name) = list_name buf offset secondary_count 2 [];
                    rest = list_scan buf include_directories (offset + secondary_count * 32 + 32)
                in if \<not> include_directories \<and> rd16 buf (offset + 4) AND 0x10 \<noteq> 0 then rest
                   else if supported \<and> name \<noteq> [] then name # rest else rest
      else [])"
  by pat_completeness auto
termination by (relation "measure (\<lambda>(buf, incl, offset). 4096 - offset)") auto

declare list_scan.simps [simp del]

text \<open>The count and the names stored in the caller's array of \<open>cap\<close> names.\<close>

definition exfat_list_entries_impl ::
    "exfat \<Rightarrow> bool \<Rightarrow> nat \<Rightarrow> bool \<Rightarrow> int \<times> bytes list" where
  "exfat_list_entries_impl st null cap include_directories =
     (if null \<and> cap \<noteq> 0 then (-1, [])
      else case read_cluster st (g_current_cluster st) of None \<Rightarrow> (-1, [])
      | Some buf \<Rightarrow>
        let names = list_scan buf include_directories 0
        in (int (length names), take cap names))"

definition exfat_list_files :: "exfat \<Rightarrow> bool \<Rightarrow> nat \<Rightarrow> int \<times> bytes list" where
  "exfat_list_files st null cap = exfat_list_entries_impl st null cap False"

definition exfat_list_entries :: "exfat \<Rightarrow> bool \<Rightarrow> nat \<Rightarrow> int \<times> bytes list" where
  "exfat_list_entries st null cap = exfat_list_entries_impl st null cap True"

definition is_trailing :: "u8 \<Rightarrow> bool" where
  "is_trailing c \<longleftrightarrow> c = 10 \<or> c = 13 \<or> c = 32"

definition strip_trailing :: "bytes \<Rightarrow> bytes" where
  "strip_trailing s = rev (dropWhile is_trailing (rev s))"

text \<open>\<open>strcpy\<close> and \<open>strcat\<close> into an array of 256 characters.\<close>

definition fit256 :: "bytes \<Rightarrow> bytes option" where
  "fit256 s = (if length s < 256 then Some s else None)"

abbreviation (input) slash :: u8 where "slash \<equiv> 47"

text \<open>Walking the components of \<open>path\<close> again from the root after \<open>..\<close>: components that do not
  name a directory are skipped.\<close>

function rewalk :: "exfat \<Rightarrow> u32 \<Rightarrow> bytes \<Rightarrow> u32" where
  "rewalk st cluster path =
     (if path = [] then cluster
      else let tok = takeWhile (\<lambda>c. c \<noteq> slash) path;
               cluster = (if tok = [] then cluster
                          else case exfat_resolve_entry (st \<lparr> g_current_cluster := cluster \<rparr>) (take 63 tok) of
                                 None \<Rightarrow> cluster
                               | Some target \<Rightarrow> if tis_dir target then tcluster target else cluster)
           in rewalk st cluster (drop (length tok + 1) path))"
  by pat_completeness auto
termination by (relation "measure (\<lambda>(st, cluster, path). length path)") auto

declare rewalk.simps [simp del]

definition parent_path :: "bytes \<Rightarrow> bytes" where
  "parent_path p =
     (let q = rev (drop 1 (dropWhile (\<lambda>c. c \<noteq> slash) (rev p))) in if q = [] then [slash] else q)"

text \<open>One component of a path: the error code, or the cluster and path after it.\<close>

definition walk_token :: "exfat \<Rightarrow> bytes \<Rightarrow> u32 \<Rightarrow> bytes \<Rightarrow> (int + u32 \<times> bytes) option" where
  "walk_token st token cluster new_path =
     (if token = asc ''..'' then
        (if new_path = [slash] then Some (Inr (cluster, new_path))
         else let p = parent_path new_path
              in Some (Inr (if p = [slash] then g_root_cluster st
                            else rewalk st (g_root_cluster st) (drop 1 p), p)))
      else if token = asc ''.'' then Some (Inr (cluster, new_path))
      else case exfat_resolve_entry (st \<lparr> g_current_cluster := cluster \<rparr>) token of
             None \<Rightarrow> Some (Inl (-1))
           | Some target \<Rightarrow>
             if \<not> tis_dir target then Some (Inl (-2))
             else do {
               p \<leftarrow> fit256 (if new_path = [slash] then new_path else new_path @ [slash]);
               p \<leftarrow> fit256 (p @ token);
               Some (Inr (tcluster target, p))
             })"

function walk_path :: "exfat \<Rightarrow> bytes \<Rightarrow> u32 \<Rightarrow> bytes \<Rightarrow> (int + u32 \<times> bytes) option" where
  "walk_path st path cluster new_path =
     (if path = [] then Some (Inr (cluster, new_path))
      else let tok = takeWhile (\<lambda>c. c \<noteq> slash) path;
               rest = drop (length tok + 1) path
           in if tok = [] then walk_path st rest cluster new_path
              else do {
                r \<leftarrow> walk_token st (take 63 tok) cluster new_path;
                (case r of Inl e \<Rightarrow> Some (Inl e)
                 | Inr (cluster, new_path) \<Rightarrow> walk_path st rest cluster new_path)
              })"
  by pat_completeness auto
termination by (relation "measure (\<lambda>(st, path, cluster, np). length path)") auto

declare walk_path.simps [simp del]

definition exfat_change_directory :: "bytes option \<Rightarrow> exfat \<Rightarrow> (int \<times> exfat) option" where
  "exfat_change_directory path st =
     (case path of None \<Rightarrow> Some (0, st)
      | Some path \<Rightarrow>
        if path = [] then Some (0, st)
        else do {
          temp \<leftarrow> fit256 path;
          let clean_path = dropWhile (\<lambda>c. c = 32) (strip_trailing temp);
          if clean_path = [] then Some (0, st)
          else do {
            r \<leftarrow> (if hd clean_path = slash
                   then walk_path st clean_path (g_root_cluster st) [slash]
                   else walk_path st clean_path (g_current_cluster st) (g_current_path st));
            Some (case r of Inl e \<Rightarrow> (e, st)
                  | Inr (cluster, new_path) \<Rightarrow>
                    (0, st \<lparr> g_current_cluster := cluster, g_current_path := new_path \<rparr>))
          }
        })"

definition exfat_get_working_dir :: "exfat \<Rightarrow> bytes" where
  "exfat_get_working_dir st = g_current_path st"

definition exfat_get_space_metrics :: "exfat \<Rightarrow> (u32 \<times> u32) option" where
  "exfat_get_space_metrics st =
     map_option (\<lambda>boot_sector. (rd32 boot_sector 88, rd32 boot_sector 88))
       (exfat_sector_read st EXFAT_PARTITION_LBA)"

end
