(* ===== verification/Vfs.thy ===== *)
theory Vfs
  imports Exfat
begin

text \<open>
  The drive letters and paths of \<open>helper/drivers/filesystem/vfs.c\<close> over the exFAT driver. The
  record \<open>vfs\<close> holds the static variables of the file around the driver's state. Strings are
  lists of characters as in \<open>Exfat\<close>; \<open>None\<close> is undefined behaviour or, for the copying loop, a
  run that does not return.
\<close>

record vfs =
  fat :: exfat
  vfs_drive :: u8
  drive_mounted :: "u8 \<Rightarrow> bool"
  drive_dirs :: "u8 \<Rightarrow> bytes"

abbreviation (input) ATA_PRIMARY_MASTER :: u8 where "ATA_PRIMARY_MASTER \<equiv> 0"
abbreviation (input) ATA_PRIMARY_SLAVE :: u8 where "ATA_PRIMARY_SLAVE \<equiv> 1"

abbreviation vfs_present :: "vfs \<Rightarrow> u8 \<Rightarrow> bool" where
  "vfs_present v drive \<equiv> drive_present (blk (fat v)) drive"

definition vfs_select :: "u8 \<Rightarrow> vfs \<Rightarrow> vfs option" where
  "vfs_select drive v =
     map_option (\<lambda>d. v \<lparr> fat := (fat v) \<lparr> blk := d \<rparr> \<rparr>) (drive_select drive (blk (fat v)))"

definition vfs_mount :: "vfs \<Rightarrow> int \<times> vfs" where
  "vfs_mount v = (let (r, f) = exfat_mount (fat v) in (r, v \<lparr> fat := f \<rparr>))"

definition vfs_chdir :: "bytes \<Rightarrow> vfs \<Rightarrow> (int \<times> vfs) option" where
  "vfs_chdir path v =
     do { (r, f) \<leftarrow> exfat_change_directory (Some path) (fat v); Some (r, v \<lparr> fat := f \<rparr>) }"

section \<open>Drives\<close>

definition fs_mount_or_format_drive :: "u8 \<Rightarrow> vfs \<Rightarrow> int \<times> vfs" where
  "fs_mount_or_format_drive drive v =
     (let was_mounted = drive_mounted v drive in
      if \<not> vfs_present v drive then (-1, v)
      else case vfs_select drive v of None \<Rightarrow> (-1, v)
      | Some v \<Rightarrow>
        let (mount_result, v) = vfs_mount v;
            (ok, mount_result, v) =
              (if mount_result = 0
               then let (r, f) = exfat_wipe_and_format (fat v); v = v \<lparr> fat := f \<rparr> in
                    if r \<noteq> 0 then (False, mount_result, v)
                    else let (m, v) = vfs_mount v in (True, m, v)
               else (True, mount_result, v))
        in if \<not> ok \<or> mount_result \<noteq> 1 then (-1, v)
           else (0, v \<lparr> drive_mounted := (drive_mounted v)(drive := True),
                        drive_dirs := (if was_mounted then drive_dirs v
                                       else (drive_dirs v)(drive := asc ''/'')) \<rparr>))"

definition fs_select_drive_internal :: "u8 \<Rightarrow> vfs \<Rightarrow> (int \<times> vfs) option" where
  "fs_select_drive_internal drive v =
     (if drive \<ge> ATA_DRIVE_COUNT \<or> \<not> vfs_present v drive then Some (-1, v)
      else if drive = vfs_drive v \<and> drive_mounted v drive then Some (0, v)
      else
        let current_dir = exfat_get_working_dir (fat v);
            v = (if drive_mounted v (vfs_drive v) \<and> length current_dir < 256
                 then v \<lparr> drive_dirs := (drive_dirs v)(vfs_drive v := current_dir) \<rparr> else v);
            previous_drive = vfs_drive v;
            (r, v) = fs_mount_or_format_drive drive v
        in if r \<noteq> 0
           then if previous_drive < ATA_DRIVE_COUNT \<and> vfs_present v previous_drive
                then let v = (case vfs_select previous_drive v of None \<Rightarrow> v | Some v \<Rightarrow> v);
                         v = v \<lparr> vfs_drive := previous_drive \<rparr>
                     in if drive_mounted v previous_drive
                        then do { (_, v) \<leftarrow> vfs_chdir (drive_dirs v previous_drive) (snd (vfs_mount v));
                                  Some (-1, v) }
                        else Some (-1, v)
                else Some (-1, v)
           else do {
             let v = v \<lparr> vfs_drive := drive \<rparr>;
             (r, v) \<leftarrow> vfs_chdir (drive_dirs v drive) v;
             if r = 0 then Some (0, v)
             else do {
               (r, v) \<leftarrow> vfs_chdir (asc ''/'') (v \<lparr> drive_dirs := (drive_dirs v)(drive := asc ''/'') \<rparr>);
               if r = 0 then Some (0, v)
               else Some (-1, v \<lparr> drive_mounted := (drive_mounted v)(drive := False) \<rparr>)
             }
           })"

section \<open>Paths\<close>

text \<open>The path without its drive letter, with the drive selected; the inner \<open>None\<close> is the error
  result.\<close>

definition fs_prepare_path :: "bytes \<Rightarrow> nat \<Rightarrow> vfs \<Rightarrow> (bytes option \<times> vfs) option" where
  "fs_prepare_path path out_size v =
     do {
       r \<leftarrow> (if 2 \<le> length path \<and> path ! 0 \<ge> 97 \<and> path ! 0 \<le> 122 \<and> path ! 1 = 58
             then if path ! 0 \<noteq> 99 \<and> path ! 0 \<noteq> 100 then Some (None, v)
                  else do {
                    (r, v) \<leftarrow> fs_select_drive_internal (path ! 0 - 99) v;
                    if r \<noteq> 0 then Some (None, v)
                    else Some (Some (if drop 2 path = [] then asc ''/'' else drop 2 path), v)
                  }
             else Some (Some path, v));
       (case r of
          (None, v) \<Rightarrow> Some (None, v)
        | (Some path, v) \<Rightarrow>
          if \<not> drive_mounted v (vfs_drive v) \<or> length path \<ge> out_size then Some (None, v)
          else Some (Some path, v))
     }"

fun strip_slashes :: "bytes \<Rightarrow> bytes" where
  "strip_slashes s = (if 1 < length s \<and> last s = slash then strip_slashes (butlast s) else s)"

declare strip_slashes.simps [simp del]

text \<open>\<open>fs_sanitize_path(in, out, 256)\<close>: \<open>previous\<close> is what \<open>out\<close> holds before, \<open>None\<close> when it is not
  initialised; a path of 255 or more characters is not copied.\<close>

definition fs_sanitize_path :: "bytes \<Rightarrow> bytes option \<Rightarrow> bytes option" where
  "fs_sanitize_path path previous =
     do {
       out \<leftarrow> (let s = dropWhile (\<lambda>c. c = 32) path in if length s < 255 then Some s else previous);
       Some (strip_slashes (strip_trailing out))
     }"

definition fs_split_path :: "bytes \<Rightarrow> (bytes \<times> bytes) option option" where
  "fs_split_path path =
     (if path = [] then Some None
      else do {
        clean \<leftarrow> fs_sanitize_path path None;
        Some (if clean = [] then None
              else if clean = [slash] then Some ([slash], asc ''.'')
              else if slash \<notin> set clean then Some ([], clean)
              else let filename = rev (takeWhile (\<lambda>c. c \<noteq> slash) (rev clean));
                       parent = take (length clean - length filename - 1) clean
                   in Some (if parent = [] then [slash] else parent, filename))
      })"

text \<open>Entering the directory of a path: the last component and, when the directory was changed,
  the working directory to return to.\<close>

definition fs_enter_path :: "bytes option \<Rightarrow> vfs \<Rightarrow> ((bytes \<times> bytes option) option \<times> vfs) option" where
  "fs_enter_path path v =
     (case path of None \<Rightarrow> Some (None, v)
      | Some path \<Rightarrow>
        if path = [] then Some (None, v)
        else do {
          (resolved, v) \<leftarrow> fs_prepare_path path 256 v;
          (case resolved of None \<Rightarrow> Some (None, v)
           | Some resolved \<Rightarrow>
             do {
               parts \<leftarrow> fs_split_path resolved;
               (case parts of None \<Rightarrow> Some (None, v)
                | Some (parent, leaf) \<Rightarrow>
                  if parent = [] then Some (Some (leaf, None), v)
                  else do {
                    let saved_cwd = exfat_get_working_dir (fat v);
                    (r, v) \<leftarrow> vfs_chdir parent v;
                    if r \<noteq> 0 then Some (None, v) else Some (Some (leaf, Some saved_cwd), v)
                  })
             })
        })"

definition fs_leave_path :: "bytes option \<Rightarrow> vfs \<Rightarrow> vfs option" where
  "fs_leave_path saved_cwd v =
     (case saved_cwd of None \<Rightarrow> Some v
      | Some cwd \<Rightarrow> do { (_, v) \<leftarrow> vfs_chdir cwd v; Some v })"

text \<open>The shape every file operation has: enter, run the driver's operation, leave.\<close>

definition at_path ::
    "bytes option \<Rightarrow> 'a \<Rightarrow> (bytes \<Rightarrow> exfat \<Rightarrow> ('a \<times> exfat) option) \<Rightarrow> vfs \<Rightarrow> ('a \<times> vfs) option" where
  "at_path path fail op v =
     do {
       (r, v) \<leftarrow> fs_enter_path path v;
       (case r of None \<Rightarrow> Some (fail, v)
        | Some (leaf, saved) \<Rightarrow>
          do {
            (rc, f) \<leftarrow> op leaf (fat v);
            v \<leftarrow> fs_leave_path saved (v \<lparr> fat := f \<rparr>);
            Some (rc, v)
          })
     }"

section \<open>File operations\<close>

definition to_int :: "int \<Rightarrow> int" where
  "to_int n = sint (word_of_int n :: 32 word)"

definition fs_format :: "vfs \<Rightarrow> int \<times> vfs" where
  "fs_format v =
     (let d = vfs_drive v;
          (ok, v) =
            (if \<not> vfs_present v d then (False, v)
             else let (r, f) = exfat_wipe_and_format (fat v); v = v \<lparr> fat := f \<rparr> in
                  if r \<noteq> 0 then (False, v)
                  else let (m, v) = vfs_mount v in (m = 1, v))
      in if ok then (0, v \<lparr> drive_mounted := (drive_mounted v)(d := True),
                            drive_dirs := (drive_dirs v)(d := asc ''/'') \<rparr>)
         else (-1, v \<lparr> drive_mounted := (drive_mounted v)(d := False) \<rparr>))"

definition fs_create :: "bytes option \<Rightarrow> vfs \<Rightarrow> (int \<times> vfs) option" where
  "fs_create filename = at_path filename (-1) (\<lambda>leaf f. Some (exfat_create_node (Some leaf) False f))"

definition fs_mkdir :: "bytes option \<Rightarrow> vfs \<Rightarrow> (int \<times> vfs) option" where
  "fs_mkdir foldername = at_path foldername (-1) (\<lambda>leaf f. Some (exfat_create_node (Some leaf) True f))"

definition fs_exists :: "bytes option \<Rightarrow> vfs \<Rightarrow> (int \<times> vfs) option" where
  "fs_exists filename =
     at_path filename 0 (\<lambda>leaf f. Some (if exfat_resolve_entry f leaf \<noteq> None then 1 else 0, f))"

definition fs_get_info :: "bytes option \<Rightarrow> vfs \<Rightarrow> ((u64 \<times> bool) option \<times> vfs) option" where
  "fs_get_info filename v =
     (case filename of None \<Rightarrow> Some (None, v)
      | Some path \<Rightarrow>
        do {
          (resolved, v) \<leftarrow> fs_prepare_path path 256 v;
          (case resolved of None \<Rightarrow> Some (None, v)
           | Some resolved \<Rightarrow>
             if resolved = asc ''/'' \<or> resolved = asc ''.'' then Some (Some (0, True), v)
             else at_path (Some resolved) None (\<lambda>leaf f. Some (exfat_get_info f (Some leaf), f)) v)
        })"

definition fs_isdir :: "bytes option \<Rightarrow> vfs \<Rightarrow> (int \<times> vfs) option" where
  "fs_isdir filename v =
     do {
       (r, v) \<leftarrow> fs_get_info filename v;
       Some (case r of None \<Rightarrow> 0 | Some (_, is_dir) \<Rightarrow> if is_dir then 1 else 0, v)
     }"

definition fs_delete :: "bytes option \<Rightarrow> vfs \<Rightarrow> (int \<times> vfs) option" where
  "fs_delete filename v =
     do {
       (r, v) \<leftarrow> at_path filename (-1) exfat_delete_node v;
       Some (if r = 0 then 1 else -1, v)
     }"

definition fs_delete_last_line :: "bytes option \<Rightarrow> vfs \<Rightarrow> (int \<times> vfs) option" where
  "fs_delete_last_line filename = at_path filename (-1) exfat_truncate_last_line"

text \<open>Reading into a caller's buffer, given by whether it is null: the code and the bytes.\<close>

definition fs_read_raw_at ::
    "bytes option \<Rightarrow> bool \<Rightarrow> u64 \<Rightarrow> u64 \<Rightarrow> vfs \<Rightarrow> ((int \<times> bytes) \<times> vfs) option" where
  "fs_read_raw_at filename null offset max_size v =
     (if null then Some ((-1, []), v)
      else do {
        (r, v) \<leftarrow> at_path filename (-1, [])
                     (\<lambda>leaf f. Some (exfat_read_file_at f leaf False offset max_size, f)) v;
        Some ((to_int (fst r), snd r), v)
      })"

definition fs_read_raw ::
    "bytes option \<Rightarrow> bool \<Rightarrow> u64 \<Rightarrow> vfs \<Rightarrow> ((int \<times> bytes) \<times> vfs) option" where
  "fs_read_raw filename null max_size v =
     (if null then Some ((-1, []), v)
      else do {
        (r, v) \<leftarrow> at_path filename (-1, [])
                     (\<lambda>leaf f. Some (exfat_read_file f leaf False max_size, f)) v;
        Some ((to_int (fst r), snd r), v)
      })"

definition fs_read ::
    "bytes option \<Rightarrow> bool \<Rightarrow> u64 \<Rightarrow> vfs \<Rightarrow> ((int \<times> bytes) \<times> vfs) option" where
  "fs_read filename null max_size v = fs_read_raw filename null max_size v"

definition fs_write_bytes :: "bytes option \<Rightarrow> bytes \<Rightarrow> u32 \<Rightarrow> vfs \<Rightarrow> (int \<times> vfs) option" where
  "fs_write_bytes filename input_buffer sz =
     at_path filename (-1) (\<lambda>leaf. exfat_write_file leaf input_buffer (ucast sz))"

definition fs_write :: "bytes option \<Rightarrow> bytes option \<Rightarrow> vfs \<Rightarrow> (int \<times> vfs) option" where
  "fs_write filename input_buffer v =
     (case input_buffer of None \<Rightarrow> Some (-1, v)
      | Some s \<Rightarrow> fs_write_bytes filename s (of_nat (length s)) v)"

definition fs_append_data :: "bytes option \<Rightarrow> bytes option \<Rightarrow> u32 \<Rightarrow> vfs \<Rightarrow> (int \<times> vfs) option" where
  "fs_append_data filename data sz v =
     (case data of
        None \<Rightarrow> if sz \<noteq> 0 then Some (-1, v)
                else at_path filename (-1) (\<lambda>leaf. exfat_append_file leaf [] 0) v
      | Some d \<Rightarrow> at_path filename (-1) (\<lambda>leaf. exfat_append_file leaf d (ucast sz)) v)"

definition fs_list_entries_common ::
    "bytes option \<Rightarrow> bool \<Rightarrow> nat \<Rightarrow> bool \<Rightarrow> vfs \<Rightarrow> ((int \<times> bytes list) \<times> vfs) option" where
  "fs_list_entries_common directory null cap include_directories v =
     (case directory of None \<Rightarrow> Some ((-1, []), v)
      | Some directory \<Rightarrow>
        if directory = [] \<or> (null \<and> cap \<noteq> 0) then Some ((-1, []), v)
        else do {
          (resolved, v) \<leftarrow> fs_prepare_path directory 256 v;
          (case resolved of None \<Rightarrow> Some ((-1, []), v)
           | Some resolved \<Rightarrow>
             let saved_cwd = exfat_get_working_dir (fat v) in
             if length saved_cwd \<ge> 256 then Some ((-1, []), v)
             else do {
               (r, v) \<leftarrow> vfs_chdir resolved v;
               if r \<noteq> 0 then Some ((-1, []), v)
               else do {
                 let (count, names) = exfat_list_entries_impl (fat v) null cap include_directories;
                 (r, v) \<leftarrow> vfs_chdir saved_cwd v;
                 Some (if r \<noteq> 0 \<or> count < 0 \<or> count > int cap then (-1, names) else (count, names), v)
               }
             })
        })"

definition fs_list_files ::
    "bytes option \<Rightarrow> bool \<Rightarrow> nat \<Rightarrow> vfs \<Rightarrow> ((int \<times> bytes list) \<times> vfs) option" where
  "fs_list_files directory null cap = fs_list_entries_common directory null cap False"

definition fs_list_entries ::
    "bytes option \<Rightarrow> bool \<Rightarrow> nat \<Rightarrow> vfs \<Rightarrow> ((int \<times> bytes list) \<times> vfs) option" where
  "fs_list_entries directory null cap = fs_list_entries_common directory null cap True"

section \<open>Copying and moving\<close>

partial_function (option) copy_loop ::
    "bytes option \<Rightarrow> bytes option \<Rightarrow> u64 \<Rightarrow> vfs \<Rightarrow> (int \<times> vfs) option" where
  "copy_loop source dest offset v =
     do {
       ((bytes_read, raw), v) \<leftarrow> fs_read_raw_at source False offset 4096 v;
       if bytes_read < 0 then do { (_, v) \<leftarrow> fs_delete dest v; Some (-1, v) }
       else if bytes_read = 0 then Some (0, v)
       else do {
         (r, v) \<leftarrow> fs_append_data dest (Some raw) (word_of_int bytes_read) v;
         if r \<noteq> 0 then do { (_, v) \<leftarrow> fs_delete dest v; Some (-1, v) }
         else copy_loop source dest (offset + word_of_int bytes_read) v
       }
     }"

definition fs_copy :: "bytes option \<Rightarrow> bytes option \<Rightarrow> vfs \<Rightarrow> (int \<times> vfs) option" where
  "fs_copy source dest v =
     do {
       (e, v) \<leftarrow> fs_exists dest v;
       (ok, v) \<leftarrow> (if e \<noteq> 0 then do { (d, v) \<leftarrow> fs_delete dest v; Some (d = 1, v) } else Some (True, v));
       if \<not> ok then Some (-1, v)
       else do {
         (c, v) \<leftarrow> fs_create dest v;
         if c \<noteq> 0 then Some (-1, v) else copy_loop source dest 0 v
       }
     }"

definition fs_move :: "bytes option \<Rightarrow> bytes option \<Rightarrow> vfs \<Rightarrow> (int \<times> vfs) option" where
  "fs_move source dest v =
     (case (source, dest) of
        (Some s, Some d) \<Rightarrow>
          if s = [] \<or> d = [] \<or> s = d then Some (-1, v)
          else do {
            (e, v) \<leftarrow> fs_exists source v;
            if e = 0 then Some (-1, v)
            else do {
              (e, v) \<leftarrow> fs_exists dest v;
              if e \<noteq> 0 then Some (-1, v)
              else do {
                (c, v) \<leftarrow> fs_copy source dest v;
                if c \<noteq> 0 then Some (-1, v)
                else do {
                  (x, v) \<leftarrow> fs_delete source v;
                  if x \<noteq> 1 then do { (_, v) \<leftarrow> fs_delete dest v; Some (-1, v) } else Some (0, v)
                }
              }
            }
          }
      | _ \<Rightarrow> Some (-1, v))"

definition fs_rename :: "bytes option \<Rightarrow> bytes option \<Rightarrow> vfs \<Rightarrow> (int \<times> vfs) option" where
  "fs_rename filename newname v =
     (case (filename, newname) of
        (Some s, Some d) \<Rightarrow>
          if s = [] \<or> d = [] then Some (0, v)
          else do {
            (e, v) \<leftarrow> fs_exists filename v;
            if e = 0 then Some (0, v)
            else do {
              (e, v) \<leftarrow> fs_exists newname v;
              if e \<noteq> 0 then Some (0, v)
              else do {
                (c, v) \<leftarrow> fs_copy filename newname v;
                if c \<noteq> 0 then Some (0, v)
                else do { (_, v) \<leftarrow> fs_delete filename v; Some (1, v) }
              }
            }
          }
      | _ \<Rightarrow> Some (0, v))"

section \<open>Working directory and mounting\<close>

definition fs_chdir :: "bytes option \<Rightarrow> vfs \<Rightarrow> (int \<times> vfs) option" where
  "fs_chdir folder v =
     (case folder of None \<Rightarrow> Some (-1, v)
      | Some folder \<Rightarrow>
        if folder = [] then Some (-1, v)
        else do {
          let previous_drive = vfs_drive v;
          (resolved, v) \<leftarrow> fs_prepare_path folder 256 v;
          (case resolved of None \<Rightarrow> Some (-1, v)
           | Some clean \<Rightarrow>
             do {
               let clean = (if clean = [] then asc ''/'' else clean);
               clean \<leftarrow> fs_sanitize_path clean (Some clean);
               if clean = [] then Some (-1, v)
               else do {
                 (r, v) \<leftarrow> vfs_chdir clean v;
                 if r \<noteq> 0
                 then if vfs_drive v \<noteq> previous_drive
                      then do { (_, v) \<leftarrow> fs_select_drive_internal previous_drive v; Some (-1, v) }
                      else Some (-1, v)
                 else Some (0, v \<lparr> drive_dirs := (drive_dirs v)
                             (vfs_drive v := exfat_get_working_dir (fat v)) \<rparr>)
               }
             })
        })"

definition fs_select_drive :: "u8 \<Rightarrow> vfs \<Rightarrow> (int \<times> vfs) option" where
  "fs_select_drive drive v = fs_select_drive_internal drive v"

definition fs_drive_present :: "u8 \<Rightarrow> vfs \<Rightarrow> bool" where
  "fs_drive_present drive v = vfs_present v drive"

definition fs_current_drive :: "vfs \<Rightarrow> u8" where
  "fs_current_drive v = vfs_drive v"

definition fs_dirname :: "vfs \<Rightarrow> bytes option" where
  "fs_dirname v =
     (if \<not> drive_mounted v (vfs_drive v) then None
      else Some ([99 + vfs_drive v, 58] @ exfat_get_working_dir (fat v)))"

definition fs_current_dir :: "vfs \<Rightarrow> bytes option" where
  "fs_current_dir v = fs_dirname v"

text \<open>Mounting at boot; the probe of the drives is the state of \<open>blk\<close>, with drive 0 selected.\<close>

definition fs_mount :: "vfs \<Rightarrow> (int \<times> vfs) option" where
  "fs_mount v =
     (let v = v \<lparr> fat := (fat v) \<lparr> blk := (blk (fat v)) \<lparr> current_drive := 0 \<rparr> \<rparr>,
                  vfs_drive := ATA_PRIMARY_MASTER, drive_mounted := (\<lambda>_. False),
                  drive_dirs := (\<lambda>_. asc ''/'') \<rparr>;
          v = fold (\<lambda>drive v. if vfs_present v drive then snd (fs_mount_or_format_drive drive v) else v)
                [0, 1] v
      in if \<not> drive_mounted v ATA_PRIMARY_MASTER then Some (0, v)
         else case vfs_select ATA_PRIMARY_MASTER v of None \<Rightarrow> Some (0, v)
         | Some v \<Rightarrow>
           let (m, v) = vfs_mount v in
           if m \<noteq> 1 then Some (0, v)
           else do {
             (r, v) \<leftarrow> vfs_chdir (drive_dirs v ATA_PRIMARY_MASTER) v;
             Some (if r \<noteq> 0 then 0 else 1, v)
           })"

end
