(* ===== verification/Clock.thy ===== *)
theory Clock
  imports Prelude
begin

text \<open>
  The wall clock of \<open>helper/time/time.c\<close>. The CMOS real-time clock is a device outside the
  program: it is a parameter \<open>rtc\<close>, where \<open>rtc k reg\<close> is what the \<open>k\<close>-th port access reads from
  register \<open>reg\<close>. \<open>time_update_time\<close> spins on the update-in-progress flag, so it is a partial
  function of the device; the formatting functions write into their static 16-byte buffers.
  The register setup of \<open>time_rtc_init\<close> is modelled as the byte it writes.
\<close>

record clock =
  second :: u8
  minute :: u8
  hour :: u8
  day :: u8
  month :: u8
  year :: u32

type_synonym rtc = "nat \<Rightarrow> u8 \<Rightarrow> u8"

definition time_rtc_init :: "u8 \<Rightarrow> u8" where
  "time_rtc_init prev = (prev AND 0xF0) OR 0x0F"

partial_function (option) rtc_wait :: "rtc \<Rightarrow> nat \<Rightarrow> nat option" where
  "rtc_wait rtc k = (if rtc k 0x0A AND 0x80 \<noteq> 0 then rtc_wait rtc (Suc k) else Some (Suc k))"

definition from_bcd :: "u8 \<Rightarrow> u8" where
  "from_bcd v = (v AND 0x0F) + (v div 16) * 10"

definition hour_from_bcd :: "u8 \<Rightarrow> u8" where
  "hour_from_bcd v = ((v AND 0x0F) + ((v AND 0x70) div 16) * 10) OR (v AND 0x80)"

definition year_from_bcd :: "u32 \<Rightarrow> u32" where
  "year_from_bcd v = (v AND 0x0F) + (v div 16) * 10"

definition to_24h :: "u8 \<Rightarrow> u8" where
  "to_24h h =
     (let is_pm = h AND 0x80; h = h AND 0x7F
      in if is_pm \<noteq> 0 \<and> h \<noteq> 12 then h + 12
         else if is_pm = 0 \<and> h = 12 then 0 else h)"

definition time_update_time :: "rtc \<Rightarrow> nat \<Rightarrow> (clock \<times> nat) option" where
  "time_update_time rtc k =
     do {
       j \<leftarrow> rtc_wait rtc k;
       let t = \<lparr> second = rtc j 0x00, minute = rtc (j + 1) 0x02, hour = rtc (j + 2) 0x04,
                 day = rtc (j + 3) 0x07, month = rtc (j + 4) 0x08,
                 year = ucast (rtc (j + 5) 0x09) \<rparr>;
       let status_b = rtc (j + 6) 0x0B;
       let t = (if status_b AND 0x04 = 0
                then \<lparr> second = from_bcd (second t), minute = from_bcd (minute t),
                       hour = hour_from_bcd (hour t), day = from_bcd (day t),
                       month = from_bcd (month t), year = year_from_bcd (year t) \<rparr>
                else t);
       let t = t \<lparr> year := year t + 2000 \<rparr>;
       let t = (if status_b AND 0x02 = 0 then t \<lparr> hour := to_24h (hour t) \<rparr> else t);
       Some (t, j + 7)
     }"

definition epoch_seconds :: "clock \<Rightarrow> u64" where
  "epoch_seconds t =
     ucast (second t) + ucast (minute t) * 60 + ucast (hour t) * 3600
     + (ucast (day t) - 1) * 86400 + (ucast (month t) - 1) * 2629800
     + (ucast (year t) - 1970) * 31557600"

definition time_get_epoch_seconds :: "rtc \<Rightarrow> nat \<Rightarrow> (u64 \<times> nat) option" where
  "time_get_epoch_seconds rtc k =
     do { (t, k) \<leftarrow> time_update_time rtc k; Some (epoch_seconds t, k) }"

definition time_chars :: "clock \<Rightarrow> bytes" where
  "time_chars t =
     [hour t div 10 + 48, hour t mod 10 + 48, 58,
      minute t div 10 + 48, minute t mod 10 + 48, 58,
      second t div 10 + 48, second t mod 10 + 48, 0]"

definition time_get :: "rtc \<Rightarrow> nat \<Rightarrow> bytes \<Rightarrow> (bytes \<times> nat) option" where
  "time_get rtc k raw_buffer =
     do { (t, k) \<leftarrow> time_update_time rtc k; Some (buf_put raw_buffer 0 (time_chars t), k) }"

definition date_chars :: "clock \<Rightarrow> bytes" where
  "date_chars t =
     (let y = year t
      in [day t div 10 + 48, day t mod 10 + 48, 47,
          month t div 10 + 48, month t mod 10 + 48, 47,
          ucast (y div 1000) + 48, ucast ((y mod 1000) div 100) + 48,
          ucast ((y mod 100) div 10) + 48, ucast (y mod 10) + 48, 0])"

definition date_get :: "rtc \<Rightarrow> nat \<Rightarrow> bytes \<Rightarrow> (bytes \<times> nat) option" where
  "date_get rtc k date_buffer =
     do { (t, k) \<leftarrow> time_update_time rtc k; Some (buf_put date_buffer 0 (date_chars t), k) }"

section \<open>Reading the clock\<close>

text \<open>What a clock chip stores for a time, in each of its four modes (bit 2 of status B set for
  binary rather than BCD values, bit 1 set for 24-hour rather than AM/PM hours).\<close>

definition to_bcd :: "u8 \<Rightarrow> u8" where
  "to_bcd v = (v div 10) * 16 + v mod 10"

definition hour12 :: "u8 \<Rightarrow> u8" where
  "hour12 h = (if h mod 12 = 0 then 12 else h mod 12)"

definition chip_number :: "u8 \<Rightarrow> u8 \<Rightarrow> u8" where
  "chip_number status_b v = (if status_b AND 0x04 = 0 then to_bcd v else v)"

definition chip_hour :: "u8 \<Rightarrow> u8 \<Rightarrow> u8" where
  "chip_hour status_b h =
     (if status_b AND 0x02 = 0
      then chip_number status_b (hour12 h) OR (if h < 12 then 0 else 0x80)
      else chip_number status_b h)"

definition chip_register :: "u8 \<Rightarrow> clock \<Rightarrow> u8 \<Rightarrow> u8" where
  "chip_register status_b t reg =
     (if reg = 0x00 then chip_number status_b (second t)
      else if reg = 0x02 then chip_number status_b (minute t)
      else if reg = 0x04 then chip_hour status_b (hour t)
      else if reg = 0x07 then chip_number status_b (day t)
      else if reg = 0x08 then chip_number status_b (month t)
      else if reg = 0x09 then chip_number status_b (ucast (year t - 2000))
      else if reg = 0x0B then status_b else 0)"

definition valid_clock :: "clock \<Rightarrow> bool" where
  "valid_clock t \<longleftrightarrow> second t < 60 \<and> minute t < 60 \<and> hour t < 24
     \<and> 1 \<le> day t \<and> day t \<le> 31 \<and> 1 \<le> month t \<and> month t \<le> 12
     \<and> 2000 \<le> year t \<and> year t < 2100"

lemma below_100_cases:
  fixes v :: u8
  assumes "v < 100"
  shows "v \<in> of_nat ` {..<100}"
proof -
  have "unat v < 100" using assms by (simp add: word_less_nat_alt)
  then show ?thesis by (intro image_eqI [of _ _ "unat v"]) simp_all
qed

lemma from_to_bcd: "v < 100 \<Longrightarrow> from_bcd (to_bcd v) = v"
proof -
  have "\<forall>v\<in>set (map of_nat [0..<100]). from_bcd (to_bcd v) = v" by code_simp
  then show "v < 100 \<Longrightarrow> from_bcd (to_bcd v) = v"
    using below_100_cases [of v] by (auto simp: atLeast0LessThan)
qed

lemma year_from_to_bcd: "v < 100 \<Longrightarrow> year_from_bcd (ucast (to_bcd v)) = ucast v"
proof -
  have "\<forall>v\<in>set (map of_nat [0..<100]). year_from_bcd (ucast (to_bcd v)) = ucast v" by code_simp
  then show "v < 100 \<Longrightarrow> year_from_bcd (ucast (to_bcd v)) = ucast v"
    using below_100_cases [of v] by (auto simp: atLeast0LessThan)
qed

definition hour_ok :: "u8 \<Rightarrow> bool" where
  "hour_ok h \<longleftrightarrow> hour_from_bcd (to_bcd h) = h
     \<and> to_24h (hour12 h OR (if h < 12 then 0 else 0x80)) = h
     \<and> to_24h (hour_from_bcd (to_bcd (hour12 h) OR (if h < 12 then 0 else 0x80))) = h"

lemma hour_ok_24: "h < 24 \<Longrightarrow> hour_ok h"
proof -
  assume "h < 24"
  then have "unat h < 24" by (simp add: word_less_nat_alt)
  then have "h \<in> set (map of_nat [0..<24])"
    by (auto intro: image_eqI [of _ _ "unat h"])
  moreover have "\<forall>h\<in>set (map of_nat [0..<24]). hour_ok h" by code_simp
  ultimately show ?thesis by blast
qed

lemma clock_eta:
  "\<lparr> second = second t, minute = minute t, hour = hour t, day = day t, month = month t,
     year = year t \<rparr> = t"
  for t :: clock
  by simp

lemma rtc_wait_ready:
  assumes "\<forall>j<n. rtc (k + j) 0x0A AND 0x80 \<noteq> 0" and "rtc (k + n) 0x0A AND 0x80 = 0"
  shows "rtc_wait rtc k = Some (k + n + 1)"
  using assms
proof (induction n arbitrary: k)
  case 0
  then show ?case by (subst rtc_wait.simps) simp
next
  case (Suc n)
  have "rtc_wait rtc (Suc k) = Some (Suc k + n + 1)"
    using Suc.prems by (intro Suc.IH) (auto dest: spec [of _ "Suc _"])
  moreover have "rtc k 0x0A AND 0x80 \<noteq> 0" using Suc.prems(1) by (auto dest: spec [of _ 0])
  ultimately show ?case by (subst rtc_wait.simps) simp
qed

text \<open>A chip that reports an update for \<open>n\<close> polls and then holds the time \<open>t\<close>.\<close>

definition chip_shows :: "rtc \<Rightarrow> nat \<Rightarrow> nat \<Rightarrow> u8 \<Rightarrow> clock \<Rightarrow> bool" where
  "chip_shows rtc k n status_b t \<longleftrightarrow>
     (\<forall>j<n. rtc (k + j) 0x0A AND 0x80 \<noteq> 0) \<and>
     (\<forall>j\<ge>n. rtc (k + j) = chip_register status_b t)"

lemma year_back:
  fixes y :: u32
  assumes "2000 \<le> y" and "y < 2100"
  shows "(ucast (ucast (y - 2000) :: u8) :: u32) = y - 2000" and "(ucast (y - 2000) :: u8) < 100"
proof -
  have u: "unat (y - 2000) = unat y - 2000"
    using assms(1) by (simp add: unat_sub word_le_nat_alt)
  have l: "unat y - 2000 < 100" using assms by (simp add: word_less_nat_alt word_le_nat_alt)
  have v: "unat (ucast (y - 2000) :: u8) = unat y - 2000"
    using l by (simp add: unat_ucast u)
  show "(ucast (y - 2000) :: u8) < 100" using v l by (simp add: word_less_nat_alt)
  show "(ucast (ucast (y - 2000) :: u8) :: u32) = y - 2000"
    using v l u by (simp add: word_unat_eq_iff unat_ucast)
qed

lemma chip_register_fields:
  "chip_register status_b t 0x00 = chip_number status_b (second t)"
  "chip_register status_b t 0x02 = chip_number status_b (minute t)"
  "chip_register status_b t 0x04 = chip_hour status_b (hour t)"
  "chip_register status_b t 0x07 = chip_number status_b (day t)"
  "chip_register status_b t 0x08 = chip_number status_b (month t)"
  "chip_register status_b t 0x09 = chip_number status_b (ucast (year t - 2000))"
  "chip_register status_b t 0x0B = status_b"
  by (simp_all add: chip_register_def)



text \<open>
  C36: the seconds counter runs backwards at the end of a 31-day month, because a month counts
  2629800 seconds (30.4 days): midnight of 1 February gets a smaller value than the last second
  of 31 January, whatever the year.
\<close>

theorem epoch_seconds_not_monotone:
  assumes "2000 \<le> y" and "y < 2100"
  shows "epoch_seconds \<lparr> second = 0, minute = 0, hour = 0, day = 1, month = 2, year = y \<rparr>
       < epoch_seconds \<lparr> second = 59, minute = 59, hour = 23, day = 31, month = 1, year = y \<rparr>"
proof -
  define m :: u64 where "m = (ucast y - 1970) * 31557600"
  have "unat (ucast y :: u64) = unat y"
    by (rule unat_ucast_small) (use unat_bound [of y] in simp)
  then have "unat m < 2 ^ 63"
    using assms
    by (simp add: m_def unat_word_ariths unat_sub word_le_nat_alt word_less_nat_alt)
  then have "2629800 + m < 2678399 + m" by (simp add: word_less_nat_alt unat_word_ariths)
  then show ?thesis by (simp add: epoch_seconds_def m_def)
qed

theorem epoch_seconds_not_monotone_witness:
  "epoch_seconds \<lparr> second = 0, minute = 0, hour = 0, day = 1, month = 2, year = 2026 \<rparr>
     < epoch_seconds \<lparr> second = 59, minute = 59, hour = 23, day = 31, month = 1, year = 2026 \<rparr>"
  using epoch_seconds_not_monotone [of 2026] by simp

end
