(* ===== verification/Linux.thy ===== *)
theory Linux
  imports LineInput UserMem Vfs Clock
begin

text \<open>
  The Linux system calls of \<open>helper/core/syscall/linux_syscall.c\<close>: the table of file descriptors, the
  files behind it, the heap and the memory mappings of a process. The state \<open>kernel\<close> joins the machine,
  the file system, the terminal, the clock and the globals of the file. A \<open>None\<close> result is a fault, a
  halt or a wait that never ends. When a disk read fails half way the bytes already stored in the
  caller's buffer are not modelled.
\<close>

abbreviation LINUX_FD_LIMIT :: nat where "LINUX_FD_LIMIT \<equiv> 32"
abbreviation USER_IO_LIMIT :: u64 where "USER_IO_LIMIT \<equiv> 65536"
abbreviation LINUX_FILE_IO_LIMIT :: u64 where "LINUX_FILE_IO_LIMIT \<equiv> 65536"
abbreviation USER_PATH_LIMIT :: u64 where "USER_PATH_LIMIT \<equiv> 256"
abbreviation USER_HEAP_BASE :: u64 where "USER_HEAP_BASE \<equiv> 0x600000000000"
abbreviation USER_MMAP_BASE :: u64 where "USER_MMAP_BASE \<equiv> 0x700000000000"
abbreviation USER_MMAP_LIMIT :: u64 where "USER_MMAP_LIMIT \<equiv> 0x7F0000000000"

abbreviation (input) LINUX_ENOENT :: u64 where "LINUX_ENOENT \<equiv> 2"
abbreviation (input) LINUX_EIO :: u64 where "LINUX_EIO \<equiv> 5"
abbreviation (input) LINUX_EBADF :: u64 where "LINUX_EBADF \<equiv> 9"
abbreviation (input) LINUX_ENOMEM :: u64 where "LINUX_ENOMEM \<equiv> 12"
abbreviation (input) LINUX_EACCES :: u64 where "LINUX_EACCES \<equiv> 13"
abbreviation (input) LINUX_EFAULT :: u64 where "LINUX_EFAULT \<equiv> 14"
abbreviation (input) LINUX_EISDIR :: u64 where "LINUX_EISDIR \<equiv> 21"
abbreviation (input) LINUX_EINVAL :: u64 where "LINUX_EINVAL \<equiv> 22"
abbreviation (input) LINUX_EMFILE :: u64 where "LINUX_EMFILE \<equiv> 24"
abbreviation (input) LINUX_EFBIG :: u64 where "LINUX_EFBIG \<equiv> 27"
abbreviation (input) LINUX_ESPIPE :: u64 where "LINUX_ESPIPE \<equiv> 29"
abbreviation (input) LINUX_ENOSYS :: u64 where "LINUX_ENOSYS \<equiv> 38"
abbreviation (input) LINUX_EOVERFLOW :: u64 where "LINUX_EOVERFLOW \<equiv> 75"

section \<open>State\<close>

record linux_fd =
  fd_open :: bool
  fd_readable :: bool
  fd_writable :: bool
  fd_append :: bool
  fd_is_dir :: bool
  fd_is_terminal :: bool
  fd_offset :: u64
  fd_path :: bytes

record linux_context =
  file_descriptors :: "linux_fd list"
  program_break :: u64
  mmap_cursor :: u64
  heap_start :: u64

record kernel =
  vm :: machine
  files :: vfs
  tty :: tty
  linux :: linux_context
  rtc_device :: rtc
  rtc_reads :: nat
  current_pid :: u32
  launcher_rsp :: u64
  linux_abi :: bool

text \<open>A call returns to the program, or ends the task or the program with a status.\<close>

datatype outcome = Return u64 | ExitTask u64 | ExitProgram u64

definition linux_error :: "u64 \<Rightarrow> u64" where
  "linux_error e = - e"

definition linux_align_up_page :: "u64 \<Rightarrow> u64" where
  "linux_align_up_page v = page_of (v + 4096 - 1)"

definition closed_fd :: linux_fd where
  "closed_fd = \<lparr> fd_open = False, fd_readable = False, fd_writable = False, fd_append = False, fd_is_dir = False,
     fd_is_terminal = False, fd_offset = 0, fd_path = [] \<rparr>"

definition linux_reset_process_state :: "linux_context" where
  "linux_reset_process_state =
     (let console = closed_fd \<lparr> fd_open := True, fd_is_terminal := True \<rparr>
      in \<lparr> file_descriptors = [console \<lparr> fd_readable := True \<rparr>, console \<lparr> fd_writable := True \<rparr>,
             console \<lparr> fd_writable := True \<rparr>] @ replicate (LINUX_FD_LIMIT - 3) closed_fd,
           program_break = USER_HEAP_BASE, mmap_cursor = USER_MMAP_BASE, heap_start = USER_HEAP_BASE \<rparr>)"

definition linux_syscall_reset :: "kernel \<Rightarrow> kernel" where
  "linux_syscall_reset k = k \<lparr> linux := linux_reset_process_state \<rparr>"

text \<open>Switching the system call interface resets the process state; selecting it does not.\<close>

definition syscall_set_linux_abi :: "bool \<Rightarrow> kernel \<Rightarrow> kernel" where
  "syscall_set_linux_abi enabled k = linux_syscall_reset (k \<lparr> linux_abi := enabled \<rparr>)"

definition syscall_select_linux_abi :: "bool \<Rightarrow> kernel \<Rightarrow> kernel" where
  "syscall_select_linux_abi enabled k = k \<lparr> linux_abi := enabled \<rparr>"

text \<open>Saving and restoring copy the globals to and from the context of a task.\<close>

definition linux_syscall_context_save :: "linux_context option \<Rightarrow> kernel \<Rightarrow> linux_context option" where
  "linux_syscall_context_save context k = (case context of None \<Rightarrow> None | Some _ \<Rightarrow> Some (linux k))"

definition linux_syscall_context_restore :: "linux_context option \<Rightarrow> kernel \<Rightarrow> kernel" where
  "linux_syscall_context_restore context k =
     (case context of
        None \<Rightarrow> k \<lparr> linux := linux_reset_process_state \<rparr>
      | Some c \<Rightarrow> k \<lparr> linux := c \<rparr>)"

definition linux_syscall_context_init :: "linux_context \<Rightarrow> kernel \<Rightarrow> linux_context option \<times> kernel" where
  "linux_syscall_context_init context k =
     (let scratch = linux_syscall_context_save (Some context) k;
          k = k \<lparr> linux := linux_reset_process_state \<rparr>;
          context = linux_syscall_context_save (Some context) k
      in (context, linux_syscall_context_restore scratch k))"

definition linux_syscall_set_heap_base :: "u64 \<Rightarrow> kernel \<Rightarrow> kernel" where
  "linux_syscall_set_heap_base address k =
     (if address > heap_start (linux k) \<and> address < USER_MMAP_BASE - 4096
      then let h = linux_align_up_page address in k \<lparr> linux := (linux k) \<lparr> heap_start := h, program_break := h \<rparr> \<rparr>
      else k)"

section \<open>Descriptors and files\<close>

definition get_file_descriptor :: "u64 \<Rightarrow> kernel \<Rightarrow> nat option" where
  "get_file_descriptor fd k =
     (if fd \<ge> of_nat LINUX_FD_LIMIT \<or> \<not> fd_open (file_descriptors (linux k) ! unat fd) then None else Some (unat fd))"

abbreviation fd_at :: "kernel \<Rightarrow> nat \<Rightarrow> linux_fd" where
  "fd_at k fd \<equiv> file_descriptors (linux k) ! fd"

definition set_fd :: "nat \<Rightarrow> linux_fd \<Rightarrow> kernel \<Rightarrow> kernel" where
  "set_fd fd d k = k \<lparr> linux := (linux k) \<lparr> file_descriptors := (file_descriptors (linux k))[fd := d] \<rparr> \<rparr>"

definition get_file_info :: "bytes \<Rightarrow> kernel \<Rightarrow> ((u64 \<times> bool) option \<times> kernel) option" where
  "get_file_info path k = do { (r, v) \<leftarrow> fs_get_info (Some path) (files k); Some (r, k \<lparr> files := v \<rparr>) }"

definition store_user :: "u64 \<Rightarrow> bytes \<Rightarrow> kernel \<Rightarrow> kernel option" where
  "store_user address bs k = do { st \<leftarrow> user_stores address bs (vm k); Some (k \<lparr> vm := st \<rparr>) }"

text \<open>The 144 bytes of \<open>linux_stat_t\<close>: device, inode, links, mode, owner, group, padding, device number,
  size, block size, blocks, and the times and reserved words, which stay zero.\<close>

definition stat_bytes :: "u64 \<Rightarrow> u64 \<Rightarrow> u32 \<Rightarrow> u64 \<Rightarrow> u64 \<Rightarrow> u64 \<Rightarrow> bytes" where
  "stat_bytes ino nlink mode sz blksize blocks =
     le64 0 @ le64 ino @ le64 nlink @ le32 mode @ replicate 12 0 @ le64 0 @ le64 sz @ le64 blksize @ le64 blocks
     @ replicate 72 0"

definition fill_linux_stat :: "u64 \<Rightarrow> bool \<Rightarrow> bytes" where
  "fill_linux_stat sz is_dir =
     stat_bytes sz 1 (if is_dir then 0x41ED else 0x81A4) sz 4096 ((sz + 511) div 512)"

definition linux_stat_fd :: "nat option \<Rightarrow> u64 \<Rightarrow> kernel \<Rightarrow> (u64 \<times> kernel) option" where
  "linux_stat_fd fd user_stat k =
     (case fd of None \<Rightarrow> Some (linux_error LINUX_EBADF, k)
      | Some fd \<Rightarrow>
        if user_stat = 0 \<or> \<not> user_range_accessible (vm k) user_stat 144 True
        then Some (linux_error LINUX_EFAULT, k)
        else if fd_is_terminal (fd_at k fd)
        then do { k \<leftarrow> store_user user_stat (stat_bytes 0 1 0x21B6 0 0 0) k; Some (0, k) }
        else do {
          (info, k) \<leftarrow> get_file_info (fd_path (fd_at k fd)) k;
          (case info of None \<Rightarrow> Some (linux_error LINUX_ENOENT, k)
           | Some (sz, is_dir) \<Rightarrow> do { k \<leftarrow> store_user user_stat (fill_linux_stat sz is_dir) k; Some (0, k) })
        })"

definition linux_stat_path :: "u64 \<Rightarrow> u64 \<Rightarrow> kernel \<Rightarrow> (u64 \<times> kernel) option" where
  "linux_stat_path user_path user_stat k =
     do {
       path \<leftarrow> copy_user_string (vm k) user_path USER_PATH_LIMIT;
       (case path of None \<Rightarrow> Some (linux_error LINUX_EFAULT, k)
        | Some path \<Rightarrow>
          if user_stat = 0 \<or> \<not> user_range_accessible (vm k) user_stat 144 True
          then Some (linux_error LINUX_EFAULT, k)
          else do {
            (info, k) \<leftarrow> get_file_info path k;
            (case info of None \<Rightarrow> Some (linux_error LINUX_ENOENT, k)
             | Some (sz, is_dir) \<Rightarrow> do { k \<leftarrow> store_user user_stat (fill_linux_stat sz is_dir) k; Some (0, k) })
          })
     }"

section \<open>Opening, reading and writing\<close>

fun find_free_fd :: "linux_fd list \<Rightarrow> nat \<Rightarrow> nat option" where
  "find_free_fd [] i = None"
| "find_free_fd (d # ds) i = (if fd_open d then find_free_fd ds (Suc i) else Some i)"

definition open_entry :: "bytes \<Rightarrow> u64 \<Rightarrow> u64 \<Rightarrow> bool \<Rightarrow> kernel \<Rightarrow> u64 \<times> kernel" where
  "open_entry path flags sz is_dir k =
     (case find_free_fd (file_descriptors (linux k)) 0 of
        None \<Rightarrow> (linux_error LINUX_EMFILE, k)
      | Some fd \<Rightarrow>
          (of_nat fd,
           set_fd fd ((fd_at k fd) \<lparr> fd_open := True, fd_readable := flags AND 0x0001 = 0,
               fd_writable := flags AND (0x0001 OR 0x0002) \<noteq> 0, fd_append := flags AND 0x0400 \<noteq> 0,
               fd_is_dir := is_dir, fd_offset := if flags AND 0x0400 \<noteq> 0 then sz else 0,
               fd_path := take 255 path \<rparr>) k))"

text \<open>Creating or truncating the file: an error, or the size and kind it has then.\<close>

definition open_prepare :: "bytes \<Rightarrow> u64 \<Rightarrow> kernel \<Rightarrow> ((u64 + u64 \<times> bool) \<times> kernel) option" where
  "open_prepare path flags k =
     do {
       (info, k) \<leftarrow> get_file_info path k;
       (case info of
          None \<Rightarrow>
            if flags AND 0x0040 = 0 then Some (Inl (linux_error LINUX_ENOENT), k)
            else do {
              (r, v) \<leftarrow> fs_create (Some path) (files k);
              let k = k \<lparr> files := v \<rparr>;
              Some (if r \<noteq> 0 then Inl (linux_error LINUX_EACCES) else Inr (0, False), k)
            }
        | Some (sz, is_dir) \<Rightarrow>
            if flags AND 0x0200 \<noteq> 0
            then if flags AND (0x0001 OR 0x0002) = 0 \<or> is_dir
                 then Some (Inl (linux_error (if is_dir then LINUX_EISDIR else LINUX_EACCES)), k)
                 else do {
                   (r, v) \<leftarrow> fs_write_bytes (Some path) [] 0 (files k);
                   let k = k \<lparr> files := v \<rparr>;
                   Some (if r \<noteq> 0 then Inl (linux_error LINUX_EACCES) else Inr (0, is_dir), k)
                 }
            else Some (Inr (sz, is_dir), k))
     }"

definition linux_open_file :: "bytes \<Rightarrow> u64 \<Rightarrow> kernel \<Rightarrow> (u64 \<times> kernel) option" where
  "linux_open_file path flags k =
     do {
       (r, k) \<leftarrow> open_prepare path flags k;
       Some (case r of
           Inl e \<Rightarrow> (e, k)
         | Inr (sz, is_dir) \<Rightarrow>
             if is_dir \<and> flags AND (0x0001 OR 0x0002) \<noteq> 0 then (linux_error LINUX_EISDIR, k)
             else if is_dir \<and> flags AND 0x0200 \<noteq> 0 then (linux_error LINUX_EISDIR, k)
             else open_entry path flags sz is_dir k)
     }"

text \<open>A line from the terminal; the local buffer of 257 bytes is not initialised before.\<close>

definition read_terminal :: "u64 \<Rightarrow> u64 \<Rightarrow> kernel \<Rightarrow> (u64 \<times> kernel) option" where
  "read_terminal buf count k =
     (let count = (if count > 256 then 256 else count) in
      do {
        (input, t) \<leftarrow> dogeio_input (Some []) (replicate 257 0) (unat count + 1) (tty k);
        let line = take (unat count) (cstr (take (unat count + 1) input));
        k \<leftarrow> store_user buf line (k \<lparr> tty := t \<rparr>);
        Some (of_nat (length line), k)
      })"

definition linux_read_fd :: "nat \<Rightarrow> u64 \<Rightarrow> u64 \<Rightarrow> bool \<Rightarrow> u64 \<Rightarrow> kernel \<Rightarrow> (u64 \<times> kernel) option" where
  "linux_read_fd fd buf count positional offset k =
     (let d = fd_at k fd; count = (if count > USER_IO_LIMIT then USER_IO_LIMIT else count) in
      if \<not> fd_readable d then Some (linux_error LINUX_EBADF, k)
      else if count = 0 then Some (0, k)
      else if \<not> user_range_accessible (vm k) buf count True then Some (linux_error LINUX_EFAULT, k)
      else if fd_is_dir d then Some (linux_error LINUX_EISDIR, k)
      else if fd_is_terminal d \<and> fd = 0 then read_terminal buf count k
      else do {
        ((n, raw), v) \<leftarrow> fs_read_raw_at (Some (fd_path d)) False (if positional then offset else fd_offset d) count (files k);
        let k = k \<lparr> files := v \<rparr>;
        if n < 0 then Some (linux_error LINUX_EIO, k)
        else do {
          k \<leftarrow> store_user buf raw k;
          let k = (if positional then k else set_fd fd (d \<lparr> fd_offset := fd_offset d + word_of_int n \<rparr>) k);
          Some (word_of_int n, k)
        }
      })"

definition write_terminal :: "u64 \<Rightarrow> u64 \<Rightarrow> kernel \<Rightarrow> (u64 \<times> kernel) option" where
  "write_terminal buf count k =
     do {
       bs \<leftarrow> user_loads (vm k) buf (unat count);
       t \<leftarrow> on_console (for_each dogeio_printchar bs) (tty k);
       Some (count, k \<lparr> tty := t \<rparr>)
     }"

text \<open>The new image of a file: its bytes, a gap of zeros, and the data at the offset.\<close>

definition file_image :: "bytes \<Rightarrow> nat \<Rightarrow> bytes \<Rightarrow> bytes" where
  "file_image old offset data =
     (let gap = (if offset > length old then replicate (offset - length old) 0 else [])
      in buf_put (old @ gap) offset data)"

definition linux_write_file :: "nat \<Rightarrow> u64 \<Rightarrow> u64 \<Rightarrow> u64 \<Rightarrow> kernel \<Rightarrow> (u64 \<times> kernel) option" where
  "linux_write_file fd buf count sz k =
     (let d = fd_at k fd; path = fd_path d in
      if fd_offset d > LINUX_FILE_IO_LIMIT \<or> count > LINUX_FILE_IO_LIMIT - fd_offset d \<or> sz > LINUX_FILE_IO_LIMIT
      then Some (linux_error LINUX_EFBIG, k)
      else do {
        data \<leftarrow> user_loads (vm k) buf (unat count);
        ((n, old), v) \<leftarrow> (if sz \<noteq> 0 then fs_read_raw_at (Some path) False 0 sz (files k) else Some ((0, []), files k));
        let k = k \<lparr> files := v \<rparr>;
        if n < 0 \<or> word_of_int n \<noteq> sz then Some (linux_error LINUX_EIO, k)
        else do {
          let image = file_image old (unat (fd_offset d)) data;
          (r, v) \<leftarrow> fs_write_bytes (Some path) image (of_nat (length image)) (files k);
          let k = k \<lparr> files := v \<rparr>;
          if r \<noteq> 0 then Some (linux_error LINUX_EACCES, k)
          else Some (count, set_fd fd (d \<lparr> fd_offset := fd_offset d + count \<rparr>) k)
        }
      })"

definition linux_write_fd :: "nat \<Rightarrow> u64 \<Rightarrow> u64 \<Rightarrow> kernel \<Rightarrow> (u64 \<times> kernel) option" where
  "linux_write_fd fd buf count k =
     (let d = fd_at k fd; count = (if count > USER_IO_LIMIT then USER_IO_LIMIT else count) in
      if \<not> fd_writable d then Some (linux_error LINUX_EBADF, k)
      else if count = 0 then Some (0, k)
      else if \<not> user_range_accessible (vm k) buf count False then Some (linux_error LINUX_EFAULT, k)
      else if fd_is_terminal d \<and> (fd = 1 \<or> fd = 2) then write_terminal buf count k
      else if fd_is_dir d then Some (linux_error LINUX_EISDIR, k)
      else do {
        (info, k) \<leftarrow> get_file_info (fd_path d) k;
        (case info of None \<Rightarrow> Some (linux_error LINUX_ENOENT, k)
         | Some (sz, is_dir) \<Rightarrow>
             if is_dir then Some (linux_error LINUX_EISDIR, k)
             else linux_write_file fd buf count sz
                    (if fd_append d then set_fd fd (d \<lparr> fd_offset := sz \<rparr>) k else k))
      })"

text \<open>Where a seek counts from: an error or a position.\<close>

definition lseek_base :: "linux_fd \<Rightarrow> u64 \<Rightarrow> kernel \<Rightarrow> ((u64 + int) \<times> kernel) option" where
  "lseek_base d whence k =
     (if whence = 0 then Some (Inr 0, k)
      else if whence = 1
      then Some (if uint (fd_offset d) > 0x7FFFFFFFFFFFFFFF then Inl (linux_error LINUX_EOVERFLOW)
                 else Inr (uint (fd_offset d)), k)
      else if whence = 2
      then do {
        (info, k) \<leftarrow> get_file_info (fd_path d) k;
        Some (case info of
            None \<Rightarrow> Inl (linux_error LINUX_EINVAL)
          | Some (sz, _) \<Rightarrow> if uint sz > 0x7FFFFFFFFFFFFFFF then Inl (linux_error LINUX_EINVAL) else Inr (uint sz), k)
      }
      else Some (Inl (linux_error LINUX_EINVAL), k))"

definition linux_lseek :: "u64 \<Rightarrow> u64 \<Rightarrow> u64 \<Rightarrow> kernel \<Rightarrow> (u64 \<times> kernel) option" where
  "linux_lseek fd displacement whence k =
     (case get_file_descriptor fd k of None \<Rightarrow> Some (linux_error LINUX_EBADF, k)
      | Some fd \<Rightarrow>
        let d = fd_at k fd in
        if fd_is_terminal d then Some (linux_error LINUX_ESPIPE, k)
        else do {
          (start, k) \<leftarrow> lseek_base d whence k;
          Some (case start of
              Inl e \<Rightarrow> (e, k)
            | Inr start \<Rightarrow>
                let n = sint displacement in
                if n > 0 \<and> start > 0x7FFFFFFFFFFFFFFF - n \<or> n < 0 \<and> start < - 0x8000000000000000 - n \<or> start + n < 0
                then (linux_error LINUX_EINVAL, k)
                else (word_of_int (start + n), set_fd fd (d \<lparr> fd_offset := word_of_int (start + n) \<rparr>) k))
        })"

section \<open>Memory\<close>

abbreviation map_anon :: "u64 \<Rightarrow> bool" where "map_anon flags \<equiv> flags AND 0x20 \<noteq> 0"
abbreviation map_fixed :: "u64 \<Rightarrow> bool" where "map_fixed flags \<equiv> flags AND 0x10 \<noteq> 0"

text \<open>The search for a range of unmapped pages, in steps of the length.\<close>

partial_function (option) find_gap :: "machine \<Rightarrow> u64 \<Rightarrow> u64 \<Rightarrow> u64 option" where
  "find_gap st map_length address =
     (if address < USER_MMAP_LIMIT \<and> map_length \<le> USER_MMAP_LIMIT - address
      then if list_ex (user_page_mapped st) (pages address (address + map_length))
           then find_gap st map_length (address + map_length)
           else Some address
      else Some address)"

definition choose_address :: "u64 \<Rightarrow> u64 \<Rightarrow> u64 \<Rightarrow> kernel \<Rightarrow> (u64 + u64) option" where
  "choose_address requested map_length flags k =
     (if map_fixed flags
      then Some (if \<not> page_aligned requested \<or> requested < 4096 \<or> requested \<ge> USER_MMAP_LIMIT
                    \<or> map_length > USER_MMAP_LIMIT - requested
                 then Inl (linux_error LINUX_EINVAL) else Inr requested)
      else do {
        let a = linux_align_up_page requested;
        let a = (if a < USER_MMAP_BASE \<or> a \<ge> USER_MMAP_LIMIT \<or> map_length > USER_MMAP_LIMIT - a
                 then linux_align_up_page (mmap_cursor (linux k)) else a);
        a \<leftarrow> find_gap (vm k) map_length a;
        Some (if a \<ge> USER_MMAP_LIMIT \<or> map_length > USER_MMAP_LIMIT - a
              then Inl (linux_error LINUX_ENOMEM) else Inr a)
      })"

text \<open>Filling the range page by page; \<open>path\<close> is the file to read from, if there is one. The result says
  whether all pages are mapped; otherwise the pages up to the failing one are unmapped again.\<close>

fun map_file_page :: "bytes option \<Rightarrow> u64 \<Rightarrow> u64 \<Rightarrow> kernel \<Rightarrow> (bool \<times> kernel) option" where
  "map_file_page None offset frame k = Some (True, k)"
| "map_file_page (Some path) offset frame k =
     do {
       ((n, raw), v) \<leftarrow> fs_read_raw_at (Some path) False offset 4096 (files k);
       let k = k \<lparr> files := v \<rparr>;
       Some (if n < 0 then (False, k) else (True, k \<lparr> vm := (vm k) \<lparr> mem := poke_bytes frame raw (mem (vm k)) \<rparr> \<rparr>))
     }"

fun linux_map_loop :: "u64 \<Rightarrow> u64 \<Rightarrow> bytes option \<Rightarrow> u64 \<Rightarrow> u64 list \<Rightarrow> kernel \<Rightarrow> (bool \<times> kernel) option" where
  "linux_map_loop address protection path offset [] k = Some (True, k)"
| "linux_map_loop address protection path offset (page # ps) k =
     do {
       (frame, st) \<leftarrow> pmm_alloc_zeroed_page (vm k);
       st \<leftarrow> map_user_page page frame st;
       (ok, k) \<leftarrow> (if offset \<le> - 1 - (page - address)
                    then map_file_page path (offset + (page - address)) frame (k \<lparr> vm := st \<rparr>)
                    else Some (True, k \<lparr> vm := st \<rparr>));
       if \<not> ok then Some (False, k \<lparr> vm := unmap_pages (pages address (page + 4096)) (vm k) \<rparr>)
       else case protect_user_page page (protection \<noteq> 0) (protection AND 2 \<noteq> 0) (protection AND 4 \<noteq> 0) (vm k) of
         (True, st) \<Rightarrow> linux_map_loop address protection path offset ps (k \<lparr> vm := st \<rparr>)
       | (False, st) \<Rightarrow> Some (False, k \<lparr> vm := unmap_pages (pages address (page + 4096)) st \<rparr>)
     }"

definition linux_map_memory ::
    "u64 \<Rightarrow> u64 \<Rightarrow> u64 \<Rightarrow> u64 \<Rightarrow> nat option \<Rightarrow> u64 \<Rightarrow> kernel \<Rightarrow> (u64 \<times> kernel) option" where
  "linux_map_memory requested sz protection flags fd offset k =
     (let map_length = linux_align_up_page sz in
      if sz = 0 \<or> sz > 16 * 1024 * 1024 \<or> sz > USER_ADDRESS_LIMIT - 4096 \<or> flags AND 3 = 0 \<or> flags AND 3 = 3
      then Some (linux_error LINUX_EINVAL, k)
      else if \<not> map_anon flags
              \<and> (case fd of None \<Rightarrow> True
                 | Some fd \<Rightarrow> \<not> fd_open (fd_at k fd) \<or> \<not> fd_readable (fd_at k fd) \<or> fd_is_terminal (fd_at k fd)
                     \<or> \<not> page_aligned offset)
      then Some (linux_error LINUX_EBADF, k)
      else if flags AND 1 \<noteq> 0 \<and> \<not> map_anon flags then Some (linux_error LINUX_ENOSYS, k)
      else if protection AND NOT 7 \<noteq> 0 then Some (linux_error LINUX_EINVAL, k)
      else if map_length < sz then Some (linux_error LINUX_ENOMEM, k)
      else if \<not> map_anon flags \<and> offset > - 1 - map_length then Some (linux_error LINUX_EOVERFLOW, k)
      else do {
        a \<leftarrow> choose_address requested map_length flags k;
        (case a of Inl e \<Rightarrow> Some (e, k)
         | Inr address \<Rightarrow>
             let ps = pages address (address + map_length) in
             if \<not> map_fixed flags \<and> list_ex (user_page_mapped (vm k)) ps then Some (linux_error LINUX_EINVAL, k)
             else do {
               let k = (if map_fixed flags then k \<lparr> vm := unmap_pages ps (vm k) \<rparr> else k);
               let path = (if map_anon flags then None else map_option (\<lambda>fd. fd_path (fd_at k fd)) fd);
               (ok, k) \<leftarrow> linux_map_loop address protection path offset ps k;
               if \<not> ok then Some (linux_error LINUX_EINVAL, k)
               else Some (address, if map_fixed flags then k
                   else k \<lparr> linux := (linux k) \<lparr> mmap_cursor := address + map_length \<rparr> \<rparr>)
             })
      })"

fun mprotect_loop :: "u64 \<Rightarrow> u64 list \<Rightarrow> machine \<Rightarrow> bool \<times> machine" where
  "mprotect_loop protection [] st = (True, st)"
| "mprotect_loop protection (page # ps) st =
     (if \<not> user_page_mapped st page then (False, st)
      else let (ok, st) =
             (if \<not> user_page_accessible st page False
              then protect_user_page page True (protection AND 2 \<noteq> 0) (protection AND 4 \<noteq> 0) st else (True, st))
           in if \<not> ok then (False, st)
           else let (ok, st) =
             (if user_page_accessible st page False
              then protect_user_page page (protection \<noteq> 0) (protection AND 2 \<noteq> 0) (protection AND 4 \<noteq> 0) st
              else (True, st))
           in if \<not> ok then (False, st) else mprotect_loop protection ps st)"

definition linux_mprotect :: "u64 \<Rightarrow> u64 \<Rightarrow> u64 \<Rightarrow> kernel \<Rightarrow> u64 \<times> kernel" where
  "linux_mprotect address sz protection k =
     (if sz = 0 \<or> address \<ge> USER_ADDRESS_LIMIT \<or> protection AND NOT 7 \<noteq> 0 \<or> \<not> page_aligned address
         \<or> sz > USER_ADDRESS_LIMIT - address
      then (linux_error LINUX_EINVAL, k)
      else let (ok, st) = mprotect_loop protection (pages address (linux_align_up_page (address + sz))) (vm k)
           in (if ok then 0 else linux_error LINUX_ENOMEM, k \<lparr> vm := st \<rparr>))"

definition linux_munmap :: "u64 \<Rightarrow> u64 \<Rightarrow> kernel \<Rightarrow> u64 \<times> kernel" where
  "linux_munmap address sz k =
     (if sz = 0 \<or> \<not> page_aligned address \<or> sz > USER_ADDRESS_LIMIT - address
      then (linux_error LINUX_EINVAL, k)
      else (0, k \<lparr> vm := unmap_pages (pages address (linux_align_up_page (address + sz))) (vm k) \<rparr>))"

fun brk_map :: "u64 list \<Rightarrow> machine \<Rightarrow> machine option" where
  "brk_map [] st = Some st"
| "brk_map (page # ps) st =
     do { (frame, st) \<leftarrow> pmm_alloc_zeroed_page st; st \<leftarrow> map_user_page page frame st; brk_map ps st }"

definition linux_brk :: "u64 \<Rightarrow> kernel \<Rightarrow> (u64 \<times> kernel) option" where
  "linux_brk address k =
     (let old = program_break (linux k); old_end = linux_align_up_page old; new_end = linux_align_up_page address in
      if address = 0 then Some (old, k)
      else if address < heap_start (linux k) \<or> address \<ge> USER_MMAP_BASE - 4096 then Some (old, k)
      else if new_end > old_end \<and> list_ex (user_page_mapped (vm k)) (pages old_end new_end) then Some (old, k)
      else do {
        st \<leftarrow> (if new_end > old_end then brk_map (pages old_end new_end) (vm k)
               else if new_end < old_end then Some (unmap_pages (pages new_end old_end) (vm k))
               else Some (vm k));
        Some (address, k \<lparr> vm := st, linux := (linux k) \<lparr> program_break := address \<rparr> \<rparr>)
      })"

section \<open>The handler\<close>

record syscall_registers =
  rax :: u64
  rdi :: u64
  rsi :: u64
  rdx :: u64
  r10 :: u64
  r8 :: u64
  r9 :: u64

definition linux_open :: "u64 \<Rightarrow> u64 \<Rightarrow> kernel \<Rightarrow> (u64 \<times> kernel) option" where
  "linux_open user_path flags k =
     do {
       path \<leftarrow> copy_user_string (vm k) user_path USER_PATH_LIMIT;
       (case path of None \<Rightarrow> Some (linux_error LINUX_EFAULT, k) | Some path \<Rightarrow> linux_open_file path flags k)
     }"

definition linux_close :: "u64 \<Rightarrow> kernel \<Rightarrow> u64 \<times> kernel" where
  "linux_close fd k =
     (if fd \<ge> of_nat LINUX_FD_LIMIT \<or> \<not> fd_open (fd_at k (unat fd)) then (linux_error LINUX_EBADF, k)
      else (0, set_fd (unat fd) closed_fd k))"

definition linux_access :: "u64 \<Rightarrow> u64 \<Rightarrow> kernel \<Rightarrow> (u64 \<times> kernel) option" where
  "linux_access user_path mode k =
     do {
       path \<leftarrow> copy_user_string (vm k) user_path USER_PATH_LIMIT;
       (case path of None \<Rightarrow> Some (linux_error LINUX_EFAULT, k)
        | Some path \<Rightarrow>
          do {
            (info, k) \<leftarrow> get_file_info path k;
            Some (if info = None then linux_error LINUX_ENOENT
                  else if mode \<le> 7 then 0 else linux_error LINUX_EINVAL, k)
          })
     }"

abbreviation LINUX_AT_FDCWD :: u64 where "LINUX_AT_FDCWD \<equiv> - 100"

definition linux_newfstatat :: "u64 \<Rightarrow> u64 \<Rightarrow> u64 \<Rightarrow> u64 \<Rightarrow> kernel \<Rightarrow> (u64 \<times> kernel) option" where
  "linux_newfstatat dirfd user_path user_stat flags k =
     (if flags AND NOT (0x0100 OR 0x1000) \<noteq> 0 then Some (linux_error LINUX_EINVAL, k)
      else do {
        empty \<leftarrow> (if flags AND 0x1000 \<noteq> 0 \<and> user_path \<noteq> 0
                  then map_option (\<lambda>path. path = Some []) (copy_user_string (vm k) user_path USER_PATH_LIMIT)
                  else Some False);
        if empty then linux_stat_fd (get_file_descriptor dirfd k) user_stat k
        else if dirfd \<noteq> LINUX_AT_FDCWD then Some (linux_error LINUX_EBADF, k)
        else linux_stat_path user_path user_stat k
      })"

definition linux_getcwd :: "u64 \<Rightarrow> u64 \<Rightarrow> kernel \<Rightarrow> (u64 \<times> kernel) option" where
  "linux_getcwd buf sz k =
     (case fs_dirname (files k) of None \<Rightarrow> Some (linux_error LINUX_EINVAL, k)
      | Some cwd \<Rightarrow>
        if sz = 0 then Some (linux_error LINUX_EINVAL, k)
        else let n = of_nat (length cwd + 1) in
          if n > sz \<or> \<not> user_range_accessible (vm k) buf n True then Some (linux_error LINUX_EFAULT, k)
          else do { k \<leftarrow> store_user buf (cwd @ [0]) k; Some (buf, k) })"

definition uname_info :: bytes where
  "uname_info = concat (map (\<lambda>s. asc s @ replicate (65 - length s) 0)
     [''WindogeOS'', ''windoge'', ''0.1'', ''WindogeOS'', ''x86_64'', ''''])"

definition linux_uname :: "u64 \<Rightarrow> kernel \<Rightarrow> (u64 \<times> kernel) option" where
  "linux_uname buf k =
     (if buf = 0 \<or> \<not> user_range_accessible (vm k) buf 390 True then Some (linux_error LINUX_EFAULT, k)
      else do { k \<leftarrow> store_user buf uname_info k; Some (0, k) })"

definition read_epoch :: "kernel \<Rightarrow> (u64 \<times> kernel) option" where
  "read_epoch k =
     do { (t, n) \<leftarrow> time_get_epoch_seconds (rtc_device k) (rtc_reads k); Some (t, k \<lparr> rtc_reads := n \<rparr>) }"

text \<open>Storing to an optional user buffer: whether the buffer is usable.\<close>

definition store_if :: "u64 \<Rightarrow> bytes \<Rightarrow> kernel \<Rightarrow> (bool \<times> kernel) option" where
  "store_if address bs k =
     (if address = 0 then Some (True, k)
      else if \<not> user_range_accessible (vm k) address (of_nat (length bs)) True then Some (False, k)
      else do { k \<leftarrow> store_user address bs k; Some (True, k) })"

definition linux_gettimeofday :: "u64 \<Rightarrow> u64 \<Rightarrow> kernel \<Rightarrow> (u64 \<times> kernel) option" where
  "linux_gettimeofday tv tz k =
     do {
       (epoch, k) \<leftarrow> read_epoch k;
       (ok, k) \<leftarrow> store_if tv (le64 epoch @ le64 0) k;
       if \<not> ok then Some (linux_error LINUX_EFAULT, k)
       else do {
         (ok, k) \<leftarrow> store_if tz (replicate 8 0) k;
         Some (if ok then 0 else linux_error LINUX_EFAULT, k)
       }
     }"

definition linux_time :: "u64 \<Rightarrow> kernel \<Rightarrow> (u64 \<times> kernel) option" where
  "linux_time out k =
     do {
       (epoch, k) \<leftarrow> read_epoch k;
       (ok, k) \<leftarrow> store_if out (le64 epoch) k;
       Some (if ok then epoch else linux_error LINUX_EFAULT, k)
     }"

definition linux_clock_gettime :: "u64 \<Rightarrow> u64 \<Rightarrow> kernel \<Rightarrow> (u64 \<times> kernel) option" where
  "linux_clock_gettime clock_id out k =
     (if clock_id \<noteq> 0 \<and> clock_id \<noteq> 1 then Some (linux_error LINUX_EINVAL, k)
      else if out = 0 \<or> \<not> user_range_accessible (vm k) out 16 True then Some (linux_error LINUX_EFAULT, k)
      else do {
        (epoch, k) \<leftarrow> read_epoch k;
        k \<leftarrow> store_user out (le64 epoch @ le64 0) k;
        Some (0, k)
      })"

definition linux_exit :: "u64 \<Rightarrow> kernel \<Rightarrow> outcome \<times> kernel" where
  "linux_exit status k =
     (if current_pid k \<noteq> 0 then (ExitTask status, k)
      else if launcher_rsp k = 0 then (Return (linux_error LINUX_EINVAL), k)
      else let k = syscall_set_linux_abi False k
           in (ExitProgram status, k \<lparr> vm := cleanup_user_pages (vm k) \<rparr>))"

definition returns :: "(u64 \<times> kernel) option \<Rightarrow> (outcome \<times> kernel) option" where
  "returns r = map_option (\<lambda>(v, k). (Return v, k)) r"

definition linux_file_call :: "syscall_registers \<Rightarrow> kernel \<Rightarrow> (u64 \<times> kernel) option" where
  "linux_file_call regs k =
     (if rax regs = 0 then
        (case get_file_descriptor (rdi regs) k of None \<Rightarrow> Some (linux_error LINUX_EBADF, k)
         | Some fd \<Rightarrow> linux_read_fd fd (rsi regs) (rdx regs) False 0 k)
      else if rax regs = 1 then
        (case get_file_descriptor (rdi regs) k of None \<Rightarrow> Some (linux_error LINUX_EBADF, k)
         | Some fd \<Rightarrow> linux_write_fd fd (rsi regs) (rdx regs) k)
      else if rax regs = 2 then linux_open (rdi regs) (rsi regs) k
      else if rax regs = 257 then
        (if rdi regs \<noteq> LINUX_AT_FDCWD then Some (linux_error LINUX_EBADF, k) else linux_open (rsi regs) (rdx regs) k)
      else if rax regs = 3 then Some (linux_close (rdi regs) k)
      else if rax regs = 4 then linux_stat_path (rdi regs) (rsi regs) k
      else if rax regs = 5 then linux_stat_fd (get_file_descriptor (rdi regs) k) (rsi regs) k
      else if rax regs = 8 then linux_lseek (rdi regs) (rsi regs) (rdx regs) k
      else if rax regs = 17 then
        (case get_file_descriptor (rdi regs) k of None \<Rightarrow> Some (linux_error LINUX_EBADF, k)
         | Some fd \<Rightarrow> linux_read_fd fd (rsi regs) (rdx regs) True (r10 regs) k)
      else if rax regs = 21 then linux_access (rdi regs) (rsi regs) k
      else linux_newfstatat (rdi regs) (rsi regs) (rdx regs) (r10 regs) k)"

definition linux_memory_call :: "syscall_registers \<Rightarrow> kernel \<Rightarrow> (u64 \<times> kernel) option" where
  "linux_memory_call regs k =
     (if rax regs = 9 then
        (if hhdm (vm k) = None then Some (linux_error LINUX_ENOMEM, k)
         else linux_map_memory (rdi regs) (rsi regs) (rdx regs) (r10 regs)
                (if map_anon (r10 regs) then None else get_file_descriptor (r8 regs) k) (r9 regs) k)
      else if rax regs = 10 then Some (linux_mprotect (rdi regs) (rsi regs) (rdx regs) k)
      else if rax regs = 11 then Some (linux_munmap (rdi regs) (rsi regs) k)
      else linux_brk (rdi regs) k)"

definition linux_info_call :: "syscall_registers \<Rightarrow> kernel \<Rightarrow> (u64 \<times> kernel) option" where
  "linux_info_call regs k =
     (if rax regs = 79 then linux_getcwd (rdi regs) (rsi regs) k
      else if rax regs = 39 then Some (if current_pid k = 0 then 1 else ucast (current_pid k), k)
      else if rax regs \<in> {102, 104, 107, 108} then Some (0, k)
      else if rax regs = 63 then linux_uname (rdi regs) k
      else if rax regs = 96 then linux_gettimeofday (rdi regs) (rsi regs) k
      else if rax regs = 201 then linux_time (rdi regs) k
      else linux_clock_gettime (rdi regs) (rsi regs) k)"

definition linux_syscall_handler :: "syscall_registers \<Rightarrow> kernel \<Rightarrow> (outcome \<times> kernel) option" where
  "linux_syscall_handler regs k =
     (if rax regs \<in> {0, 1, 2, 3, 4, 5, 8, 17, 21, 257, 262} then returns (linux_file_call regs k)
      else if rax regs \<in> {9, 10, 11, 12} then returns (linux_memory_call regs k)
      else if rax regs \<in> {39, 63, 79, 96, 102, 104, 107, 108, 201, 228} then returns (linux_info_call regs k)
      else if rax regs = 60 \<or> rax regs = 231 then Some (linux_exit (rdi regs) k)
      else Some (Return (linux_error LINUX_ENOSYS), k))"

section \<open>The process state stays in order\<close>

definition linux_ok :: "linux_context \<Rightarrow> bool" where
  "linux_ok c \<longleftrightarrow> length (file_descriptors c) = LINUX_FD_LIMIT
     \<and> (\<forall>d\<in>set (file_descriptors c). length (fd_path d) < 256 \<and> (fd_open d \<or> d = closed_fd))
     \<and> heap_start c \<le> program_break c \<and> program_break c < USER_MMAP_BASE"

lemma reset_ok: "linux_ok linux_reset_process_state"
  by (simp add: linux_reset_process_state_def linux_ok_def closed_fd_def Let_def)

lemma set_fd_simps [simp]:
  "vm (set_fd i d k) = vm k" "files (set_fd i d k) = files k" "tty (set_fd i d k) = tty k"
  "current_pid (set_fd i d k) = current_pid k"
  by (simp_all add: set_fd_def)

lemma linux_ok_set_fd:
  assumes "linux_ok (linux k)" and "length (fd_path d) < 256" and "fd_open d \<or> d = closed_fd"
  shows "linux_ok (linux (set_fd i d k))"
  using assms by (auto simp: linux_ok_def set_fd_def dest!: set_update_subset_insert [THEN subsetD])

lemma linux_ok_fd_at: "linux_ok (linux k) \<Longrightarrow> i < LINUX_FD_LIMIT \<Longrightarrow> length (fd_path (fd_at k i)) < 256"
  by (simp add: linux_ok_def)

lemma get_file_descriptor_less: "get_file_descriptor fd k = Some i \<Longrightarrow> i < LINUX_FD_LIMIT"
  and get_file_descriptor_open: "get_file_descriptor fd k = Some i \<Longrightarrow> fd_open (fd_at k i)"
  by (auto simp: get_file_descriptor_def word_le_nat_alt split: if_splits)

lemma store_user_linux [simp]: "store_user a bs k = Some k' \<Longrightarrow> linux k' = linux k"
  by (auto simp: store_user_def split: bind_splits)

lemma store_if_linux: "store_if a bs k = Some (ok, k') \<Longrightarrow> linux k' = linux k"
  by (auto simp: store_if_def split: if_splits bind_splits)

lemma get_file_info_linux: "get_file_info p k = Some (r, k') \<Longrightarrow> linux k' = linux k"
  by (auto simp: get_file_info_def split: bind_splits)

lemma read_epoch_linux: "read_epoch k = Some (t, k') \<Longrightarrow> linux k' = linux k"
  by (auto simp: read_epoch_def split: bind_splits)

lemmas same_linux = store_user_linux store_if_linux get_file_info_linux read_epoch_linux

lemma find_free_fd_bound: "find_free_fd ds i = Some j \<Longrightarrow> i \<le> j \<and> j < i + length ds"
  by (induction ds arbitrary: i) (fastforce split: if_splits)+

lemma open_prepare_linux: "open_prepare p flags k = Some (r, k') \<Longrightarrow> linux k' = linux k"
  by (auto simp: open_prepare_def Let_def dest!: get_file_info_linux split: bind_splits option.splits if_splits)

lemma open_file_ok:
  assumes "linux_open_file p flags k = Some (r, k')" and "linux_ok (linux k)"
  shows "linux_ok (linux k')"
proof -
  from assms(1) obtain e k1 where p: "open_prepare p flags k = Some (e, k1)"
    and r: "(r, k') = (case e of Inl e \<Rightarrow> (e, k1)
         | Inr (sz, is_dir) \<Rightarrow>
             if is_dir \<and> flags AND (0x0001 OR 0x0002) \<noteq> 0 then (linux_error LINUX_EISDIR, k1)
             else if is_dir \<and> flags AND 0x0200 \<noteq> 0 then (linux_error LINUX_EISDIR, k1)
             else open_entry p flags sz is_dir k1)"
    by (auto simp: linux_open_file_def split: bind_splits)
  have ok: "linux_ok (linux k1)" using open_prepare_linux [OF p] assms(2) by simp
  have "linux_ok (linux (snd (open_entry p flags sz is_dir k1)))" for sz is_dir
    using ok by (auto simp: open_entry_def intro!: linux_ok_set_fd split: option.splits)
  with ok r show ?thesis by (auto split: sum.splits prod.splits if_splits) (metis snd_conv)+
qed

lemma read_fd_ok:
  assumes "linux_read_fd i buf n at_off off k = Some (r, k')" and "linux_ok (linux k)" and "i < LINUX_FD_LIMIT" and "fd_open (fd_at k i)"
  shows "linux_ok (linux k')"
proof -
  have "length (fd_path (fd_at k i)) < 256" using linux_ok_fd_at assms(2,3) by blast
  then show ?thesis using assms(1,2,4)
    by (auto simp: linux_read_fd_def read_terminal_def Let_def intro!: linux_ok_set_fd
        dest!: store_user_linux split: if_splits bind_splits)
qed

lemma write_fd_ok:
  assumes "linux_write_fd i buf n k = Some (r, k')" and "linux_ok (linux k)" and "i < LINUX_FD_LIMIT" and "fd_open (fd_at k i)"
  shows "linux_ok (linux k')"
proof -
  have p: "length (fd_path (fd_at k i)) < 256" using linux_ok_fd_at assms(2,3) by blast
  have w: "linux_ok (linux k2)" if "linux_write_file i buf m sz k1 = Some (v, k2)" "linux_ok (linux k1)" "fd_open (fd_at k1 i)" for m sz k1 k2 v
  proof -
    have "length (fd_path (fd_at k1 i)) < 256" using linux_ok_fd_at that(2) assms(3) by blast
    with that show ?thesis
      by (auto simp: linux_write_file_def Let_def intro!: linux_ok_set_fd split: if_splits bind_splits)
  qed
  define m where "m = (if n > USER_IO_LIMIT then USER_IO_LIMIT else n)"
  note call = assms(1) [unfolded linux_write_fd_def Let_def m_def [symmetric]]
  have t: "linux_ok (linux k')" if "write_terminal buf m k = Some (r, k')"
    using that assms(2) by (auto simp: write_terminal_def split: bind_splits)
  have f: "linux_ok (linux k')" if "get_file_info (fd_path (fd_at k i)) k = Some (Some (sz, False), k1)"
    "linux_write_file i buf m sz (if fd_append (fd_at k i) then set_fd i ((fd_at k i) \<lparr> fd_offset := sz \<rparr>) k1 else k1) = Some (r, k')"
    for sz k1
  proof (rule w [OF that(2)])
    have "linux k1 = linux k" using get_file_info_linux [OF that(1)] .
    moreover from this assms(2,3) have "i < length (file_descriptors (linux k1))" by (simp add: linux_ok_def)
    ultimately show "linux_ok (linux (if fd_append (fd_at k i) then set_fd i ((fd_at k i) \<lparr> fd_offset := sz \<rparr>) k1 else k1))"
        "fd_open (fd_at (if fd_append (fd_at k i) then set_fd i ((fd_at k i) \<lparr> fd_offset := sz \<rparr>) k1 else k1) i)"
      using p assms(2,4) linux_ok_set_fd [of k1 "(fd_at k i) \<lparr> fd_offset := sz \<rparr>" i] by (auto simp: set_fd_def)
  qed
  show ?thesis
  proof (cases "\<not> fd_writable (fd_at k i) \<or> m = 0 \<or> \<not> user_range_accessible (vm k) buf m False \<or>
      fd_is_terminal (fd_at k i) \<and> (i = 1 \<or> i = 2) \<or> fd_is_dir (fd_at k i)")
    case True
    with call t assms(2) show ?thesis by (auto split: if_splits)
  next
    case False
    with call obtain info k1 where "get_file_info (fd_path (fd_at k i)) k = Some (info, k1)"
      "(case info of None \<Rightarrow> Some (linux_error LINUX_ENOENT, k1)
         | Some (sz, is_dir) \<Rightarrow>
             if is_dir then Some (linux_error LINUX_EISDIR, k1)
             else linux_write_file i buf m sz
                    (if fd_append (fd_at k i) then set_fd i ((fd_at k i) \<lparr> fd_offset := sz \<rparr>) k1 else k1)) = Some (r, k')"
      by (auto split: bind_splits)
    with f get_file_info_linux assms(2) show ?thesis
      by (cases info) (auto split: if_splits prod.splits)
  qed
qed

lemma stat_path_linux: "linux_stat_path a b k = Some (r, k') \<Longrightarrow> linux k' = linux k"
  by (auto simp: linux_stat_path_def dest!: get_file_info_linux store_user_linux split: bind_splits option.splits if_splits)

lemma stat_fd_linux: "linux_stat_fd fd b k = Some (r, k') \<Longrightarrow> linux k' = linux k"
  by (auto simp: linux_stat_fd_def dest!: get_file_info_linux store_user_linux split: bind_splits option.splits if_splits)

lemma access_linux: "linux_access a m k = Some (r, k') \<Longrightarrow> linux k' = linux k"
  by (auto simp: linux_access_def dest!: get_file_info_linux split: bind_splits option.splits)

lemma newfstatat_linux: "linux_newfstatat d p s f k = Some (r, k') \<Longrightarrow> linux k' = linux k"
  by (auto simp: linux_newfstatat_def dest!: stat_path_linux stat_fd_linux split: bind_splits if_splits)

lemma lseek_base_linux: "lseek_base d w k = Some (b, k') \<Longrightarrow> linux k' = linux k"
  by (auto simp: lseek_base_def dest!: get_file_info_linux split: bind_splits if_splits)

lemma lseek_ok:
  assumes "linux_lseek fd n w k = Some (r, k')" and "linux_ok (linux k)"
  shows "linux_ok (linux k')"
proof (cases "get_file_descriptor fd k")
  case None
  then show ?thesis using assms by (simp add: linux_lseek_def)
next
  case (Some i)
  have p: "length (fd_path (fd_at k i)) < 256"
    using linux_ok_fd_at get_file_descriptor_less Some assms(2) by blast
  have s: "linux_ok (linux (set_fd i ((fd_at k i) \<lparr> fd_offset := o' \<rparr>) k1))" if "linux k1 = linux k" for o' k1
    using p that assms(2) get_file_descriptor_open [OF Some] by (simp add: linux_ok_set_fd)
  note call = assms(1) [unfolded linux_lseek_def Some option.case Let_def]
  show ?thesis
  proof (cases "fd_is_terminal (fd_at k i)")
    case True
    then show ?thesis using call assms(2) by simp
  next
    case False
    with call obtain b k1 where b: "lseek_base (fd_at k i) w k = Some (b, k1)"
      by (auto split: bind_splits)
    with False call s [OF lseek_base_linux [OF b]] lseek_base_linux [OF b] assms(2) show ?thesis
      by (auto split: sum.splits if_splits)
  qed
qed

lemma close_ok: "linux_close fd k = (r, k') \<Longrightarrow> linux_ok (linux k) \<Longrightarrow> linux_ok (linux k')"
  by (auto simp: linux_close_def closed_fd_def intro!: linux_ok_set_fd split: if_splits)

lemma map_file_page_linux: "map_file_page p o' f k = Some (r, k') \<Longrightarrow> linux k' = linux k"
  by (cases p) (auto simp: Let_def split: bind_splits if_splits)

lemma map_loop_linux: "linux_map_loop a p path o' ps k = Some (r, k') \<Longrightarrow> linux k' = linux k"
proof (induction ps arbitrary: k)
  case (Cons page ps)
  from Cons.prems obtain frame st st1 ok k1 where k1:
    "(if o' \<le> - 1 - (page - a) then map_file_page path (o' + (page - a)) frame (k \<lparr> vm := st1 \<rparr>)
       else Some (True, k \<lparr> vm := st1 \<rparr>)) = Some (ok, k1)"
    "(if \<not> ok then Some (False, k1 \<lparr> vm := unmap_pages (pages a (page + 4096)) (vm k1) \<rparr>)
       else case protect_user_page page (p \<noteq> 0) (p AND 2 \<noteq> 0) (p AND 4 \<noteq> 0) (vm k1) of
         (True, st) \<Rightarrow> linux_map_loop a p path o' ps (k1 \<lparr> vm := st \<rparr>)
       | (False, st) \<Rightarrow> Some (False, k1 \<lparr> vm := unmap_pages (pages a (page + 4096)) st \<rparr>)) = Some (r, k')"
    by (auto split: bind_splits)
  have l: "linux k1 = linux k" using k1(1) by (auto split: if_splits dest!: map_file_page_linux)
  obtain b st2 where p: "protect_user_page page (p \<noteq> 0) (p AND 2 \<noteq> 0) (p AND 4 \<noteq> 0) (vm k1) = (b, st2)"
    by fastforce
  show ?case
  proof (cases "ok \<and> b")
    case True
    with p k1(2) have "linux_map_loop a p path o' ps (k1 \<lparr> vm := st2 \<rparr>) = Some (r, k')" by simp
    from Cons.IH [OF this] l show ?thesis by simp
  next
    case False
    with p k1(2) l show ?thesis by (auto split: if_splits bool.splits)
  qed
qed simp

lemma linux_ok_cursor [simp]: "linux_ok (c \<lparr> mmap_cursor := x \<rparr>) = linux_ok c"
  by (simp add: linux_ok_def)

lemma map_memory_ok:
  assumes "linux_map_memory a n p f fd o' k = Some (r, k')" and "linux_ok (linux k)"
  shows "linux_ok (linux k')"
proof -
  have *: "linux_ok (linux k2)" if "linux_map_loop x p path o' ps k1 = Some (ok, k2)" "linux k1 = linux k" for x path ps k1 ok k2
    using map_loop_linux [OF that(1)] that(2) assms(2) by simp
  show ?thesis using assms unfolding linux_map_memory_def Let_def
    by (auto simp: * split: if_splits bind_splits sum.splits)
qed

lemma brk_ok:
  assumes "linux_brk a k = Some (r, k')" and "linux_ok (linux k)"
  shows "linux_ok (linux k')"
proof -
  have m: "a < USER_MMAP_BASE" if "a < USER_MMAP_BASE - 4096" using that by (simp add: word_less_nat_alt)
  note call = assms(1) [unfolded linux_brk_def Let_def]
  show ?thesis
  proof (cases "a = 0 \<or> a < heap_start (linux k) \<or> USER_MMAP_BASE - 4096 \<le> a \<or> k' = k")
    case True
    then have "k' = k" using call by (auto simp del: One_nat_def split: if_split_asm)
    then show ?thesis using assms(2) by simp
  next
    case False
    then have "linux k' = (linux k) \<lparr> program_break := a \<rparr>"
      using call by (auto split: if_split_asm bind_split_asm)
    then show ?thesis using False m assms(2) by (simp add: linux_ok_def not_le not_less)
  qed
qed

lemma file_call_ok:
  assumes "linux_file_call regs k = Some (r, k')" and "linux_ok (linux k)"
  shows "linux_ok (linux k')"
proof -
  have o': "linux_ok (linux k')" if "linux_open a f k = Some (r, k')" for a f
    using that assms(2) by (auto simp: linux_open_def dest: open_file_ok split: bind_splits option.splits)
  have same: "linux k' = linux k \<Longrightarrow> linux_ok (linux k')" using assms(2) by simp
  show ?thesis using assms unfolding linux_file_call_def
    by (auto split: if_splits option.splits
        intro: o' read_fd_ok write_fd_ok lseek_ok close_ok get_file_descriptor_less get_file_descriptor_open same stat_path_linux
          stat_fd_linux access_linux newfstatat_linux)
qed

lemma memory_call_ok:
  assumes "linux_memory_call regs k = Some (r, k')" and "linux_ok (linux k)"
  shows "linux_ok (linux k')"
  using assms unfolding linux_memory_call_def
  by (auto split: if_splits option.splits intro: map_memory_ok brk_ok
      simp: linux_mprotect_def linux_munmap_def Let_def split_beta)

lemma info_call_ok:
  assumes "linux_info_call regs k = Some (r, k')" and "linux_ok (linux k)"
  shows "linux_ok (linux k')"
proof -
  have same: "linux_ok (linux k')" if "linux k' = linux k" using that assms(2) by simp
  have cwd: "linux k' = linux k" if "linux_getcwd a n k = Some (r, k')" for a n
    using that by (auto simp: linux_getcwd_def Let_def dest!: same_linux split: option.splits if_splits bind_splits)
  have uname: "linux k' = linux k" if "linux_uname a k = Some (r, k')" for a
    using that by (auto simp: linux_uname_def dest!: same_linux split: if_splits bind_splits)
  have tod: "linux k' = linux k" if "linux_gettimeofday a b k = Some (r, k')" for a b
    using that by (auto simp: linux_gettimeofday_def dest!: same_linux split: if_splits bind_splits)
  have tim: "linux k' = linux k" if "linux_time a k = Some (r, k')" for a
    using that by (auto simp: linux_time_def dest!: same_linux split: if_splits bind_splits)
  have clk: "linux k' = linux k" if "linux_clock_gettime a b k = Some (r, k')" for a b
    using that by (auto simp: linux_clock_gettime_def dest!: same_linux split: if_splits bind_splits)
  show ?thesis using assms(1) unfolding linux_info_call_def
    by (auto split: if_splits intro: same cwd uname tod tim clk)
qed

lemma handler_ok:
  assumes "linux_syscall_handler regs k = Some (out, k')" and "linux_ok (linux k)"
  shows "linux_ok (linux k')"
proof -
  have r: "linux_ok (linux k')" if "returns x = Some (out, k')" "\<And>v k1. x = Some (v, k1) \<Longrightarrow> linux_ok (linux k1)" for x
    using that by (auto simp: returns_def)
  have e: "linux_ok (linux k')" if "linux_exit s k = (out, k')" for s
    using that assms(2) reset_ok
    by (auto simp: linux_exit_def Let_def syscall_set_linux_abi_def linux_syscall_reset_def split: if_splits)
  show ?thesis using assms unfolding linux_syscall_handler_def
    by (simp only: split: if_split_asm) (auto intro: r file_call_ok memory_call_ok info_call_ok e)
qed

text \<open>The process states that the calls of programs lead to, from the reset at start.\<close>

inductive linux_reachable :: "linux_context \<Rightarrow> bool" where
  start: "linux_reachable linux_reset_process_state"
| heap: "linux_reachable (linux k) \<Longrightarrow> linux_reachable (linux (linux_syscall_set_heap_base a k))"
| call: "linux_reachable (linux k) \<Longrightarrow> linux_syscall_handler regs k = Some (out, k') \<Longrightarrow> linux_reachable (linux k')"

lemma align_up_bounds:
  assumes "v < USER_MMAP_BASE - 4096"
  shows "v \<le> linux_align_up_page v" and "linux_align_up_page v < USER_MMAP_BASE"
proof -
  have v: "unat v < 0x700000000000 - 4096" using assms by (simp add: word_less_nat_alt)
  then have n: "unat (v + 4096 - 1) = unat v + 4095" by (simp add: unat_word_ariths)
  have u: "unat (linux_align_up_page v) = (unat v + 4095) div 4096 * 4096"
    unfolding linux_align_up_page_def unat_page_of n ..
  have "unat v \<le> (unat v + 4095) div 4096 * 4096" by linarith
  then show "v \<le> linux_align_up_page v" by (simp add: word_le_nat_alt u)
  have "(unat v + 4095) div 4096 * 4096 \<le> unat v + 4095" by simp
  then show "linux_align_up_page v < USER_MMAP_BASE" using v by (simp add: word_less_nat_alt u)
qed

lemma reachable_ok: "linux_reachable c \<Longrightarrow> linux_ok c"
proof (induction rule: linux_reachable.induct)
  case start
  show ?case by (rule reset_ok)
next
  case (heap k a)
  then show ?case using align_up_bounds [of a]
    by (simp add: linux_syscall_set_heap_base_def linux_ok_def Let_def)
next
  case (call k regs out k')
  then show ?case using handler_ok by blast
qed

section \<open>Descriptors\<close>

lemma find_free_fd_least:
  "find_free_fd ds i = Some j \<Longrightarrow> \<not> fd_open (ds ! (j - i)) \<and> (\<forall>n < j - i. fd_open (ds ! n))"
proof (induction ds arbitrary: i)
  case (Cons d ds)
  show ?case
  proof (cases "fd_open d")
    case True
    with Cons.prems have "find_free_fd ds (Suc i) = Some j" by simp
    with Cons.IH find_free_fd_bound have "\<not> fd_open (ds ! (j - Suc i)) \<and> (\<forall>n < j - Suc i. fd_open (ds ! n))" "Suc i \<le> j"
      by blast+
    moreover from this have "j - i = Suc (j - Suc i)" by simp
    ultimately show ?thesis using True by (auto simp: less_Suc_eq_0_disj)
  qed (use Cons.prems in auto)
qed simp

lemma find_free_fd_none: "find_free_fd ds i = None \<longleftrightarrow> (\<forall>d\<in>set ds. fd_open d)"
  by (induction ds arbitrary: i) auto

lemma open_entry_eq:
  assumes "linux_ok (linux k)" and "open_entry p flags sz is_dir k = (r, k')" and "r < of_nat LINUX_FD_LIMIT"
  shows "\<exists>i<LINUX_FD_LIMIT. r = of_nat i \<and> fd_at k i = closed_fd \<and> (\<forall>j<i. fd_open (fd_at k j))
     \<and> k' = set_fd i ((fd_at k' i)) k \<and> fd_open (fd_at k' i) \<and> fd_path (fd_at k' i) = take 255 p
     \<and> fd_offset (fd_at k' i) = (if flags AND 0x0400 \<noteq> 0 then sz else 0)"
proof (cases "find_free_fd (file_descriptors (linux k)) 0")
  case None
  then have "r = - 24" using assms(2) by (simp add: open_entry_def linux_error_def)
  then show ?thesis using assms(3) by (simp add: word_less_nat_alt)
next
  case (Some i)
  have l: "length (file_descriptors (linux k)) = LINUX_FD_LIMIT" using assms(1) by (simp add: linux_ok_def)
  have i: "i < LINUX_FD_LIMIT" using find_free_fd_bound [OF Some] l by simp
  note f = find_free_fd_least [OF Some, simplified]
  then have "fd_at k i = closed_fd" using assms(1) i l by (auto simp: linux_ok_def)
  moreover obtain d where "r = of_nat i" "k' = set_fd i d k" "fd_open d" "fd_path d = take 255 p"
      "fd_offset d = (if flags AND 0x0400 \<noteq> 0 then sz else 0)"
    using assms(2) Some by (auto simp: open_entry_def)
  moreover have "fd_at (set_fd i d k) i = d" using i l by (simp add: set_fd_def)
  ultimately show ?thesis using i f by auto
qed

lemma fd_at_set_fd: "i < length (file_descriptors (linux k)) \<Longrightarrow> fd_at (set_fd i d k) j = (if j = i then d else fd_at k j)"
  by (auto simp: set_fd_def)

section \<open>Properties\<close>

text \<open>A kernel with no disk, just started.\<close>

definition empty_vfs :: vfs where
  "empty_vfs = \<lparr> fat = \<lparr> blk = \<lparr> current_drive = 0, units = (\<lambda>_. None) \<rparr>, g_current_cluster = 0, g_current_path = asc ''/'',
      g_cluster_heap_offset = 0, g_sectors_per_cluster = 0, g_root_cluster = 0, g_cluster_count = 0 \<rparr>,
    vfs_drive = 0, drive_mounted = (\<lambda>_. False), drive_dirs = (\<lambda>_. asc ''/'') \<rparr>"

definition boot_kernel :: kernel where
  "boot_kernel = \<lparr> vm = vm_machine, files = empty_vfs, tty = \<lparr> trm = boot_terminal, irqs = [] \<rparr>,
     linux = linux_reset_process_state, rtc_device = (\<lambda>_ _. 0), rtc_reads = 0, current_pid = 0, launcher_rsp = 0,
     linux_abi = True \<rparr>"

text \<open>
  C15: the state of a process is well formed after any calls. Starting from the reset, whatever
  system calls a program makes with whatever arguments, the table keeps its 32 descriptors, every
  path in it is terminated inside its buffer, a closed descriptor has no trace of what it was, and
  the break stays between the start of the heap and the mappings.
\<close>

theorem linux_state_well_formed:
  assumes "linux_reachable c"
  shows "length (file_descriptors c) = LINUX_FD_LIMIT
     \<and> (\<forall>d\<in>set (file_descriptors c). length (fd_path d) < 256 \<and> (fd_open d \<or> d = closed_fd))
     \<and> heap_start c \<le> program_break c \<and> program_break c < USER_MMAP_BASE"
  using reachable_ok [OF assms] by (simp add: linux_ok_def)

theorem linux_state_well_formed_witness:
  "\<exists>k'. linux_syscall_handler \<lparr> rax = 3, rdi = 1, rsi = 0, rdx = 0, r10 = 0, r8 = 0, r9 = 0 \<rparr> boot_kernel = Some (Return 0, k')
     \<and> length (file_descriptors (linux k')) = LINUX_FD_LIMIT \<and> fd_at k' 1 = closed_fd
     \<and> list_all (\<lambda>d. length (fd_path d) < 256 \<and> (fd_open d \<or> d = closed_fd)) (file_descriptors (linux k'))"
proof -
  let ?k = "set_fd 1 closed_fd boot_kernel"
  have c: "linux_syscall_handler \<lparr> rax = 3, rdi = 1, rsi = 0, rdx = 0, r10 = 0, r8 = 0, r9 = 0 \<rparr> boot_kernel = Some (Return 0, ?k)"
    by (simp add: linux_syscall_handler_def linux_file_call_def linux_close_def get_file_descriptor_def returns_def set_fd_def
        boot_kernel_def linux_reset_process_state_def closed_fd_def Let_def word_le_nat_alt)
  have "linux_reachable (linux boot_kernel)" using start by (simp add: boot_kernel_def)
  from linux_state_well_formed [OF call [OF this c]] c show ?thesis
    by (simp add: list_all_iff set_fd_def)
qed

text \<open>
  C29: opening a file takes the lowest free descriptor and touches no other one. When the call returns
  a descriptor, it was closed before and all below it are open; it is open now, at the start of the
  file or at its end for appending, and closing it gives back exactly the table from before.
\<close>

theorem open_takes_lowest_descriptor:
  assumes "linux_ok (linux k)" and "open_entry path flags sz is_dir k = (r, k')" and "r < of_nat LINUX_FD_LIMIT"
  shows "\<exists>i<LINUX_FD_LIMIT. r = of_nat i \<and> fd_at k i = closed_fd \<and> (\<forall>j<i. fd_open (fd_at k j))
     \<and> fd_open (fd_at k' i) \<and> fd_offset (fd_at k' i) = (if flags AND 0x0400 \<noteq> 0 then sz else 0)
     \<and> (\<forall>j. j \<noteq> i \<longrightarrow> fd_at k' j = fd_at k j) \<and> linux_close r k' = (0, k)"
proof -
  from open_entry_eq [OF assms] obtain i where i: "i < LINUX_FD_LIMIT" "r = of_nat i" "fd_at k i = closed_fd"
    "\<forall>j<i. fd_open (fd_at k j)" "k' = set_fd i (fd_at k' i) k" "fd_open (fd_at k' i)"
    "fd_offset (fd_at k' i) = (if flags AND 0x0400 \<noteq> 0 then sz else 0)" by blast
  have l: "i < length (file_descriptors (linux k))" using assms(1) i(1) by (simp add: linux_ok_def)
  have u: "unat r = i" using i(1,2) by (simp add: unat_of_nat)
  have "\<not> of_nat LINUX_FD_LIMIT \<le> r" using assms(3) by (simp add: not_le)
  moreover have "set_fd i closed_fd k' = k"
    using i(3) l by (subst i(5)) (simp add: set_fd_def list_update_same_conv)
  ultimately have "linux_close r k' = (0, k)" using i(6) u by (simp add: linux_close_def)
  moreover have "\<forall>j. j \<noteq> i \<longrightarrow> fd_at k' j = fd_at k j" using fd_at_set_fd [OF l] i(5) by metis
  ultimately show ?thesis using i by blast
qed

theorem open_takes_lowest_descriptor_witness:
  "\<exists>k'. open_entry (asc ''a'') 0 5 False boot_kernel = (3, k') \<and> linux_close 3 k' = (0, boot_kernel)"
proof -
  have f: "find_free_fd (file_descriptors (linux boot_kernel)) 0 = Some 3"
    by (simp add: boot_kernel_def linux_reset_process_state_def closed_fd_def Let_def numeral_eq_Suc)
  obtain k' where k': "open_entry (asc ''a'') 0 5 False boot_kernel = (3, k')" using f by (simp add: open_entry_def)
  have "linux_ok (linux boot_kernel)" using reachable_ok [OF start] by (simp add: boot_kernel_def)
  from open_takes_lowest_descriptor [OF this k'] k' show ?thesis by auto
qed

end
