(* ===== verification/LinuxMem.thy ===== *)
theory LinuxMem
  imports Linux
begin

text \<open>
  The heap and the anonymous mappings of Linux programs: what \<open>brk\<close>, \<open>mmap\<close> and \<open>munmap\<close> of
  \<open>helper/core/syscall/linux_syscall.c\<close> do to the pages a program can reach.
\<close>

section \<open>Ranges of pages\<close>

lemma accessible_mapped:
  assumes "sound st F" and "user_va v" and "user_page_accessible st v w"
  shows "user_page_mapped st v"
proof -
  have sp: "space st F" and pl: "plain st" using assms(1) by (simp_all add: sound_def isolated_def)
  have "user_present (aspace st v)"
    using accessible_aspace [OF assms(1,2)] assms(3) by (simp add: denied_def)
  then show ?thesis using pl user_path [OF assms(2)] unfolding user_page_mapped_iff [OF sp assms(2)] plain_def aspace_def
      user_present_bits flag_zero by blast
qed

lemma unmap_pages_ok:
  assumes "sound st F" and "\<forall>p\<in>set ps. user_va p"
  shows "\<exists>F'. sound (unmap_pages ps st) F' \<and> F \<subseteq> F'
     \<and> (\<forall>v w. user_va v \<longrightarrow> user_page_accessible (unmap_pages ps st) v w =
          (page_of v \<notin> page_of ` set ps \<and> user_page_accessible st v w))"
  using assms
proof (induction ps arbitrary: st F)
  case Nil
  then show ?case by (auto simp: unmap_pages_def)
next
  case (Cons p ps)
  have p: "user_va p" using Cons.prems(2) by simp
  let ?st = "snd (unmap_user_page p st)"
  have "\<exists>F1. sound ?st F1 \<and> F \<subseteq> F1 \<and> (\<forall>v w. user_va v \<longrightarrow> user_page_accessible ?st v w =
      (page_of v \<noteq> page_of p \<and> user_page_accessible st v w))"
  proof (cases "user_page_mapped st p")
    case True
    from sound_unmap [OF Cons.prems(1) p True] obtain st' where
      u: "unmap_user_page p st = (True, st')" "sound st' (insert (aspace st p AND PAGE_ADDRESS_MASK) F)"
        "\<And>v. user_va v \<Longrightarrow> aspace st' v = (if page_of v = page_of p then 0 else aspace st v)" by blast
    have "denied w 0" for w by (simp add: denied_def)
    then show ?thesis using u accessible_aspace [OF u(2)] accessible_aspace [OF Cons.prems(1)] by auto
  next
    case False
    then have "?st = st" by (auto simp: user_page_mapped_def unmap_user_page_def Let_def split: option.splits)
    moreover have "\<not> user_page_accessible st v w" if "user_va v" "page_of v = page_of p" for v w
      using accessible_mapped [OF Cons.prems(1) p, of w] False that accessible_page_of by metis
    ultimately show ?thesis using Cons.prems(1) by auto
  qed
  then obtain F1 where f: "sound ?st F1" "F \<subseteq> F1" "\<And>v w. user_va v \<Longrightarrow> user_page_accessible ?st v w =
      (page_of v \<noteq> page_of p \<and> user_page_accessible st v w)" by blast
  have "unmap_pages (p # ps) st = unmap_pages ps ?st" by (simp add: unmap_pages_def)
  with Cons.IH [OF f(1)] Cons.prems(2) f(2,3) show ?case by fastforce
qed

lemma brk_map_ok:
  assumes "sound st F" and "4 * length ps \<le> card F" and "\<forall>p\<in>set ps. user_va p"
  shows "\<exists>st' F'. brk_map ps st = Some st' \<and> sound st' F'
     \<and> (\<forall>v w. user_va v \<longrightarrow> user_page_accessible st' v w =
          (page_of v \<in> page_of ` set ps \<or> user_page_accessible st v w))"
  using assms
proof (induction ps arbitrary: st F)
  case Nil
  then show ?case by auto
next
  case (Cons p ps)
  have p: "4 \<le> card F" "user_va p" using Cons.prems(2,3) by auto
  from sound_map [OF Cons.prems(1) p] obtain n st1 st2 F1 where
    m: "pmm_alloc_zeroed_page st = Some (n, st1)" "map_user_page p n st1 = Some st2" "sound st2 F1"
      "card F \<le> card F1 + 4"
      "\<And>v. user_va v \<Longrightarrow> aspace st2 v = (if page_of v = page_of p then n OR PAGE_USER_FLAGS else aspace st v)"
    by blast
  have "\<not> denied w (n OR PAGE_USER_FLAGS)" for w
    using or_flags(3) [of n] or_flags_mask(3) [of n] by (simp add: denied_def)
  then have a: "user_page_accessible st2 v w = (page_of v = page_of p \<or> user_page_accessible st v w)" if "user_va v" for v w
    using m(5) [OF that] accessible_aspace [OF m(3) that] accessible_aspace [OF Cons.prems(1) that] by simp
  have "4 * length ps \<le> card F1" using m(4) Cons.prems(2) by simp
  from Cons.IH [OF m(3) this] Cons.prems(3) obtain st' F' where
    "brk_map ps st2 = Some st'" "sound st' F'" "\<And>v w. user_va v \<Longrightarrow> user_page_accessible st' v w =
          (page_of v \<in> page_of ` set ps \<or> user_page_accessible st2 v w)" by auto
  then show ?case using m(1,2) a by auto
qed

section \<open>Anonymous mappings\<close>

text \<open>Without a file the loop is the one of the native call.\<close>

lemma linux_map_loop_native:
  "linux_map_loop a prot None offset ps k = map_option (\<lambda>(ok, st). (ok, k \<lparr> vm := st \<rparr>)) (native_map_loop a prot ps (vm k))"
proof (induction ps arbitrary: k)
  case (Cons p ps)
  show ?case
  proof (cases "pmm_alloc_zeroed_page (vm k)")
    case (Some r)
    obtain f st where r: "r = (f, st)" by force
    show ?thesis
    proof (cases "map_user_page p f st")
      case m: (Some st1)
      obtain ok st2 where "protect_user_page p (prot \<noteq> 0) (prot AND 2 \<noteq> 0) (prot AND 4 \<noteq> 0) st1 = (ok, st2)" by force
      then show ?thesis using Some r m Cons.IH [of "k \<lparr> vm := st2 \<rparr>"] by (cases ok) (simp_all add: option.map_comp comp_def split_def)
    qed (use Some r in simp)
  qed simp
qed simp

text \<open>No window of \<open>n\<close> bytes below the limit that the search starting at \<open>a\<close> looks at is free.\<close>

definition full :: "machine \<Rightarrow> u64 \<Rightarrow> u64 \<Rightarrow> bool" where
  "full st n a \<longleftrightarrow> (\<forall>i. unat a + Suc i * unat n \<le> unat USER_MMAP_LIMIT \<longrightarrow>
     list_ex (user_page_mapped st) (pages (a + of_nat i * n) (a + of_nat i * n + n)))"

lemma full_step:
  assumes "full st n (a + n)" and "unat (a + n) = unat a + unat n" and "list_ex (user_page_mapped st) (pages a (a + n))"
  shows "full st n a"
  unfolding full_def
proof (intro allI impI)
  fix i assume i: "unat a + Suc i * unat n \<le> unat USER_MMAP_LIMIT"
  show "list_ex (user_page_mapped st) (pages (a + of_nat i * n) (a + of_nat i * n + n))"
  proof (cases i)
    case (Suc j)
    then have "unat (a + n) + Suc j * unat n \<le> unat USER_MMAP_LIMIT" using i assms(2) by simp
    with assms(1) have "list_ex (user_page_mapped st) (pages (a + n + of_nat j * n) (a + n + of_nat j * n + n))"
      unfolding full_def by blast
    moreover have "a + n + of_nat j * n = a + of_nat i * n" using Suc by (simp add: algebra_simps)
    ultimately show ?thesis by simp
  qed (use assms(3) in simp)
qed

lemma full_end:
  assumes "\<not> (a < USER_MMAP_LIMIT \<and> n \<le> USER_MMAP_LIMIT - a)" and "n \<noteq> 0"
  shows "full st n a"
  unfolding full_def
proof (intro allI impI)
  fix i assume "unat a + Suc i * unat n \<le> unat USER_MMAP_LIMIT"
  then have i: "unat a + unat n \<le> 0x7F0000000000" by simp
  have "0 < unat n" using assms(2) by (simp add: unat_gt_0)
  with i have a: "a < USER_MMAP_LIMIT" by (simp add: word_less_nat_alt)
  then have "unat (USER_MMAP_LIMIT - a) = 0x7F0000000000 - unat a"
    by (subst unat_sub) (simp_all add: word_less_nat_alt word_le_nat_alt)
  then have "n \<le> USER_MMAP_LIMIT - a" using i by (simp add: word_le_nat_alt)
  with assms(1) a show "list_ex (user_page_mapped st) (pages (a + of_nat i * n) (a + of_nat i * n + n))" by simp
qed

lemma find_gap_ok:
  assumes "n \<noteq> 0" and "n \<le> 0x1000000" and "page_aligned n" and "page_aligned a" and "a \<le> USER_MMAP_LIMIT"
  shows "\<exists>g. find_gap st n a = Some g \<and> a \<le> g \<and> page_aligned g
     \<and> (g < USER_MMAP_LIMIT \<and> n \<le> USER_MMAP_LIMIT - g \<longrightarrow> \<not> list_ex (user_page_mapped st) (pages g (g + n)))
     \<and> (g < USER_MMAP_LIMIT \<and> n \<le> USER_MMAP_LIMIT - g \<or> full st n a)"
  using assms(4,5)
proof (induction "0x7F0000000000 - unat a" arbitrary: a rule: less_induct)
  case less
  show ?case
  proof (cases "(a < USER_MMAP_LIMIT \<and> n \<le> USER_MMAP_LIMIT - a) \<and> list_ex (user_page_mapped st) (pages a (a + n))")
    case True
    have nn: "0 < unat n" "unat n \<le> 0x1000000" using assms(1,2) by (simp_all add: unat_gt_0 word_le_nat_alt)
    have a: "unat a < 0x7F0000000000" using True by (simp add: word_less_nat_alt)
    have "unat (USER_MMAP_LIMIT - a) = 0x7F0000000000 - unat a"
      using True by (subst unat_sub) (simp_all add: word_less_nat_alt word_le_nat_alt)
    then have "unat n \<le> 0x7F0000000000 - unat a" using True by (simp add: word_le_nat_alt)
    with a nn have u: "unat (a + n) = unat a + unat n" "unat a + unat n \<le> 0x7F0000000000" by (simp_all add: unat_word_ariths)
    have "page_aligned (a + n)" using less.prems(1) assms(3) mod_add_eq [of "unat a" 4096 "unat n"] by (simp add: page_aligned_iff u(1))
    moreover have "a + n \<le> USER_MMAP_LIMIT" using u by (simp add: word_le_nat_alt)
    moreover have "0x7F0000000000 - unat (a + n) < 0x7F0000000000 - unat a" using u nn a by linarith
    ultimately obtain g where g: "find_gap st n (a + n) = Some g" "a + n \<le> g" "page_aligned g"
      "g < USER_MMAP_LIMIT \<and> n \<le> USER_MMAP_LIMIT - g \<longrightarrow> \<not> list_ex (user_page_mapped st) (pages g (g + n))"
      "g < USER_MMAP_LIMIT \<and> n \<le> USER_MMAP_LIMIT - g \<or> full st n (a + n)"
      using less.hyps [of "a + n"] by blast
    have "a \<le> a + n" using u by (simp add: word_le_nat_alt)
    then have "a \<le> g" using g(2) by simp
    moreover have "full st n a" if "full st n (a + n)" using full_step [OF that u(1)] True by blast
    ultimately show ?thesis using g True by (subst find_gap.simps) auto
  next
    case False
    have "full st n a" if "\<not> (a < USER_MMAP_LIMIT \<and> n \<le> USER_MMAP_LIMIT - a)" using full_end [OF that assms(1)] .
    with False show ?thesis using less.prems(1) by (subst find_gap.simps) auto
  qed
qed

section \<open>The heap\<close>

lemma align_up_page:
  assumes "v < USER_MMAP_BASE"
  shows "page_aligned (linux_align_up_page v)" and "unat (linux_align_up_page v) \<le> 2 ^ 47"
proof -
  have v: "unat v < 0x700000000000" using assms by (simp add: word_less_nat_alt)
  then have n: "unat (v + 4096 - 1) = unat v + 4095" by (simp add: unat_word_ariths)
  show "page_aligned (linux_align_up_page v)" unfolding linux_align_up_page_def by simp
  have "(unat v + 4095) div 4096 * 4096 \<le> unat v + 4095" by simp
  also have "\<dots> \<le> 2 ^ 47" using v by simp
  finally have "(unat v + 4095) div 4096 * 4096 \<le> 2 ^ 47" .
  then show "unat (linux_align_up_page v) \<le> 2 ^ 47"
    unfolding linux_align_up_page_def unat_page_of n .
qed

text \<open>The accessible pages after moving the end of the heap from \<open>e\<close> to \<open>e'\<close>.\<close>

definition heap_moved :: "u64 \<Rightarrow> u64 \<Rightarrow> machine \<Rightarrow> machine \<Rightarrow> bool" where
  "heap_moved e e' st st' \<longleftrightarrow> (\<forall>v w. user_va v \<longrightarrow> user_page_accessible st' v w =
     (if e \<le> v \<and> v < e' then True else if e' \<le> v \<and> v < e then False else user_page_accessible st v w))"

lemma heap_movedI:
  assumes "e \<le> e' \<Longrightarrow> \<forall>v w. user_va v \<longrightarrow> user_page_accessible st' v w = ((e \<le> v \<and> v < e') \<or> user_page_accessible st v w)"
    and "e' < e \<Longrightarrow> \<forall>v w. user_va v \<longrightarrow> user_page_accessible st' v w = (\<not> (e' \<le> v \<and> v < e) \<and> user_page_accessible st v w)"
  shows "heap_moved e e' st st'"
proof (cases "e \<le> e'")
  case True
  have "\<not> (e' \<le> v \<and> v < e)" for v using True by auto
  then show ?thesis using assms(1) [OF True] unfolding heap_moved_def by meson
next
  case False
  have "\<not> (e \<le> v \<and> v < e')" for v using False by auto
  then show ?thesis using assms(2) False unfolding heap_moved_def by (meson not_le)
qed

lemma heap_pages_ok:
  assumes s: "sound st F" and "4 * length (pages e e') \<le> card F"
    and e: "page_aligned e" "unat e \<le> 2 ^ 47" and e': "page_aligned e'" "unat e' \<le> 2 ^ 47"
  shows "\<exists>st' F'. (if e' > e then brk_map (pages e e') st else if e' < e then Some (unmap_pages (pages e' e) st)
      else Some st) = Some st' \<and> sound st' F' \<and> heap_moved e e' st st'"
proof (cases e' e rule: linorder_cases)
  case less
  have "\<forall>p\<in>set (pages e' e). user_va p" using set_pages(1) [OF e'(1) e] by blast
  from unmap_pages_ok [OF s this] obtain F' where "sound (unmap_pages (pages e' e) st) F'"
    "\<forall>v w. user_va v \<longrightarrow> user_page_accessible (unmap_pages (pages e' e) st) v w =
        (\<not> (e' \<le> v \<and> v < e) \<and> user_page_accessible st v w)" unfolding set_pages(3) [OF e'(1) e] by blast
  moreover have "\<not> e \<le> e'" "\<not> e < e'" using less by auto
  ultimately show ?thesis using less heap_movedI by (metis (no_types))
next
  case equal
  then have "heap_moved e e' st st" by (intro heap_movedI) auto
  with s equal show ?thesis by auto
next
  case greater
  have "\<forall>p\<in>set (pages e e'). user_va p" using set_pages(1) [OF e(1) e'] by blast
  from brk_map_ok [OF s assms(2) this] obtain st' F' where "brk_map (pages e e') st = Some st'" "sound st' F'"
    "\<forall>v w. user_va v \<longrightarrow> user_page_accessible st' v w = ((e \<le> v \<and> v < e') \<or> user_page_accessible st v w)"
    unfolding set_pages(3) [OF e(1) e'] by blast
  moreover have "\<not> e' < e" using greater by auto
  ultimately show ?thesis using greater heap_movedI by (metis (no_types))
qed

lemma linux_brk_ok:
  assumes "sound (vm k) F" and "linux_ok (linux k)"
    and "a \<noteq> 0" "heap_start (linux k) \<le> a" "a < USER_MMAP_BASE - 4096"
    and "e = linux_align_up_page (program_break (linux k))" and "e' = linux_align_up_page a"
    and "list_all (\<lambda>p. \<not> user_page_mapped (vm k) p) (pages e e')" and "4 * length (pages e e') \<le> card F"
  shows "\<exists>st F'. linux_brk a k = Some (a, k \<lparr> vm := st, linux := (linux k) \<lparr> program_break := a \<rparr> \<rparr>)
     \<and> sound st F' \<and> heap_moved e e' (vm k) st"
proof -
  have "program_break (linux k) < USER_MMAP_BASE" using assms(2) by (simp add: linux_ok_def)
  note e = align_up_page [OF this, folded assms(6)]
  have "a < USER_MMAP_BASE" using assms(5) by (simp add: word_less_nat_alt)
  note e' = align_up_page [OF this, folded assms(7)]
  from heap_pages_ok [OF assms(1,9) e e'] obtain st F' where
    st: "(if e' > e then brk_map (pages e e') (vm k) else if e' < e then Some (unmap_pages (pages e' e) (vm k))
      else Some (vm k)) = Some st" "sound st F'" "heap_moved e e' (vm k) st" by (elim exE conjE) (rule that)
  have c: "(a = 0) = False" "(a < heap_start (linux k) \<or> USER_MMAP_BASE - 4096 \<le> a) = False"
    using assms(3) leD [OF assms(4)] leD [of "USER_MMAP_BASE - 4096" a] assms(5) by blast+
  have f: "(e < e' \<and> list_ex (user_page_mapped (vm k)) (pages e e')) = False"
    using assms(8) unfolding list_ex_iff list_all_iff by blast
  have "linux_brk a k = Some (a, k \<lparr> vm := st, linux := (linux k) \<lparr> program_break := a \<rparr> \<rparr>)"
    unfolding linux_brk_def Let_def assms(6,7) [symmetric] c f if_False st(1) by (simp only: bind.bind_lunit)
  then show ?thesis using st(2,3) by (intro exI conjI)
qed

lemma align_up_cursor:
  assumes "USER_MMAP_BASE \<le> c" and "c \<le> USER_MMAP_LIMIT"
  shows "USER_MMAP_BASE \<le> linux_align_up_page c" and "linux_align_up_page c \<le> USER_MMAP_LIMIT"
proof -
  have c: "0x700000000000 \<le> unat c" "unat c \<le> 0x7F0000000000" using assms by (simp_all add: word_le_nat_alt)
  then have n: "unat (c + 4096 - 1) = unat c + 4095" by (simp add: unat_word_ariths)
  have u: "unat (linux_align_up_page c) = (unat c + 4095) div 4096 * 4096"
    unfolding linux_align_up_page_def unat_page_of n ..
  have "unat c \<le> (unat c + 4095) div 4096 * 4096" by linarith
  then show "USER_MMAP_BASE \<le> linux_align_up_page c" using c by (simp add: word_le_nat_alt u)
  have "(unat c + 4095) div 4096 \<le> (0x7F0000000000 + 4095) div 4096" using c(2) by (intro div_le_mono) simp
  then have "(unat c + 4095) div 4096 \<le> 0x7F0000000" by simp
  then show "linux_align_up_page c \<le> USER_MMAP_LIMIT" by (simp add: word_le_nat_alt u)
qed

text \<open>Where the search starts.\<close>

definition search_start :: "u64 \<Rightarrow> u64 \<Rightarrow> kernel \<Rightarrow> u64" where
  "search_start requested n k =
     (let a = linux_align_up_page requested in
      if a < USER_MMAP_BASE \<or> a \<ge> USER_MMAP_LIMIT \<or> n > USER_MMAP_LIMIT - a
      then linux_align_up_page (mmap_cursor (linux k)) else a)"

lemma choose_address_ok:
  assumes "USER_MMAP_BASE \<le> mmap_cursor (linux k)" and "mmap_cursor (linux k) \<le> USER_MMAP_LIMIT"
    and "n \<noteq> 0" and "n \<le> 0x1000000" and "page_aligned n" and "flags AND 0x10 = 0"
  shows "choose_address requested n flags k = Some (Inl (linux_error LINUX_ENOMEM)) \<and> full (vm k) n (search_start requested n k)
     \<or> (\<exists>a. choose_address requested n flags k = Some (Inr a) \<and> USER_MMAP_BASE \<le> a \<and> page_aligned a
          \<and> a < USER_MMAP_LIMIT \<and> n \<le> USER_MMAP_LIMIT - a \<and> \<not> list_ex (user_page_mapped (vm k)) (pages a (a + n)))"
proof -
  define r where "r = linux_align_up_page requested"
  define s where "s = search_start requested n k"
  have se: "s = search_start requested n k" by (rule s_def)
  note s_def = s_def [unfolded search_start_def Let_def, folded r_def]
  have "page_aligned s" unfolding s_def r_def linux_align_up_page_def by simp
  moreover have b: "USER_MMAP_BASE \<le> s" "s \<le> USER_MMAP_LIMIT"
    using align_up_cursor [OF assms(1,2)] unfolding s_def by auto
  ultimately obtain g where g: "find_gap (vm k) n s = Some g" "s \<le> g" "page_aligned g"
     "g < USER_MMAP_LIMIT \<and> n \<le> USER_MMAP_LIMIT - g \<longrightarrow> \<not> list_ex (user_page_mapped (vm k)) (pages g (g + n))"
     "g < USER_MMAP_LIMIT \<and> n \<le> USER_MMAP_LIMIT - g \<or> full (vm k) n s"
    using find_gap_ok [OF assms(3,4,5)] by blast
  have c: "choose_address requested n flags k = Some (if g \<ge> USER_MMAP_LIMIT \<or> n > USER_MMAP_LIMIT - g
      then Inl (linux_error LINUX_ENOMEM) else Inr g)"
    using assms(6) g(1) unfolding choose_address_def r_def [symmetric] Let_def s_def [symmetric] by (simp only: bind.bind_lunit) simp
  have "USER_MMAP_BASE \<le> g" using b(1) g(2) by (rule order.trans)
  with g(3,4,5) show ?thesis unfolding c not_le [symmetric] se [symmetric] by (auto simp only: if_True if_False not_le de_Morgan_disj split: if_split)
qed

lemma mapped_page_of [simp]: "user_page_mapped st (page_of v) = user_page_mapped st v"
  by (simp add: user_page_mapped_def user_entry_def)

text \<open>An address below the limit of mappings gives a range that the native call would accept, too.\<close>

lemma mmap_range:
  assumes "sz \<noteq> 0" and "sz \<le> 0x1000000" and "page_aligned a" and "USER_MMAP_BASE \<le> a" and "a < USER_MMAP_LIMIT"
  shows "valid_user_memory_range a sz = Some (linux_align_up_page sz)"
    and "linux_align_up_page sz \<noteq> 0" and "linux_align_up_page sz \<le> 0x1000000" and "sz \<le> linux_align_up_page sz"
proof -
  let ?r = "linux_align_up_page sz"
  have z: "0 < unat sz" "unat sz \<le> 0x1000000" using assms(1,2) by (simp_all add: unat_gt_0 word_le_nat_alt)
  then have n: "unat (sz + 4096 - 1) = unat sz + 4095" by (simp add: unat_word_ariths)
  have u: "unat ?r = (unat sz + 4095) div 4096 * 4096" unfolding linux_align_up_page_def unat_page_of n ..
  have le: "unat sz \<le> unat ?r" unfolding u by linarith
  then show "sz \<le> ?r" by (simp add: word_le_nat_alt)
  show "?r \<noteq> 0" using le z(1) by auto
  have "(unat sz + 4095) div 4096 \<le> (0x1000000 + 4095) div 4096" using z(2) by (intro div_le_mono) simp
  then show "?r \<le> 0x1000000" by (simp add: word_le_nat_alt u)
  have a: "0x700000000000 \<le> unat a" "unat a < 0x7F0000000000" using assms(4,5) by (simp_all add: word_le_nat_alt word_less_nat_alt)
  have d: "unat (USER_ADDRESS_LIMIT - a) = 0x800000000000 - unat a"
    using a by (subst unat_sub) (simp_all add: word_le_nat_alt)
  have r: "unat ?r \<le> 0x1000000" using \<open>?r \<le> 0x1000000\<close> by (simp add: word_le_nat_alt)
  then have "?r \<le> USER_ADDRESS_LIMIT - a" unfolding word_le_nat_alt d using a by linarith
  moreover have "sz \<le> USER_ADDRESS_LIMIT - a" unfolding word_le_nat_alt d using a z by linarith
  moreover have "a \<noteq> 0" "\<not> USER_ADDRESS_LIMIT \<le> a" using a by (auto simp: word_le_nat_alt)
  moreover have "\<not> USER_MEMORY_MAX_SIZE < sz" using z by (simp add: word_less_nat_alt)
  ultimately show "valid_user_memory_range a sz = Some ?r"
    using assms(1,3) \<open>sz \<le> ?r\<close> unfolding valid_user_memory_range_def linux_align_up_page_def [symmetric]
    by (simp add: not_less Let_def)
qed

lemma linux_mmap_ok:
  assumes s: "sound (vm k) F" and z: "sz \<noteq> 0" "sz \<le> 0x1000000" and f: "flags AND 3 = 1 \<or> flags AND 3 = 2"
    and "flags AND 0x20 \<noteq> 0" and "flags AND 0x10 = 0" and "prot AND NOT 7 = 0"
    and "USER_MMAP_BASE \<le> mmap_cursor (linux k)" and "mmap_cursor (linux k) \<le> USER_MMAP_LIMIT"
    and r: "r = linux_align_up_page sz" and "unat r div 1024 \<le> card F"
  shows "linux_map_memory requested sz prot flags fd offset k = Some (linux_error LINUX_ENOMEM, k)
       \<and> full (vm k) r (search_start requested r k)
     \<or> (\<exists>a st F'. linux_map_memory requested sz prot flags fd offset k =
            Some (a, k \<lparr> vm := st, linux := (linux k) \<lparr> mmap_cursor := a + r \<rparr> \<rparr>)
          \<and> USER_MMAP_BASE \<le> a \<and> a < USER_MMAP_LIMIT \<and> r \<le> USER_MMAP_LIMIT - a \<and> page_aligned a
          \<and> (\<forall>v. a \<le> v \<and> v < a + r \<longrightarrow> \<not> user_page_mapped (vm k) v) \<and> sound st F'
          \<and> (\<forall>v w. user_va v \<longrightarrow> user_page_accessible st v w =
               (if a \<le> v \<and> v < a + r then prot \<noteq> 0 \<and> (w \<longrightarrow> prot AND USER_MEMORY_WRITE \<noteq> 0)
                else user_page_accessible (vm k) v w)))"
proof -
  have "page_aligned USER_MMAP_BASE" by (simp add: page_aligned_iff)
  note m = mmap_range [OF z this, folded r, simplified]
  have pr: "page_aligned r" unfolding r linux_align_up_page_def by simp
  have "sz \<le> 16 * 1024 * 1024" "sz \<le> USER_ADDRESS_LIMIT - 4096" "flags AND 3 \<noteq> 0" "flags AND 3 \<noteq> 3"
    using z(2) f by (auto simp: word_le_nat_alt)
  then have c: "(sz = 0 \<or> 16 * 1024 * 1024 < sz \<or> USER_ADDRESS_LIMIT - 4096 < sz \<or> flags AND 3 = 0 \<or> flags AND 3 = 3) = False"
    "map_anon flags = True" "map_fixed flags = False" "(prot AND NOT 7 \<noteq> 0) = False" "(r < sz) = False"
    using z(1) m(4) assms(5-7) unfolding not_le [symmetric] by blast+
  have e: "linux_map_memory requested sz prot flags fd offset k =
      do { a \<leftarrow> choose_address requested r flags k;
           (case a of Inl e \<Rightarrow> Some (e, k)
            | Inr address \<Rightarrow> let ps = pages address (address + r) in
                if list_ex (user_page_mapped (vm k)) ps then Some (linux_error LINUX_EINVAL, k)
                else do { (ok, k) \<leftarrow> linux_map_loop address prot None offset ps k;
                  if \<not> ok then Some (linux_error LINUX_EINVAL, k)
                  else Some (address, k \<lparr> linux := (linux k) \<lparr> mmap_cursor := address + r \<rparr> \<rparr>) }) }"
    unfolding linux_map_memory_def Let_def r [symmetric] c if_False if_True simp_thms ..
  consider (no) "choose_address requested r flags k = Some (Inl (linux_error LINUX_ENOMEM))" "full (vm k) r (search_start requested r k)"
    | (yes) a where "choose_address requested r flags k = Some (Inr a)" "USER_MMAP_BASE \<le> a" "page_aligned a"
        "a < USER_MMAP_LIMIT" "r \<le> USER_MMAP_LIMIT - a" "\<not> list_ex (user_page_mapped (vm k)) (pages a (a + r))"
    using choose_address_ok [OF assms(8,9) m(2,3) pr assms(6)] by metis
  then show ?thesis
  proof cases
    case no
    then show ?thesis unfolding e by simp
  next
    case (yes a)
    note v = mmap_range(1) [OF z yes(3,2,4), folded r]
    note vr = valid_range [OF v]
    note sp = set_pages [OF vr(1,2,4)]
    have free: "\<forall>v. a \<le> v \<and> v < a + r \<longrightarrow> \<not> user_page_mapped (vm k) v"
    proof (intro allI impI)
      fix v assume "a \<le> v \<and> v < a + r"
      then obtain p where "p \<in> set (pages a (a + r))" "page_of v = page_of p" unfolding sp(3) [symmetric] by blast
      then show "\<not> user_page_mapped (vm k) v" using yes(6) mapped_page_of unfolding list_ex_iff by metis
    qed
    from native_map_ok [OF s v assms(7) free assms(11)] obtain st F' where
      n: "native_user_memory_map a sz prot (vm k) = Some (a, st)" "sound st F'"
        "\<forall>v w. user_va v \<longrightarrow> user_page_accessible st v w =
          (if a \<le> v \<and> v < a + r then prot \<noteq> 0 \<and> (w \<longrightarrow> prot AND USER_MEMORY_WRITE \<noteq> 0)
           else user_page_accessible (vm k) v w)" by (elim exE conjE) (rule that)
    have nl: "(list_ex (user_page_mapped (vm k)) (pages a (a + r))) = False" using yes(6) by blast
    have "a \<noteq> - 1" using yes(4) by auto
    then have l: "native_map_loop a prot (pages a (a + r)) (vm k) = Some (True, st)"
      using n(1) v nl assms(7) by (auto simp: native_user_memory_map_def bind_eq_Some_conv split: if_split_asm)
    have "linux_map_memory requested sz prot flags fd offset k =
        Some (a, k \<lparr> vm := st, linux := (linux k) \<lparr> mmap_cursor := a + r \<rparr> \<rparr>)"
      unfolding e yes(1) bind.bind_lunit sum.case Let_def nl if_False linux_map_loop_native l by simp
    then show ?thesis using yes(2-5) free n(2,3) by (intro disjI2 exI [of _ a] exI [of _ st] exI [of _ F'] conjI)
  qed
qed

section \<open>Properties\<close>

text \<open>
  C10: moving the break grows and shrinks the heap exactly. When the pages above the heap are not
  mapped and memory lasts, \<open>brk\<close> returns the address asked for; every page between the old and the new
  end becomes accessible when the heap grows and inaccessible when it shrinks, every other page of
  the program stays as it was, and the address space stays in order.
\<close>

theorem linux_brk_moves_heap:
  assumes "sound (vm k) F" and "linux_ok (linux k)"
    and "a \<noteq> 0" and "heap_start (linux k) \<le> a" and "a < USER_MMAP_BASE - 4096"
    and "e = linux_align_up_page (program_break (linux k))" and "e' = linux_align_up_page a"
    and "list_all (\<lambda>p. \<not> user_page_mapped (vm k) p) (pages e e')" and "4 * length (pages e e') \<le> card F"
  shows "\<exists>st F'. linux_brk a k = Some (a, k \<lparr> vm := st, linux := (linux k) \<lparr> program_break := a \<rparr> \<rparr>)
     \<and> sound st F'
     \<and> (\<forall>v w. user_va v \<longrightarrow> user_page_accessible st v w =
          (if e \<le> v \<and> v < e' then True else if e' \<le> v \<and> v < e then False else user_page_accessible (vm k) v w))"
  using linux_brk_ok [OF assms] unfolding heap_moved_def .


theorem linux_brk_moves_heap_witness:
  "\<exists>st F'. linux_brk 0x600000000010 boot_kernel =
       Some (0x600000000010, boot_kernel \<lparr> vm := st, linux := (linux boot_kernel) \<lparr> program_break := 0x600000000010 \<rparr> \<rparr>)
     \<and> sound st F' \<and> user_page_accessible st 0x600000000FFF True"
proof -
  let ?e = "0x600000000000 :: u64" and ?e' = "0x600000001000 :: u64"
  have al: "linux_align_up_page ?e = ?e" "linux_align_up_page 0x600000000010 = ?e'"
    by (simp_all add: linux_align_up_page_def page_of_def)
  have ps: "pages ?e ?e' = [?e]" by (simp add: pages_def)
  have c: "card (remaining vm_map 0 0) = 8" unfolding vm_pages_list by simp
  have k: "vm boot_kernel = vm_machine" "program_break (linux boot_kernel) = ?e" "heap_start (linux boot_kernel) = ?e"
    by (simp_all add: boot_kernel_def linux_reset_process_state_def Let_def)
  have s: "sound (vm boot_kernel) (remaining vm_map 0 0)" using sound_vm k(1) by simp
  have l: "linux_ok (linux boot_kernel)" using reachable_ok [OF start] by (simp add: boot_kernel_def)
  have u: "list_all (\<lambda>p. \<not> user_page_mapped (vm boot_kernel) p) (pages ?e ?e')"
    unfolding ps k(1) using vm_unmapped by simp
  have "\<exists>st F'. linux_brk 0x600000000010 boot_kernel =
       Some (0x600000000010, boot_kernel \<lparr> vm := st, linux := (linux boot_kernel) \<lparr> program_break := 0x600000000010 \<rparr> \<rparr>)
     \<and> sound st F'
     \<and> (\<forall>v w. user_va v \<longrightarrow> user_page_accessible st v w =
          (if ?e \<le> v \<and> v < ?e' then True else if ?e' \<le> v \<and> v < ?e then False else user_page_accessible (vm boot_kernel) v w))"
    by (rule linux_brk_moves_heap [OF s l _ _ _ _ al(2) [symmetric] u]) (simp_all add: k al ps c)
  moreover have "user_va 0x600000000FFF" by (simp add: user_va_def)
  ultimately show ?thesis by fastforce
qed



end
