(* ===== verification/Elf.thy ===== *)
theory Elf
  imports LinuxMem
begin

text \<open>
  Loading programs: the argument area of \<open>helper/core/execute/arguments.h\<close> and the ELF loader of
  \<open>helper/core/execute/elf.c\<close>, on the state of \<open>Linux\<close>. The output pointers of the loader are always
  given, as its two callers do; log output is not modelled, the messages on the screen are. A file
  name is \<open>None\<close> for a null pointer, \<open>argv\<close> likewise, and so is each of its elements.
\<close>

abbreviation USER_STACK_VADDR :: u64 where "USER_STACK_VADDR \<equiv> 0x7FFFFFFFF000"
abbreviation USER_STACK_BASE :: u64 where "USER_STACK_BASE \<equiv> 0x7FFFFFFF8000"
abbreviation (input) USER_STACK_PAGE_COUNT :: nat where "USER_STACK_PAGE_COUNT \<equiv> 8"
abbreviation (input) USER_ARGUMENT_AREA_SIZE :: nat where "USER_ARGUMENT_AREA_SIZE \<equiv> 16384"
abbreviation MAX_ELF_FILE_SIZE :: u64 where "MAX_ELF_FILE_SIZE \<equiv> 0x1000000"
abbreviation MAX_ELF_MEMORY_PAGES :: u64 where "MAX_ELF_MEMORY_PAGES \<equiv> 0x4000"
abbreviation (input) MAX_ELF_PROGRAM_HEADERS :: nat where "MAX_ELF_PROGRAM_HEADERS \<equiv> 256"

section \<open>Arguments\<close>

text \<open>\<open>stack_memory\<close> is the area of \<open>argument_area_size\<close> bytes the code writes to. The strings come
  first, one after the other; the result is where the next one goes and the addresses of the
  strings, or \<open>None\<close> when one is missing or too long or the area is full. \<open>argv\<close> has at least
  \<open>argc\<close> elements.\<close>

fun put_arguments :: "nat \<Rightarrow> u64 \<Rightarrow> bytes option list \<Rightarrow> nat \<Rightarrow> u64 list \<Rightarrow> bytes \<Rightarrow> (nat \<times> u64 list) option \<times> bytes" where
  "put_arguments area_size stack_start [] cursor addresses stack_memory = (Some (cursor, addresses), stack_memory)"
| "put_arguments area_size stack_start (None # argv) cursor addresses stack_memory = (None, stack_memory)"
| "put_arguments area_size stack_start (Some arg # argv) cursor addresses stack_memory =
     (if length arg \<ge> 256 \<or> cursor > area_size \<or> length arg + 1 > area_size - cursor then (None, stack_memory)
      else put_arguments area_size stack_start argv (cursor + length arg + 1) (addresses @ [stack_start + of_nat cursor])
             (buf_put stack_memory cursor (arg @ [0])))"

definition prepare_user_arguments :: "bytes \<Rightarrow> u64 \<Rightarrow> nat \<Rightarrow> int \<Rightarrow> bytes option list option \<Rightarrow> u64 option \<times> bytes" where
  "prepare_user_arguments stack_memory user_stack_base argument_area_size argc argv =
     (if argc < 0 \<or> argc > 32 \<or> (argc > 0 \<and> argv = None) then (None, stack_memory)
      else case put_arguments argument_area_size user_stack_base
                  (case argv of None \<Rightarrow> [] | Some l \<Rightarrow> take (nat argc) l) 0 [] stack_memory of
        (None, m) \<Rightarrow> (None, m)
      | (Some (cursor, addresses), m) \<Rightarrow>
          let cursor = (cursor + 7) div 8 * 8; vector_size = (nat argc + 1) * 8
          in if cursor > argument_area_size \<or> vector_size > argument_area_size - cursor then (None, m)
             else (Some (user_stack_base + of_nat cursor), buf_put m cursor (concat (map le64 addresses) @ le64 0)))"

section \<open>Headers\<close>

record elf64_ehdr =
  e_ident :: bytes
  e_type :: u16
  e_machine :: u16
  e_version :: u32
  e_entry :: u64
  e_phoff :: u64
  e_ehsize :: u16
  e_phentsize :: u16
  e_phnum :: u16

record elf64_phdr =
  p_type :: u32
  p_flags :: u32
  p_offset :: u64
  p_vaddr :: u64
  p_filesz :: u64
  p_memsz :: u64
  p_align :: u64

definition read_ehdr :: "bytes \<Rightarrow> elf64_ehdr" where
  "read_ehdr b = \<lparr> e_ident = take 16 b, e_type = rd16 b 16, e_machine = rd16 b 18, e_version = rd32 b 20,
     e_entry = rd64 b 24, e_phoff = rd64 b 32, e_ehsize = rd16 b 52, e_phentsize = rd16 b 54, e_phnum = rd16 b 56 \<rparr>"

definition read_phdr :: "bytes \<Rightarrow> elf64_phdr" where
  "read_phdr b = \<lparr> p_type = rd32 b 0, p_flags = rd32 b 4, p_offset = rd64 b 8, p_vaddr = rd64 b 16,
     p_filesz = rd64 b 32, p_memsz = rd64 b 40, p_align = rd64 b 48 \<rparr>"

definition ehdr_ok :: "elf64_ehdr \<Rightarrow> bool" where
  "ehdr_ok h \<longleftrightarrow> take 7 (e_ident h) = [0x7F, 69, 76, 70, 2, 1, 1] \<and> e_type h = 2 \<and> e_machine h = 62 \<and> e_version h = 1
     \<and> e_ehsize h = 64 \<and> e_phentsize h = 56 \<and> e_phnum h \<noteq> 0 \<and> unat (e_phnum h) \<le> MAX_ELF_PROGRAM_HEADERS"

text \<open>Reading exactly \<open>n\<close> bytes of a file: \<open>None\<close> inside when fewer come.\<close>

definition read_exact :: "bytes \<Rightarrow> u64 \<Rightarrow> u64 \<Rightarrow> kernel \<Rightarrow> (bytes option \<times> kernel) option" where
  "read_exact filename offset n k =
     do {
       ((r, raw), v) \<leftarrow> fs_read_raw_at (Some filename) False offset n (files k);
       Some (if r < 0 \<or> word_of_int r \<noteq> n then None else Some raw, k \<lparr> files := v \<rparr>)
     }"

fun read_phdrs :: "bytes \<Rightarrow> elf64_ehdr \<Rightarrow> nat list \<Rightarrow> kernel \<Rightarrow> (elf64_phdr list option \<times> kernel) option" where
  "read_phdrs filename ehdr [] k = Some (Some [], k)"
| "read_phdrs filename ehdr (i # is) k =
     do {
       (raw, k) \<leftarrow> read_exact filename (e_phoff ehdr + of_nat i * ucast (e_phentsize ehdr)) 56 k;
       (case raw of None \<Rightarrow> Some (None, k)
        | Some b \<Rightarrow> do { (hs, k) \<leftarrow> read_phdrs filename ehdr is k; Some (map_option (\<lambda>hs. read_phdr b # hs) hs, k) })
     }"

section \<open>The interface a program uses\<close>

text \<open>The notes of one header: \<open>Some True\<close> inside is a GNU note that asks for Linux.\<close>

definition note_round :: "u32 \<Rightarrow> u64" where
  "note_round n = (ucast n + 3) AND NOT 3"

partial_function (option) note_loop :: "bytes \<Rightarrow> elf64_phdr \<Rightarrow> u64 \<Rightarrow> kernel \<Rightarrow> (bool \<times> kernel) option" where
  "note_loop filename phdr cursor k =
     (if \<not> (cursor \<le> p_filesz phdr \<and> p_filesz phdr - cursor \<ge> 12) then Some (False, k)
      else do {
        (raw, k) \<leftarrow> read_exact filename (p_offset phdr + cursor) 12 k;
        (case raw of None \<Rightarrow> Some (False, k)
         | Some note \<Rightarrow>
             let cursor = cursor + 12; name_size = note_round (rd32 note 0); desc_size = note_round (rd32 note 4)
             in if name_size > p_filesz phdr - cursor \<or> desc_size > p_filesz phdr - cursor - name_size then Some (False, k)
                else if rd32 note 8 = 1 \<and> rd32 note 0 = 4 \<and> rd32 note 4 \<ge> 4
                then do {
                  (name, k) \<leftarrow> read_exact filename (p_offset phdr + cursor) 4 k;
                  (case name of None \<Rightarrow> Some (False, k)
                   | Some name \<Rightarrow>
                       if name = [71, 78, 85, 0]
                       then do {
                         (os, k) \<leftarrow> read_exact filename (p_offset phdr + cursor + name_size) 4 k;
                         (case os of None \<Rightarrow> Some (False, k)
                          | Some os \<Rightarrow> if rd32 os 0 = 0 then Some (True, k)
                                       else note_loop filename phdr (cursor + (name_size + desc_size)) k)
                       }
                       else note_loop filename phdr (cursor + (name_size + desc_size)) k)
                }
                else note_loop filename phdr (cursor + (name_size + desc_size)) k)
      })"

fun linux_notes :: "bytes \<Rightarrow> u64 \<Rightarrow> elf64_phdr list \<Rightarrow> kernel \<Rightarrow> (bool \<times> kernel) option" where
  "linux_notes filename file_size [] k = Some (False, k)"
| "linux_notes filename file_size (phdr # phdrs) k =
     (if p_type phdr \<noteq> 4 \<or> p_offset phdr > file_size \<or> p_filesz phdr > file_size - p_offset phdr
      then linux_notes filename file_size phdrs k
      else do {
        (found, k) \<leftarrow> note_loop filename phdr 0 k;
        if found then Some (True, k) else linux_notes filename file_size phdrs k
      })"

definition elf_uses_linux_abi :: "bytes \<Rightarrow> elf64_ehdr \<Rightarrow> elf64_phdr list \<Rightarrow> u64 \<Rightarrow> kernel \<Rightarrow> (bool \<times> kernel) option" where
  "elf_uses_linux_abi filename ehdr phdrs file_size k =
     (if e_ident ehdr ! 7 = 3 then Some (True, k) else linux_notes filename file_size phdrs k)"

section \<open>Segments\<close>

text \<open>What the loop over the program headers accumulates.\<close>

record elf_load =
  total_pages :: u64
  highest_load_address :: u64
  entry_is_executable :: bool
  program :: program_memory

definition loadable :: "elf64_phdr \<Rightarrow> bool" where
  "loadable phdr \<longleftrightarrow> p_type phdr = 1 \<and> p_memsz phdr \<noteq> 0"

definition segment_ok :: "u64 \<Rightarrow> elf64_phdr \<Rightarrow> bool" where
  "segment_ok sz phdr \<longleftrightarrow> \<not> (p_filesz phdr > p_memsz phdr \<or> p_offset phdr > sz \<or> p_filesz phdr > sz - p_offset phdr
     \<or> p_vaddr phdr < 4096 \<or> p_vaddr phdr \<ge> USER_STACK_BASE \<or> p_memsz phdr > USER_STACK_BASE - p_vaddr phdr)"

definition alignment_ok :: "elf64_phdr \<Rightarrow> bool" where
  "alignment_ok phdr \<longleftrightarrow> \<not> (p_align phdr > 1 \<and> (p_align phdr AND (p_align phdr - 1) \<noteq> 0
     \<or> p_vaddr phdr AND (p_align phdr - 1) \<noteq> p_offset phdr AND (p_align phdr - 1)))"

abbreviation seg_start :: "elf64_phdr \<Rightarrow> u64" where
  "seg_start phdr \<equiv> page_of (p_vaddr phdr)"

abbreviation seg_end :: "elf64_phdr \<Rightarrow> u64" where
  "seg_end phdr \<equiv> linux_align_up_page (p_vaddr phdr + p_memsz phdr)"

definition overlaps :: "elf64_phdr \<Rightarrow> elf64_phdr \<Rightarrow> bool" where
  "overlaps phdr other \<longleftrightarrow> loadable other \<and> seg_start phdr < seg_end other \<and> seg_start other < seg_end phdr"

text \<open>The pages of one segment: allocated, mapped, and filled with their part of the file.\<close>

fun load_pages :: "bytes \<Rightarrow> elf64_phdr \<Rightarrow> u64 list \<Rightarrow> kernel \<Rightarrow> (int \<times> kernel) option" where
  "load_pages filename phdr [] k = Some (0, k)"
| "load_pages filename phdr (page # ps) k =
     do {
       (page_phys, st) \<leftarrow> pmm_alloc_zeroed_page (vm k);
       if page_phys = 0 then Some (-3, k \<lparr> vm := st \<rparr>)
       else do {
         st \<leftarrow> map_user_page page page_phys st;
         let k = k \<lparr> vm := st \<rparr>;
         let file_end = p_vaddr phdr + p_filesz phdr;
         let copy_start = (if page > p_vaddr phdr then page else p_vaddr phdr);
         let copy_end = (if page + 4096 < file_end then page + 4096 else file_end);
         if copy_start < copy_end
         then do {
           (raw, k) \<leftarrow> read_exact filename (p_offset phdr + (copy_start - p_vaddr phdr)) (copy_end - copy_start) k;
           (case raw of None \<Rightarrow> Some (-4, k)
            | Some b \<Rightarrow> load_pages filename phdr ps
                (k \<lparr> vm := (vm k) \<lparr> mem := poke_bytes (page_phys + (copy_start - page)) b (mem (vm k)) \<rparr> \<rparr>))
         }
         else load_pages filename phdr ps k
       }
     }"

definition add_region :: "u64 \<Rightarrow> u64 \<Rightarrow> program_memory \<Rightarrow> program_memory" where
  "add_region s e p = p \<lparr> regions := (regions p)[region_count p := \<lparr> rstart = s, rend = e \<rparr>], region_count := region_count p + 1 \<rparr>"

definition load_segment :: "bytes \<Rightarrow> u64 \<Rightarrow> u64 \<Rightarrow> elf64_phdr list \<Rightarrow> elf64_phdr \<Rightarrow> elf_load \<Rightarrow> kernel \<Rightarrow> (int \<times> elf_load \<times> kernel) option" where
  "load_segment filename sz entry earlier phdr l k =
     (if \<not> segment_ok sz phdr \<or> \<not> alignment_ok phdr then Some (-5, l, k)
      else let seg_top = p_vaddr phdr + p_memsz phdr;
               l = l \<lparr> highest_load_address := (if seg_top > highest_load_address l then seg_top else highest_load_address l) \<rparr>
           in if region_count (program l) \<ge> MAX_ELF_PROGRAM_HEADERS then Some (-5, l, k)
           else let l = l \<lparr> program := add_region (seg_start phdr) (seg_end phdr) (program l) \<rparr>;
                    segment_pages = (seg_end phdr - seg_start phdr) div 4096
           in if segment_pages > MAX_ELF_MEMORY_PAGES - total_pages l then Some (-5, l, k)
           else let l = l \<lparr> total_pages := total_pages l + segment_pages,
                       entry_is_executable := (entry_is_executable l \<or> (p_flags phdr AND 1 \<noteq> 0 \<and> entry \<ge> p_vaddr phdr \<and> entry < seg_top)) \<rparr>
           in if list_ex (overlaps phdr) earlier then Some (-5, l, k)
           else do { (r, k) \<leftarrow> load_pages filename phdr (pages (seg_start phdr) (seg_end phdr)) k; Some (r, l, k) })"

fun load_segments :: "bytes \<Rightarrow> u64 \<Rightarrow> u64 \<Rightarrow> elf64_phdr list \<Rightarrow> elf64_phdr list \<Rightarrow> elf_load \<Rightarrow> kernel \<Rightarrow> (int \<times> elf_load \<times> kernel) option" where
  "load_segments filename sz entry earlier [] l k = Some (0, l, k)"
| "load_segments filename sz entry earlier (phdr # phdrs) l k =
     (if \<not> loadable phdr then load_segments filename sz entry (earlier @ [phdr]) phdrs l k
      else do {
        (r, l, k) \<leftarrow> load_segment filename sz entry earlier phdr l k;
        if r \<noteq> 0 then Some (r, l, k) else load_segments filename sz entry (earlier @ [phdr]) phdrs l k
      })"

text \<open>The stack; the result is the frame of its lowest page.\<close>

fun load_stack :: "nat list \<Rightarrow> u64 \<Rightarrow> machine \<Rightarrow> (u64 option \<times> machine) option" where
  "load_stack [] stack_phys st = Some (Some stack_phys, st)"
| "load_stack (i # is) stack_phys st =
     do {
       (page_phys, st) \<leftarrow> pmm_alloc_zeroed_page st;
       if page_phys = 0 then Some (None, st)
       else do {
         st \<leftarrow> map_user_page (USER_STACK_BASE + of_nat i * 4096) page_phys st;
         load_stack is (if i = 0 then page_phys else stack_phys) st
       }
     }"

section \<open>The loader\<close>

definition say :: "string \<Rightarrow> kernel \<Rightarrow> kernel option" where
  "say s k = do { t \<leftarrow> on_console (dogeio_println (Some (asc s))) (tty k); Some (k \<lparr> tty := t \<rparr>) }"

text \<open>What a successful load returns through its output pointers.\<close>

record elf_image =
  image_entry :: u64
  image_stack :: u64
  image_argv :: u64
  image_linux_abi :: bool
  image_heap_base :: u64

text \<open>The arguments are written through the direct mapping of the lowest stack page, over the whole
  argument area.\<close>

definition write_arguments :: "u64 \<Rightarrow> int \<Rightarrow> bytes option list option \<Rightarrow> kernel \<Rightarrow> u64 option \<times> kernel" where
  "write_arguments stack_phys argc argv k =
     (let area = map (\<lambda>i. peek8 (mem (vm k)) (stack_phys + of_nat i)) [0..<USER_ARGUMENT_AREA_SIZE];
          (r, area) = prepare_user_arguments area USER_STACK_BASE USER_ARGUMENT_AREA_SIZE argc argv
      in (r, k \<lparr> vm := (vm k) \<lparr> mem := poke_bytes stack_phys area (mem (vm k)) \<rparr> \<rparr>))"

definition finish_load :: "bytes \<Rightarrow> u64 \<Rightarrow> int \<Rightarrow> bytes option list option \<Rightarrow> elf64_ehdr \<Rightarrow> elf64_phdr list \<Rightarrow> elf_load \<Rightarrow> kernel
    \<Rightarrow> ((int + elf_image) \<times> kernel) option" where
  "finish_load filename sz argc argv ehdr phdrs l k =
     (if total_pages l = 0 \<or> \<not> entry_is_executable l \<or> e_entry ehdr \<ge> USER_ADDRESS_LIMIT then Some (Inl (-5), k)
      else do {
        (stack_phys, st) \<leftarrow> load_stack [0..<USER_STACK_PAGE_COUNT] 0 (vm k);
        let k = k \<lparr> vm := st \<rparr>;
        (case stack_phys of None \<Rightarrow> Some (Inl (-3), k)
         | Some stack_phys \<Rightarrow>
             (case write_arguments stack_phys argc argv k of
                (None, k) \<Rightarrow> Some (Inl (-5), k)
              | (Some user_argv, k) \<Rightarrow> do {
                  (linux_abi, k) \<leftarrow> elf_uses_linux_abi filename ehdr phdrs sz k;
                  Some (Inr \<lparr> image_entry = e_entry ehdr, image_stack = USER_STACK_VADDR + 4096 - 8, image_argv = user_argv,
                    image_linux_abi = linux_abi, image_heap_base = linux_align_up_page (highest_load_address l) \<rparr>, k)
                }))
      })"

definition load_file :: "bytes \<Rightarrow> u64 \<Rightarrow> int \<Rightarrow> bytes option list option \<Rightarrow> program_memory \<Rightarrow> kernel
    \<Rightarrow> ((int + elf_image) \<times> program_memory \<times> kernel) option" where
  "load_file filename sz argc argv p k =
     do {
       (raw, k) \<leftarrow> read_exact filename 0 64 k;
       (case raw of None \<Rightarrow> Some (Inl (-4), p, k)
        | Some b \<Rightarrow> do {
            let ehdr = read_ehdr b;
            k \<leftarrow> say ''Checking Headers'' k;
            if \<not> ehdr_ok ehdr \<or> e_phoff ehdr > sz \<or> ucast (e_phnum ehdr) * ucast (e_phentsize ehdr) > sz - e_phoff ehdr
            then Some (Inl (-5), p, k)
            else do {
              (phdrs, k) \<leftarrow> read_phdrs filename ehdr [0..<unat (e_phnum ehdr)] k;
              (case phdrs of None \<Rightarrow> Some (Inl (-5), p, k)
               | Some phdrs \<Rightarrow> do {
                   k \<leftarrow> say ''Mapping Pages'' k;
                   (r, l, k) \<leftarrow> load_segments filename sz (e_entry ehdr) [] phdrs
                     \<lparr> total_pages = 0, highest_load_address = 0, entry_is_executable = False, program = p \<rparr> k;
                   if r \<noteq> 0 then Some (Inl r, program l, k)
                   else do {
                     (r, k) \<leftarrow> finish_load filename sz argc argv ehdr phdrs l k;
                     Some (r, program l, k)
                   }
                 })
            }
          })
     }"

definition system_load_elf_args :: "bytes option \<Rightarrow> u64 \<Rightarrow> int \<Rightarrow> bytes option list option \<Rightarrow> program_memory \<Rightarrow> kernel
    \<Rightarrow> ((int + elf_image) \<times> program_memory \<times> kernel) option" where
  "system_load_elf_args filename sz argc argv p k =
     (case filename of None \<Rightarrow> Some (Inl (-1), p, k)
      | Some filename \<Rightarrow>
        if filename = [] \<or> sz < 64 \<or> sz > MAX_ELF_FILE_SIZE \<or> argc < 0 \<or> argc > 32 \<or> (argc > 0 \<and> argv = None)
        then Some (Inl (-1), p, k)
        else do {
          k \<leftarrow> say ''Starting Loading Program'' k;
          (e, v) \<leftarrow> fs_exists (Some filename) (files k);
          let k = k \<lparr> files := v \<rparr>;
          if e = 0 then Some (Inl (-1), p, k)
          else if hhdm (vm k) = None then Some (Inl (-2), p, k)
          else do {
            k \<leftarrow> say ''Loading File'' k;
            (r, p, k) \<leftarrow> load_file filename sz argc argv p k;
            k \<leftarrow> say (case r of Inl _ \<Rightarrow> ''Something went wrong during ELF load execution workflow''
                            | Inr _ \<Rightarrow> ''Program Setup Completed Successfully'') k;
            Some (r, p, k)
          }
        })"

section \<open>Running a program\<close>

text \<open>The programs that are running, innermost last, by \<open>syscall_context_depth\<close>.\<close>

record launcher =
  syscall_context_depth :: u32
  active_programs :: "program_memory list"

abbreviation MAX_SYSCALL_CONTEXT_DEPTH :: u32 where "MAX_SYSCALL_CONTEXT_DEPTH \<equiv> 64"

definition empty_program :: program_memory where
  "empty_program = \<lparr> regions = replicate MAX_ELF_PROGRAM_HEADERS \<lparr> rstart = 0, rend = 0 \<rparr>, region_count = 0,
     stack_base = 0, stack_pages = 0 \<rparr>"

text \<open>\<open>Inr\<close> is the jump to the program with its argument count.\<close>

definition system_run_elf_args_impl :: "bytes option \<Rightarrow> u64 \<Rightarrow> int \<Rightarrow> bytes option list option \<Rightarrow> launcher \<Rightarrow> kernel
    \<Rightarrow> ((int + elf_image \<times> int) \<times> launcher \<times> kernel) option" where
  "system_run_elf_args_impl filename sz argc argv c k =
     (let slot = syscall_context_depth c - 1 in
      if slot \<ge> MAX_SYSCALL_CONTEXT_DEPTH then Some (Inl (-1), c, k)
      else let (argc, argv) = (if argc < 0 \<or> argc > 32 \<or> argv = None then (0, None) else (argc, argv)) in
        do {
          (r, p, k) \<leftarrow> system_load_elf_args filename sz argc argv empty_program k;
          let c = c \<lparr> active_programs := (active_programs c)[unat slot := p] \<rparr>;
          (case r of
             Inl e \<Rightarrow> do { st \<leftarrow> cleanup_program_pages (Some p) (vm k); Some (Inl e, c, k \<lparr> vm := st \<rparr>) }
           | Inr img \<Rightarrow>
               let k = syscall_set_linux_abi (image_linux_abi img) k;
                   k = (if image_linux_abi img then linux_syscall_set_heap_base (image_heap_base img) k else k)
               in Some (Inr (img, argc), c, k))
        })"

definition system_run_elf_impl :: "bytes option \<Rightarrow> u64 \<Rightarrow> launcher \<Rightarrow> kernel \<Rightarrow> ((int + elf_image \<times> int) \<times> launcher \<times> kernel) option" where
  "system_run_elf_impl filename sz = system_run_elf_args_impl filename sz 0 None"

definition system_elf_post_cleanup :: "u32 \<Rightarrow> launcher \<Rightarrow> kernel \<Rightarrow> (launcher \<times> kernel) option" where
  "system_elf_post_cleanup finished_slot c k =
     (let k = syscall_set_linux_abi False k in
      if finished_slot < MAX_SYSCALL_CONTEXT_DEPTH
      then do {
        st \<leftarrow> cleanup_program_pages (Some (active_programs c ! unat finished_slot)) (vm k);
        Some (c \<lparr> active_programs := (active_programs c)[unat finished_slot := empty_program] \<rparr>, k \<lparr> vm := st \<rparr>)
      }
      else Some (c, k))"

section \<open>Starting a program by its path\<close>

text \<open>\<open>helper/core/execute/run.c\<close>. The inner \<open>Some\<close> is the call of \<open>system_run_elf_args\<close>, the assembly
  stub in front of \<open>system_run_elf_args_impl\<close>, with its arguments.\<close>

definition system_exec_args :: "bytes option \<Rightarrow> int \<Rightarrow> bytes option list option \<Rightarrow> kernel
    \<Rightarrow> ((bytes \<times> u64 \<times> int \<times> bytes option list option) option \<times> kernel) option" where
  "system_exec_args path argc argv k =
     (case path of
        None \<Rightarrow> do { k \<leftarrow> say ''[Error] Invalid executable path or arguments.'' k; Some (None, k) }
      | Some p \<Rightarrow>
        if p = [] \<or> argc < 0 \<or> argc > 32 \<or> (argc > 0 \<and> argv = None)
        then do { k \<leftarrow> say ''[Error] Invalid executable path or arguments.'' k; Some (None, k) }
        else do {
          (info, v) \<leftarrow> fs_get_info (Some p) (files k);
          let k = k \<lparr> files := v \<rparr>;
          (case info of
             Some (file_size, False) \<Rightarrow>
               if file_size = 0 \<or> file_size > 16 * 1024 * 1024
               then do { k \<leftarrow> say ''[Error] Invalid or unsupported executable file.'' k; Some (None, k) }
               else do {
                 ((n, raw), v) \<leftarrow> fs_read_raw (Some p) False 4 (files k);
                 let k = k \<lparr> files := v \<rparr>;
                 if n < 0 then do { k \<leftarrow> say ''[Error] Failed to read executable file.'' k; Some (None, k) }
                 else Some (if n = 4 \<and> raw = [0x7F, 69, 76, 70] then Some (p, file_size, argc, argv) else None, k)
               }
           | _ \<Rightarrow> do { k \<leftarrow> say ''[Error] Invalid or unsupported executable file.'' k; Some (None, k) })
        })"

definition system_exec :: "bytes option \<Rightarrow> kernel \<Rightarrow> ((bytes \<times> u64 \<times> int \<times> bytes option list option) option \<times> kernel) option" where
  "system_exec path = system_exec_args path 0 None"

end
