(* ===== verification/UserPages.thy ===== *)
theory UserPages
  imports UserMem
begin

text \<open>
  The contents of pages: what mapping a fresh page does to the bytes a program sees, and the
  kernel's writes to a user page through the direct mapping of physical memory.
\<close>

section \<open>Mapping leaves other memory alone\<close>

lemma get_or_alloc_table_frame:
  assumes "space st F" and "F \<noteq> {}" and "path_ok (p @ [i])" and "tab (mem st) (root st) p = Some t"
    and "get_or_alloc_table t i st = Some (t', st')" and "page_of b \<notin> F \<union> tables (mem st) (root st)"
  shows "mem st' b = mem st b"
proof -
  have po: "path_ok p" "i < 512" using inner_path [OF assms(3)] by auto
  have t: "t \<in> tables (mem st) (root st)" using assms(4) po(1) unfolding tables_def by blast
  then have al: "page_aligned t" using assms(1) unfolding space_def by (auto intro: tables_aligned)
  have "page_of (slot t i) = t" using slot_facts [OF al po(2)] by simp
  then have nb: "b \<noteq> slot t i" using t assms(6) by auto
  show ?thesis
  proof (cases "mem st (slot t i) AND PAGE_PRESENT = 0")
    case True
    have pool: "pmm_pool st F" using assms(1) by (simp add: space_def)
    from pool_alloc [OF pool assms(2)] obtain n st1 where n: "pmm_alloc_zeroed_page st = Some (n, st1)" "n \<in> F"
      "mem st1 = zero_page n (mem st)" by blast
    then have "mem st' = (mem st1)(slot t i := n OR PAGE_USER_FLAGS)"
      using True assms(5) by (auto simp: get_or_alloc_table_def)
    moreover have "page_of b \<noteq> n" using n(2) assms(6) by auto
    ultimately show ?thesis using nb pool_pages [OF pool n(2)] by (simp add: n(3) zero_page_aligned)
  next
    case False
    then show ?thesis using assms(5) nb by (auto simp: get_or_alloc_table_def)
  qed
qed

lemma map_user_page_frame:
  assumes "space st F" and "3 \<le> card F" and "user_va va" and "map_user_page va pa st = Some st'"
    and "page_of b \<notin> F \<union> tables (mem st) (root st)"
  shows "mem st' b = mem st b"
proof -
  note up = user_path [OF assms(3)]
  let ?i = "indices va ! 0" and ?j = "indices va ! 1" and ?k = "indices va ! 2" and ?l = "indices va ! 3"
  obtain h where h: "hhdm st = Some h" using assms(1) by (rule space_hhdm)
  have ne: "F0 \<noteq> {}" if "0 < card F0" for F0 :: "u64 set" using that by auto
  have t0: "tab (mem st) (root st) [] = Some (root st)" by simp
  obtain t1 st1 F1 where 1: "get_or_alloc_table (root st) ?i st = Some (t1, st1)" "level_step st F ([] @ [?i]) t1 st1 F1"
    using get_or_alloc_table_ok [of st F "[]" ?i "root st"] assms(1,2) up(2) ne [of F] by auto
  then have g1: "grows st F 1 st1 F1" "tab (mem st1) (root st1) [?i] = Some t1" "space st1 F1" "2 \<le> card F1"
    using assms(2) by (auto simp: level_step_def grows_def simp del: tab.simps)
  obtain t2 st2 F2 where 2: "get_or_alloc_table t1 ?j st1 = Some (t2, st2)" "level_step st1 F1 ([?i] @ [?j]) t2 st2 F2"
    using get_or_alloc_table_ok [OF g1(3) ne up(3) g1(2)] g1(4) by auto
  then have g2: "grows st1 F1 1 st2 F2" "tab (mem st2) (root st2) [?i, ?j] = Some t2" "space st2 F2" "1 \<le> card F2"
    using g1(4) by (auto simp: level_step_def grows_def simp del: tab.simps)
  obtain t3 st3 F3 where 3: "get_or_alloc_table t2 ?k st2 = Some (t3, st3)" "level_step st2 F2 ([?i, ?j] @ [?k]) t3 st3 F3"
    using get_or_alloc_table_ok [OF g2(3) ne up(4) g2(2)] g2(4) by auto
  then have g3: "grows st2 F2 1 st3 F3" "tab (mem st3) (root st3) (take 3 (indices va)) = Some t3" "space st3 F3"
    using up(5) by (auto simp: level_step_def grows_def simp del: tab.simps)
  have b1: "page_of b \<notin> F1 \<union> tables (mem st1) (root st1)" using g1(1) assms(5) unfolding grows_def by blast
  have b2: "page_of b \<notin> F2 \<union> tables (mem st2) (root st2)" using g2(1) b1 unfolding grows_def by blast
  have b3: "page_of b \<notin> tables (mem st3) (root st3)" using g3(1) b2 unfolding grows_def by blast
  have "mem st1 b = mem st b"
    by (rule get_or_alloc_table_frame [OF assms(1) _ _ t0 1(1) assms(5)]) (use assms(2) ne [of F] up(2) in simp_all)
  moreover have "mem st2 b = mem st1 b"
    by (rule get_or_alloc_table_frame [OF g1(3) _ up(3) g1(2) 2(1) b1]) (use g1(4) ne [of F1] in simp)
  moreover have "mem st3 b = mem st2 b"
    by (rule get_or_alloc_table_frame [OF g2(3) _ up(4) g2(2) 3(1) b2]) (use g2(4) ne [of F2] in simp)
  moreover have "b \<noteq> slot t3 ?l"
  proof -
    have lp: "path_ok (take 3 (indices va))" "?l < 512" using leaf_ok_path [OF up(1)] by auto
    then have "t3 \<in> tables (mem st3) (root st3)" using g3(2) unfolding tables_def by blast
    moreover from this have "page_aligned t3" using g3(3) unfolding space_def by (auto intro: tables_aligned)
    then have "page_of (slot t3 ?l) = t3" using slot_facts [OF _ lp(2)] by simp
    ultimately show ?thesis using b3 by auto
  qed
  moreover have "mem st' = (mem st3)(slot t3 ?l := page_of pa OR PAGE_USER_FLAGS)"
    using 1(1) 2(1) 3(1) h assms(4) by (auto simp: map_user_page_def)
  ultimately show ?thesis by simp
qed

section \<open>Fresh pages\<close>

lemma peek8_cong: "m' (a AND NOT 7) = m (a AND NOT 7) \<Longrightarrow> peek8 m' a = peek8 m a"
  by (simp add: peek8_def)

lemma map_fresh_page:
  assumes s: "sound st F" and c: "4 \<le> card F" and va: "user_va va"
    and al: "pmm_alloc_zeroed_page st = Some (n, st1)" and m: "map_user_page va n st1 = Some st2"
  shows "user_page_accessible st v False \<Longrightarrow> page_of v \<noteq> page_of va \<Longrightarrow> user_load st2 v = user_load st v"
    and "user_va v \<Longrightarrow> page_of v = page_of va \<Longrightarrow> user_load st2 v = Some 0 \<and> phys st2 v = n + (v AND 0xFFF)"
proof -
  from sound_map [OF s c va] al m obtain F' where
    e: "sound st2 F'" "\<forall>v. user_va v \<longrightarrow> aspace st2 v = (if page_of v = page_of va then n OR PAGE_USER_FLAGS else aspace st v)"
    by auto
  have i: "isolated st F" using s by (simp add: sound_def)
  then have sp: "space st F" and mk: "\<forall>f\<in>F. f AND PAGE_ADDRESS_MASK = f" unfolding isolated_def by blast+
  then have pool: "pmm_pool st F" by (simp add: space_def)
  have ne: "F \<noteq> {}" using c by auto
  note a = alloc_space [OF sp ne al]
  have pn: "page_aligned n" "mem st1 = zero_page n (mem st)" using pool_pages [OF pool a(1)] pool_alloc [OF pool ne] al by auto
  have "card F = Suc (card (F - {n}))" using card_Suc_Diff1 [OF _ a(1)] card_ge_0_finite [of F] c by simp
  with c have c3: "3 \<le> card (F - {n})" by simp
  have fr: "mem st2 b = mem st1 b" if "page_of b \<notin> (F - {n}) \<union> tables (mem st) (root st)" for b
    using map_user_page_frame [OF a(2) c3 va m] that a(4) by simp
  show "user_load st2 v = user_load st v" if v: "user_page_accessible st v False" "page_of v \<noteq> page_of va"
  proof -
    have u: "user_va v" using accessible_user [OF v(1)] by (simp add: user_va_def)
    let ?f = "aspace st v AND PAGE_ADDRESS_MASK"
    have "?f \<notin> F \<union> tables (mem st) (root st)" using accessible_owned [OF s v(1)] i unfolding isolated_def by blast
    then have o: "page_of (phys st v AND NOT 7) \<notin> F \<union> tables (mem st) (root st)"
      unfolding phys_def page_of_word page_of_frame(1) [OF frame_aligned] .
    have as: "aspace st2 v = aspace st v" using e(2) u v(2) by simp
    have "mem st2 (phys st v AND NOT 7) = mem st (phys st v AND NOT 7)"
      using fr [of "phys st v AND NOT 7"] o a(1) pn zero_page_aligned [OF pn(1)] by auto
    then have "peek8 (mem st2) (phys st v) = peek8 (mem st) (phys st v)" by (rule peek8_cong)
    moreover have "phys st2 v = phys st v" unfolding phys_def as ..
    moreover have "user_page_accessible st2 v False"
      using v(1) unfolding accessible_aspace [OF e(1) u] accessible_aspace [OF s u] as .
    ultimately show ?thesis using load_sound [OF e(1)] load_sound [OF s v(1)] by simp
  qed
  show "user_load st2 v = Some 0 \<and> phys st2 v = n + (v AND 0xFFF)" if v: "user_va v" "page_of v = page_of va"
  proof -
    have as: "aspace st2 v = n OR PAGE_USER_FLAGS" using e(2) v by simp
    then have p: "phys st2 v = n + (v AND 0xFFF)" using mk a(1) or_flags_mask(1) unfolding phys_def by simp
    have acc: "user_page_accessible st2 v False"
      unfolding accessible_aspace [OF e(1) v(1)] as using or_flags(3) [of n] by (simp add: denied_def)
    have q: "page_of (phys st2 v AND NOT 7) = n" unfolding p page_of_word using page_of_frame(1) [OF pn(1)] .
    have "n \<notin> tables (mem st) (root st)" using a(1) sp unfolding space_def by blast
    then have "mem st2 b = 0" if "page_of b = n" for b
      using fr [of b] that pn(2) zero_page_aligned [OF pn(1)] by simp
    from this [OF q] have "peek8 (mem st2) (phys st2 v) = 0" unfolding peek8_def by simp
    with load_sound [OF e(1) acc] p show ?thesis by simp
  qed
qed

section \<open>Writing through the direct mapping\<close>

lemma store_as_poke:
  assumes "sound st F" and "user_page_accessible st va True"
  shows "user_store va v st = Some (st \<lparr> mem := poke8 (phys st va) v (mem st) \<rparr>)"
    and "sound (st \<lparr> mem := poke8 (phys st va) v (mem st) \<rparr>) F"
    and "user_page_accessible (st \<lparr> mem := poke8 (phys st va) v (mem st) \<rparr>) x w = user_page_accessible st x w"
    and "user_va x \<Longrightarrow> phys (st \<lparr> mem := poke8 (phys st va) v (mem st) \<rparr>) x = phys st x"
proof -
  have "aspace st va AND PAGE_ADDRESS_MASK \<notin> F \<union> tables (mem st) (root st)"
    using accessible_owned [OF assms] assms(1) unfolding sound_def isolated_def by blast
  then have out: "page_of (phys st va) \<notin> F \<union> tables (mem st) (root st)"
    unfolding phys_def page_of_frame(1) [OF frame_aligned] .
  have "poke8 (phys st va) v (mem st) a = mem st a" if "page_of a \<in> F \<union> tables (mem st) (root st)" for a
    using that out page_of_word [of "phys st va"] by (intro poke8_other) metis
  note fr = sound_frame [OF assms(1) this]
  show "sound (st \<lparr> mem := poke8 (phys st va) v (mem st) \<rparr>) F" by (rule fr(1))
  show "user_page_accessible (st \<lparr> mem := poke8 (phys st va) v (mem st) \<rparr>) x w = user_page_accessible st x w" by (rule fr(3))
  show "phys (st \<lparr> mem := poke8 (phys st va) v (mem st) \<rparr>) x = phys st x" if "user_va x" using fr(2) that by (simp add: phys_def)
  show "user_store va v st = Some (st \<lparr> mem := poke8 (phys st va) v (mem st) \<rparr>)"
    using assms translate_sound [OF assms(1)] by (simp add: user_store_def)
qed

lemma stores_as_poke:
  assumes "sound st F" and "\<forall>i<length bs. user_page_accessible st (va + of_nat i) True \<and> phys st (va + of_nat i) = pa + of_nat i"
  shows "user_stores va bs st = Some (st \<lparr> mem := poke_bytes pa bs (mem st) \<rparr>)"
  using assms
proof (induction bs arbitrary: va pa st)
  case (Cons b bs)
  have 0: "user_page_accessible st va True" "phys st va = pa" using Cons.prems(2) by (force dest: spec [of _ 0])+
  note p = store_as_poke [OF Cons.prems(1) 0(1), where v = b, unfolded 0(2)]
  let ?st = "st \<lparr> mem := poke8 pa b (mem st) \<rparr>"
  have "user_page_accessible ?st (va + 1 + of_nat i) True \<and> phys ?st (va + 1 + of_nat i) = pa + 1 + of_nat i"
    if "i < length bs" for i
  proof -
    have i: "user_page_accessible st (va + 1 + of_nat i) True" "phys st (va + 1 + of_nat i) = pa + 1 + of_nat i"
      using that Cons.prems(2) [rule_format, of "Suc i"] by (simp_all add: add.assoc)
    then show ?thesis using p(3,4) accessible_user [OF i(1)] by (simp add: user_va_def)
  qed
  with Cons.IH [OF p(2), of "va + 1" "pa + 1"] p(1) show ?case by simp
qed simp

text \<open>Filling part of a page that was just mapped.\<close>

lemma fill_page:
  assumes s: "sound st F" and p: "page_aligned p" "user_va p" "user_page_accessible st p True"
    and n: "phys st p = n" and d: "d + length bs \<le> 4096"
  shows "stored st F (p + of_nat d) bs (st \<lparr> mem := poke_bytes (n + of_nat d) bs (mem st) \<rparr>)"
proof -
  have i: "user_page_accessible st (p + of_nat d + of_nat i) True \<and> phys st (p + of_nat d + of_nat i) = n + of_nat d + of_nat i"
    if "i < length bs" for i
  proof -
    have di: "unat (of_nat (d + i) :: u64) = d + i" using d that by (simp only: unat_of_nat) simp
    note pa = page_of_add [OF p(1), of "of_nat (d + i)", unfolded di]
    have pg: "page_of (p + of_nat (d + i)) = p" using pa(1) d that by simp
    then have acc: "user_page_accessible st (p + of_nat (d + i)) True"
      using p(3) accessible_page_of [of st "p + of_nat (d + i)" True] by simp
    have u: "user_va (p + of_nat (d + i))" using accessible_user [OF acc] by (simp add: user_va_def)
    have "indices (p + of_nat (d + i)) = indices p" using same_indices [OF u p(2)] pg p(1) by simp
    then have as: "aspace st (p + of_nat (d + i)) = aspace st p" by (simp add: aspace_def)
    have "(unat p + (d + i)) mod 4096 = d + i" using p(1) d that by (auto simp: page_aligned_iff)
    then have "unat ((p + of_nat (d + i)) AND 0xFFF) = d + i" using pa(2) d that unfolding unat_offset by simp
    then have "(p + of_nat (d + i)) AND 0xFFF = of_nat (d + i)" unfolding word_unat_eq_iff di .
    moreover have "p AND 0xFFF = 0" using p(1) by (simp add: page_aligned_def)
    ultimately have "phys st (p + of_nat (d + i)) = n + of_nat (d + i)" using n unfolding phys_def as by simp
    with acc show ?thesis by (simp add: add.assoc)
  qed
  have "user_stores (p + of_nat d) bs st = Some (st \<lparr> mem := poke_bytes (n + of_nat d) bs (mem st) \<rparr>)"
    using i by (intro stores_as_poke [OF s]) simp
  moreover have "length bs \<le> 2 ^ 47" using d by simp
  ultimately show ?thesis using user_stores_ok [OF s, of bs "p + of_nat d"] i by auto
qed

end
