(* ===== verification/ExfatBitmap.thy ===== *)
theory ExfatBitmap
  imports Exfat
begin

text \<open>
  The allocation bitmap of the exFAT driver: the nested search loops find the first run of free
  clusters, marking and freeing change exactly the clusters asked for, and no other sector of
  the disk.
\<close>

section \<open>A disk without faults\<close>

abbreviation this_disk :: "exfat \<Rightarrow> disk" where
  "this_disk st \<equiv> the (units (blk st) (current_drive (blk st)))"

definition sec :: "exfat \<Rightarrow> u64 \<Rightarrow> bytes" where
  "sec st lba = media (this_disk st) lba"

definition online :: "exfat \<Rightarrow> bool" where
  "online st \<longleftrightarrow> drive_present (blk st) (current_drive (blk st))
     \<and> (\<forall>lba. \<not> faulty (this_disk st) lba) \<and> (\<forall>lba. length (sec st lba) = 512)"

text \<open>The state after storing a sector.\<close>

definition put_sec :: "u64 \<Rightarrow> bytes \<Rightarrow> exfat \<Rightarrow> exfat" where
  "put_sec lba b st =
     st \<lparr> blk := (blk st) \<lparr> units := (units (blk st))
       (current_drive (blk st) := Some (this_disk st \<lparr> media := (media (this_disk st))(lba := b) \<rparr>)) \<rparr> \<rparr>"

lemma sector_read_online:
  "online st \<Longrightarrow> lba < 0x1000000000000 \<Longrightarrow> exfat_sector_read st lba = Some (sec st lba)"
  by (auto simp: exfat_sector_read_def drive_read_def online_def drive_present_def sec_def
      split: option.splits)

lemma sector_write_online:
  "online st \<Longrightarrow> lba < 0x1000000000000 \<Longrightarrow> exfat_sector_write lba b st = Some (put_sec lba b st)"
  by (auto simp: exfat_sector_write_def drive_write_def online_def drive_present_def put_sec_def
      split: option.splits)

lemma put_sec_simps [simp]:
  "sec (put_sec lba b st) = (sec st)(lba := b)"
  "g_current_cluster (put_sec lba b st) = g_current_cluster st"
  "g_current_path (put_sec lba b st) = g_current_path st"
  "g_cluster_heap_offset (put_sec lba b st) = g_cluster_heap_offset st"
  "g_sectors_per_cluster (put_sec lba b st) = g_sectors_per_cluster st"
  "g_root_cluster (put_sec lba b st) = g_root_cluster st"
  "g_cluster_count (put_sec lba b st) = g_cluster_count st"
  by (auto simp: put_sec_def sec_def)

lemma online_put_sec [simp]: "online st \<Longrightarrow> length b = 512 \<Longrightarrow> online (put_sec lba b st)"
  by (auto simp: online_def put_sec_def drive_present_def sec_def)

lemma cluster_lba_put_sec [simp]: "exfat_cluster_lba (put_sec lba b st) = exfat_cluster_lba st"
  by (auto simp: exfat_cluster_lba_def)

text \<open>A mounted volume with the geometry the formatter writes: eight sectors per cluster, a heap
  that ends below \<open>2 ^ 48\<close>, and a bitmap that fits its cluster.\<close>

definition volume :: "exfat \<Rightarrow> bool" where
  "volume st \<longleftrightarrow> online st \<and> g_sectors_per_cluster st = 8
     \<and> unat (g_cluster_heap_offset st) < 2 ^ 31 \<and> unat (g_cluster_count st) \<le> 32768"

lemma volume_put_sec [simp]: "volume st \<Longrightarrow> length b = 512 \<Longrightarrow> volume (put_sec lba b st)"
  by (simp add: volume_def)

lemma unat_cluster_lba:
  assumes "volume st" and "2 \<le> unat c"
  shows "unat (exfat_cluster_lba st c) = 4096 + unat (g_cluster_heap_offset st) + (unat c - 2) * 8"
proof -
  let ?h = "g_cluster_heap_offset st"
  have h: "unat (4096 + ?h) = 4096 + unat ?h" using assms(1) by (simp add: volume_def unat_word_ariths)
  have c: "unat (c - 2) = unat c - 2" using assms(2) by (simp add: unat_sub word_le_nat_alt)
  have "unat c < 2 ^ 32" using unat_bound [of c] by simp
  then have "unat (ucast (c - 2) * 8 :: u64) = (unat c - 2) * 8"
    by (simp add: unat_word_ariths unat_ucast c)
  moreover have "unat (ucast (4096 + ?h) :: u64) = 4096 + unat ?h"
    using assms(1) by (simp add: unat_ucast h volume_def)
  moreover have spc: "ucast (g_sectors_per_cluster st) = (8 :: u64)" using assms(1) by (simp add: volume_def)
  moreover have "unat ?h < 2147483648" "unat c < 4294967296"
    using assms(1) \<open>unat c < 2 ^ 32\<close> by (simp_all add: volume_def)
  then have "4096 + unat ?h + (unat c - 2) * 8 < 18446744073709551616" by linarith
  ultimately show ?thesis unfolding exfat_cluster_lba_def spc by (subst unat_word_ariths(1)) simp
qed

lemma unat_cluster_sector:
  assumes "volume st" and "2 \<le> unat c" and "s < 2 ^ 45"
  shows "unat (exfat_cluster_lba st c + of_nat s)
       = 4096 + unat (g_cluster_heap_offset st) + (unat c - 2) * 8 + s"
    and "exfat_cluster_lba st c + of_nat s < 0x1000000000000"
proof -
  let ?n = "4096 + unat (g_cluster_heap_offset st) + (unat c - 2) * 8"
  have "unat c < 4294967296" using unat_bound [of c] by simp
  moreover have "unat (g_cluster_heap_offset st) < 2147483648" using assms(1) by (simp add: volume_def)
  moreover have s: "s < 35184372088832" using assms(3) by simp
  ultimately have b: "?n + s < 281474976710656" by linarith
  then show *: "unat (exfat_cluster_lba st c + of_nat s) = ?n + s"
    using s by (simp add: unat_word_ariths unat_cluster_lba [OF assms(1,2)] unat_of_nat)
  show "exfat_cluster_lba st c + of_nat s < 0x1000000000000"
    using b by (simp add: word_less_nat_alt *)
qed

lemma block_8: "x * 8 + s = y * 8 + t \<Longrightarrow> s < 8 \<Longrightarrow> t < 8 \<Longrightarrow> x = y \<and> s = t" for x y s t :: nat
  by presburger

text \<open>Sectors of different clusters are different sectors.\<close>

lemma cluster_sector_inject:
  assumes "volume st" and "2 \<le> unat c" and "2 \<le> unat d" and "s < 8" and "t < 8"
  shows "exfat_cluster_lba st c + of_nat s = exfat_cluster_lba st d + of_nat t \<longleftrightarrow> c = d \<and> s = t"
proof
  assume "exfat_cluster_lba st c + of_nat s = exfat_cluster_lba st d + of_nat t"
  then have "(unat c - 2) * 8 + s = (unat d - 2) * 8 + t"
    using unat_cluster_sector(1) [OF assms(1,2), of s] unat_cluster_sector(1) [OF assms(1,3), of t]
      assms(4,5) by simp
  then have "unat c - 2 = unat d - 2 \<and> s = t" using block_8 assms(4,5) by blast
  then show "c = d \<and> s = t" using assms(2,3) by (auto simp: word_unat_eq_iff)
qed simp

section \<open>The search\<close>

definition bit_used :: "exfat \<Rightarrow> nat \<Rightarrow> bool" where
  "bit_used st i =
     bit (sec st (bitmap_lba st + of_nat (i div 4096)) ! (i mod 4096 div 8)) (i mod 8)"

text \<open>The search over the clusters one by one.\<close>

function run_scan :: "(nat \<Rightarrow> bool) \<Rightarrow> nat \<Rightarrow> nat \<Rightarrow> nat \<Rightarrow> nat \<Rightarrow> nat \<Rightarrow> nat option" where
  "run_scan used n count i consecutive start =
     (if i < n
      then if \<not> used i
           then let start = (if consecutive = 0 then i else start)
                in if Suc consecutive = count then Some start
                   else run_scan used n count (Suc i) (Suc consecutive) start
           else run_scan used n count (Suc i) 0 start
      else None)"
  by pat_completeness auto
termination by (relation "measure (\<lambda>(used, n, count, i, c, s). n - i)") auto

declare run_scan.simps [simp del]

lemma scan_bits_flat:
  assumes "\<And>b. b < 4096 \<Longrightarrow> used (s * 4096 + b) = bit (sector ! (b div 8)) (b mod 8)" and "b \<le> 4096"
  shows "(case scan_bits sector n count s b c start of
            Inl first \<Rightarrow> Some first
          | Inr (c', start') \<Rightarrow> run_scan used n count (Suc s * 4096) c' start')
       = run_scan used n count (s * 4096 + b) c start"
  using assms
proof (induction sector n count s b c start rule: scan_bits.induct)
  case (1 sector n count s b c start)
  note bits = 1(3)
  show ?case
  proof (cases "b < 4096 \<and> s * 4096 + b < n")
    case True
    then show ?thesis
      using 1(1,2) bits bits [of b]
      by (subst scan_bits.simps, subst run_scan.simps) (auto simp: Let_def)
  next
    case False
    have "run_scan used n count (Suc s * 4096) c start = run_scan used n count (s * 4096 + b) c start"
    proof (cases "b = 4096")
      case False
      with \<open>\<not> (b < 4096 \<and> s * 4096 + b < n)\<close> 1(4) have "n \<le> s * 4096 + b" by simp
      then show ?thesis
        by (subst run_scan.simps, subst (2) run_scan.simps) (use 1(4) in auto)
    qed (simp add: add.commute)
    moreover have "scan_bits sector n count s b c start = Inr (c, start)"
      by (subst scan_bits.simps) (simp only: False if_False)
    ultimately show ?thesis by simp
  qed
qed

lemma unat_bitmap_sector:
  assumes "volume st" and "i < 32768"
  shows "unat (bitmap_lba st + of_nat (i div 4096))
       = 4096 + unat (g_cluster_heap_offset st) + i div 4096"
    and "bitmap_lba st + of_nat (i div 4096) < 0x1000000000000"
  using unat_cluster_sector [OF assms(1), of 2 "i div 4096"] assms(2) by simp_all

lemma scan_sectors_flat:
  assumes "volume st"
  shows "scan_sectors st count s c start
       = run_scan (bit_used st) (unat (g_cluster_count st)) count (s * 4096) c start"
  using assms
proof (induction st count s c start rule: scan_sectors.induct)
  case (1 st count s c start)
  let ?n = "unat (g_cluster_count st)" and ?lba = "bitmap_lba st + of_nat s"
  show ?case
  proof (cases "s < (?n + 4095) div 4096")
    case True
    have "?n \<le> 32768" using 1(2) by (simp add: volume_def)
    then have s: "s < 8" using True by simp
    have r: "exfat_sector_read st ?lba = Some (sec st ?lba)"
      using unat_bitmap_sector(2) [OF 1(2), of "s * 4096"] s 1(2)
      by (intro sector_read_online) (simp_all add: volume_def)
    have bits: "bit_used st (s * 4096 + b) = bit (sec st ?lba ! (b div 8)) (b mod 8)" if "b < 4096" for b
    proof -
      have "(s * 4096 + b) div 4096 = s" "(s * 4096 + b) mod 4096 = b" using that by simp_all
      moreover have "(s * 4096 + b) mod 8 = b mod 8"
        using mod_mult_self3 [of "s * 512" 8 b] by (simp add: mult.commute)
      ultimately show ?thesis by (simp add: bit_used_def)
    qed
    have "scan_sectors st count s c start =
      (case scan_bits (sec st ?lba) ?n count s 0 c start of
         Inl first \<Rightarrow> Some first
       | Inr (c, start) \<Rightarrow> scan_sectors st count (Suc s) c start)"
      using True r by (subst scan_sectors.simps) simp
    also have "\<dots> = (case scan_bits (sec st ?lba) ?n count s 0 c start of
         Inl first \<Rightarrow> Some first
       | Inr (c, start) \<Rightarrow> run_scan (bit_used st) ?n count (Suc s * 4096) c start)"
      using 1 True r by (auto split: sum.splits)
    also have "\<dots> = run_scan (bit_used st) ?n count (s * 4096 + 0) c start"
      by (rule scan_bits_flat [OF bits]) simp_all
    finally show ?thesis by simp
  next
    case False
    then have "?n \<le> s * 4096" by (simp add: not_less div_le_mono)
    with False show ?thesis by (subst scan_sectors.simps, subst run_scan.simps) simp
  qed
qed

text \<open>The first run of free clusters: its whole length is free, and no run starts earlier.\<close>

definition free_run :: "(nat \<Rightarrow> bool) \<Rightarrow> nat \<Rightarrow> nat \<Rightarrow> nat \<Rightarrow> bool" where
  "free_run used n count f \<longleftrightarrow> f + count \<le> n \<and> (\<forall>j. f \<le> j \<longrightarrow> j < f + count \<longrightarrow> \<not> used j)"

lemma run_scan_correct:
  assumes "0 < count" and "c < count" and "c \<le> i"
    and "c > 0 \<Longrightarrow> start = i - c" and "\<And>j. i - c \<le> j \<Longrightarrow> j < i \<Longrightarrow> \<not> used j"
    and "\<And>f. f < i - c \<Longrightarrow> \<not> free_run used n count f"
  shows "case run_scan used n count i c start of
      None \<Rightarrow> \<forall>f. \<not> free_run used n count f
    | Some f \<Rightarrow> free_run used n count f \<and> (\<forall>g<f. \<not> free_run used n count g)"
  using assms
proof (induction used n count i c start rule: run_scan.induct)
  case (1 used n count i c start)
  show ?case
  proof (cases "i < n")
    case False
    then have "\<not> free_run used n count f" for f
      using 1(8) [of f] 1(4,5) by (cases "f < i - c") (auto simp: free_run_def)
    with False show ?thesis by (subst run_scan.simps) simp
  next
    case True
    show ?thesis
    proof (cases "used i")
      case u: True
      have "\<not> free_run used n count f" if "f < Suc i" for f
        using 1(8) [of f] u that 1(3,4,5) by (cases "f < i - c") (auto simp: free_run_def intro!: exI [of _ i])
      with 1(2) [OF True] u 1(3) True show ?thesis by (subst run_scan.simps) simp
    next
      case free: False
      let ?start = "if c = 0 then i else start"
      have st: "?start = i - c" using 1(6) by simp
      have run: "\<not> used j" if "i - c \<le> j" "j < Suc i" for j
        using that free 1(7) [of j] by (cases "j = i") auto
      show ?thesis
      proof (cases "Suc c = count")
        case True
        then have "free_run used n count (i - c)"
          using run \<open>i < n\<close> 1(5) by (auto simp: free_run_def)
        with True free \<open>i < n\<close> st 1(8) show ?thesis by (subst run_scan.simps) (simp add: Let_def)
      next
        case False
        have "case run_scan used n count (Suc i) (Suc c) ?start of
            None \<Rightarrow> \<forall>f. \<not> free_run used n count f
          | Some f \<Rightarrow> free_run used n count f \<and> (\<forall>g<f. \<not> free_run used n count g)"
          by (rule 1(1) [OF True]) (use free False 1(3-5,8) st run in auto)
        with True free False show ?thesis by (subst run_scan.simps) (simp add: Let_def)
      qed
    qed
  qed
qed

section \<open>Marking and freeing\<close>

text \<open>Same geometry, and the same sectors outside the bitmap.\<close>

definition same_outside_bitmap :: "exfat \<Rightarrow> exfat \<Rightarrow> bool" where
  "same_outside_bitmap st st' \<longleftrightarrow>
     g_current_cluster st' = g_current_cluster st \<and> g_current_path st' = g_current_path st
     \<and> g_cluster_heap_offset st' = g_cluster_heap_offset st
     \<and> g_sectors_per_cluster st' = g_sectors_per_cluster st
     \<and> g_root_cluster st' = g_root_cluster st \<and> g_cluster_count st' = g_cluster_count st
     \<and> (\<forall>lba. (\<forall>k<8. lba \<noteq> bitmap_lba st + of_nat k) \<longrightarrow> sec st' lba = sec st lba)"

lemma same_outside_refl [simp]: "same_outside_bitmap st st"
  by (simp add: same_outside_bitmap_def)

lemma same_outside_lba: "same_outside_bitmap st st' \<Longrightarrow> exfat_cluster_lba st' = exfat_cluster_lba st"
  by (auto simp: same_outside_bitmap_def exfat_cluster_lba_def)

lemma same_outside_trans:
  "same_outside_bitmap st st1 \<Longrightarrow> same_outside_bitmap st1 st2 \<Longrightarrow> same_outside_bitmap st st2"
  using same_outside_lba [of st st1] by (auto simp: same_outside_bitmap_def)

lemma bit_or_one: "k < 8 \<Longrightarrow> bit (x OR push_bit m 1) k \<longleftrightarrow> bit x k \<or> k = m" for x :: u8
  by (auto simp: bit_simps)

lemma bit_and_not_one: "k < 8 \<Longrightarrow> bit (x AND NOT (push_bit m 1)) k \<longleftrightarrow> bit x k \<and> k \<noteq> m" for x :: u8
  by (auto simp: bit_simps)

lemma index_split: "j = j div 4096 * 4096 + j mod 4096 div 8 * 8 + j mod 8" for j :: nat
proof -
  have "j mod 4096 mod 8 = j mod 8" by (simp add: mod_mod_cancel)
  then have "j mod 4096 = j mod 4096 div 8 * 8 + j mod 8"
    using div_mult_mod_eq [of "j mod 4096" 8] by simp
  then show ?thesis using div_mult_mod_eq [of j 4096] by linarith
qed

text \<open>Changing the byte of one cluster's bit.\<close>

lemma one_bit:
  assumes "volume st" and "i < 32768"
    and lba: "lba = bitmap_lba st + of_nat (i div 4096)"
    and b': "b' = (sec st lba)[i mod 4096 div 8 := x]"
    and x: "\<And>k. k < 8 \<Longrightarrow> bit x k = (if k = i mod 8 then v else bit (sec st lba ! (i mod 4096 div 8)) k)"
    and st': "st' = put_sec lba b' st"
  shows "volume st'" and "same_outside_bitmap st st'"
    and "j < 32768 \<Longrightarrow> bit_used st' j = (if j = i then v else bit_used st j)"
proof -
  have len: "length (sec st lba) = 512" using assms(1) by (simp add: volume_def online_def)
  show "volume st'" unfolding st' using assms(1) by (rule volume_put_sec) (simp add: b' len)
  show "same_outside_bitmap st st'"
    using assms(2) by (auto simp: same_outside_bitmap_def st' lba)
  assume j: "j < 32768"
  have same: "bitmap_lba st + of_nat (j div 4096) = lba \<longleftrightarrow> j div 4096 = i div 4096"
    using unat_bitmap_sector(1) [OF assms(1) j] unat_bitmap_sector(1) [OF assms(1,2)] lba
    by (auto simp: word_unat_eq_iff)
  have idx: "j mod 4096 div 8 < 512" "j mod 8 < 8" by simp_all
  show "bit_used st' j = (if j = i then v else bit_used st j)"
  proof (cases "j div 4096 = i div 4096")
    case False
    then show ?thesis using same by (auto simp: bit_used_def st')
  next
    case True
    then have s: "bit_used st' j = bit (b' ! (j mod 4096 div 8)) (j mod 8)"
      "bit_used st j = bit (sec st lba ! (j mod 4096 div 8)) (j mod 8)"
      using same by (simp_all add: bit_used_def st' lba)
    have eq: "j = i \<longleftrightarrow> j mod 4096 div 8 = i mod 4096 div 8 \<and> j mod 8 = i mod 8"
      using True index_split [of i] index_split [of j] by metis
    show ?thesis unfolding s using x [OF idx(2)] eq idx(1) len by (auto simp: b' nth_list_update)
  qed
qed

lemma mark_bits_correct:
  assumes "volume st" and "i + n \<le> 32768"
  shows "\<exists>st'. mark_bits i n st = (Some st', st') \<and> volume st' \<and> same_outside_bitmap st st'
     \<and> (\<forall>j<32768. bit_used st' j = (bit_used st j \<or> i \<le> j \<and> j < i + n))"
  using assms
proof (induction n arbitrary: i st)
  case (Suc n)
  let ?lba = "bitmap_lba st + of_nat (i div 4096)" and ?k = "i mod 4096"
  let ?x = "sec st ?lba ! (?k div 8) OR push_bit (?k mod 8) 1"
  let ?st = "put_sec ?lba ((sec st ?lba)[?k div 8 := ?x]) st"
  have i: "i < 32768" "?k mod 8 = i mod 8" using Suc.prems(2) by (simp_all add: mod_mod_cancel)
  note lt = unat_bitmap_sector(2) [OF Suc.prems(1) i(1)]
  have on: "online st" using Suc.prems(1) by (simp add: volume_def)
  have one: "volume ?st" "same_outside_bitmap st ?st"
      "\<And>j. j < 32768 \<Longrightarrow> bit_used ?st j = (if j = i then True else bit_used st j)"
    using one_bit [OF Suc.prems(1) i(1) refl refl _ refl, of ?x True] i(2) bit_or_one by auto
  have e: "mark_bits i (Suc n) st = mark_bits (Suc i) n ?st"
    using lt on by (simp add: sector_read_online sector_write_online Let_def)
  from Suc.IH [OF one(1), of "Suc i"] Suc.prems(2) obtain st' where m:
    "mark_bits (Suc i) n ?st = (Some st', st')" "volume st'" "same_outside_bitmap ?st st'"
    "\<forall>j<32768. bit_used st' j = (bit_used ?st j \<or> Suc i \<le> j \<and> j < Suc i + n)" by auto
  have "\<forall>j<32768. bit_used st' j = (bit_used st j \<or> i \<le> j \<and> j < i + Suc n)"
    using m(4) one(3) by auto
  then show ?case
    unfolding e m(1) using m(2) same_outside_trans [OF one(2) m(3)] by blast
qed auto

lemma clear_bits_correct:
  assumes "volume st" and "i + n \<le> 32768"
  shows "volume (clear_bits i n st) \<and> same_outside_bitmap st (clear_bits i n st)
     \<and> (\<forall>j<32768. bit_used (clear_bits i n st) j = (bit_used st j \<and> \<not> (i \<le> j \<and> j < i + n)))"
  using assms
proof (induction n arbitrary: i st)
  case (Suc n)
  let ?lba = "bitmap_lba st + of_nat (i div 4096)" and ?k = "i mod 4096"
  let ?x = "sec st ?lba ! (?k div 8) AND NOT (push_bit (?k mod 8) 1)"
  let ?st = "put_sec ?lba ((sec st ?lba)[?k div 8 := ?x]) st"
  have i: "i < 32768" "?k mod 8 = i mod 8" using Suc.prems(2) by (simp_all add: mod_mod_cancel)
  note lt = unat_bitmap_sector(2) [OF Suc.prems(1) i(1)]
  have on: "online st" using Suc.prems(1) by (simp add: volume_def)
  have one: "volume ?st" "same_outside_bitmap st ?st"
      "\<And>j. j < 32768 \<Longrightarrow> bit_used ?st j = (if j = i then False else bit_used st j)"
    using one_bit [OF Suc.prems(1) i(1) refl refl _ refl, of ?x False] i(2) bit_and_not_one by auto
  have e: "clear_bits i (Suc n) st = clear_bits (Suc i) n ?st"
    using lt on by (simp add: sector_read_online sector_write_online Let_def)
  define st2 where "st2 = clear_bits (Suc i) n ?st"
  have "volume st2" "same_outside_bitmap ?st st2"
      "\<forall>j<32768. bit_used st2 j = (bit_used ?st j \<and> \<not> (Suc i \<le> j \<and> j < Suc i + n))"
    using Suc.IH [OF one(1), of "Suc i"] Suc.prems(2) by (simp_all add: st2_def)
  then show ?case
    unfolding e st2_def [symmetric] using same_outside_trans [OF one(2)] one(3) by auto
qed auto

lemma unat_count_pos: "count \<noteq> 0 \<Longrightarrow> 0 < unat count" for count :: u32
  by (simp add: unat_gt_0)

lemma alloc_blocks_spec:
  assumes "volume st" and "count \<noteq> 0" and "exfat_alloc_blocks count st = (c, st')"
  shows "if \<exists>f. free_run (bit_used st) (unat (g_cluster_count st)) (unat count) f
     then \<exists>f. free_run (bit_used st) (unat (g_cluster_count st)) (unat count) f
        \<and> (\<forall>g<f. \<not> free_run (bit_used st) (unat (g_cluster_count st)) (unat count) g)
        \<and> c = of_nat f + 2 \<and> volume st' \<and> same_outside_bitmap st st'
        \<and> (\<forall>j<32768. bit_used st' j = (bit_used st j \<or> f \<le> j \<and> j < f + unat count))
     else c = 0 \<and> st' = st"
proof -
  let ?n = "unat (g_cluster_count st)" and ?k = "unat count"
  have n: "?n \<le> 32768" using assms(1) by (simp add: volume_def)
  have r: "case run_scan (bit_used st) ?n ?k 0 0 0 of
      None \<Rightarrow> \<forall>f. \<not> free_run (bit_used st) ?n ?k f
    | Some f \<Rightarrow> free_run (bit_used st) ?n ?k f \<and> (\<forall>g<f. \<not> free_run (bit_used st) ?n ?k g)"
    using unat_count_pos [OF assms(2)] by (intro run_scan_correct) simp_all
  show ?thesis
  proof (cases "run_scan (bit_used st) ?n ?k 0 0 0")
    case None
    with r assms show ?thesis by (auto simp: exfat_alloc_blocks_def scan_sectors_flat)
  next
    case (Some f)
    with r have f: "free_run (bit_used st) ?n ?k f" "\<forall>g<f. \<not> free_run (bit_used st) ?n ?k g" by auto
    from f(1) n have "f + ?k \<le> 32768" by (simp add: free_run_def)
    from mark_bits_correct [OF assms(1) this] obtain st1 where
      "mark_bits f ?k st = (Some st1, st1)" "volume st1" "same_outside_bitmap st st1"
      "\<forall>j<32768. bit_used st1 j = (bit_used st j \<or> f \<le> j \<and> j < f + ?k)" by blast
    with Some f assms show ?thesis
      by (auto simp: exfat_alloc_blocks_def scan_sectors_flat intro!: exI [of _ f])
  qed
qed

text \<open>
  C22: \<open>exfat_alloc_blocks\<close> on a readable volume finds the first run of \<open>count\<close> free clusters and
  marks exactly those as used, touching no sector outside the bitmap; it fails, with the disk
  unchanged, only when there is no such run.
\<close>

theorem exfat_alloc_blocks_correct:
  assumes "volume st" and "count \<noteq> 0" and "exfat_alloc_blocks count st = (c, st')"
  shows "if \<exists>f. free_run (bit_used st) (unat (g_cluster_count st)) (unat count) f
     then \<exists>f. free_run (bit_used st) (unat (g_cluster_count st)) (unat count) f
        \<and> (\<forall>g<f. \<not> free_run (bit_used st) (unat (g_cluster_count st)) (unat count) g)
        \<and> c = of_nat f + 2 \<and> volume st' \<and> same_outside_bitmap st st'
        \<and> (\<forall>j<32768. bit_used st' j = (bit_used st j \<or> f \<le> j \<and> j < f + unat count))
     else c = 0 \<and> st' = st"
  using assms by (rule alloc_blocks_spec)

section \<open>A small volume\<close>

text \<open>A formatted disk of 1000 clusters with one empty file \<open>a\<close> in the root directory, whose
  cluster is 5: clusters 2 to 5 are in use.\<close>

definition sample_disk :: disk where
  "sample_disk =
     \<lparr> media = (\<lambda>lba. if lba = 6144 then 15 # replicate 511 0
                     else if lba = 6160 then entry_set (asc ''a'') False 5 @ replicate 416 0
                     else replicate 512 0),
       faulty = (\<lambda>lba. False), capacity = 14144 \<rparr>"

definition sample :: exfat where
  "sample =
     \<lparr> blk = \<lparr> current_drive = 0, units = [0 \<mapsto> sample_disk] \<rparr>,
       g_current_cluster = 4, g_current_path = asc ''/'', g_cluster_heap_offset = 2048,
       g_sectors_per_cluster = 8, g_root_cluster = 4, g_cluster_count = 1000 \<rparr>"

lemma length_name_entry: "length cs \<le> 15 \<Longrightarrow> length (name_entry cs) = 32"
proof -
  assume "length cs \<le> 15"
  moreover have "length (concat (map le16 cs)) = 2 * length cs" by (induction cs) auto
  ultimately show ?thesis by (simp add: name_entry_def)
qed

lemma length_name_entries: "length (name_entries n cs) = 32 * n"
  by (induction n cs rule: name_entries.induct) (simp_all add: length_name_entry)

lemma length_entry_set: "length (entry_set name d c) = 32 * (2 + (min (length name) 255 + 14) div 15)"
  by (simp add: entry_set_def Let_def file_entry_def stream_entry_def length_name_entries)

lemma sec_sample:
  "sec sample lba = (if lba = 6144 then 15 # replicate 511 0
     else if lba = 6160 then entry_set (asc ''a'') False 5 @ replicate 416 0 else replicate 512 0)"
  by (simp add: sec_def sample_def sample_disk_def)

lemma volume_sample: "volume sample"
  unfolding volume_def online_def sec_sample
  by (simp add: sample_def drive_present_def sample_disk_def length_entry_set asc_def)

lemma nth_fifteen: "(15 # replicate 511 0) ! k = (if k = 0 then 15 else 0)" if "k < 512" for k
  using that by (cases k) auto

lemma bit_used_sample: "j < 32768 \<Longrightarrow> bit_used sample j \<longleftrightarrow> j < 4"
proof -
  assume j: "j < 32768"
  have l: "bitmap_lba sample + of_nat (j div 4096) = 6144 \<longleftrightarrow> j div 4096 = 0"
    "bitmap_lba sample + of_nat (j div 4096) \<noteq> 6160"
    using unat_bitmap_sector(1) [OF volume_sample j] j
    by (auto simp: word_unat_eq_iff sample_def)
  have "(15 :: u8) = mask 4" by (simp add: mask_eq_exp_minus_1)
  then have b: "bit (15 :: u8) k \<longleftrightarrow> k < 4" for k by (simp only: bit_mask_iff) auto
  have k: "j mod 4096 div 8 < 512" by simp
  show ?thesis
  proof (cases "j div 4096 = 0")
    case True
    then have "j mod 4096 = j" "j < 4096" by (simp_all add: div_eq_0_iff)
    have "j div 8 < 512" using \<open>j < 4096\<close> by simp
    have "bit_used sample j = bit ((15 # replicate 511 (0 :: u8)) ! (j div 8)) (j mod 8)"
      unfolding bit_used_def sec_sample using True l \<open>j mod 4096 = j\<close> by simp
    also have "\<dots> \<longleftrightarrow> j div 8 = 0 \<and> j mod 8 < 4"
      unfolding nth_fifteen [OF \<open>j div 8 < 512\<close>]
      by (cases "j div 8 = 0") (simp only: if_True b simp_thms, simp)
    also have "\<dots> \<longleftrightarrow> j < 4" by (auto simp: div_eq_0_iff)
    finally show ?thesis .
  next
    case False
    with l k show ?thesis unfolding bit_used_def sec_sample by (auto simp: nth_replicate)
  qed
qed

theorem exfat_alloc_blocks_correct_witness:
  "fst (exfat_alloc_blocks 2 sample) = 6 \<and> bit_used (snd (exfat_alloc_blocks 2 sample)) 5
   \<and> \<not> bit_used sample 5 \<and> volume (snd (exfat_alloc_blocks 2 sample))"
proof -
  obtain c st' where e: "exfat_alloc_blocks 2 sample = (c, st')" by fastforce
  let ?free = "free_run (bit_used sample) (unat (g_cluster_count sample)) (unat (2 :: u32))"
  have n: "unat (g_cluster_count sample) = 1000" "unat (2 :: u32) = 2" by (simp_all add: sample_def)
  have free: "?free f \<longleftrightarrow> 4 \<le> f \<and> f + 2 \<le> 1000" for f
    unfolding n free_run_def by (cases "f + 2 \<le> 1000") (auto simp: bit_used_sample)
  then have "?free 4" by simp
  with exfat_alloc_blocks_correct [OF volume_sample _ e] obtain f where
    f: "?free f" "\<forall>g<f. \<not> ?free g" "c = of_nat f + 2" "volume st'"
    "\<forall>j<32768. bit_used st' j = (bit_used sample j \<or> f \<le> j \<and> j < f + unat (2 :: u32))"
    by (auto split: if_splits)
  from f(1) have "4 \<le> f" by (simp only: free)
  moreover have "\<not> 4 < f" using f(2) \<open>?free 4\<close> by blast
  ultimately have "f = 4" by simp
  with f show ?thesis by (simp add: e bit_used_sample)
qed

end
