(* ===== verification/ExfatFiles.thy ===== *)
theory ExfatFiles
  imports ExfatBitmap
begin

text \<open>
  Files of the exFAT driver: what a directory lookup depends on, that the entry update of a
  write is found again by the next lookup, and that reading returns what was written.
\<close>

section \<open>Clusters as byte lists\<close>

definition clus :: "exfat \<Rightarrow> u32 \<Rightarrow> bytes" where
  "clus st c = concat (map (\<lambda>s. sec st (exfat_cluster_lba st c + of_nat s)) [0..<8])"

lemma those_Some: "those (map (\<lambda>s. Some (f s)) xs) = Some (map f xs)"
  by (induction xs) auto

lemma read_cluster_volume:
  assumes "volume st" and "2 \<le> unat c"
  shows "read_cluster st c = Some (clus st c)"
proof -
  have "exfat_sector_read st (exfat_cluster_lba st c + of_nat s)
      = Some (sec st (exfat_cluster_lba st c + of_nat s))" if "s < 8" for s
    using unat_cluster_sector(2) [OF assms, of s] that assms(1)
    by (intro sector_read_online) (simp_all add: volume_def)
  then have "map (\<lambda>s. exfat_sector_read st (exfat_cluster_lba st c + of_nat s)) [0..<8]
      = map (\<lambda>s. Some (sec st (exfat_cluster_lba st c + of_nat s))) [0..<8]" by simp
  then show ?thesis
    by (simp only: read_cluster_def clus_def those_Some option.map)
qed

lemma nth_concat_sectors:
  assumes "\<And>s. s < n \<Longrightarrow> length (f s) = 512" and "k < n * 512"
  shows "concat (map f [0..<n]) ! k = f (k div 512) ! (k mod 512)"
    and "length (concat (map f [0..<n])) = n * 512"
proof -
  have "length (concat (map f [0..<n])) = n * 512 \<and>
      (k < n * 512 \<longrightarrow> concat (map f [0..<n]) ! k = f (k div 512) ! (k mod 512))"
    using assms(1)
  proof (induction n)
    case (Suc n)
    have IH: "length (concat (map f [0..<n])) = n * 512"
      "k < n * 512 \<Longrightarrow> concat (map f [0..<n]) ! k = f (k div 512) ! (k mod 512)" using Suc by auto
    have "k div 512 = n \<and> k mod 512 = k - n * 512" if "\<not> k < n * 512" "k < Suc n * 512"
      using that by (metis add.commute div_nat_eqI le_add_diff_inverse minus_mult_div_eq_mod
          mult.commute mult_Suc not_less)
    with IH Suc.prems [of n] show ?case by (auto simp: nth_append)
  qed simp
  with assms(2) show "concat (map f [0..<n]) ! k = f (k div 512) ! (k mod 512)"
    "length (concat (map f [0..<n])) = n * 512" by auto
qed

lemma sec_length: "volume st \<Longrightarrow> length (sec st lba) = 512"
  by (simp add: volume_def online_def)

lemma nth_clus:
  "volume st \<Longrightarrow> k < 4096 \<Longrightarrow>
     clus st c ! k = sec st (exfat_cluster_lba st c + of_nat (k div 512)) ! (k mod 512)"
  using nth_concat_sectors(1) [of 8 "\<lambda>s. sec st (exfat_cluster_lba st c + of_nat s)" k]
  by (simp add: clus_def sec_length)

lemma length_clus [simp]: "volume st \<Longrightarrow> length (clus st c) = 4096"
  using nth_concat_sectors(2) [of 8 "\<lambda>s. sec st (exfat_cluster_lba st c + of_nat s)" 0]
  by (simp add: clus_def sec_length)

section \<open>What a lookup depends on\<close>

text \<open>Two directories agree where a lookup looks: they may differ only past the second byte of
  slots that are not name entries.\<close>

definition skel_eq :: "bytes \<Rightarrow> bytes \<Rightarrow> bool" where
  "skel_eq b b' \<longleftrightarrow> (\<forall>k<4096. b' ! k = b ! k \<or> 2 \<le> k mod 32 \<and> b ! (k - k mod 32) \<noteq> EXFAT_TYPE_NAME)"

lemma skel_head:
  assumes "skel_eq b b'" and "i < 4096" and "i mod 32 < 2"
  shows "b' ! i = b ! i"
  using assms by (auto simp: skel_eq_def)

lemma name_chars_cong:
  assumes "\<And>k. i \<le> k \<Longrightarrow> k < i + 2 * n \<Longrightarrow> b' ! k = b ! k"
    and "i + 2 * n \<le> length b" and "length b' = length b"
  shows "name_chars b' i n nb = name_chars b i n nb"
  using assms
proof (induction n arbitrary: i nb)
  case (Suc n)
  have "map (\<lambda>j. b' ! (i + j)) [0..<2] = map (\<lambda>j. b ! (i + j)) [0..<2]"
    by (rule map_cong [OF refl]) (use Suc.prems(1) in auto)
  then have "take 2 (drop i b') = take 2 (drop i b)"
    using take_drop_nth [of i 2 b] take_drop_nth [of i 2 b'] Suc.prems(2,3) by simp
  then have "rd16 b' i = rd16 b i" by (simp only: rd16_def)
  moreover have "name_chars b' (i + 2) n nb' = name_chars b (i + 2) n nb'" for nb'
    by (rule Suc.IH) (use Suc.prems in auto)
  ultimately show ?case by (simp add: Let_def)
qed simp

lemma slot_of: "j mod 32 = 0 \<Longrightarrow> j \<le> k \<Longrightarrow> k < j + 32 \<Longrightarrow> k - k mod 32 = j \<and> k mod 32 = k - j" for j k :: nat
proof -
  assume "j mod 32 = 0" "j \<le> k" "k < j + 32"
  then obtain q where "j = 32 * q" "32 * q \<le> k" "k < 32 * q + 32" by auto
  moreover define r where "r = k - 32 * q"
  ultimately have "k = 32 * q + r" "r < 32" "j = 32 * q" by simp_all
  then show ?thesis by simp
qed

lemma entry_name_cong:
  assumes "skel_eq b b'" and "length b = 4096" and "length b' = 4096" and "i mod 32 = 0"
  shows "entry_name b' i sc s nb = entry_name b i sc s nb"
proof (induction "Suc sc - s" arbitrary: s nb)
  case 0
  then show ?case by (subst entry_name.simps, subst (2) entry_name.simps) simp
next
  case (Suc n)
  let ?j = "i + s * 32"
  show ?case
  proof (cases "s \<le> sc \<and> ?j < 4096")
    case True
    have j: "?j mod 32 = 0" using assms(4) by simp
    then have le: "?j + 32 \<le> 4096" using True by presburger
    have h: "b' ! ?j = b ! ?j" using skel_head [OF assms(1), of ?j] True j by simp
    have "name_chars b' (?j + 2) 15 nb = name_chars b (?j + 2) 15 nb" if "b ! ?j = EXFAT_TYPE_NAME"
    proof (rule name_chars_cong)
      fix k assume "?j + 2 \<le> k" "k < ?j + 2 + 2 * 15"
      then have "k - k mod 32 = ?j" "k < 4096" using slot_of [OF j, of k] le by auto
      with that assms(1) show "b' ! k = b ! k" unfolding skel_eq_def by metis
    qed (use le assms in auto)
    moreover have "entry_name b' i sc (Suc s) nb' = entry_name b i sc (Suc s) nb'" for nb'
      by (rule Suc.hyps(1)) (use Suc.hyps(2) in simp)
    ultimately show ?thesis
      using True h by (subst entry_name.simps, subst (2) entry_name.simps) simp
  next
    case False
    then show ?thesis
      by (subst entry_name.simps, subst (2) entry_name.simps) (simp only: if_False)
  qed
qed

text \<open>Lookups in directories that agree find the same slot.\<close>

definition target_at :: "bytes \<Rightarrow> u64 \<Rightarrow> nat \<Rightarrow> exfat_target" where
  "target_at b lba i =
     \<lparr> tcluster = rd32 b (i + 32 + 20), tsize = rd64 b (i + 32 + 24),
       tis_dir = (rd16 b (i + 4) AND 0x10 \<noteq> 0),
       entry_lba = lba + of_nat (i div 512), entry_offset = i mod 512 \<rparr>"

function find_entry :: "bytes \<Rightarrow> bytes \<Rightarrow> nat \<Rightarrow> nat option" where
  "find_entry b name i =
     (if i \<le> 4096 - 96
      then if b ! i = EXFAT_TYPE_FILE
           then if exfat_name_equal (cstr (entry_name b i (unat (b ! (i + 1))) 2 [])) name then Some i
                else find_entry b name (i + unat (b ! (i + 1)) * 32 + 32)
           else find_entry b name (i + 32)
      else None)"
  by pat_completeness auto
termination by (relation "measure (\<lambda>(b, name, i). 4096 - i)") auto

declare find_entry.simps [simp del]

lemma resolve_scan_find:
  "resolve_scan b lba name i = map_option (target_at b lba) (find_entry b name i)"
proof (induction b name i rule: find_entry.induct)
  case (1 b name i)
  let ?m = "exfat_name_equal (cstr (entry_name b i (unat (b ! (i + 1))) 2 [])) name"
  consider "\<not> i \<le> 4096 - 96" | "i \<le> 4096 - 96" "b ! i \<noteq> EXFAT_TYPE_FILE"
    | "i \<le> 4096 - 96" "b ! i = EXFAT_TYPE_FILE" "\<not> ?m"
    | "i \<le> 4096 - 96" "b ! i = EXFAT_TYPE_FILE" "?m" by blast
  then show ?case
  proof cases
    case 4
    then show ?thesis
      by (subst resolve_scan.simps, subst find_entry.simps) (simp add: Let_def target_at_def)
  qed (use 1 in \<open>subst resolve_scan.simps, subst find_entry.simps, simp add: Let_def\<close>)+
qed

lemma find_entry_cong:
  assumes "skel_eq b b'" and "length b = 4096" and "length b' = 4096" and "i mod 32 = 0"
  shows "find_entry b' name i = find_entry b name i"
  using assms
proof (induction b name i rule: find_entry.induct)
  case (1 b name i)
  note e = entry_name_cong [OF 1(3-6)]
  show ?case
  proof (cases "i \<le> 4096 - 96")
    case True
    have h: "b' ! i = b ! i" "b' ! (i + 1) = b ! (i + 1)"
      using skel_head [OF 1(3), of i] skel_head [OF 1(3), of "i + 1"] True 1(6) by (auto simp: mod_Suc)
    have n: "(i + 32) mod 32 = 0" "(i + unat (b ! (i + 1)) * 32 + 32) mod 32 = 0" using 1(6) by auto
    show ?thesis
      using True h e 1(1) [OF True _ _ 1(3-5) n(2)] 1(2) [OF True _ 1(3-5) n(1)]
      by (subst find_entry.simps, subst (2) find_entry.simps) simp
  next
    case False
    then show ?thesis
      by (subst find_entry.simps, subst (2) find_entry.simps) (simp only: if_False)
  qed
qed

lemma find_entry_Some:
  assumes "find_entry b name i = Some j" and "i mod 32 = 0"
  shows "j mod 32 = 0 \<and> j \<le> 4000 \<and> b ! j = EXFAT_TYPE_FILE
     \<and> exfat_name_equal (cstr (entry_name b j (unat (b ! (j + 1))) 2 [])) name"
  using assms
proof (induction b name i rule: find_entry.induct)
  case (1 b name i)
  have n: "(i + 32) mod 32 = 0" "(i + unat (b ! (i + 1)) * 32 + 32) mod 32 = 0" using 1(4) by auto
  from 1(3) show ?case
    by (subst (asm) find_entry.simps) (use 1(1,2,4) n in \<open>auto split: if_splits\<close>)
qed

section \<open>Updating a directory entry\<close>

lemma slice_other:
  assumes "i + length xs \<le> length b" and "k + n \<le> i \<or> i + length xs \<le> k" and "k + n \<le> length b"
  shows "take n (drop k (buf_put b i xs)) = take n (drop k b)"
  by (rule nth_equalityI) (use assms in \<open>auto simp: nth_buf_put\<close>)

lemma slice_same:
  "i + length xs \<le> length b \<Longrightarrow> n = length xs \<Longrightarrow> take n (drop i (buf_put b i xs)) = xs"
  by (simp add: take_drop_buf_put)

text \<open>The bytes an update of the entry at \<open>i\<close> changes.\<close>

definition edited :: "nat \<Rightarrow> nat set" where
  "edited i = {i + 2..<i + 4} \<union> {i + 40..<i + 48} \<union> {i + 52..<i + 64}"

lemma update_entry_ok:
  assumes "length s = 512" and "i + 64 \<le> 512" and "i + 32 * unat (s ! (i + 1) + 1) \<le> 512"
  shows "\<exists>s'. update_entry s i (Some c) len = Some s' \<and> length s' = 512
     \<and> (\<forall>k<512. k \<notin> edited i \<longrightarrow> s' ! k = s ! k)
     \<and> rd32 s' (i + 52) = c \<and> rd64 s' (i + 56) = len"
proof -
  let ?s1 = "buf_put s (i + 52) (le32 c)"
  let ?s2 = "buf_put ?s1 (i + 56) (le64 len)"
  let ?s3 = "buf_put ?s2 (i + 40) (le64 len)"
  have l: "length ?s1 = 512" "length ?s2 = 512" "length ?s3 = 512" using assms(1,2) by simp_all
  have "?s3 ! (i + 1) = s ! (i + 1)" using assms(1,2) by (simp add: nth_buf_put)
  then obtain crc where crc: "exfat_calc_entry_crc ?s3 i (?s3 ! (i + 1) + 1) = Some crc"
    using assms(3) l(3) by (simp add: exfat_calc_entry_crc_def)
  let ?s4 = "buf_put ?s3 (i + 2) (le16 crc)"
  have u: "update_entry s i (Some c) len = Some ?s4"
    using assms(1,2) crc by (simp add: update_entry_def Let_def ac_simps)
  have "take 4 (drop (i + 52) ?s4) = le32 c" "take 8 (drop (i + 56) ?s4) = le64 len"
    using assms(1,2) by (simp_all add: slice_other slice_same)
  then have "rd32 ?s4 (i + 52) = c" "rd64 ?s4 (i + 56) = len"
    by (simp_all only: rd32_def rd64_def of_le_le32 of_le_le64)
  moreover have "?s4 ! k = s ! k" if "k < 512" "k \<notin> edited i" for k
    using that assms(1,2) by (auto simp: nth_buf_put edited_def)
  moreover have "length ?s4 = 512" using assms(1,2) by simp
  ultimately show ?thesis using u by blast
qed

text \<open>A lookup after the update: the same slot, with the new cluster and length.\<close>

lemma edited_skeleton:
  assumes "\<And>k. k < 4096 \<Longrightarrow> k \<notin> edited j \<Longrightarrow> b' ! k = b ! k" and "j mod 32 = 0"
    and "b ! j = EXFAT_TYPE_FILE" and "b ! (j + 32) = EXFAT_TYPE_STREAM"
  shows "skel_eq b b'"
  unfolding skel_eq_def
proof (intro allI impI)
  fix k :: nat assume k: "k < 4096"
  show "b' ! k = b ! k \<or> 2 \<le> k mod 32 \<and> b ! (k - k mod 32) \<noteq> EXFAT_TYPE_NAME"
  proof (cases "k \<in> edited j")
    case False
    then show ?thesis using assms(1) k by blast
  next
    case True
    then consider "j + 2 \<le> k" "k < j + 32" | "j + 40 \<le> k" "k < j + 64" by (auto simp: edited_def)
    then show ?thesis
    proof cases
      case 1
      then show ?thesis using slot_of [OF assms(2), of k] assms(3) by auto
    next
      case 2
      have "(j + 32) mod 32 = 0" using assms(2) by simp
      then show ?thesis using 2 slot_of [of "j + 32" k] assms(4) by auto
    qed
  qed
qed

lemma in_block:
  fixes k x :: nat
  assumes "k mod 512 + x < 512"
  shows "(k + x) div 512 = k div 512" and "(k + x) mod 512 = k mod 512 + x"
proof -
  obtain q r where "k = 512 * q + r" "r < 512"
    using div_mult_mod_eq [of k 512] by (metis mod_less_divisor mult.commute zero_less_numeral)
  moreover from this have "k + x = 512 * q + (r + x)" "r + x < 512" using assms by simp_all
  ultimately show "(k + x) div 512 = k div 512" "(k + x) mod 512 = k mod 512 + x"
    by (simp_all only: div_mult_self4 mod_mult_self4 div_less mod_less)
qed

lemma edited_shift: "D + x \<in> edited (D + y) \<longleftrightarrow> x \<in> edited y"
  by (auto simp: edited_def)

lemma slice_clus:
  assumes "volume st" and "k mod 512 + n \<le> 512" and "k < 4096"
  shows "take n (drop k (clus st c))
       = take n (drop (k mod 512) (sec st (exfat_cluster_lba st c + of_nat (k div 512))))"
proof (rule nth_equalityI)
  have "k div 512 < 8" using assms(3) by simp
  then have "(k div 512) * 512 + k mod 512 + n \<le> 4096" using assms(2) by linarith
  then have len: "k + n \<le> 4096" by (simp add: div_mult_mod_eq)
  then show "length (take n (drop k (clus st c)))
      = length (take n (drop (k mod 512) (sec st (exfat_cluster_lba st c + of_nat (k div 512)))))"
    using assms by (simp add: sec_length)
  fix x assume "x < length (take n (drop k (clus st c)))"
  then have x: "x < n" "k + x < 4096" using assms len by auto
  have "k mod 512 + x < 512" using x(1) assms(2) by simp
  note in_block [OF this]
  with x assms(1) show "take n (drop k (clus st c)) ! x
      = take n (drop (k mod 512) (sec st (exfat_cluster_lba st c + of_nat (k div 512)))) ! x"
    using \<open>k mod 512 + x < 512\<close> by (simp add: nth_clus sec_length)
qed

lemma resolve_volume:
  assumes "volume st" and "2 \<le> unat (g_current_cluster st)"
  shows "exfat_resolve_entry st name =
     map_option (target_at (clus st (g_current_cluster st)) (exfat_cluster_lba st (g_current_cluster st)))
       (find_entry (clus st (g_current_cluster st)) name 0)"
  using assms by (simp add: exfat_resolve_entry_def read_cluster_volume resolve_scan_find)

text \<open>The entry set at offset \<open>j\<close> of a directory lies within one sector.\<close>

definition entry_fits :: "bytes \<Rightarrow> nat \<Rightarrow> bool" where
  "entry_fits b j \<longleftrightarrow> j mod 512 + 64 \<le> 512 \<and> j mod 512 + 32 * unat (b ! (j + 1) + 1) \<le> 512
     \<and> b ! (j + 32) = EXFAT_TYPE_STREAM"

lemma finish_entry_ok:
  assumes "volume st" and "2 \<le> unat (g_current_cluster st)"
    and "cur = g_current_cluster st" and "b = clus st cur"
    and "find_entry b name 0 = Some j" and "entry_fits b j"
    and "entry_lba t = exfat_cluster_lba st cur + of_nat (j div 512)" and "entry_offset t = j mod 512"
  shows "\<exists>s st'. finish_entry t (Some c) len st = Some (0, st')
     \<and> st' = put_sec (exfat_cluster_lba st cur + of_nat (j div 512)) s st \<and> volume st'
     \<and> skel_eq b (clus st' cur) \<and> (\<forall>k<4096. k \<notin> edited j \<longrightarrow> clus st' cur ! k = b ! k)
     \<and> rd32 (clus st' cur) (j + 52) = c \<and> rd64 (clus st' cur) (j + 56) = len"
proof -
  let ?lba = "exfat_cluster_lba st cur + of_nat (j div 512)" and ?i = "j mod 512"
  have j: "j mod 32 = 0" "j \<le> 4000" "b ! j = EXFAT_TYPE_FILE"
    using find_entry_Some [OF assms(5)] by auto
  have on: "online st" using assms(1) by (simp add: volume_def)
  have lt: "?lba < 0x1000000000000"
    using unat_cluster_sector(2) [OF assms(1,2), of "j div 512"] j(2) assms(3) by simp
  have fit: "?i + 64 \<le> 512" "?i + 32 * unat (sec st ?lba ! (?i + 1) + 1) \<le> 512"
  proof -
    show "?i + 64 \<le> 512" using assms(6) by (simp add: entry_fits_def)
    then have "(j + 1) div 512 = j div 512" "(j + 1) mod 512 = ?i + 1" using in_block [of j 1] by auto
    then have "b ! (j + 1) = sec st ?lba ! (?i + 1)" using nth_clus [OF assms(1), of "j + 1" cur] j(2) assms(4) by simp
    then show "?i + 32 * unat (sec st ?lba ! (?i + 1) + 1) \<le> 512"
      using assms(6) by (simp add: entry_fits_def)
  qed
  from update_entry_ok [OF sec_length [OF assms(1)] fit, of c len] obtain s where
    s: "update_entry (sec st ?lba) ?i (Some c) len = Some s" "length s = 512"
      "\<forall>k<512. k \<notin> edited ?i \<longrightarrow> s ! k = sec st ?lba ! k" "rd32 s (?i + 52) = c" "rd64 s (?i + 56) = len"
    by blast
  let ?st = "put_sec ?lba s st"
  have v: "volume ?st" using assms(1) s(2) by simp
  have f: "finish_entry t (Some c) len st = Some (0, ?st)"
    using on lt s(1) by (simp add: finish_entry_def assms(7,8) sector_read_online sector_write_online)
  have same: "clus ?st cur ! k = b ! k" if k: "k < 4096" "k \<notin> edited j" for k
  proof (cases "k div 512 = j div 512")
    case False
    then have "exfat_cluster_lba st cur + of_nat (k div 512) \<noteq> ?lba"
      using cluster_sector_inject [OF assms(1), of cur cur "k div 512" "j div 512"] k(1) j(2) assms(2,3)
      by simp
    then show ?thesis using k(1) v assms(1) by (simp add: nth_clus assms(4))
  next
    case True
    then have "k mod 512 \<notin> edited ?i"
      using k(2) div_mult_mod_eq [of k 512] div_mult_mod_eq [of j 512]
      by (metis edited_shift)
    then show ?thesis using s(3) k(1) v assms(1) True by (simp add: nth_clus assms(4))
  qed
  have "skel_eq b (clus ?st cur)"
    by (rule edited_skeleton) (use same j assms(6) in \<open>auto simp: entry_fits_def\<close>)
  moreover have "(j + 52) div 512 = j div 512" "(j + 52) mod 512 = ?i + 52"
      "(j + 56) div 512 = j div 512" "(j + 56) mod 512 = ?i + 56"
    using fit(1) in_block [of j 52] in_block [of j 56] by auto
  then have "rd32 (clus ?st cur) (j + 52) = c" "rd64 (clus ?st cur) (j + 56) = len"
    using slice_clus [OF v, of "j + 52" 4 cur] slice_clus [OF v, of "j + 56" 8 cur] s(4,5) fit(1) j(2)
    by (simp_all add: rd32_def rd64_def)
  ultimately show ?thesis using f v same by blast
qed

section \<open>The heap as a row of sectors\<close>

text \<open>Sector \<open>i\<close> of the cluster heap; cluster \<open>c\<close> has the eight sectors from \<open>8 * (c - 2)\<close> on.\<close>

definition hlba :: "exfat \<Rightarrow> nat \<Rightarrow> u64" where
  "hlba st i = of_nat (4096 + unat (g_cluster_heap_offset st) + i)"

definition hsec :: "exfat \<Rightarrow> nat \<Rightarrow> bytes" where
  "hsec st i = sec st (hlba st i)"

definition cidx :: "u32 \<Rightarrow> nat" where
  "cidx c = unat c - 2"

lemma heap_bound: "volume st \<Longrightarrow> unat (g_cluster_heap_offset st) < 2147483648"
  by (simp add: volume_def)

lemma unat_hlba:
  "volume st \<Longrightarrow> i < 2 ^ 46 \<Longrightarrow> unat (hlba st i) = 4096 + unat (g_cluster_heap_offset st) + i"
  using heap_bound [of st] by (simp only: hlba_def unat_of_nat) simp

lemma hlba_less: "volume st \<Longrightarrow> i < 2 ^ 46 \<Longrightarrow> hlba st i < 0x1000000000000"
  using heap_bound [of st] by (simp add: word_less_nat_alt unat_hlba)

lemma hlba_inject: "volume st \<Longrightarrow> i < 2 ^ 46 \<Longrightarrow> k < 2 ^ 46 \<Longrightarrow> hlba st i = hlba st k \<longleftrightarrow> i = k"
  by (auto simp: word_unat_eq_iff unat_hlba)

lemma cidx_bound: "cidx c < 4294967296"
  using unat_bound [of c] by (simp add: cidx_def)

lemma cluster_hlba:
  assumes "volume st" and "2 \<le> unat c" and "s < 2 ^ 45"
  shows "exfat_cluster_lba st c + of_nat s = hlba st (cidx c * 8 + s)"
proof -
  have "cidx c * 8 + s < 2 ^ 46" using cidx_bound [of c] assms(3) by simp
  then show ?thesis
    using unat_cluster_sector(1) [OF assms] assms(1)
    by (simp add: word_unat_eq_iff unat_hlba cidx_def)
qed

lemma bitmap_hlba: "volume st \<Longrightarrow> k < 8 \<Longrightarrow> bitmap_lba st + of_nat k = hlba st k"
  using cluster_hlba [of st 2 k] by (simp add: cidx_def)

lemma clus_hsec:
  "volume st \<Longrightarrow> 2 \<le> unat c \<Longrightarrow> clus st c = concat (map (\<lambda>s. hsec st (cidx c * 8 + s)) [0..<8])"
  unfolding clus_def hsec_def
  by (intro arg_cong [of _ _ concat] map_cong) (auto simp: cluster_hlba)

lemma length_hsec [simp]: "volume st \<Longrightarrow> length (hsec st i) = 512"
  by (simp add: hsec_def sec_length)

text \<open>States with the same variables; only the sectors differ.\<close>

definition same_vars :: "exfat \<Rightarrow> exfat \<Rightarrow> bool" where
  "same_vars st st' \<longleftrightarrow>
     g_current_cluster st' = g_current_cluster st \<and> g_current_path st' = g_current_path st
     \<and> g_cluster_heap_offset st' = g_cluster_heap_offset st
     \<and> g_sectors_per_cluster st' = g_sectors_per_cluster st
     \<and> g_root_cluster st' = g_root_cluster st \<and> g_cluster_count st' = g_cluster_count st"

lemma same_vars_hlba: "same_vars st st' \<Longrightarrow> hlba st' = hlba st"
  by (auto simp: same_vars_def hlba_def)

lemma same_vars_lba: "same_vars st st' \<Longrightarrow> exfat_cluster_lba st' = exfat_cluster_lba st"
  by (auto simp: same_vars_def exfat_cluster_lba_def)

lemma same_vars_put: "same_vars st (put_sec lba b st)"
  by (simp add: same_vars_def)

lemma same_vars_trans: "same_vars st st' \<Longrightarrow> same_vars st' st'' \<Longrightarrow> same_vars st st''"
  by (simp add: same_vars_def)

lemma same_outside_vars:
  assumes "same_outside_bitmap st st'" and "volume st" and "8 \<le> i" and "i < 2 ^ 46"
  shows "same_vars st st'" and "hsec st' i = hsec st i"
proof -
  show v: "same_vars st st'" using assms(1) by (simp add: same_outside_bitmap_def same_vars_def)
  have "hlba st i \<noteq> bitmap_lba st + of_nat k" if "k < 8" for k
    using that assms(2-4) by (simp add: bitmap_hlba hlba_inject)
  then show "hsec st' i = hsec st i"
    using assms(1) same_vars_hlba [OF v] by (simp add: same_outside_bitmap_def hsec_def)
qed

text \<open>Writing a run of sectors.\<close>

lemma hsec_put_sec:
  "volume st \<Longrightarrow> i < 2 ^ 46 \<Longrightarrow> k < 2 ^ 46 \<Longrightarrow>
     hsec (put_sec (hlba st i) b st) k = (if k = i then b else hsec st k)"
  using same_vars_hlba [OF same_vars_put, of "hlba st i" b st]
  by (simp add: hsec_def hlba_inject)

lemma write_all_run:
  assumes "volume st" and "p + n \<le> 2 ^ 46" and "\<And>i. i < n \<Longrightarrow> length (f i) = 512"
  shows "\<exists>st'. write_all (map (\<lambda>i. (hlba st (p + i), f i)) [0..<n]) st = (True, st') \<and> volume st'
     \<and> same_vars st st'
     \<and> (\<forall>k<2 ^ 46. hsec st' k = (if p \<le> k \<and> k < p + n then f (k - p) else hsec st k))"
  using assms
proof (induction n arbitrary: p f st)
  case 0
  then show ?case by (auto simp: same_vars_def intro!: exI [of _ st])
next
  case (Suc n)
  let ?st = "put_sec (hlba st p) (f 0) st"
  have p: "p < 2 ^ 46" using Suc.prems(2) by simp
  have len: "length (f 0) = 512" using Suc.prems(3) by simp
  have v: "volume ?st" using Suc.prems(1) len by simp
  have h: "hlba ?st = hlba st" using same_vars_hlba [OF same_vars_put] .
  have "exfat_sector_write (hlba st p) (f 0) st = Some ?st"
    using Suc.prems(1) hlba_less [OF _ p] by (intro sector_write_online) (auto simp: volume_def)
  then have w: "write_all (map (\<lambda>i. (hlba st (p + i), f i)) [0..<Suc n]) st
      = write_all (map (\<lambda>i. (hlba ?st (Suc p + i), f (Suc i))) [0..<n]) ?st"
    by (simp add: upt_conv_Cons map_Suc_upt [symmetric] h comp_def del: upt_Suc)
  obtain st' where st': "write_all (map (\<lambda>i. (hlba ?st (Suc p + i), f (Suc i))) [0..<n]) ?st = (True, st')"
    "volume st'" "same_vars ?st st'"
    "\<forall>k<2 ^ 46. hsec st' k = (if Suc p \<le> k \<and> k < Suc p + n then f (Suc (k - Suc p)) else hsec ?st k)"
    using Suc.IH [OF v, of "Suc p" "\<lambda>i. f (Suc i)"] Suc.prems(2,3) by auto
  have "\<forall>k<2 ^ 46. hsec st' k = (if p \<le> k \<and> k < p + Suc n then f (k - p) else hsec st k)"
  proof (intro allI impI)
    fix k :: nat assume k: "k < 2 ^ 46"
    consider "k < p" | "k = p" | "p < k" by linarith
    then show "hsec st' k = (if p \<le> k \<and> k < p + Suc n then f (k - p) else hsec st k)"
    proof cases
      case 3
      then have "Suc (k - Suc p) = k - p" by simp
      with 3 show ?thesis using st'(4) k hsec_put_sec [OF Suc.prems(1) p k] by auto
    qed (use st'(4) k hsec_put_sec [OF Suc.prems(1) p k] in auto)
  qed
  then show ?case
    unfolding w using st' same_vars_trans [OF same_vars_put st'(3)] by blast
qed

end
