(* ===== verification/ExfatDir.thy ===== *)
theory ExfatDir
  imports ExfatFiles
begin

text \<open>
  The directory of the exFAT driver as a map from names to contents: reading returns a slice of
  the contents, and writing, appending and deleting change the contents of exactly the file they
  name.
\<close>

section \<open>Reading\<close>

definition hrun :: "exfat \<Rightarrow> nat \<Rightarrow> nat \<Rightarrow> bytes" where
  "hrun st p m = concat (map (\<lambda>i. hsec st (p + i)) [0..<m])"

lemma hrun_Suc: "hrun st p (Suc m) = hsec st p @ hrun st (Suc p) m"
  by (simp add: hrun_def upt_conv_Cons map_Suc_upt [symmetric] comp_def del: upt_Suc)

lemma length_hrun [simp]: "volume st \<Longrightarrow> length (hrun st p m) = m * 512"
  by (induction m arbitrary: p) (simp_all add: hrun_Suc, simp add: hrun_def)

lemma hrun_cong: "(\<And>i. p \<le> i \<Longrightarrow> i < p + m \<Longrightarrow> hsec st' i = hsec st i) \<Longrightarrow> hrun st' p m = hrun st p m"
  unfolding hrun_def by (intro arg_cong [of _ _ concat] map_cong) auto

lemma clus_hrun: "volume st \<Longrightarrow> 2 \<le> unat c \<Longrightarrow> clus st c = hrun st (cidx c * 8) 8"
  by (simp only: clus_hsec hrun_def)

lemma hlba_Suc: "hlba st i + 1 = hlba st (Suc i)"
  by (simp add: hlba_def)

lemma read_loop_hrun:
  assumes "volume st" and "p + m \<le> 2 ^ 46" and "off mod 512 + left \<le> m * 512"
  shows "read_loop st (hlba st p) off left = Some (take left (drop (off mod 512) (hrun st p m)))"
  using assms
proof (induction m arbitrary: p off left)
  case 0
  then show ?case by (subst read_loop.simps) simp
next
  case (Suc m)
  show ?case
  proof (cases "left = 0")
    case True
    then show ?thesis by (subst read_loop.simps) simp
  next
    case False
    let ?o = "off mod 512"
    let ?c = "min (512 - ?o) left"
    have rd: "exfat_sector_read st (hlba st p) = Some (hsec st p)"
      unfolding hsec_def using Suc.prems(1,2)
      by (intro sector_read_online hlba_less) (auto simp: volume_def)
    have "read_loop st (hlba st (Suc p)) 0 (left - ?c) = Some (take (left - ?c) (drop (0 mod 512) (hrun st (Suc p) m)))"
      by (rule Suc.IH) (use Suc.prems in auto)
    then have "read_loop st (hlba st p) off left
        = Some (take ?c (drop ?o (hsec st p)) @ take (left - ?c) (hrun st (Suc p) m))"
      using False rd by (subst read_loop.simps) (simp add: hlba_Suc Let_def)
    also have "take ?c (drop ?o (hsec st p)) @ take (left - ?c) (hrun st (Suc p) m)
        = take left (drop ?o (hrun st p (Suc m)))"
    proof -
      have "?o < 512" by simp
      then show ?thesis using Suc.prems(1) by (auto simp: hrun_Suc min_def)
    qed
    finally show ?thesis .
  qed
qed

text \<open>The contents of a file of \<open>n\<close> bytes from cluster \<open>c\<close> on.\<close>

definition file_bytes :: "exfat \<Rightarrow> u32 \<Rightarrow> nat \<Rightarrow> bytes" where
  "file_bytes st c n = take n (hrun st (cidx c * 8) ((n + 511) div 512))"

lemma length_file_bytes [simp]: "volume st \<Longrightarrow> length (file_bytes st c n) = n"
  by (simp add: file_bytes_def)

lemma hrun_add: "volume st \<Longrightarrow> hrun st p (k + m) = hrun st p k @ hrun st (p + k) m"
  by (induction k arbitrary: p) (simp_all add: hrun_Suc, simp add: hrun_def)

lemma drop_hrun: "volume st \<Longrightarrow> k \<le> m \<Longrightarrow> drop (k * 512) (hrun st p m) = hrun st (p + k) (m - k)"
  using hrun_add [of st p k "m - k"] by simp

lemma read_loop_file:
  assumes "volume st" and "2 \<le> unat c" and "n \<le> 2 ^ 40" and "off + left \<le> n"
  shows "read_loop st (exfat_cluster_lba st c + of_nat (off div 512)) off left
       = Some (take left (drop off (file_bytes st c n)))"
proof (cases "left = 0")
  case True
  then show ?thesis by (subst read_loop.simps) simp
next
  case False
  let ?k = "off div 512" and ?m = "(n + 511) div 512" and ?p = "cidx c * 8"
  have k: "?k \<le> ?m" "?m < 2 ^ 45" "?k < 2 ^ 45" using assms(3,4) False by auto
  have m: "off mod 512 + left \<le> (?m - ?k) * 512"
  proof -
    have "n \<le> ?m * 512" by linarith
    moreover have "off = ?k * 512 + off mod 512" by simp
    ultimately have "?k * 512 + (off mod 512 + left) \<le> ?m * 512" using assms(4) by linarith
    then show ?thesis by (simp only: diff_mult_distrib)
  qed
  have "exfat_cluster_lba st c + of_nat ?k = hlba st (?p + ?k)"
    using assms(1,2) k(3) by (rule cluster_hlba)
  moreover have "read_loop st (hlba st (?p + ?k)) off left
      = Some (take left (drop (off mod 512) (hrun st (?p + ?k) (?m - ?k))))"
    by (rule read_loop_hrun [OF assms(1) _ m]) (use cidx_bound [of c] k in auto)
  moreover have "drop (off mod 512) (hrun st (?p + ?k) (?m - ?k)) = drop off (hrun st ?p ?m)"
    unfolding drop_hrun [OF assms(1) k(1), symmetric] by (simp add: add.commute)
  moreover have "take left (drop off (hrun st ?p ?m)) = take left (drop off (file_bytes st c n))"
    using assms(4) by (simp add: file_bytes_def take_drop min_def)
  ultimately show ?thesis by simp
qed

lemma sint_small: "unat w < 2 ^ 63 \<Longrightarrow> sint w = int (unat w)" for w :: u64
proof -
  assume "unat w < 2 ^ 63"
  then have *: "int (unat w) < 2 ^ 63" by (metis of_nat_less_iff of_nat_numeral of_nat_power)
  have "- (2 ^ 63) \<le> int (unat w)" by (rule order_trans [of _ 0]) (simp, rule of_nat_0_le_iff)
  then have "signed_take_bit 63 (int (unat w)) = int (unat w)"
    using * by (rule signed_take_bit_int_eq_self)
  then show ?thesis by (simp add: sint_uint)
qed

text \<open>What a lookup of a name gives: the contents it stands for.\<close>

definition contents :: "exfat \<Rightarrow> bytes \<Rightarrow> bytes option" where
  "contents st name =
     map_option (\<lambda>t. file_bytes st (tcluster t) (unat (tsize t))) (exfat_resolve_entry st name)"

lemma read_file_at_contents:
  assumes "volume st" and "exfat_resolve_entry st name = Some t" and "2 \<le> unat (tcluster t)"
    and "unat (tsize t) \<le> 2 ^ 40" and "contents st name = Some d"
  shows "exfat_read_file_at st name False offset max_bytes
       = (int (length (take (unat max_bytes) (drop (unat offset) d))),
          take (unat max_bytes) (drop (unat offset) d))"
proof -
  let ?n = "unat (tsize t)"
  have d: "d = file_bytes st (tcluster t) ?n" "length d = ?n"
    using assms(1,2,5) by (auto simp: contents_def)
  show ?thesis
  proof (cases "offset \<ge> tsize t \<or> max_bytes = 0")
    case True
    then have "drop (unat offset) d = [] \<or> unat max_bytes = 0" using d by (auto simp: word_le_nat_alt)
    with True show ?thesis using assms(2) by (auto simp: exfat_read_file_at_def)
  next
    case False
    let ?left = "min (tsize t - offset) max_bytes"
    have lt: "unat offset < ?n" using False by (simp add: word_le_nat_alt)
    then have u: "unat (tsize t - offset) = ?n - unat offset" by (simp add: unat_sub word_le_nat_alt)
    then have left: "unat ?left = min (?n - unat offset) (unat max_bytes)"
      by (simp add: min_def word_le_nat_alt)
    have dv: "offset div 512 = of_nat (unat offset div 512)"
      by (simp add: word_unat_eq_iff unat_div unat_of_nat) (use unat_bound [of offset] in simp)
    have "read_loop st (exfat_cluster_lba st (tcluster t) + offset div 512) (unat offset) (unat ?left)
        = Some (take (unat ?left) (drop (unat offset) d))"
      unfolding dv d(1) using assms(1,3,4) by (rule read_loop_file) (use lt left in simp)
    moreover have "take (unat ?left) (drop (unat offset) d) = take (unat max_bytes) (drop (unat offset) d)"
      unfolding left using d(2) by (auto simp: min_def)
    moreover have "sint ?left = int (length (take (unat max_bytes) (drop (unat offset) d)))"
    proof -
      have "unat ?left < 2 ^ 63" using left assms(4) by simp
      then have "sint ?left = int (unat ?left)" by (rule sint_small)
      then show ?thesis using d(2) unfolding left by (simp add: min.commute)
    qed
    ultimately show ?thesis using False assms(2) by (simp add: exfat_read_file_at_def Let_def)
  qed
qed

section \<open>Files of a directory\<close>

definition nspan :: "nat \<Rightarrow> nat" where
  "nspan n = (if n = 0 then 1 else (n + 4095) div 4096)"

definition fclus :: "bytes \<Rightarrow> nat \<Rightarrow> u32" where
  "fclus b j = rd32 b (j + 52)"

definition fsize :: "bytes \<Rightarrow> nat \<Rightarrow> nat" where
  "fsize b j = unat (rd64 b (j + 56))"

definition entries :: "bytes \<Rightarrow> nat set" where
  "entries b = {j. \<exists>name. find_entry b name 0 = Some j}"

text \<open>The clusters of the file at \<open>j\<close>, as numbers of bits in the bitmap.\<close>

definition extent :: "bytes \<Rightarrow> nat \<Rightarrow> nat set" where
  "extent b j = {cidx (fclus b j)..<cidx (fclus b j) + nspan (fsize b j)}"

abbreviation dir :: "exfat \<Rightarrow> bytes" where
  "dir st \<equiv> clus st (g_current_cluster st)"

text \<open>A directory in good order: its own cluster, the bitmap's and those of its files are marked
  as used, within the volume, and no two of them overlap.\<close>

definition wf_dir :: "exfat \<Rightarrow> bool" where
  "wf_dir st \<longleftrightarrow> volume st \<and> 3 \<le> unat (g_current_cluster st)
     \<and> cidx (g_current_cluster st) < unat (g_cluster_count st)
     \<and> bit_used st 0 \<and> bit_used st (cidx (g_current_cluster st))
     \<and> (\<forall>j\<in>entries (dir st). 3 \<le> unat (fclus (dir st) j)
          \<and> extent (dir st) j \<subseteq> {..<unat (g_cluster_count st)}
          \<and> cidx (g_current_cluster st) \<notin> extent (dir st) j \<and> (\<forall>i\<in>extent (dir st) j. bit_used st i))
     \<and> (\<forall>j\<in>entries (dir st). \<forall>k\<in>entries (dir st). j \<noteq> k \<longrightarrow> extent (dir st) j \<inter> extent (dir st) k = {})"

lemma contents_find:
  assumes "volume st" and "2 \<le> unat (g_current_cluster st)"
  shows "contents st name
       = map_option (\<lambda>j. file_bytes st (fclus (dir st) j) (fsize (dir st) j)) (find_entry (dir st) name 0)"
  using assms
  by (simp add: contents_def resolve_volume target_at_def fclus_def fsize_def option.map_comp comp_def add.commute)

lemma sectors_nspan: "(n + 511) div 512 \<le> 8 * nspan n"
  by (simp add: nspan_def) linarith

lemma file_bytes_frame:
  assumes "\<And>i. i div 8 \<in> {cidx c..<cidx c + nspan n} \<Longrightarrow> hsec st' i = hsec st i"
  shows "file_bytes st' c n = file_bytes st c n"
proof -
  have "hrun st' (cidx c * 8) ((n + 511) div 512) = hrun st (cidx c * 8) ((n + 511) div 512)"
  proof (rule hrun_cong)
    fix i assume "cidx c * 8 \<le> i" "i < cidx c * 8 + (n + 511) div 512"
    then have "cidx c \<le> i div 8" "i div 8 < cidx c + nspan n"
      using sectors_nspan [of n] by (auto simp: less_mult_imp_div_less algebra_simps)
    then show "hsec st' i = hsec st i" using assms by simp
  qed
  then show ?thesis by (simp add: file_bytes_def)
qed

lemma clus_frame:
  assumes "volume st" and "volume st'" and "2 \<le> unat c"
    and "\<And>i. i div 8 = cidx c \<Longrightarrow> hsec st' i = hsec st i"
  shows "clus st' c = clus st c"
  unfolding clus_hrun [OF assms(1,3)] clus_hrun [OF assms(2,3)]
  by (rule hrun_cong) (use assms(4) in simp)

lemma bit_used_frame:
  assumes "volume st" and "same_vars st st'" and "\<And>k. k < 8 \<Longrightarrow> hsec st' k = hsec st k" and "i < 32768"
  shows "bit_used st' i = bit_used st i"
proof -
  have "bitmap_lba st + of_nat (i div 4096) = hlba st (i div 4096)"
    using assms(1,4) by (intro bitmap_hlba) auto
  then have "sec st' (bitmap_lba st' + of_nat (i div 4096)) = sec st (bitmap_lba st + of_nat (i div 4096))"
    using assms(3) [of "i div 4096"] assms(4) same_vars_lba [OF assms(2)] same_vars_hlba [OF assms(2)]
    by (simp add: hsec_def)
  then show ?thesis by (simp add: bit_used_def)
qed

section \<open>Storing data\<close>

lemma length_data_sector [simp]: "length (data_sector d i) = 512"
  by (simp add: data_sector_def Let_def)

lemma data_sector_Suc: "data_sector d (Suc i) = data_sector (drop 512 d) i"
  by (simp add: data_sector_def add.commute)

lemma data_sectors: "length d \<le> m * 512 \<Longrightarrow> take (length d) (concat (map (data_sector d) [0..<m])) = d"
proof (induction m arbitrary: d)
  case (Suc m)
  have e: "concat (map (data_sector d) [0..<Suc m])
      = data_sector d 0 @ concat (map (data_sector (drop 512 d)) [0..<m])"
    by (simp add: upt_conv_Cons map_Suc_upt [symmetric] comp_def data_sector_Suc del: upt_Suc)
  show ?case
  proof (cases "length d < 512")
    case True
    then show ?thesis unfolding e by (simp add: data_sector_def)
  next
    case False
    then have "data_sector d 0 = take 512 d" by (simp add: data_sector_def)
    moreover have "take (length (drop 512 d)) (concat (map (data_sector (drop 512 d)) [0..<m])) = drop 512 d"
      by (rule Suc.IH) (use Suc.prems in simp)
    ultimately show ?thesis unfolding e using False by simp
  qed
qed simp

section \<open>Changes of a set of clusters\<close>

definition changes :: "nat set \<Rightarrow> exfat \<Rightarrow> exfat \<Rightarrow> bool" where
  "changes E st st' \<longleftrightarrow> volume st' \<and> same_vars st st'
     \<and> (\<forall>i. i div 8 < 32768 \<longrightarrow> i div 8 \<notin> E \<longrightarrow> hsec st' i = hsec st i)"

lemma changes_refl [simp]: "volume st \<Longrightarrow> changes E st st"
  by (simp add: changes_def same_vars_def)

lemma changes_trans: "changes E st st1 \<Longrightarrow> changes F st1 st2 \<Longrightarrow> changes (E \<union> F) st st2"
  using same_vars_trans by (auto simp: changes_def)

lemma changes_mono: "changes E st st' \<Longrightarrow> E \<subseteq> F \<Longrightarrow> changes F st st'"
  by (auto simp: changes_def)

lemma changes_file:
  assumes "changes E st st'" and "{cidx c..<cidx c + nspan n} \<inter> E = {}" and "cidx c + nspan n \<le> 32768"
  shows "file_bytes st' c n = file_bytes st c n"
proof (rule file_bytes_frame)
  fix i assume "i div 8 \<in> {cidx c..<cidx c + nspan n}"
  then have "i div 8 < 32768" "i div 8 \<notin> E" using assms(2,3) by auto
  then show "hsec st' i = hsec st i" using assms(1) by (simp add: changes_def)
qed

lemma changes_clus:
  assumes "volume st" and "changes E st st'" and "2 \<le> unat c" and "cidx c < 32768" and "cidx c \<notin> E"
  shows "clus st' c = clus st c"
  by (rule clus_frame) (use assms in \<open>auto simp: changes_def\<close>)

lemma changes_bits:
  assumes "volume st" and "changes E st st'" and "0 \<notin> E" and "i < 32768"
  shows "bit_used st' i = bit_used st i"
  by (rule bit_used_frame) (use assms in \<open>auto simp: changes_def\<close>)

lemma changes_bitmap: "volume st \<Longrightarrow> volume st' \<Longrightarrow> same_outside_bitmap st st' \<Longrightarrow> changes {0} st st'"
proof -
  assume a: "volume st" "volume st'" "same_outside_bitmap st st'"
  have "hsec st' i = hsec st i" if "i div 8 < 32768" "i div 8 \<noteq> 0" for i
  proof -
    have "i < 32768 * 8" "8 \<le> i" using that by (auto simp: div_eq_0_iff less_mult_imp_div_less) 
    then show ?thesis using same_outside_vars(2) [OF a(3,1)] by simp
  qed
  then show ?thesis using a same_outside_vars(1) [OF a(3,1), of 8] by (auto simp: changes_def)
qed

lemma changes_write:
  assumes "volume st" and "2 \<le> unat c" and "cidx c + k \<le> 32768" and "m \<le> 8 * k"
    and "\<And>i. i < m \<Longrightarrow> length (f i) = 512"
  shows "\<exists>st'. write_all (map (\<lambda>i. (exfat_cluster_lba st c + of_nat i, f i)) [0..<m]) st = (True, st')
     \<and> changes {cidx c..<cidx c + k} st st' \<and> hrun st' (cidx c * 8) m = concat (map f [0..<m])"
proof -
  let ?p = "cidx c * 8"
  have w: "map (\<lambda>i. (exfat_cluster_lba st c + of_nat i, f i)) [0..<m]
      = map (\<lambda>i. (hlba st (?p + i), f i)) [0..<m]"
    by (rule map_cong) (use assms in \<open>auto simp: cluster_hlba\<close>)
  have "?p + m \<le> 2 ^ 46" using assms(3,4) by simp
  from write_all_run [OF assms(1) this, of f] obtain st' where
    st': "write_all (map (\<lambda>i. (hlba st (?p + i), f i)) [0..<m]) st = (True, st')" "volume st'" "same_vars st st'"
      "\<forall>i<2 ^ 46. hsec st' i = (if ?p \<le> i \<and> i < ?p + m then f (i - ?p) else hsec st i)" using assms(5) by auto
  have "hsec st' i = hsec st i" if "i div 8 < 32768" "i div 8 \<notin> {cidx c..<cidx c + k}" for i
  proof -
    have "\<not> (?p \<le> i \<and> i < ?p + m)"
    proof
      assume "?p \<le> i \<and> i < ?p + m"
      then have "cidx c \<le> i div 8" "i div 8 < cidx c + k"
        using assms(4) by (auto simp: less_mult_imp_div_less algebra_simps)
      with that(2) show False by simp
    qed
    moreover have "i < 2 ^ 46" using that(1) by simp
    ultimately show ?thesis using st'(4) by auto
  qed
  moreover have "hrun st' ?p m = concat (map f [0..<m])"
    unfolding hrun_def
    by (intro arg_cong [of _ _ concat] map_cong) (use st'(4) \<open>?p + m \<le> 2 ^ 46\<close> in auto)
  ultimately show ?thesis using st' unfolding w changes_def by blast
qed

lemma finish_entry_changes:
  assumes "volume st" and "2 \<le> unat (g_current_cluster st)"
    and "find_entry (dir st) name 0 = Some j" and "entry_fits (dir st) j"
    and "t = target_at (dir st) (exfat_cluster_lba st (g_current_cluster st)) j"
  shows "\<exists>st'. finish_entry t (Some c) len st = Some (0, st')
     \<and> changes {cidx (g_current_cluster st)} st st' \<and> skel_eq (dir st) (dir st')
     \<and> (\<forall>k<4096. k \<notin> edited j \<longrightarrow> dir st' ! k = dir st ! k)
     \<and> fclus (dir st') j = c \<and> fsize (dir st') j = unat len"
proof -
  let ?cur = "g_current_cluster st"
  have j: "j \<le> 4000" using find_entry_Some [OF assms(3)] by simp
  from finish_entry_ok [OF assms(1,2) refl refl assms(3,4), of t c len] obtain s st' where
    st': "finish_entry t (Some c) len st = Some (0, st')"
      "st' = put_sec (exfat_cluster_lba st ?cur + of_nat (j div 512)) s st" "volume st'"
      "skel_eq (dir st) (clus st' ?cur)" "\<forall>k<4096. k \<notin> edited j \<longrightarrow> clus st' ?cur ! k = dir st ! k"
      "rd32 (clus st' ?cur) (j + 52) = c" "rd64 (clus st' ?cur) (j + 56) = len"
    by (auto simp: assms(5) target_at_def)
  have h: "exfat_cluster_lba st ?cur + of_nat (j div 512) = hlba st (cidx ?cur * 8 + j div 512)"
    using assms(1,2) j by (intro cluster_hlba) auto
  have "hsec st' i = hsec st i" if "i div 8 < 32768" "i div 8 \<noteq> cidx ?cur" for i
  proof -
    have "i \<noteq> cidx ?cur * 8 + j div 512" using that(2) j by auto
    moreover have "i < 2 ^ 46" "cidx ?cur * 8 + j div 512 < 2 ^ 46" using that(1) cidx_bound [of ?cur] j by simp_all
    ultimately show ?thesis unfolding st'(2) h using assms(1) by (simp add: hsec_put_sec)
  qed
  moreover have "same_vars st st'" unfolding st'(2) by (rule same_vars_put)
  ultimately show ?thesis using st' by (auto simp: changes_def fclus_def fsize_def same_vars_def)
qed

section \<open>Replacing the contents of a file\<close>

lemma nspan_pos: "0 < nspan n"
  by (auto simp: nspan_def div_greater_zero_iff)

lemma slice_cong:
  assumes "\<And>i. k \<le> i \<Longrightarrow> i < k + n \<Longrightarrow> b' ! i = b ! i" and "k + n \<le> length b" and "length b' = length b"
  shows "take n (drop k b') = take n (drop k b)"
  by (rule nth_equalityI) (use assms in auto)

lemma fields_other:
  assumes "\<forall>i<4096. i \<notin> edited j \<longrightarrow> b' ! i = b ! i" and "length b = 4096" and "length b' = 4096"
    and "j mod 32 = 0" and "k mod 32 = 0" and "k \<noteq> j" and "k \<le> 4000"
  shows "fclus b' k = fclus b k" and "fsize b' k = fsize b k"
proof -
  obtain x y where xy: "j = 32 * x" "k = 32 * y" using assms(4,5) by (auto elim!: dvdE simp: mod_eq_0_iff_dvd)
  with assms(6) have "x \<noteq> y" by auto
  have keep: "b' ! i = b ! i" if "k + 52 \<le> i" "i < k + 64" for i
  proof -
    consider "x < y" | "x = y + 1" | "y + 2 \<le> x" using \<open>x \<noteq> y\<close> by linarith
    then have "i \<notin> edited j" using that xy by cases (auto simp: edited_def)
    then show ?thesis using assms(1,7) that(2) by simp
  qed
  have "take 4 (drop (k + 52) b') = take 4 (drop (k + 52) b)" "take 8 (drop (k + 56) b') = take 8 (drop (k + 56) b)"
    by (rule slice_cong; use keep assms(2,3,7) in simp)+
  then show "fclus b' k = fclus b k" "fsize b' k = fsize b k"
    by (simp_all add: fclus_def fsize_def rd32_def rd64_def)
qed

lemma entries_slot: "j \<in> entries b \<Longrightarrow> j mod 32 = 0 \<and> j \<le> 4000"
  using find_entry_Some by (fastforce simp: entries_def)

text \<open>An update of a file keeps the directory in good order and every entry where it was.\<close>

definition keeps_dir :: "exfat \<Rightarrow> exfat \<Rightarrow> bool" where
  "keeps_dir st st' \<longleftrightarrow> wf_dir st' \<and> (\<forall>name. find_entry (dir st') name 0 = find_entry (dir st) name 0)
     \<and> (\<forall>j. j mod 32 = 0 \<longrightarrow> j \<le> 4000 \<longrightarrow> entry_fits (dir st') j = entry_fits (dir st) j)"

lemma keeps_dir_wf: "keeps_dir st st' \<Longrightarrow> wf_dir st'"
  by (simp add: keeps_dir_def)

lemma skel_fits:
  assumes "skel_eq b b'" and "j mod 32 = 0" and "j \<le> 4000"
  shows "entry_fits b' j = entry_fits b j"
proof -
  have "(j + 1) mod 32 = 1" "(j + 32) mod 32 = 0" using assms(2) by (auto simp: mod_add_left_eq [of j 32 1, symmetric])
  then have "b' ! (j + 1) = b ! (j + 1)" "b' ! (j + 32) = b ! (j + 32)" using assms by (auto intro!: skel_head)
  then show ?thesis by (simp add: entry_fits_def)
qed

text \<open>A file gets new contents in a new place, which no other file uses; the bits of its old
  clusters are given up.\<close>

lemma replace_file:
  assumes wf: "wf_dir st" and j: "j \<in> entries (dir st)" and ch: "changes ({0, cidx (g_current_cluster st)} \<union> E) st st'"
    and skel: "skel_eq (dir st) (dir st')" and keep: "\<forall>i<4096. i \<notin> edited j \<longrightarrow> dir st' ! i = dir st ! i"
    and E: "E = extent (dir st') j" and c: "3 \<le> unat (fclus (dir st') j)" and sub: "E \<subseteq> {..<unat (g_cluster_count st)}"
    and cur: "cidx (g_current_cluster st) \<notin> E"
    and disj: "\<And>k. k \<in> entries (dir st) \<Longrightarrow> k \<noteq> j \<Longrightarrow> extent (dir st) k \<inter> E = {}"
    and bits: "\<And>i. i < 32768 \<Longrightarrow> bit_used st' i \<longleftrightarrow> i \<in> E \<or> bit_used st i \<and> i \<notin> extent (dir st) j"
    and data: "file_bytes st' (fclus (dir st') j) (fsize (dir st') j) = d"
  shows "keeps_dir st st' \<and> (\<forall>name. contents st' name
       = (if find_entry (dir st) name 0 = Some j then Some d else contents st name))"
proof -
  let ?cur = "g_current_cluster st" and ?n = "unat (g_cluster_count st)"
  define D where "D = dir st'"
  note new = skel [folded D_def] keep [folded D_def] E [folded D_def] c [folded D_def] data [folded D_def]
  have v: "volume st" "volume st'" "3 \<le> unat ?cur" "cidx ?cur < ?n" "bit_used st 0" "bit_used st (cidx ?cur)"
    using wf ch by (auto simp: wf_dir_def changes_def)
  have n: "?n \<le> 32768" using v(1) by (simp add: volume_def)
  have vars: "g_current_cluster st' = ?cur" "g_cluster_count st' = g_cluster_count st"
    using ch by (auto simp: changes_def same_vars_def)
  have find: "find_entry (D) name 0 = find_entry (dir st) name 0" for name
    using v by (intro find_entry_cong [OF new(1)]) (auto simp: D_def)
  then have ent: "entries (D) = entries (dir st)" by (simp add: entries_def)
  have one: "3 \<le> unat (fclus (dir st) k) \<and> extent (dir st) k \<subseteq> {..<?n} \<and> cidx ?cur \<notin> extent (dir st) k
      \<and> (\<forall>i\<in>extent (dir st) k. bit_used st i)" if "k \<in> entries (dir st)" for k
    using wf that by (simp add: wf_dir_def)
  have oth: "fclus (D) k = fclus (dir st) k" "fsize (D) k = fsize (dir st) k"
      "extent (D) k = extent (dir st) k" if "k \<in> entries (dir st)" "k \<noteq> j" for k
    using fields_other [OF new(2)] entries_slot [OF j] entries_slot [OF that(1)] that(2) v(1,2)
    by (simp_all add: extent_def D_def)
  have zero: "0 \<notin> extent (dir st) k" if "k \<in> entries (dir st)" for k
    using one [OF that] by (auto simp: extent_def cidx_def)
  have sep: "extent (dir st) k \<inter> extent (dir st) j = {}" if "k \<in> entries (dir st)" "k \<noteq> j" for k
    using wf that j by (auto simp: wf_dir_def)
  have good: "3 \<le> unat (fclus (D) k) \<and> extent (D) k \<subseteq> {..<?n} \<and> cidx ?cur \<notin> extent (D) k
      \<and> (\<forall>i\<in>extent (D) k. bit_used st' i)" if k: "k \<in> entries (dir st)" for k
  proof (cases "k = j")
    case True
    have "bit_used st' i" if "i \<in> E" for i using bits [of i] sub n that by auto
    with True show ?thesis using new sub cur by auto
  next
    case False
    have "bit_used st' i" if "i \<in> extent (dir st) k" for i
      using one [OF k] sep [OF k False] bits [of i] n that by fastforce
    with False show ?thesis using one [OF k] oth [OF k False] by auto
  qed
  have apart: "extent (D) k \<inter> extent (D) l = {}" if "k \<in> entries (dir st)" "l \<in> entries (dir st)" "k \<noteq> l" for k l
  proof (cases "k = j \<or> l = j")
    case True
    then show ?thesis using disj that oth new(3) by (metis Int_commute)
  next
    case False
    then show ?thesis using wf that oth by (auto simp: wf_dir_def)
  qed
  have "0 < ?n" using v(4) by simp
  then have "bit_used st' 0" "bit_used st' (cidx ?cur)"
    using bits v(4-6) n one [OF j] zero [OF j] by auto
  then have "wf_dir st'"
    unfolding wf_dir_def D_def [symmetric] unfolding ent vars using v good apart by blast
  then have "keeps_dir st st'"
    unfolding keeps_dir_def D_def [symmetric] using find skel_fits [OF new(1)] by blast
  moreover have "contents st' name = (if find_entry (dir st) name 0 = Some j then Some d else contents st name)" for name
  proof -
    have c': "contents st' name = map_option (\<lambda>k. file_bytes st' (fclus (D) k) (fsize (D) k)) (find_entry (dir st) name 0)"
      using contents_find [of st' name, folded D_def] v vars find by simp
    have cs: "contents st name = map_option (\<lambda>k. file_bytes st (fclus (dir st) k) (fsize (dir st) k)) (find_entry (dir st) name 0)"
      using contents_find [of st name] v by simp
    have "file_bytes st' (fclus (D) k) (fsize (D) k) = file_bytes st (fclus (dir st) k) (fsize (dir st) k)"
      if "find_entry (dir st) name 0 = Some k" "k \<noteq> j" for k
    proof -
      have k: "k \<in> entries (dir st)" using that(1) by (auto simp: entries_def)
      have x: "extent (dir st) k \<inter> ({0, cidx ?cur} \<union> E) = {}" "extent (dir st) k \<subseteq> {..<32768}"
        using one [OF k] zero [OF k] disj [OF k that(2)] n by auto
      have "cidx (fclus (dir st) k) + nspan (fsize (dir st) k) \<le> 32768"
      proof -
        have "cidx (fclus (dir st) k) + nspan (fsize (dir st) k) - 1 \<in> extent (dir st) k"
          using nspan_pos [of "fsize (dir st) k"] by (auto simp: extent_def)
        with x(2) show ?thesis by auto
      qed
      then show ?thesis
        unfolding oth(1,2) [OF k that(2)] using changes_file [OF ch] x(1) by (simp add: extent_def)
    qed
    then show ?thesis unfolding c' cs using new(5) by (cases "find_entry (dir st) name 0") auto
  qed
  ultimately show ?thesis by blast
qed

section \<open>Writing a file\<close>

lemma cluster_span_nspan: "unat n \<le> 2 ^ 40 \<Longrightarrow> unat (cluster_span n) = nspan (unat n)"
proof -
  assume n: "unat n \<le> 2 ^ 40"
  then have "unat (n + 4095) = unat n + 4095" by (simp add: unat_word_ariths)
  moreover have "(unat n + 4095) div 4096 < 4294967296" using n by simp
  ultimately have "unat (ucast ((n + 4095) div 4096) :: u32) = (unat n + 4095) div 4096"
    by (simp add: unat_ucast unat_div)
  then show ?thesis by (auto simp: cluster_span_def nspan_def unat_eq_0)
qed

lemma extent_bounds:
  assumes "wf_dir st" and "j \<in> entries (dir st)"
  shows "cidx (fclus (dir st) j) + nspan (fsize (dir st) j) \<le> unat (g_cluster_count st)"
    and "fsize (dir st) j \<le> 134217728" and "3 \<le> unat (fclus (dir st) j)"
proof -
  let ?n = "fsize (dir st) j"
  have e: "extent (dir st) j \<subseteq> {..<unat (g_cluster_count st)}" "3 \<le> unat (fclus (dir st) j)"
    and c: "unat (g_cluster_count st) \<le> 32768"
    using assms by (auto simp: wf_dir_def volume_def)
  have "cidx (fclus (dir st) j) + nspan ?n - 1 \<in> extent (dir st) j"
    using nspan_pos [of ?n] by (auto simp: extent_def)
  with e show b: "cidx (fclus (dir st) j) + nspan ?n \<le> unat (g_cluster_count st)" by auto
  then have "nspan ?n \<le> 32768" using c by simp
  then show "?n \<le> 134217728" by (auto simp: nspan_def split: if_splits)
  show "3 \<le> unat (fclus (dir st) j)" by (fact e)
qed

lemma free_blocks_extent:
  assumes "wf_dir st" and "j \<in> entries (dir st)" and "volume st1" and "same_vars st st1"
    and "fs = exfat_free_blocks (fclus (dir st) j) (cluster_span (rd64 (dir st) (j + 56))) st1"
  shows "changes {0} st1 fs"
    and "i < 32768 \<Longrightarrow> bit_used fs i \<longleftrightarrow> bit_used st1 i \<and> i \<notin> extent (dir st) j"
proof -
  let ?c = "fclus (dir st) j" and ?n = "fsize (dir st) j"
  note b = extent_bounds [OF assms(1,2)]
  have count: "unat (g_cluster_count st) \<le> 32768" using assms(1) by (simp add: wf_dir_def volume_def)
  have span: "unat (cluster_span (rd64 (dir st) (j + 56))) = nspan ?n"
    using cluster_span_nspan [of "rd64 (dir st) (j + 56)"] b(2) by (simp add: fsize_def)
  have c2: "unat (?c - 2) = cidx ?c" "\<not> ?c < 2"
    using b(3) by (simp_all add: cidx_def unat_sub word_le_nat_alt word_less_nat_alt)
  have "cluster_span (rd64 (dir st) (j + 56)) \<noteq> 0"
    using span nspan_pos [of ?n] by (metis unat_0 less_irrefl)
  then have fs: "fs = clear_bits (cidx ?c) (nspan ?n) st1"
    unfolding assms(5) exfat_free_blocks_def using b(1) count c2 by (simp add: span)
  have le: "cidx ?c + nspan ?n \<le> 32768" using b(1) count by simp
  from clear_bits_correct [OF assms(3) this] show "changes {0} st1 fs"
    using changes_bitmap [OF assms(3)] by (simp add: fs)
  from clear_bits_correct [OF assms(3) le]
  show "i < 32768 \<Longrightarrow> bit_used fs i \<longleftrightarrow> bit_used st1 i \<and> i \<notin> extent (dir st) j"
    by (simp add: fs extent_def)
qed

lemma alloc_blocks_run:
  assumes "wf_dir st" and "0 < k"
    and "\<exists>f. free_run (bit_used st) (unat (g_cluster_count st)) k f"
  shows "\<exists>f c st1. exfat_alloc_blocks (of_nat k) st = (c, st1) \<and> free_run (bit_used st) (unat (g_cluster_count st)) k f
     \<and> cidx c = f \<and> 3 \<le> unat c \<and> changes {0} st st1
     \<and> (\<forall>i<32768. bit_used st1 i \<longleftrightarrow> bit_used st i \<or> f \<le> i \<and> i < f + k)"
proof -
  have v: "volume st" and count: "unat (g_cluster_count st) \<le> 32768" and b0: "bit_used st 0"
    using assms(1) by (auto simp: wf_dir_def volume_def)
  have "k \<le> 32768" using assms(3) count by (auto simp: free_run_def)
  then have k: "unat (of_nat k :: u32) = k" "of_nat k \<noteq> (0 :: u32)"
    using assms(2) by (auto simp: unat_of_nat word_unat_eq_iff)
  obtain c st1 where e: "exfat_alloc_blocks (of_nat k) st = (c, st1)" by fastforce
  from alloc_blocks_spec [OF v k(2) e] assms(3) obtain f where
    f: "free_run (bit_used st) (unat (g_cluster_count st)) k f" "c = of_nat f + 2" "volume st1"
      "same_outside_bitmap st st1" "\<forall>j<32768. bit_used st1 j = (bit_used st j \<or> f \<le> j \<and> j < f + k)"
    unfolding k(1) by (auto split: if_splits)
  have "f \<noteq> 0" using f(1) b0 assms(2) by (auto simp: free_run_def)
  moreover have "f < 32768" using f(1) count assms(2) by (simp add: free_run_def)
  then have "unat c = f + 2" by (simp add: f(2) unat_word_ariths unat_of_nat)
  ultimately show ?thesis
    using e f changes_bitmap [OF v f(3,4)] by (auto simp: cidx_def intro!: exI [of _ f])
qed

text \<open>The last step of a write or an append: the data is in place, the entry is updated.\<close>

lemma finish_file:
  assumes wf: "wf_dir st" and find: "find_entry (dir st) name 0 = Some j" and fits: "entry_fits (dir st) j"
    and E: "E = {cidx c..<cidx c + nspan (unat len)}" and c: "3 \<le> unat c" and sub: "E \<subseteq> {..<unat (g_cluster_count st)}"
    and cur: "cidx (g_current_cluster st) \<notin> E"
    and disj: "\<And>k. k \<in> entries (dir st) \<Longrightarrow> k \<noteq> j \<Longrightarrow> extent (dir st) k \<inter> E = {}"
    and ch: "changes ({0} \<union> E) st st2"
    and bits: "\<And>i. i < 32768 \<Longrightarrow> bit_used st2 i \<longleftrightarrow> i \<in> E \<or> bit_used st i \<and> i \<notin> extent (dir st) j"
    and data: "file_bytes st2 c (unat len) = d"
    and t: "t = target_at (dir st) (exfat_cluster_lba st (g_current_cluster st)) j"
  shows "\<exists>st'. finish_entry t (Some c) len st2 = Some (0, st') \<and> keeps_dir st st'
     \<and> (\<forall>name. contents st' name
          = (if find_entry (dir st) name 0 = Some j then Some d else contents st name))"
proof -
  let ?cur = "g_current_cluster st"
  have v: "volume st" "3 \<le> unat ?cur" "cidx ?cur < 32768" "unat (g_cluster_count st) \<le> 32768" "volume st2"
    "same_vars st st2" using wf ch by (auto simp: wf_dir_def volume_def changes_def)
  have cur0: "cidx ?cur \<noteq> 0" using v(2) by (simp add: cidx_def)
  have vars: "g_current_cluster st2 = ?cur" using v(6) by (simp add: same_vars_def)
  have d2: "clus st2 ?cur = dir st" using changes_clus [OF v(1) ch] v(2,3) cur cur0 by simp
  have "t = target_at (dir st2) (exfat_cluster_lba st2 (g_current_cluster st2)) j"
    by (simp only: vars d2 same_vars_lba [OF v(6)] t)
  with finish_entry_changes [OF v(5), of name j t c len] find fits v(2) obtain st' where
    st': "finish_entry t (Some c) len st2 = Some (0, st')" "changes {cidx ?cur} st2 st'"
      "skel_eq (dir st) (dir st')" "\<forall>k<4096. k \<notin> edited j \<longrightarrow> dir st' ! k = dir st ! k"
      "fclus (dir st') j = c" "fsize (dir st') j = unat len"
    unfolding vars d2 by auto
  have ch': "changes ({0, cidx ?cur} \<union> E) st st'"
    using changes_trans [OF ch st'(2)] by (rule changes_mono) auto
  have bits': "bit_used st' i \<longleftrightarrow> i \<in> E \<or> bit_used st i \<and> i \<notin> extent (dir st) j" if "i < 32768" for i
    using changes_bits [OF v(5) st'(2) _ that] cur0 bits [OF that] by simp
  have "cidx c + nspan (unat len) \<le> 32768"
  proof -
    have "cidx c + nspan (unat len) - 1 \<in> E" using nspan_pos [of "unat len"] by (auto simp: E)
    then show ?thesis using sub v(4) by auto
  qed
  then have data': "file_bytes st' c (unat len) = d"
    using changes_file [OF st'(2)] cur E data by auto
  have j: "j \<in> entries (dir st)" using find by (auto simp: entries_def)
  have "keeps_dir st st' \<and> (\<forall>name. contents st' name
       = (if find_entry (dir st) name 0 = Some j then Some d else contents st name))"
    by (rule replace_file [OF wf j ch' st'(3,4)])
      (use c sub cur disj bits' data' in \<open>simp_all add: st'(5,6) E extent_def\<close>)
  with st'(1) show ?thesis by blast
qed

lemma run_apart:
  assumes "wf_dir st" and "free_run (bit_used st) (unat (g_cluster_count st)) n f"
  shows "{f..<f + n} \<subseteq> {..<unat (g_cluster_count st)}" and "cidx (g_current_cluster st) \<notin> {f..<f + n}"
    and "k \<in> entries (dir st) \<Longrightarrow> extent (dir st) k \<inter> {f..<f + n} = {}"
  using assms by (auto simp: wf_dir_def free_run_def)

text \<open>Where the data of a file of \<open>n\<close> bytes goes: its old place, or the first free run.\<close>

lemma write_file_placed:
  assumes wf: "wf_dir st" and find: "find_entry (dir st) name 0 = Some j" and fits: "entry_fits (dir st) j"
    and n: "unat len \<le> 2 ^ 27"
    and st1: "volume st1" and vars: "same_vars st st1" and ch: "changes {0} st st1" and c: "3 \<le> unat c"
    and E: "E = {cidx c..<cidx c + nspan (unat len)}" and sub: "E \<subseteq> {..<unat (g_cluster_count st)}"
    and cur: "cidx (g_current_cluster st) \<notin> E"
    and disj: "\<And>k. k \<in> entries (dir st) \<Longrightarrow> k \<noteq> j \<Longrightarrow> extent (dir st) k \<inter> E = {}"
    and bits: "\<And>i. i < 32768 \<Longrightarrow> bit_used st1 i \<longleftrightarrow> i \<in> E \<or> bit_used st i \<and> i \<notin> extent (dir st) j"
    and d: "length d = unat len"
    and t: "t = target_at (dir st) (exfat_cluster_lba st (g_current_cluster st)) j"
  shows "\<exists>st2 st'. write_all (map (\<lambda>i. (exfat_cluster_lba st1 c + of_nat i, data_sector d i))
                     [0..<(unat len + 511) div 512]) st1 = (True, st2)
     \<and> finish_entry t (Some c) len st2 = Some (0, st') \<and> keeps_dir st st'
     \<and> (\<forall>name. contents st' name
          = (if find_entry (dir st) name 0 = Some j then Some d else contents st name))"
proof -
  let ?m = "(unat len + 511) div 512"
  have "unat (g_cluster_count st) \<le> 32768" using wf by (simp add: wf_dir_def volume_def)
  moreover have "cidx c + nspan (unat len) - 1 \<in> E" using nspan_pos [of "unat len"] by (auto simp: E)
  ultimately have le: "cidx c + nspan (unat len) \<le> 32768" using sub by auto
  have "2 \<le> unat c" using c by simp
  from changes_write [OF st1 this le sectors_nspan, of "data_sector d"] obtain st2 where
    st2: "write_all (map (\<lambda>i. (exfat_cluster_lba st1 c + of_nat i, data_sector d i)) [0..<?m]) st1 = (True, st2)"
      "changes E st1 st2" "hrun st2 (cidx c * 8) ?m = concat (map (data_sector d) [0..<?m])"
    unfolding E by auto
  have ch2: "changes ({0} \<union> E) st st2" by (rule changes_trans [OF ch st2(2)])
  have "0 \<notin> E" using c by (auto simp: E cidx_def)
  then have bits2: "bit_used st2 i \<longleftrightarrow> i \<in> E \<or> bit_used st i \<and> i \<notin> extent (dir st) j" if "i < 32768" for i
    using changes_bits [OF st1 st2(2) _ that] bits [OF that] by simp
  have data: "file_bytes st2 c (unat len) = d"
    using data_sectors [of d ?m] st2(3) d by (simp add: file_bytes_def)
  from finish_file [OF wf find fits E c sub cur disj ch2 bits2 data t] st2(1) show ?thesis by blast
qed

lemma resolve_find:
  assumes "volume st" and "2 \<le> unat (g_current_cluster st)" and "find_entry (dir st) name 0 = Some j"
  shows "exfat_resolve_entry st name
       = Some (target_at (dir st) (exfat_cluster_lba st (g_current_cluster st)) j)"
  using assms by (simp add: resolve_volume)

lemma write_file_contents:
  assumes wf: "wf_dir st" and find: "find_entry (dir st) name 0 = Some j" and fits: "entry_fits (dir st) j"
    and len: "length data = unat count" "unat count \<le> 2 ^ 27"
    and room: "nspan (unat count) = nspan (fsize (dir st) j)
       \<or> (\<exists>f. free_run (bit_used st) (unat (g_cluster_count st)) (nspan (unat count)) f)"
  shows "\<exists>st'. exfat_write_file name data count st = Some (0, st') \<and> keeps_dir st st'
     \<and> (\<forall>n. contents st' n = (if find_entry (dir st) n 0 = Some j then Some data else contents st n))"
proof -
  let ?cur = "g_current_cluster st" and ?b = "dir st" and ?k = "nspan (unat count)"
  define t where "t = target_at ?b (exfat_cluster_lba st ?cur) j"
  have v: "volume st" "2 \<le> unat ?cur" using wf by (auto simp: wf_dir_def)
  have j: "j \<in> entries ?b" using find by (auto simp: entries_def)
  note res = resolve_find [OF v find, folded t_def]
  have tf: "tcluster t = fclus ?b j" "tsize t = rd64 ?b (j + 56)"
    by (simp_all add: t_def target_at_def fclus_def add.commute)
  note b = extent_bounds [OF wf j]
  have span: "unat (cluster_span count) = ?k" "unat (cluster_span (tsize t)) = nspan (fsize ?b j)"
    using len(2) b(2) by (simp_all add: cluster_span_nspan tf fsize_def)
  have need: "unat ((count + 511) div 512) = (unat count + 511) div 512"
    using len(2) by (simp add: unat_div unat_word_ariths)
  have same: "cluster_span count \<noteq> cluster_span (tsize t) \<longleftrightarrow> ?k \<noteq> nspan (fsize ?b j)"
    using span by (auto simp: word_unat_eq_iff)
  define goal where "goal st1 c \<longleftrightarrow> (\<exists>st2 st'. write_all (map (\<lambda>i. (exfat_cluster_lba st1 c + of_nat i, data_sector data i))
        [0..<(unat count + 511) div 512]) st1 = (True, st2) \<and> finish_entry t (Some c) count st2 = Some (0, st')
      \<and> keeps_dir st st' \<and> (\<forall>n. contents st' n = (if find_entry ?b n 0 = Some j then Some data else contents st n)))"
    for st1 c
  show ?thesis
  proof (cases "?k = nspan (fsize ?b j)")
    case True
    have ext: "extent ?b j = {cidx (fclus ?b j)..<cidx (fclus ?b j) + ?k}" using True by (simp add: extent_def)
    have "goal st (fclus ?b j)"
      unfolding goal_def
      by (rule write_file_placed [OF wf find fits len(2) v(1) _ _ b(3) ext])
        (use wf j v len(1) in \<open>auto simp: wf_dir_def same_vars_def t_def\<close>)
    then show ?thesis
      using True same len(1) by (auto simp: goal_def exfat_write_file_def res tf(1) need Let_def)
  next
    case False
    with room have "\<exists>f. free_run (bit_used st) (unat (g_cluster_count st)) ?k f" by blast
    from alloc_blocks_run [OF wf nspan_pos this] obtain f c st1 where
      a: "exfat_alloc_blocks (of_nat ?k) st = (c, st1)" "free_run (bit_used st) (unat (g_cluster_count st)) ?k f"
        "cidx c = f" "3 \<le> unat c" "changes {0} st st1"
        "\<forall>i<32768. bit_used st1 i \<longleftrightarrow> bit_used st i \<or> f \<le> i \<and> i < f + ?k" by blast
    have v1: "volume st1" "same_vars st st1" using a(5) by (auto simp: changes_def)
    define st2 where "st2 = exfat_free_blocks (fclus ?b j) (cluster_span (rd64 ?b (j + 56))) st1"
    note fr = free_blocks_extent [OF wf j v1 st2_def]
    have ch: "changes {0} st st2" using changes_trans [OF a(5) fr(1)] by simp
    have bits: "bit_used st2 i \<longleftrightarrow> i \<in> {f..<f + ?k} \<or> bit_used st i \<and> i \<notin> extent ?b j" if "i < 32768" for i
      using fr(2) [OF that] a(6) that run_apart(3) [OF wf a(2) j] by auto
    have "goal st2 c"
      unfolding goal_def
      by (rule write_file_placed [OF wf find fits len(2) _ _ ch a(4) refl])
        (use ch run_apart [OF wf a(2)] bits len(1) a(3) in \<open>auto simp: changes_def t_def\<close>)
    moreover have "c \<noteq> 0" using a(4) by auto
    moreover have "of_nat ?k = cluster_span count" unfolding span(1) [symmetric] by simp
    ultimately show ?thesis
      using False same len(1) a(1)
      by (auto simp: goal_def exfat_write_file_def res tf st2_def need Let_def)
  qed
qed

lemma wf_read:
  assumes "wf_dir st" and "contents st name = Some d"
  shows "exfat_read_file_at st name False offset max_bytes
       = (int (length (take (unat max_bytes) (drop (unat offset) d))),
          take (unat max_bytes) (drop (unat offset) d))"
proof -
  have v: "volume st" "2 \<le> unat (g_current_cluster st)" using assms(1) by (auto simp: wf_dir_def)
  obtain j where find: "find_entry (dir st) name 0 = Some j"
    using assms(2) contents_find [OF v, of name] by auto
  then have "j \<in> entries (dir st)" by (auto simp: entries_def)
  note b = extent_bounds [OF assms(1) this]
  show ?thesis
    using read_file_at_contents [OF v(1) resolve_find [OF v find] _ _ assms(2)] b(2,3)
    by (simp add: target_at_def fclus_def fsize_def add.commute)
qed

section \<open>Appending to a file\<close>

text \<open>States that agree on the heap outside the sectors \<open>p\<close> to \<open>p + m - 1\<close>.\<close>

definition run_changes :: "nat \<Rightarrow> nat \<Rightarrow> exfat \<Rightarrow> exfat \<Rightarrow> bool" where
  "run_changes p m st st' \<longleftrightarrow> volume st' \<and> same_vars st st'
     \<and> (\<forall>i<2 ^ 46. \<not> (p \<le> i \<and> i < p + m) \<longrightarrow> hsec st' i = hsec st i)"

lemma run_changes_trans:
  "run_changes p m st st1 \<Longrightarrow> run_changes p m st1 st2 \<Longrightarrow> run_changes p m st st2"
  using same_vars_trans by (auto simp: run_changes_def)

lemma run_changes_put:
  "volume st \<Longrightarrow> length b = 512 \<Longrightarrow> p \<le> i \<Longrightarrow> i < p + m \<Longrightarrow> p + m \<le> 2 ^ 46 \<Longrightarrow>
     run_changes p m st (put_sec (hlba st i) b st)"
  by (auto simp: run_changes_def same_vars_put hsec_put_sec)

lemma run_changes_clusters:
  assumes "run_changes (cidx c * 8) m st st'" and "m \<le> 8 * k"
  shows "changes {cidx c..<cidx c + k} st st'"
proof -
  have "hsec st' i = hsec st i" if "i div 8 < 32768" "i div 8 \<notin> {cidx c..<cidx c + k}" for i
  proof -
    have "\<not> (cidx c * 8 \<le> i \<and> i < cidx c * 8 + m)"
      using that(2) assms(2) by (auto simp: less_mult_imp_div_less algebra_simps)
    moreover have "i < 2 ^ 46" using that(1) by simp
    ultimately show ?thesis using assms(1) by (simp add: run_changes_def)
  qed
  then show ?thesis using assms(1) by (simp add: run_changes_def changes_def)
qed

lemma hrun_split:
  "volume st \<Longrightarrow> s < m \<Longrightarrow> hrun st p m = hrun st p s @ hsec st (p + s) @ hrun st (Suc (p + s)) (m - Suc s)"
  using hrun_add [of st p s "m - s"] hrun_Suc [of st "p + s" "m - Suc s"] by (simp add: Suc_diff_Suc)

lemma hlba_add: "hlba st p + of_nat s = hlba st (p + s)"
  by (simp add: hlba_def)

lemma take_mid: "length xs = a \<Longrightarrow> n \<le> length ys \<Longrightarrow> take (a + n) (xs @ ys @ zs) = xs @ take n ys"
  by simp

text \<open>One sector of the append loop.\<close>

lemma append_step:
  assumes "volume st" and "p + m \<le> 2 ^ 46" and "s < m" and "o' + length x \<le> 512" and "length temp = 512"
    and "take o' temp = take o' (hsec st (p + s))"
    and "st1 = put_sec (hlba st (p + s)) (buf_put temp o' x) st"
  shows "run_changes p m st st1"
    and "take (s * 512 + o' + length x) (hrun st1 p m) = take (s * 512 + o') (hrun st p m) @ x"
proof -
  have len: "length (buf_put temp o' x) = 512" using assms(4,5) by simp
  show rc: "run_changes p m st st1"
    unfolding assms(7) using assms(1-3) len by (intro run_changes_put) auto
  then have v1: "volume st1" by (simp add: run_changes_def)
  have h: "hsec st1 i = (if i = p + s then buf_put temp o' x else hsec st i)" if "i < p + m" for i
    unfolding assms(7) using assms(1-3) that by (intro hsec_put_sec) auto
  have pre: "hrun st1 p s = hrun st p s" by (rule hrun_cong) (use h assms(3) in auto)
  have o': "o' \<le> length (hsec st (p + s))" using assms(1,4) by simp
  have x: "take (o' + length x) (buf_put temp o' x) = take o' (hsec st (p + s)) @ x"
    using assms(1,4-6) by (simp add: buf_put_def)
  show "take (s * 512 + o' + length x) (hrun st1 p m) = take (s * 512 + o') (hrun st p m) @ x"
  proof -
    have "take (s * 512 + (o' + length x)) (hrun st1 p m) = hrun st p s @ take (o' + length x) (hsec st1 (p + s))"
      unfolding hrun_split [OF v1 assms(3)] pre
      by (rule take_mid) (use assms(1-4) len h in simp_all)
    also have "hsec st1 (p + s) = buf_put temp o' x" using h assms(3) by simp
    finally show ?thesis
      unfolding x hrun_split [OF assms(1,3)] take_mid [OF length_hrun [OF assms(1)] o']
      by (simp only: add.assoc append.assoc)
  qed
qed

lemma append_loop_hrun:
  assumes "volume st" and "p + m \<le> 2 ^ 46" and "off + length src \<le> m * 512"
  shows "\<exists>st'. append_loop (hlba st p) off src st = (True, st') \<and> run_changes p m st st'
     \<and> take (off + length src) (hrun st' p m) = take off (hrun st p m) @ src"
  using assms
proof (induction "length src" arbitrary: off src st rule: less_induct)
  case less
  show ?case
  proof (cases "src = []")
    case True
    then show ?thesis
      using less.prems(1) by (subst append_loop.simps) (auto simp: run_changes_def same_vars_def)
  next
    case False
    let ?s = "off div 512" and ?o = "off mod 512"
    define w where "w = min (512 - ?o) (length src)"
    define temp where "temp = (if ?o > 0 then hsec st (p + ?s) else replicate 512 0)"
    define st1 where "st1 = put_sec (hlba st (p + ?s)) (buf_put temp ?o (take w src)) st"
    have "0 < length src" using False by simp
    then have "off < m * 512" using less.prems(3) by linarith
    then have s: "?s < m" by (simp add: less_mult_imp_div_less)
    have on: "online st" "hlba st (p + ?s) < 0x1000000000000"
      using less.prems(1,2) s by (auto simp: volume_def intro: hlba_less)
    have "?o < 512" by simp
    then have w: "w \<le> length src" "?o + w \<le> 512" "0 < w" using \<open>0 < length src\<close> by (simp_all add: w_def)
    have temp: "length temp = 512" "take ?o temp = take ?o (hsec st (p + ?s))"
      using less.prems(1) by (simp_all add: temp_def)
    have "?o + length (take w src) \<le> 512" using w by simp
    note st = append_step [OF less.prems(1,2) s this temp st1_def]
    have off: "?s * 512 + ?o = off" by simp
    have step: "take (off + w) (hrun st1 p m) = take off (hrun st p m) @ take w src"
      using st(2) w(1) unfolding off by simp
    have v1: "volume st1" using st(1) by (simp add: run_changes_def)
    have "(if ?o > 0 then exfat_sector_read st (hlba st p + of_nat ?s) else Some (replicate 512 0)) = Some temp"
      using on by (simp add: temp_def hlba_add hsec_def sector_read_online)
    then have "append_loop (hlba st p) off src st = append_loop (hlba st p) (off + w) (drop w src) st1"
      using False on unfolding st1_def w_def
      by (subst append_loop.simps) (simp only: Let_def if_False option.case hlba_add sector_write_online)
    then have e: "append_loop (hlba st p) off src st = append_loop (hlba st1 p) (off + w) (drop w src) st1"
      unfolding st1_def by (simp only: same_vars_hlba [OF same_vars_put])
    have "length (drop w src) < length src" "off + w + length (drop w src) \<le> m * 512"
      using w less.prems(3) by simp_all
    from less.hyps [OF this(1) v1 less.prems(2) this(2)] obtain st' where
      st': "append_loop (hlba st1 p) (off + w) (drop w src) st1 = (True, st')" "run_changes p m st1 st'"
        "take (off + w + length (drop w src)) (hrun st' p m) = take (off + w) (hrun st1 p m) @ drop w src"
      by blast
    have "off + w + length (drop w src) = off + length src" using w(1) by simp
    with st'(3) step have "take (off + length src) (hrun st' p m) = take off (hrun st p m) @ src" by simp
    then show ?thesis unfolding e st'(1) using run_changes_trans [OF st(1) st'(2)] by blast
  qed
qed

lemma copy_sectors_run:
  assumes "volume st" and "q + b \<le> 2 ^ 46" and "p + b \<le> 2 ^ 46" and "a \<le> b"
    and "q + b \<le> p \<or> p + b \<le> q"
  shows "\<exists>st'. copy_sectors (hlba st q) (hlba st p) [a..<b] st = (True, st') \<and> run_changes p b st st'
     \<and> (\<forall>i. a \<le> i \<longrightarrow> i < b \<longrightarrow> hsec st' (p + i) = hsec st (q + i))
     \<and> (\<forall>i<a. hsec st' (p + i) = hsec st (p + i))"
  using assms
proof (induction "b - a" arbitrary: a st)
  case 0
  then show ?case by (auto simp: run_changes_def same_vars_def)
next
  case (Suc n)
  then have ab: "a < b" by simp
  let ?x = "hsec st (q + a)"
  define st1 where "st1 = put_sec (hlba st (p + a)) ?x st"
  have on: "online st" "hlba st (q + a) < 0x1000000000000" "hlba st (p + a) < 0x1000000000000"
    using Suc.prems ab by (auto simp: volume_def intro: hlba_less)
  have rc: "run_changes p b st st1"
    unfolding st1_def using Suc.prems ab by (intro run_changes_put) auto
  have v1: "volume st1" using rc by (simp add: run_changes_def)
  have h: "hsec st1 i = (if i = p + a then ?x else hsec st i)" if "i < 2 ^ 46" for i
    unfolding st1_def using Suc.prems ab that by (intro hsec_put_sec) auto
  have hl: "hlba st1 = hlba st" unfolding st1_def by (rule same_vars_hlba [OF same_vars_put])
  have e: "copy_sectors (hlba st q) (hlba st p) [a..<b] st = copy_sectors (hlba st1 q) (hlba st1 p) [Suc a..<b] st1"
    using on ab unfolding hl unfolding st1_def
    by (simp add: upt_conv_Cons hlba_add sector_read_online sector_write_online hsec_def)
  have "n = b - Suc a" "Suc a \<le> b" using Suc.hyps(2) ab by auto
  from Suc.hyps(1) [OF this(1) v1 Suc.prems(2,3) this(2) Suc.prems(5)] obtain st' where
    st': "copy_sectors (hlba st1 q) (hlba st1 p) [Suc a..<b] st1 = (True, st')" "run_changes p b st1 st'"
      "\<forall>i. Suc a \<le> i \<longrightarrow> i < b \<longrightarrow> hsec st' (p + i) = hsec st1 (q + i)"
      "\<forall>i<Suc a. hsec st' (p + i) = hsec st1 (p + i)" by blast
  have "hsec st' (p + i) = hsec st (q + i)" if "a \<le> i" "i < b" for i
  proof (cases "i = a")
    case True
    then show ?thesis using st'(4) h [of "p + a"] Suc.prems(3) ab by simp
  next
    case False
    then show ?thesis using st'(3) that h [of "q + i"] Suc.prems(2,5) ab by auto
  qed
  moreover have "hsec st' (p + i) = hsec st (p + i)" if "i < a" for i
    using st'(4) that h [of "p + i"] Suc.prems(3) ab by simp
  ultimately show ?case
    unfolding e st'(1) using run_changes_trans [OF rc st'(2)] by blast
qed

text \<open>The bytes of a file after appending in place.\<close>

lemma append_bytes:
  assumes "volume st" and "3 \<le> unat c" and "cidx c + nspan (n + length x) \<le> 32768"
    and "take n (hrun st (cidx c * 8) ((n + length x + 511) div 512)) = d"
  shows "\<exists>st'. append_loop (exfat_cluster_lba st c) n x st = (True, st')
     \<and> changes {cidx c..<cidx c + nspan (n + length x)} st st' \<and> file_bytes st' c (n + length x) = d @ x"
proof -
  let ?m = "(n + length x + 511) div 512" and ?p = "cidx c * 8"
  have "exfat_cluster_lba st c = hlba st ?p" using cluster_hlba [OF assms(1), of c 0] assms(2) by simp
  moreover have "?p + ?m \<le> 2 ^ 46" using assms(3) sectors_nspan [of "n + length x"] by simp
  moreover have "n + length x \<le> ?m * 512" by linarith
  ultimately obtain st' where "append_loop (exfat_cluster_lba st c) n x st = (True, st')"
    "run_changes ?p ?m st st'" "take (n + length x) (hrun st' ?p ?m) = take n (hrun st ?p ?m) @ x"
    using append_loop_hrun [OF assms(1)] by metis
  then show ?thesis
    using run_changes_clusters [OF _ sectors_nspan] assms(4) by (auto simp: file_bytes_def)
qed

lemma hrun_take: "volume st \<Longrightarrow> n \<le> m * 512 \<Longrightarrow> m \<le> m' \<Longrightarrow> take n (hrun st p m') = take n (hrun st p m)"
  using hrun_add [of st p m "m' - m"] by simp

lemma take_run_file_bytes:
  "volume st \<Longrightarrow> n \<le> n' \<Longrightarrow> take n (hrun st (cidx c * 8) ((n' + 511) div 512)) = file_bytes st c n"
  unfolding file_bytes_def by (rule hrun_take) (auto intro: div_le_mono)

text \<open>The old contents in the new place, after the allocation, the copy and the release.\<close>

lemma append_moved:
  assumes wf: "wf_dir st" and j: "j \<in> entries (dir st)" and k: "k = nspan n'" "fsize (dir st) j \<le> n'"
    and a: "exfat_alloc_blocks (of_nat k) st = (c, st1)" "free_run (bit_used st) (unat (g_cluster_count st)) k f"
      "cidx c = f" "3 \<le> unat c" "changes {0} st st1"
      "\<forall>i<32768. bit_used st1 i \<longleftrightarrow> bit_used st i \<or> f \<le> i \<and> i < f + k"
  shows "\<exists>st2. copy_sectors (exfat_cluster_lba st1 (fclus (dir st) j)) (exfat_cluster_lba st1 c)
            [0..<(fsize (dir st) j + 511) div 512] st1 = (True, st2)
     \<and> (\<forall>st3. st3 = exfat_free_blocks (fclus (dir st) j) (cluster_span (rd64 (dir st) (j + 56))) st2 \<longrightarrow>
          changes ({0} \<union> {f..<f + k}) st st3 \<and> file_bytes st3 c (fsize (dir st) j) = file_bytes st (fclus (dir st) j) (fsize (dir st) j)
          \<and> (\<forall>i<32768. bit_used st3 i \<longleftrightarrow> i \<in> {f..<f + k} \<or> bit_used st i \<and> i \<notin> extent (dir st) j))"
proof -
  let ?n = "fsize (dir st) j" and ?old = "fclus (dir st) j"
  let ?b = "(?n + 511) div 512" and ?q = "cidx ?old * 8" and ?p = "f * 8"
  have v: "volume st" "volume st1" "same_vars st st1" using wf a(5) by (auto simp: wf_dir_def changes_def)
  have count: "unat (g_cluster_count st) \<le> 32768" using wf by (simp add: wf_dir_def volume_def)
  note x = extent_bounds [OF wf j]
  have nk: "nspan ?n \<le> k" unfolding k(1) using k(2) by (auto simp: nspan_def intro: div_le_mono)
  have b8: "?b \<le> 8 * nspan ?n" by (rule sectors_nspan)
  have fk: "f + k \<le> 32768" using a(2) count by (simp add: free_run_def)
  have apart: "extent (dir st) j \<inter> {f..<f + k} = {}" by (rule run_apart(3) [OF wf a(2) j])
  have far: "?q + ?b \<le> ?p \<or> ?p + ?b \<le> ?q"
  proof -
    have "cidx ?old + nspan ?n \<le> f \<or> f + nspan ?n \<le> cidx ?old"
    proof (rule ccontr)
      assume "\<not> ?thesis"
      then have "max f (cidx ?old) \<in> extent (dir st) j \<inter> {f..<f + k}"
        using nk nspan_pos [of ?n] by (auto simp: extent_def max_def)
      with apart show False by blast
    qed
    then show ?thesis using b8 by linarith
  qed
  have lba: "exfat_cluster_lba st1 ?old = hlba st1 ?q" "exfat_cluster_lba st1 c = hlba st1 ?p"
    using cluster_hlba [OF v(2), of ?old 0] cluster_hlba [OF v(2), of c 0] x(3) a(3,4) by simp_all
  have "?q + ?b \<le> 262144" "?p + ?b \<le> 262144" using x(1) count b8 fk nk by linarith+
  then have small: "?q + ?b \<le> 2 ^ 46" "?p + ?b \<le> 2 ^ 46" by simp_all
  from copy_sectors_run [OF v(2) small le0 far] obtain st2 where
    st2: "copy_sectors (hlba st1 ?q) (hlba st1 ?p) [0..<?b] st1 = (True, st2)" "run_changes ?p ?b st1 st2"
      "\<forall>i<?b. hsec st2 (?p + i) = hsec st1 (?q + i)" by auto
  have "changes ({0} \<union> {f..<f + k}) st st3 \<and> file_bytes st3 c ?n = file_bytes st ?old ?n
      \<and> (\<forall>i<32768. bit_used st3 i \<longleftrightarrow> i \<in> {f..<f + k} \<or> bit_used st i \<and> i \<notin> extent (dir st) j)"
    if st3: "st3 = exfat_free_blocks ?old (cluster_span (rd64 (dir st) (j + 56))) st2" for st3
  proof -
    have ch12: "changes {f..<f + k} st1 st2"
      using run_changes_clusters [of c ?b st1 st2 k] st2(2) a(3) b8 nk by simp
    then have v2: "volume st2" "same_vars st st2"
      using v(3) same_vars_trans by (auto simp: changes_def)
    note fr = free_blocks_extent [OF wf j v2 st3]
    have ch: "changes ({0} \<union> {f..<f + k}) st st3"
      by (rule changes_mono [OF changes_trans [OF changes_trans [OF a(5) ch12] fr(1)]]) auto
    have f0: "0 < f" using a(3,4) by (auto simp: cidx_def)
    have "bit_used st3 i \<longleftrightarrow> i \<in> {f..<f + k} \<or> bit_used st i \<and> i \<notin> extent (dir st) j" if "i < 32768" for i
      using fr(2) [OF that] changes_bits [OF v(2) ch12 _ that] f0 a(6) that apart by auto
    moreover have "hsec st3 (?p + i) = hsec st (?q + i)" if "i < ?b" for i
    proof -
      have i: "(?p + i) div 8 < 32768" "(?p + i) div 8 \<noteq> 0" "(?q + i) div 8 < 32768" "(?q + i) div 8 \<noteq> 0"
        using that b8 nk fk x f0 count by (auto simp: div_eq_0_iff cidx_def less_mult_imp_div_less)
      then have "hsec st3 (?p + i) = hsec st2 (?p + i)" using fr(1) by (simp add: changes_def)
      also have "\<dots> = hsec st1 (?q + i)" using st2(3) that by simp
      also have "\<dots> = hsec st (?q + i)" using i a(5) by (simp add: changes_def)
      finally show ?thesis .
    qed
    then have "file_bytes st3 c ?n = file_bytes st ?old ?n"
      unfolding file_bytes_def hrun_def a(3)
      by (intro arg_cong [of _ _ "take ?n"] arg_cong [of _ _ concat] map_cong) auto
    ultimately show ?thesis using ch by blast
  qed
  then show ?thesis using st2(1) unfolding lba by blast
qed

lemma nspan_mono: "a \<le> b \<Longrightarrow> nspan a \<le> nspan b"
  using nspan_pos [of b] by (auto simp: nspan_def intro: div_le_mono)

text \<open>The data appended to a file whose old contents are in the place \<open>c\<close> of a state \<open>st3\<close>.\<close>

lemma append_placed:
  assumes wf: "wf_dir st" and find: "find_entry (dir st) name 0 = Some j" and fits: "entry_fits (dir st) j"
    and len: "unat len = n + length x" "n = fsize (dir st) j"
    and c: "3 \<le> unat c" and E: "E = {cidx c..<cidx c + nspan (unat len)}"
    and sub: "E \<subseteq> {..<unat (g_cluster_count st)}" and cur: "cidx (g_current_cluster st) \<notin> E"
    and disj: "\<And>k. k \<in> entries (dir st) \<Longrightarrow> k \<noteq> j \<Longrightarrow> extent (dir st) k \<inter> E = {}"
    and ch: "changes ({0} \<union> E) st st3"
    and bits: "\<And>i. i < 32768 \<Longrightarrow> bit_used st3 i \<longleftrightarrow> i \<in> E \<or> bit_used st i \<and> i \<notin> extent (dir st) j"
    and old: "file_bytes st3 c n = d"
    and t: "t = target_at (dir st) (exfat_cluster_lba st (g_current_cluster st)) j"
  shows "\<exists>st4 st'. append_loop (exfat_cluster_lba st3 c) n x st3 = (True, st4)
     \<and> finish_entry t (Some c) len st4 = Some (0, st') \<and> keeps_dir st st'
     \<and> (\<forall>name. contents st' name
          = (if find_entry (dir st) name 0 = Some j then Some (d @ x) else contents st name))"
proof -
  have count: "unat (g_cluster_count st) \<le> 32768" using wf by (simp add: wf_dir_def volume_def)
  moreover have "cidx c + nspan (unat len) - 1 \<in> E" using nspan_pos [of "unat len"] by (auto simp: E)
  ultimately have le: "cidx c + nspan (n + length x) \<le> 32768" using sub len(1) by auto
  have v3: "volume st3" using ch by (simp add: changes_def)
  have "take n (hrun st3 (cidx c * 8) ((n + length x + 511) div 512)) = d"
    unfolding old [symmetric] by (rule take_run_file_bytes [OF v3]) simp
  from append_bytes [OF v3 c le this] obtain st4 where
    st4: "append_loop (exfat_cluster_lba st3 c) n x st3 = (True, st4)" "changes E st3 st4"
      "file_bytes st4 c (unat len) = d @ x" unfolding E len(1) by blast
  have ch4: "changes ({0} \<union> E) st st4"
    by (rule changes_mono [OF changes_trans [OF ch st4(2)]]) auto
  have "0 \<notin> E" using c by (auto simp: E cidx_def)
  then have bits4: "bit_used st4 i \<longleftrightarrow> i \<in> E \<or> bit_used st i \<and> i \<notin> extent (dir st) j" if "i < 32768" for i
    using changes_bits [OF v3 st4(2) _ that] bits [OF that] by simp
  from finish_file [OF wf find fits E c sub cur disj ch4 bits4 st4(3) t] st4(1) show ?thesis by blast
qed

lemma append_file_contents:
  assumes wf: "wf_dir st" and find: "find_entry (dir st) name 0 = Some j" and fits: "entry_fits (dir st) j"
    and old: "contents st name = Some d"
    and len: "length x = unat count" "count \<noteq> 0" "length d + unat count \<le> 2 ^ 27"
    and room: "nspan (length d + length x) = nspan (length d)
       \<or> (\<exists>f. free_run (bit_used st) (unat (g_cluster_count st)) (nspan (length d + length x)) f)"
  shows "\<exists>st'. exfat_append_file name x count st = Some (0, st') \<and> keeps_dir st st'
     \<and> (\<forall>n. contents st' n = (if find_entry (dir st) n 0 = Some j then Some (d @ x) else contents st n))"
proof -
  let ?cur = "g_current_cluster st" and ?b = "dir st"
  define t where "t = target_at ?b (exfat_cluster_lba st ?cur) j"
  have v: "volume st" "2 \<le> unat ?cur" using wf by (auto simp: wf_dir_def)
  have j: "j \<in> entries ?b" using find by (auto simp: entries_def)
  note res = resolve_find [OF v find, folded t_def]
  have tf: "tcluster t = fclus ?b j" "tsize t = rd64 ?b (j + 56)"
    by (simp_all add: t_def target_at_def fclus_def add.commute)
  note b = extent_bounds [OF wf j]
  have d: "d = file_bytes st (fclus ?b j) (fsize ?b j)" "length d = fsize ?b j"
    using old contents_find [OF v, of name] find v(1) by auto
  have n: "unat (tsize t) = fsize ?b j" by (simp add: tf fsize_def)
  define len where "len = tsize t + count"
  have l: "unat len = fsize ?b j + length x" "unat len \<le> 2 ^ 27" "unat len \<noteq> 0"
    using n len d(2) by (auto simp: len_def unat_word_ariths unat_eq_0)
  define k where "k = nspan (unat len)"
  have span: "unat (cluster_span (tsize t)) = nspan (fsize ?b j)" "cluster_span len = ucast ((len + 4095) div 4096)"
    "unat (cluster_span len) = k"
    using cluster_span_nspan [of "tsize t"] cluster_span_nspan [of len] b(2) l n
    by (auto simp: cluster_span_def k_def)
  have mono: "nspan (fsize ?b j) \<le> k" unfolding k_def using l(1) by (intro nspan_mono) simp
  have grow: "ucast ((len + 4095) div 4096) > cluster_span (tsize t) \<longleftrightarrow> k \<noteq> nspan (fsize ?b j)"
    unfolding span(2) [symmetric] using span mono by (auto simp: word_less_nat_alt)
  have old_sectors: "unat ((tsize t + 511) div 512) = (fsize ?b j + 511) div 512"
    using n b(2) by (simp add: unat_div unat_word_ariths)
  define goal where "goal c st3 \<longleftrightarrow> (\<exists>st4 st'. append_loop (exfat_cluster_lba st3 c) (fsize ?b j) x st3 = (True, st4)
      \<and> finish_entry t (Some c) len st4 = Some (0, st') \<and> keeps_dir st st'
      \<and> (\<forall>n. contents st' n = (if find_entry ?b n 0 = Some j then Some (d @ x) else contents st n)))" for c st3
  show ?thesis
  proof (cases "k = nspan (fsize ?b j)")
    case True
    have ext: "extent ?b j = {cidx (fclus ?b j)..<cidx (fclus ?b j) + nspan (unat len)}"
      using True by (simp add: extent_def k_def)
    have "goal (fclus ?b j) st"
      unfolding goal_def
      by (rule append_placed [OF wf find fits l(1) refl b(3) ext])
        (use wf j v d in \<open>auto simp: wf_dir_def t_def\<close>)
    then show ?thesis
      using True grow len(1,2) n
      by (auto simp: goal_def exfat_append_file_def res tf(1) len_def [symmetric] Let_def)
  next
    case False
    with room have "\<exists>f. free_run (bit_used st) (unat (g_cluster_count st)) k f"
      using l(1) d(2) by (simp add: k_def)
    from alloc_blocks_run [OF wf _ this] obtain f c st1 where
      a: "exfat_alloc_blocks (of_nat k) st = (c, st1)" "free_run (bit_used st) (unat (g_cluster_count st)) k f"
        "cidx c = f" "3 \<le> unat c" "changes {0} st st1"
        "\<forall>i<32768. bit_used st1 i \<longleftrightarrow> bit_used st i \<or> f \<le> i \<and> i < f + k"
      using nspan_pos [of "unat len"] by (auto simp: k_def)
    have "fsize ?b j \<le> unat len" using l(1) by simp
    from append_moved [OF wf j k_def this a] obtain st2 where
      cp: "copy_sectors (exfat_cluster_lba st1 (fclus ?b j)) (exfat_cluster_lba st1 c)
            [0..<(fsize ?b j + 511) div 512] st1 = (True, st2)"
      and mv: "\<And>st3. st3 = exfat_free_blocks (fclus ?b j) (cluster_span (rd64 ?b (j + 56))) st2 \<Longrightarrow>
          changes ({0} \<union> {f..<f + k}) st st3 \<and> file_bytes st3 c (fsize ?b j) = d
          \<and> (\<forall>i<32768. bit_used st3 i \<longleftrightarrow> i \<in> {f..<f + k} \<or> bit_used st i \<and> i \<notin> extent ?b j)"
      unfolding d(1) by blast
    define st3 where "st3 = exfat_free_blocks (fclus ?b j) (cluster_span (rd64 ?b (j + 56))) st2"
    have "goal c st3"
      unfolding goal_def
      by (rule append_placed [OF wf find fits l(1) refl a(4) refl])
        (use mv [OF st3_def] run_apart [OF wf a(2)] in \<open>auto simp: a(3) k_def t_def\<close>)
    moreover have "c \<noteq> 0" using a(4) by auto
    moreover have "of_nat k = cluster_span len" unfolding span(3) [symmetric] by simp
    ultimately show ?thesis
      using False grow len(1,2) n a(1) cp unfolding st3_def
      by (auto simp: goal_def exfat_append_file_def res tf span(2) len_def [symmetric, unfolded tf]
          old_sectors [unfolded tf] Let_def)
  qed
qed

lemma append_file_full:
  assumes wf: "wf_dir st" and find: "find_entry (dir st) name 0 = Some j" and old: "contents st name = Some d"
    and len: "length x = unat count" "count \<noteq> 0" "length d + unat count \<le> 2 ^ 27"
    and full: "nspan (length d + length x) \<noteq> nspan (length d)"
      "\<nexists>f. free_run (bit_used st) (unat (g_cluster_count st)) (nspan (length d + length x)) f"
  shows "exfat_append_file name x count st = Some (-1, st)"
proof -
  let ?cur = "g_current_cluster st" and ?b = "dir st"
  define t where "t = target_at ?b (exfat_cluster_lba st ?cur) j"
  have v: "volume st" "2 \<le> unat ?cur" using wf by (auto simp: wf_dir_def)
  note res = resolve_find [OF v find, folded t_def]
  have n: "unat (tsize t) = length d"
    using old contents_find [OF v, of name] find v(1) by (auto simp: t_def target_at_def fsize_def add.commute)
  define len where "len = tsize t + count"
  have l: "unat len = length d + length x" using n assms(4-6) by (simp add: len_def unat_word_ariths)
  have "len \<noteq> 0" using l assms(4,5) by (auto simp: unat_eq_0)
  then have span: "ucast ((len + 4095) div 4096) = cluster_span len" by (simp add: cluster_span_def)
  have u: "unat (cluster_span len) = nspan (length d + length x)" "unat (cluster_span (tsize t)) = nspan (length d)"
    using cluster_span_nspan [of len] cluster_span_nspan [of "tsize t"] l n assms(4,6) by simp_all
  have grow: "cluster_span (tsize t) < cluster_span len"
    using u full(1) nspan_mono [of "length d" "length d + length x"] by (simp add: word_less_nat_alt)
  have "cluster_span len \<noteq> 0" using u(1) nspan_pos [of "length d + length x"] by auto
  moreover obtain c st1 where e: "exfat_alloc_blocks (cluster_span len) st = (c, st1)" by fastforce
  ultimately have "c = 0 \<and> st1 = st" using alloc_blocks_spec [OF v(1) _ e] full(2) u(1) by simp
  then show ?thesis using grow assms(5) e by (simp add: exfat_append_file_def res len_def [symmetric] span Let_def)
qed

section \<open>The small volume\<close>

lemma entry_set_a:
  "entry_set (asc ''a'') False 5 = [133, 2, 14, 51, 32, 0] @ replicate 26 0
     @ [192, 3, 0, 1, 32, 128] @ replicate 14 0 @ [5] @ replicate 11 0 @ [193, 0, 97] @ replicate 29 0"
  by code_simp

lemma lba_sample: "exfat_cluster_lba sample 4 + of_nat s = of_nat (6160 + s)"
  by (simp add: exfat_cluster_lba_def sample_def)

lemma dir_sample: "dir sample = entry_set (asc ''a'') False 5 @ replicate 4000 0"
proof -
  have c: "g_current_cluster sample = 4" by (simp add: sample_def)
  have "sec sample (of_nat (6160 + s)) = (if s = 0 then entry_set (asc ''a'') False 5 @ replicate 416 0 else replicate 512 0)"
    if "s < 8" for s
  proof -
    have "unat (of_nat (6160 + s) :: u64) = 6160 + s"
      by (simp only: unat_of_nat) (use that in simp)
    then have "of_nat (6160 + s) = (6160 :: u64) \<longleftrightarrow> s = 0" "of_nat (6160 + s) \<noteq> (6144 :: u64)"
      by (auto simp: word_unat_eq_iff)
    then show ?thesis by (simp only: sec_sample if_False)
  qed
  then have "map (\<lambda>s. sec sample (exfat_cluster_lba sample 4 + of_nat s)) [0..<8]
      = map (\<lambda>s. if s = 0 then entry_set (asc ''a'') False 5 @ replicate 416 0 else replicate 512 0) [0..<8]"
    unfolding lba_sample by (intro map_cong) auto
  then show ?thesis
    unfolding clus_def c by (simp add: upt_rec replicate_add [symmetric])
qed

lemma find_entry_none: "(\<And>k. i \<le> k \<Longrightarrow> k \<le> 4000 \<Longrightarrow> b ! k \<noteq> EXFAT_TYPE_FILE) \<Longrightarrow> find_entry b n i = None"
  by (induction b n i rule: find_entry.induct) (subst find_entry.simps, auto)

lemma length_a: "length (entry_set (asc ''a'') False 5) = 96"
  by (simp add: length_entry_set asc_def)

lemma nth_dir_sample:
  "k < 96 \<Longrightarrow> dir sample ! k = entry_set (asc ''a'') False 5 ! k"
  "96 \<le> k \<Longrightarrow> k < 4096 \<Longrightarrow> dir sample ! k = 0"
  unfolding dir_sample by (simp_all add: nth_append length_a)

lemma slots_sample:
  "entry_set (asc ''a'') False 5 ! 0 = 133" "entry_set (asc ''a'') False 5 ! 1 = 2"
  "entry_set (asc ''a'') False 5 ! 32 = 192" "entry_set (asc ''a'') False 5 ! 64 = 193"
  by code_simp+

lemma slice_sample: "k + n \<le> 96 \<Longrightarrow> take n (drop k (dir sample)) = take n (drop k (entry_set (asc ''a'') False 5))"
  unfolding dir_sample by (simp add: length_a)

lemma fields_sample: "fclus (dir sample) 0 = 5" "fsize (dir sample) 0 = 0"
proof -
  have "of_le (take 4 (drop 52 (entry_set (asc ''a'') False 5))) = (5 :: u32)"
    "of_le (take 8 (drop 56 (entry_set (asc ''a'') False 5))) = (0 :: u64)" by code_simp+
  then show "fclus (dir sample) 0 = 5" "fsize (dir sample) 0 = 0"
    by (simp_all add: fclus_def fsize_def rd32_def rd64_def slice_sample)
qed

lemma name_chars_stop: "rd16 b i = 0 \<Longrightarrow> name_chars b i n nb = nb"
  by (cases n) simp_all

lemma find_sample: "find_entry (dir sample) n 0 = (if exfat_name_equal (asc ''a'') n then Some 0 else None)"
proof -
  have rd: "rd16 (dir sample) 66 = 97" "rd16 (dir sample) 68 = 0"
  proof -
    have "of_le (take 2 (drop 66 (entry_set (asc ''a'') False 5))) = (97 :: u16)"
      "of_le (take 2 (drop 68 (entry_set (asc ''a'') False 5))) = (0 :: u16)" by code_simp+
    then show "rd16 (dir sample) 66 = 97" "rd16 (dir sample) 68 = 0" by (simp_all add: rd16_def slice_sample)
  qed
  have "name_chars (dir sample) 66 (Suc 14) [] = asc ''a''"
    using rd name_chars_stop [of "dir sample" 68] by (subst name_chars.simps(2)) (simp add: asc_def)
  moreover have c: "cstr (asc ''a'') = asc ''a''" by code_simp
  ultimately have nm: "cstr (entry_name (dir sample) 0 2 2 []) = asc ''a''"
    by (subst entry_name.simps, subst entry_name.simps) (simp add: nth_dir_sample slots_sample c)
  have none: "find_entry (dir sample) n 96 = None"
    by (rule find_entry_none) (simp add: nth_dir_sample)
  show ?thesis
    using nm none slots_sample(2) by (subst find_entry.simps) (simp add: nth_dir_sample slots_sample)
qed

lemma wf_sample: "wf_dir sample"
proof -
  have g: "g_current_cluster sample = 4" "g_cluster_count sample = 1000" by (simp_all add: sample_def)
  have "entries (dir sample) \<subseteq> {0}" by (auto simp: entries_def find_sample split: if_splits)
  moreover have "extent (dir sample) 0 = {3}" by (auto simp: extent_def fields_sample cidx_def nspan_def)
  ultimately show ?thesis
    unfolding wf_dir_def using volume_sample
    by (auto simp: g bit_used_sample fields_sample [unfolded g] cidx_def subset_iff)
qed

lemma fits_sample: "entry_fits (dir sample) 0"
  using slots_sample(2) by (simp add: entry_fits_def nth_dir_sample slots_sample)

section \<open>Properties\<close>


lemma sample_count: "unat (g_cluster_count sample) = 1000"
  by (simp add: sample_def)

lemma free_sample: "4 \<le> f \<Longrightarrow> f + k \<le> 1000 \<Longrightarrow> free_run (bit_used sample) (unat (g_cluster_count sample)) k f"
  using sample_count by (auto simp: free_run_def bit_used_sample)




text \<open>
  C21: Reading any part of a file in a directory in good order returns exactly that slice of its
  contents, and its length.
\<close>

theorem exfat_read_file_at_slice:
  assumes "wf_dir st" and "contents st name = Some d"
  shows "exfat_read_file_at st name False offset max_bytes
       = (int (length (take (unat max_bytes) (drop (unat offset) d))),
          take (unat max_bytes) (drop (unat offset) d))"
  using assms by (rule wf_read)

theorem exfat_read_file_at_slice_witness:
  "\<exists>st'. exfat_write_file (asc ''a'') (asc ''hello'') 5 sample = Some (0, st')
     \<and> exfat_read_file_at st' (asc ''A'') False 1 3 = (3, asc ''ell'')"
proof -
  have f: "find_entry (dir sample) (asc ''a'') 0 = Some 0" "find_entry (dir sample) (asc ''A'') 0 = Some 0"
    unfolding find_sample by code_simp+
  have "length (asc ''hello'') = unat (5 :: u64)" by (simp add: asc_def)
  with write_file_contents [OF wf_sample f(1) fits_sample, of "asc ''hello''" 5] f obtain st' where
    w: "exfat_write_file (asc ''a'') (asc ''hello'') 5 sample = Some (0, st')" "wf_dir st'"
      "contents st' (asc ''A'') = Some (asc ''hello'')" by (auto simp: nspan_def fields_sample dest: keeps_dir_wf)
  from exfat_read_file_at_slice [OF w(2,3), of 1 3] w(1) show ?thesis by (simp add: asc_def)
qed

end
