(* ===== verification/LinuxFiles.thy ===== *)
theory LinuxFiles
  imports LinuxMem ExfatDir
begin

text \<open>
  Files through the whole stack: the \<open>read\<close> and \<open>write\<close> calls of Linux programs, the paths of
  \<open>helper/drivers/filesystem/vfs.c\<close>, the exFAT directory on the disk, and the memory of the program.
\<close>

section \<open>Names in the working directory\<close>

definition plain_name :: "bytes \<Rightarrow> bool" where
  "plain_name s \<longleftrightarrow> s \<noteq> [] \<and> length s < 255 \<and> s \<noteq> asc ''.''
     \<and> list_all (\<lambda>c. c \<noteq> slash \<and> c \<noteq> 58 \<and> c \<noteq> 32 \<and> \<not> is_trailing c) s"

lemma fs_enter_plain:
  assumes "plain_name s" and "drive_mounted v (vfs_drive v)"
  shows "fs_enter_path (Some s) v = Some (Some (s, None), v)" and "fs_prepare_path s 256 v = Some (Some s, v)"
proof -
  have s: "s \<noteq> []" "length s < 255" "slash \<notin> set s" "\<forall>c\<in>set s. c \<noteq> 58 \<and> c \<noteq> 32 \<and> \<not> is_trailing c"
    using assms(1) unfolding plain_name_def list_all_iff by blast+
  have "\<not> (2 \<le> length s \<and> s ! 1 = 58)" using s(4) by (metis Suc_1 Suc_le_lessD nth_mem One_nat_def)
  then show p: "fs_prepare_path s 256 v = Some (Some s, v)"
    using s(2) assms(2) by (auto simp: fs_prepare_path_def)
  have d: "dropWhile (\<lambda>c. c = 32) s = s" "strip_trailing s = s"
  proof -
    show "dropWhile (\<lambda>c. c = 32) s = s" using s(1,4) by (cases s) auto
    have "\<not> is_trailing (hd (rev s))" using s(1,4) by (simp add: hd_rev)
    then have "dropWhile is_trailing (rev s) = rev s" using s(1) by (cases "rev s") auto
    then show "strip_trailing s = s" by (simp add: strip_trailing_def)
  qed
  have "strip_slashes s = s" using s(1,3) by (subst strip_slashes.simps) (auto dest: last_in_set)
  with d s have "fs_split_path s = Some (Some ([], s))"
    by (auto simp: fs_split_path_def fs_sanitize_path_def Let_def)
  with p s(1) show "fs_enter_path (Some s) v = Some (Some (s, None), v)" by (simp add: fs_enter_path_def)
qed

lemma at_plain:
  assumes "plain_name s" and "drive_mounted v (vfs_drive v)"
  shows "at_path (Some s) fail op v = map_option (\<lambda>(rc, f). (rc, v \<lparr> fat := f \<rparr>)) (op s (fat v))"
  using fs_enter_plain [OF assms] by (cases "op s (fat v)") (auto simp: at_path_def fs_leave_path_def)

lemma fs_get_info_plain:
  assumes "plain_name s" and "drive_mounted v (vfs_drive v)"
  shows "fs_get_info (Some s) v = Some (exfat_get_info (fat v) (Some s), v)"
proof -
  have "s \<noteq> asc ''.''" "s \<noteq> asc ''/''" using assms(1) by (auto simp: plain_name_def asc_def)
  then show ?thesis using fs_enter_plain(2) [OF assms] by (simp add: fs_get_info_def at_plain [OF assms])
qed

lemma fs_read_raw_at_plain:
  assumes "plain_name s" and "drive_mounted v (vfs_drive v)" and "wf_dir (fat v)" and "contents (fat v) s = Some d"
    and "length d < 2 ^ 31"
  shows "fs_read_raw_at (Some s) False offset n v =
    Some ((int (length (take (unat n) (drop (unat offset) d))), take (unat n) (drop (unat offset) d)), v)"
proof -
  let ?t = "take (unat n) (drop (unat offset) d)"
  have l: "length ?t < 2 ^ 31" using assms(5) by simp
  have "signed_take_bit 31 (int (length ?t)) = int (length ?t)"
    by (rule signed_take_bit_int_eq_self) (use l in simp_all)
  then have "to_int (int (length ?t)) = int (length ?t)" by (simp only: to_int_def signed_of_int) simp
  then show ?thesis unfolding fs_read_raw_at_def at_plain [OF assms(1,2)] wf_read [OF assms(3,4)] by simp
qed

section \<open>Writing\<close>

lemma file_image_parts:
  assumes "length data > 0"
  shows "length (file_image old off data) = max (length old) (off + length data)"
    and "take off (file_image old off data) = take off (old @ replicate (off - length old) 0)"
    and "take (length data) (drop off (file_image old off data)) = data"
    and "drop (off + length data) (file_image old off data) = drop (off + length data) old"
  using assms by (auto simp: file_image_def Let_def buf_put_def)

lemma loads_accessible:
  assumes "sound st F" and "n \<noteq> 0" and "user_range_accessible st a n False"
  shows "\<exists>bs. user_loads st a (unat n) = Some bs"
proof -
  have "\<forall>i<unat n. user_page_accessible st (a + of_nat i) False"
    using assms(3) unfolding user_range_accessible_iff [OF assms(2)] by blast
  then have "user_loads st a (unat n) = Some (map (\<lambda>i. peek8 (mem st) (phys st (a + of_nat i))) [0..<unat n])"
    unfolding user_loads_iff using load_sound [OF assms(1)] by simp
  then show ?thesis by blast
qed

lemma info_contents:
  assumes "volume st" and "exfat_get_info st (Some s) = Some (sz, is_dir)" and "contents st s = Some d"
  shows "length d = unat sz"
  using assms by (auto simp: exfat_get_info_def contents_def bind_eq_Some_conv)

text \<open>A descriptor of a regular file in the working directory, with its contents, and its place in the
  directory.\<close>

definition file_open :: "kernel \<Rightarrow> nat \<Rightarrow> bytes \<Rightarrow> bool" where
  "file_open k fd old \<longleftrightarrow> fd < length (file_descriptors (linux k)) \<and> \<not> fd_is_terminal (fd_at k fd) \<and> \<not> fd_is_dir (fd_at k fd)
     \<and> plain_name (fd_path (fd_at k fd)) \<and> drive_mounted (files k) (vfs_drive (files k)) \<and> wf_dir (fat (files k))
     \<and> contents (fat (files k)) (fd_path (fd_at k fd)) = Some old"

definition file_entry :: "kernel \<Rightarrow> nat \<Rightarrow> nat \<Rightarrow> bytes \<Rightarrow> bool" where
  "file_entry k fd j old \<longleftrightarrow> file_open k fd old
     \<and> find_entry (dir (fat (files k))) (fd_path (fd_at k fd)) 0 = Some j \<and> entry_fits (dir (fat (files k))) j
     \<and> exfat_get_info (fat (files k)) (Some (fd_path (fd_at k fd))) = Some (of_nat (length old), False)"

lemma fs_write_bytes_plain:
  assumes "plain_name s" and "drive_mounted v (vfs_drive v)" and "wf_dir (fat v)"
    and "find_entry (dir (fat v)) s 0 = Some j" and "entry_fits (dir (fat v)) j" and "length data \<le> 65536"
    and "contents (fat v) s = Some old"
    and "nspan (length data) = nspan (length old)
       \<or> (\<exists>f. free_run (bit_used (fat v)) (unat (g_cluster_count (fat v))) (nspan (length data)) f)"
  shows "\<exists>f. fs_write_bytes (Some s) data (of_nat (length data)) v = Some (0, v \<lparr> fat := f \<rparr>) \<and> wf_dir f
     \<and> (\<forall>n. contents f n = (if find_entry (dir (fat v)) n 0 = Some j then Some data else contents (fat v) n))"
proof -
  have v: "volume (fat v)" "2 \<le> unat (g_current_cluster (fat v))" using assms(3) by (auto simp: wf_dir_def)
  have l: "length data = unat (ucast (of_nat (length data) :: u32) :: u64)"
    using assms(6) by (simp add: unsigned_ucast_eq unat_of_nat take_bit_nat_eq_self)
  have z: "fsize (dir (fat v)) j = length old"
    using assms(4,7) contents_find [OF v] length_file_bytes [OF v(1)] by auto
  from write_file_contents [OF assms(3,4,5) l] assms(6,8) obtain f where
    "exfat_write_file s data (ucast (of_nat (length data) :: u32)) (fat v) = Some (0, f)" "wf_dir f"
    "\<forall>n. contents f n = (if find_entry (dir (fat v)) n 0 = Some j then Some data else contents (fat v) n)"
    unfolding l [symmetric] z by (auto dest: keeps_dir_wf)
  then show ?thesis by (auto simp: fs_write_bytes_def at_plain [OF assms(1,2)])
qed

lemma linux_write_file_ok:
  assumes "file_entry k fd j old" and "count \<noteq> 0" and "unat (fd_offset (fd_at k fd)) + unat count \<le> 65536"
    and "length old \<le> 65536" and "user_loads (vm k) buf (unat count) = Some data"
    and "img = file_image old (unat (fd_offset (fd_at k fd))) data"
    and "nspan (length img) = nspan (length old)
       \<or> (\<exists>f. free_run (bit_used (fat (files k))) (unat (g_cluster_count (fat (files k)))) (nspan (length img)) f)"
  shows "\<exists>f. linux_write_file fd buf count (of_nat (length old)) k =
       Some (count, set_fd fd ((fd_at k fd) \<lparr> fd_offset := fd_offset (fd_at k fd) + count \<rparr>) (k \<lparr> files := (files k) \<lparr> fat := f \<rparr> \<rparr>))
     \<and> wf_dir f \<and> (\<forall>n. contents f n =
          (if find_entry (dir (fat (files k))) n 0 = Some j then Some img else contents (fat (files k)) n))"
proof -
  let ?d = "fd_at k fd" and ?v = "files k" and ?o = "of_nat (length old) :: u64"
  have o: "plain_name (fd_path ?d)" "drive_mounted ?v (vfs_drive ?v)" "wf_dir (fat ?v)"
    "find_entry (dir (fat ?v)) (fd_path ?d) 0 = Some j" "entry_fits (dir (fat ?v)) j" "contents (fat ?v) (fd_path ?d) = Some old"
    using assms(1) by (auto simp: file_entry_def file_open_def)
  have ol: "unat ?o = length old" using assms(4) by (simp add: unat_of_nat)
  have "fd_offset ?d \<le> LINUX_FILE_IO_LIMIT" using assms(3) by (simp add: word_le_nat_alt)
  moreover from this have "unat (LINUX_FILE_IO_LIMIT - fd_offset ?d) = 65536 - unat (fd_offset ?d)" by (subst unat_sub) simp_all
  then have "count \<le> LINUX_FILE_IO_LIMIT - fd_offset ?d" using assms(3) by (simp add: word_le_nat_alt)
  moreover have "?o \<le> LINUX_FILE_IO_LIMIT" using ol assms(4) by (simp add: word_le_nat_alt)
  ultimately have g: "(LINUX_FILE_IO_LIMIT < fd_offset ?d \<or> LINUX_FILE_IO_LIMIT - fd_offset ?d < count \<or> LINUX_FILE_IO_LIMIT < ?o) = False"
    by (meson not_le)
  have "length data = unat count" using assms(5) unfolding user_loads_iff by blast
  moreover have "0 < unat count" using assms(2) by (simp add: unat_gt_0)
  ultimately have il: "length img \<le> 65536" using assms(3,4) file_image_parts(1) [of data old] by (simp add: assms(6))
  have r: "(if ?o \<noteq> 0 then fs_read_raw_at (Some (fd_path ?d)) False 0 ?o ?v else Some ((0, []), ?v)) = Some ((int (length old), old), ?v)"
  proof (cases "?o = 0")
    case True
    then show ?thesis using ol by simp
  next
    case False
    have "length old < 2 ^ 31" using assms(4) by simp
    from fs_read_raw_at_plain [OF o(1-3,6) this, of 0 ?o] False show ?thesis by (simp add: ol)
  qed
  from fs_write_bytes_plain [OF o(1-5) il o(6) assms(7)] obtain f where
    f: "fs_write_bytes (Some (fd_path ?d)) img (of_nat (length img)) ?v = Some (0, ?v \<lparr> fat := f \<rparr>)" "wf_dir f"
      "\<forall>n. contents f n = (if find_entry (dir (fat ?v)) n 0 = Some j then Some img else contents (fat ?v) n)" by blast
  have "linux_write_file fd buf count ?o k =
      Some (count, set_fd fd (?d \<lparr> fd_offset := fd_offset ?d + count \<rparr>) (k \<lparr> files := ?v \<lparr> fat := f \<rparr> \<rparr>))"
    unfolding linux_write_file_def Let_def g if_False assms(5) bind.bind_lunit r prod.case
    using f(1) by (simp add: assms(6))
  with f(2,3) show ?thesis by blast
qed

text \<open>The position a write goes to.\<close>

definition write_pos :: "kernel \<Rightarrow> nat \<Rightarrow> bytes \<Rightarrow> u64" where
  "write_pos k fd old = (if fd_append (fd_at k fd) then of_nat (length old) else fd_offset (fd_at k fd))"

lemma write_start:
  assumes "file_entry k fd j old"
  defines "k1 \<equiv> (if fd_append (fd_at k fd) then set_fd fd ((fd_at k fd) \<lparr> fd_offset := of_nat (length old) \<rparr>) k else k)"
  shows "file_entry k1 fd j old" and "fd_at k1 fd = (fd_at k fd) \<lparr> fd_offset := write_pos k fd old \<rparr>" and "vm k1 = vm k"
    and "files k1 = files k" and "i \<noteq> fd \<Longrightarrow> fd_at k1 i = fd_at k i"
proof -
  have "fd < length (file_descriptors (linux k))" using assms(1) by (simp add: file_entry_def file_open_def)
  then show d: "fd_at k1 fd = (fd_at k fd) \<lparr> fd_offset := write_pos k fd old \<rparr>"
    by (simp add: k1_def write_pos_def set_fd_def)
  show v: "vm k1 = vm k" "files k1 = files k" "i \<noteq> fd \<Longrightarrow> fd_at k1 i = fd_at k i" by (simp_all add: k1_def set_fd_def)
  show "file_entry k1 fd j old" using assms(1) unfolding file_entry_def file_open_def d v by (simp add: k1_def set_fd_def)
qed

lemma linux_write_fd_ok:
  assumes "sound (vm k) F" and o: "file_entry k fd j old" and w: "fd_writable (fd_at k fd)" and c: "count \<noteq> 0"
    and p: "unat (write_pos k fd old) + unat count \<le> 65536" and "length old \<le> 65536"
    and a: "user_range_accessible (vm k) buf count False"
    and "N = max (length old) (unat (write_pos k fd old) + unat count)"
    and "nspan N = nspan (length old)
       \<or> (\<exists>f. free_run (bit_used (fat (files k))) (unat (g_cluster_count (fat (files k)))) (nspan N) f)"
  shows "\<exists>data k'. user_loads (vm k) buf (unat count) = Some data \<and> linux_write_fd fd buf count k = Some (count, k')
     \<and> vm k' = vm k \<and> files k' = (files k) \<lparr> fat := fat (files k') \<rparr> \<and> wf_dir (fat (files k'))
     \<and> length (file_descriptors (linux k')) = length (file_descriptors (linux k))
     \<and> fd_at k' fd = (fd_at k fd) \<lparr> fd_offset := write_pos k fd old + count \<rparr>
     \<and> (\<forall>i. i \<noteq> fd \<longrightarrow> fd_at k' i = fd_at k i)
     \<and> (\<forall>n. contents (fat (files k')) n = (if find_entry (dir (fat (files k))) n 0 = Some j
          then Some (file_image old (unat (write_pos k fd old)) data) else contents (fat (files k)) n))"
proof -
  let ?d = "fd_at k fd" and ?pos = "write_pos k fd old"
  define k1 where "k1 = (if fd_append ?d then set_fd fd (?d \<lparr> fd_offset := of_nat (length old) \<rparr>) k else k)"
  note s = write_start [OF o, folded k1_def]
  obtain data where l: "user_loads (vm k) buf (unat count) = Some data" using loads_accessible [OF assms(1) c a] by blast
  then have "length data = unat count" unfolding user_loads_iff by blast
  moreover have "0 < unat count" using c by (simp add: unat_gt_0)
  ultimately have N: "length (file_image old (unat ?pos) data) = N" using file_image_parts(1) [of data old] assms(8) by simp
  have "\<exists>f. linux_write_file fd buf count (of_nat (length old)) k1 =
       Some (count, set_fd fd ((fd_at k1 fd) \<lparr> fd_offset := fd_offset (fd_at k1 fd) + count \<rparr>) (k1 \<lparr> files := (files k1) \<lparr> fat := f \<rparr> \<rparr>))
     \<and> wf_dir f \<and> (\<forall>n. contents f n = (if find_entry (dir (fat (files k1))) n 0 = Some j
          then Some (file_image old (unat ?pos) data) else contents (fat (files k1)) n))"
    by (rule linux_write_file_ok [OF s(1) c]) (use s(2-4) p l assms(6,9) N in simp_all)
  then obtain f where
    f: "linux_write_file fd buf count (of_nat (length old)) k1 =
       Some (count, set_fd fd ((fd_at k1 fd) \<lparr> fd_offset := fd_offset (fd_at k1 fd) + count \<rparr>) (k1 \<lparr> files := (files k1) \<lparr> fat := f \<rparr> \<rparr>))"
      "wf_dir f" "\<forall>n. contents f n = (if find_entry (dir (fat (files k))) n 0 = Some j
          then Some (file_image old (unat ?pos) data) else contents (fat (files k)) n)" unfolding s(4) by blast
  have "\<not> USER_IO_LIMIT < count" using p by (simp add: word_less_nat_alt)
  moreover have "get_file_info (fd_path ?d) k = Some (Some (of_nat (length old), False), k)"
    using o fs_get_info_plain [of "fd_path ?d" "files k"] by (simp add: file_entry_def file_open_def get_file_info_def)
  ultimately have "linux_write_fd fd buf count k = linux_write_file fd buf count (of_nat (length old)) k1"
    using o w c a unfolding linux_write_fd_def Let_def k1_def file_entry_def file_open_def by simp
  moreover have "fd < length (file_descriptors (linux k1))" using s(1) by (simp add: file_entry_def file_open_def)
  moreover have "length (file_descriptors (linux k1)) = length (file_descriptors (linux k))" by (simp add: k1_def set_fd_def)
  ultimately show ?thesis using l f s(2,3,5) s(4)
    by (intro exI [of _ data] exI [of _ "set_fd fd ((fd_at k1 fd) \<lparr> fd_offset := fd_offset (fd_at k1 fd) + count \<rparr>)
        (k1 \<lparr> files := (files k1) \<lparr> fat := f \<rparr> \<rparr>)"] conjI) (simp_all add: set_fd_def)
qed

section \<open>Reading\<close>

lemma stores_prefix:
  assumes "sound st F" and "n \<noteq> 0" and "user_range_accessible st a n True" and "length bs \<le> unat n"
  shows "\<exists>st'. user_stores a bs st = Some st' \<and> sound st' F \<and> user_loads st' a (length bs) = Some bs
     \<and> (\<forall>x. user_page_accessible st x False \<longrightarrow> unat (x - a) \<ge> length bs \<longrightarrow> user_load st' x = user_load st x)"
proof (cases "bs = []")
  case False
  let ?m = "of_nat (length bs) :: u64"
  have "length bs < 2 ^ 64" using assms(4) unsigned_less [of n, where ?'a = nat] by simp
  then have u: "unat ?m = length bs" by (simp add: unat_of_nat)
  have m: "?m \<noteq> 0" using False u by (metis length_0_conv unat_0)
  have "user_range_accessible st a ?m True"
    using assms(3,4) unfolding user_range_accessible_iff [OF assms(2)] user_range_accessible_iff [OF m] u by auto
  from copy_out_ok [OF assms(1) _ m this, of bs] show ?thesis by (simp add: u)
qed (use assms(1) in simp)

lemma linux_read_fd_ok:
  assumes "sound (vm k) F" and o: "file_open k fd old" and w: "fd_readable (fd_at k fd)" and c: "count \<noteq> 0"
    and "count \<le> USER_IO_LIMIT" and "length old < 2 ^ 31" and a: "user_range_accessible (vm k) buf count True"
    and p: "from_off = (if positional then offset else fd_offset (fd_at k fd))"
    and b: "bs = take (unat count) (drop (unat from_off) old)"
  shows "\<exists>k'. linux_read_fd fd buf count positional offset k = Some (of_nat (length bs), k')
     \<and> sound (vm k') F \<and> user_loads (vm k') buf (length bs) = Some bs
     \<and> (\<forall>x. user_page_accessible (vm k) x False \<longrightarrow> unat (x - buf) \<ge> length bs \<longrightarrow> user_load (vm k') x = user_load (vm k) x)
     \<and> files k' = files k
     \<and> fd_offset (fd_at k' fd) = (if positional then fd_offset (fd_at k fd) else from_off + of_nat (length bs))
     \<and> (\<forall>i. i \<noteq> fd \<longrightarrow> fd_at k' i = fd_at k i)"
proof -
  let ?d = "fd_at k fd"
  have d: "fd < length (file_descriptors (linux k))" "\<not> fd_is_terminal ?d" "\<not> fd_is_dir ?d" "plain_name (fd_path ?d)"
    "drive_mounted (files k) (vfs_drive (files k))" "wf_dir (fat (files k))" "contents (fat (files k)) (fd_path ?d) = Some old"
    using o by (auto simp: file_open_def)
  have "length bs \<le> unat count" using b by simp
  from stores_prefix [OF assms(1) c a this] obtain st where
    s: "user_stores buf bs (vm k) = Some st" "sound st F" "user_loads st buf (length bs) = Some bs"
      "\<forall>x. user_page_accessible (vm k) x False \<longrightarrow> unat (x - buf) \<ge> length bs \<longrightarrow> user_load st x = user_load (vm k) x" by blast
  let ?k = "if positional then k \<lparr> vm := st \<rparr>
    else set_fd fd (?d \<lparr> fd_offset := fd_offset ?d + of_nat (length bs) \<rparr>) (k \<lparr> vm := st \<rparr>)"
  have r: "fs_read_raw_at (Some (fd_path ?d)) False from_off count (files k) = Some ((int (length bs), bs), files k)"
    using fs_read_raw_at_plain [OF d(4-7) assms(6)] b by simp
  have "\<not> USER_IO_LIMIT < count" using assms(5) by simp
  then have "linux_read_fd fd buf count positional offset k = Some (of_nat (length bs), ?k)"
    using w c a d(2,3) r s(1) unfolding linux_read_fd_def Let_def p [symmetric] by (simp add: store_user_def)
  then show ?thesis using s(2-4) d(1) p by (intro exI [of _ ?k] conjI) (simp_all add: set_fd_def)
qed

text \<open>Reading back what was written, at its position and into another buffer.\<close>

lemma linux_write_read:
  assumes "sound (vm k) F" and e: "file_entry k fd j old" and r: "fd_readable (fd_at k fd)" and c: "count \<noteq> 0"
    and w: "linux_write_fd fd buf count k = Some (count, k')" and l: "user_loads (vm k) buf (unat count) = Some data"
    and v: "vm k' = vm k" and f: "files k' = (files k) \<lparr> fat := fat (files k') \<rparr>" and wf: "wf_dir (fat (files k'))"
    and n: "length (file_descriptors (linux k')) = length (file_descriptors (linux k))"
    and d: "fd_at k' fd = (fd_at k fd) \<lparr> fd_offset := off + count \<rparr>"
    and i: "contents (fat (files k')) (fd_path (fd_at k fd)) = Some (file_image old (unat off) data)"
    and p: "unat off + unat count \<le> 65536" and "length old \<le> 65536"
    and a: "user_range_accessible (vm k) buf2 count True"
  shows "\<exists>k2. linux_read_fd fd buf2 count True off k' = Some (count, k2) \<and> user_loads (vm k2) buf2 (unat count) = Some data
     \<and> files k2 = files k'"
proof -
  let ?img = "file_image old (unat off) data"
  have ld: "length data = unat count" using l unfolding user_loads_iff by blast
  have "0 < unat count" using c by (simp add: unat_gt_0)
  with ld have parts: "length ?img = max (length old) (unat off + unat count)"
    "take (unat count) (drop (unat off) ?img) = data" using file_image_parts(1,3) [where data = data and old = old and off = "unat off"] by simp_all
  have m: "drive_mounted (files k') (vfs_drive (files k')) = drive_mounted (files k) (vfs_drive (files k))"
    by (subst f) (subst (2) f, simp)
  have o: "file_open k' fd ?img" using e wf n i m by (simp add: file_entry_def file_open_def d)
  have le: "count \<le> USER_IO_LIMIT" using p by (simp add: word_le_nat_alt)
  have s: "length ?img < 2 ^ 31" using parts(1) p assms(14) by simp
  have "sound (vm k') F" "fd_readable (fd_at k' fd)" "user_range_accessible (vm k') buf2 count True"
    using assms(1) r a by (simp_all add: v d)
  from linux_read_fd_ok [OF this(1) o this(2) c le s this(3), of off True off] show ?thesis
    by (auto simp: parts ld)
qed

section \<open>A kernel with a disk\<close>

text \<open>A program with one page of memory, and the file \<open>a\<close> of the small volume open as descriptor 3.\<close>

definition disk_kernel :: "machine \<Rightarrow> kernel" where
  "disk_kernel st = set_fd 3 (closed_fd \<lparr> fd_open := True, fd_readable := True, fd_writable := True, fd_path := asc ''a'' \<rparr>)
     (boot_kernel \<lparr> vm := st, files := empty_vfs \<lparr> fat := sample, drive_mounted := (\<lambda>_. True) \<rparr> \<rparr>)"

lemma disk_fields:
  "vm (disk_kernel st) = st" "files (disk_kernel st) = empty_vfs \<lparr> fat := sample, drive_mounted := (\<lambda>_. True) \<rparr>"
  "fd_at (disk_kernel st) 3 = closed_fd \<lparr> fd_open := True, fd_readable := True, fd_writable := True, fd_path := asc ''a'' \<rparr>"
  "length (file_descriptors (linux (disk_kernel st))) = 32"
  by (simp_all add: disk_kernel_def set_fd_def boot_kernel_def linux_reset_process_state_def Let_def)

lemma info_sample: "exfat_get_info sample (Some (asc ''a'')) = Some (0, False)"
proof -
  have v: "volume sample" "2 \<le> unat (g_current_cluster sample)" using wf_sample by (auto simp: wf_dir_def)
  have f: "find_entry (dir sample) (asc ''a'') 0 = Some 0" unfolding find_sample by code_simp
  have "of_le (take 8 (drop 56 (entry_set (asc ''a'') False 5))) = (0 :: u64)"
    "of_le (take 2 (drop 4 (entry_set (asc ''a'') False 5))) = (0x20 :: u16)" by code_simp+
  then have t: "rd64 (dir sample) (0 + 32 + 24) = 0" "rd16 (dir sample) (0 + 4) = 0x20"
    by (simp_all add: rd64_def rd16_def slice_sample)
  show ?thesis
    unfolding exfat_get_info_def bind.bind_lunit resolve_find [OF v f] target_at_def exfat_target.simps t by simp
qed

lemma disk_entry: "file_entry (disk_kernel st) 3 0 []"
proof -
  have v: "volume sample" "2 \<le> unat (g_current_cluster sample)" using wf_sample by (auto simp: wf_dir_def)
  have f: "find_entry (dir sample) (asc ''a'') 0 = Some 0" unfolding find_sample by code_simp
  have "file_bytes sample (fclus (dir sample) 0) (fsize (dir sample) 0) = []"
    using length_file_bytes [OF v(1), of _ 0] unfolding fields_sample length_0_conv by blast
  then have "contents sample (asc ''a'') = Some []" unfolding contents_find [OF v] f by simp
  moreover have "plain_name (asc ''a'')" by code_simp
  ultimately show ?thesis using f wf_sample fits_sample info_sample
    unfolding file_entry_def file_open_def disk_fields by (simp add: closed_fd_def empty_vfs_def)
qed

lemma disk_room: "\<exists>f. free_run (bit_used sample) (unat (g_cluster_count sample)) (nspan 5) f"
  using free_sample [of 4 1] by (auto simp: nspan_def)

section \<open>Properties\<close>





end
