(* ===== verification/ElfLoad.thy ===== *)
theory ElfLoad
  imports Elf UserPages LinuxFiles
begin

text \<open>
  What the ELF loader puts into the memory of a program: every segment holds its part of the file
  followed by zeros, and no page of another mapping changes.
\<close>

section \<open>Reading the file\<close>

text \<open>The file of the program: a plain name in a directory in good order, with its contents.\<close>

definition program_file :: "kernel \<Rightarrow> bytes \<Rightarrow> bytes \<Rightarrow> bool" where
  "program_file k name file \<longleftrightarrow> plain_name name \<and> drive_mounted (files k) (vfs_drive (files k)) \<and> wf_dir (fat (files k))
     \<and> contents (fat (files k)) name = Some file \<and> length file \<le> 0x1000000"

lemma program_file_vm [simp]: "program_file (k \<lparr> vm := st \<rparr>) name file = program_file k name file"
  by (simp add: program_file_def)

lemma read_exact_file:
  assumes "program_file k name file" and "unat off + unat n \<le> length file"
  shows "read_exact name off n k = Some (Some (take (unat n) (drop (unat off) file)), k)"
proof -
  have f: "plain_name name" "drive_mounted (files k) (vfs_drive (files k))" "wf_dir (fat (files k))"
    "contents (fat (files k)) name = Some file" "length file < 2 ^ 31" using assms(1) by (auto simp: program_file_def)
  have "length (take (unat n) (drop (unat off) file)) = unat n" using assms(2) by simp
  then show ?thesis using fs_read_raw_at_plain [OF f, of off n] by (simp add: read_exact_def)
qed

section \<open>Pages of a segment\<close>

definition segment_byte :: "bytes \<Rightarrow> elf64_phdr \<Rightarrow> u64 \<Rightarrow> u8" where
  "segment_byte file phdr v =
     (if p_vaddr phdr \<le> v \<and> v < p_vaddr phdr + p_filesz phdr
      then file ! (unat (p_offset phdr) + (unat v - unat (p_vaddr phdr))) else 0)"

text \<open>The part of the file in one page.\<close>

definition segment_fits :: "bytes \<Rightarrow> elf64_phdr \<Rightarrow> bool" where
  "segment_fits file phdr \<longleftrightarrow> unat (p_vaddr phdr) + unat (p_filesz phdr) \<le> 2 ^ 47
     \<and> unat (p_offset phdr) + unat (p_filesz phdr) \<le> length file \<and> length file \<le> 0x1000000"

abbreviation copy_start :: "elf64_phdr \<Rightarrow> u64 \<Rightarrow> u64" where
  "copy_start phdr page \<equiv> (if page > p_vaddr phdr then page else p_vaddr phdr)"

abbreviation copy_end :: "elf64_phdr \<Rightarrow> u64 \<Rightarrow> u64" where
  "copy_end phdr page \<equiv> (if page + 4096 < p_vaddr phdr + p_filesz phdr then page + 4096 else p_vaddr phdr + p_filesz phdr)"

lemma page_part:
  assumes "segment_fits file phdr" and "page_aligned page" and "user_va page"
  defines "s \<equiv> max (unat page) (unat (p_vaddr phdr))" and "e \<equiv> min (unat page + 4096) (unat (p_vaddr phdr) + unat (p_filesz phdr))"
  shows "unat (copy_start phdr page) = s" and "unat (copy_end phdr page) = e" and "e \<le> unat page + 4096"
    and "s < e \<Longrightarrow> unat (p_offset phdr + (copy_start phdr page - p_vaddr phdr)) = unat (p_offset phdr) + (s - unat (p_vaddr phdr))"
    and "s < e \<Longrightarrow> unat (p_offset phdr) + (s - unat (p_vaddr phdr)) + (e - s) \<le> length file"
    and "s < e \<Longrightarrow> unat (copy_end phdr page - copy_start phdr page) = e - s"
    and "s < e \<Longrightarrow> copy_start phdr page - page = of_nat (s - unat page)"
proof -
  have f: "unat (p_vaddr phdr) + unat (p_filesz phdr) \<le> 2 ^ 47"
    "unat (p_offset phdr) + unat (p_filesz phdr) \<le> length file" "length file \<le> 0x1000000" using assms(1) by (simp_all add: segment_fits_def)
  have pg: "unat page < 2 ^ 47" using assms(3) by (simp add: user_va_def word_less_nat_alt)
  have fe: "unat (p_vaddr phdr + p_filesz phdr) = unat (p_vaddr phdr) + unat (p_filesz phdr)"
    using f(1) by (simp add: unat_word_ariths)
  have pe: "unat (page + 4096) = unat page + 4096" using pg by (simp add: unat_word_ariths)
  show st: "unat (copy_start phdr page) = s" unfolding s_def word_less_nat_alt by simp
  show en: "unat (copy_end phdr page) = e" unfolding e_def word_less_nat_alt by (simp add: pe fe)
  show "e \<le> unat page + 4096" unfolding e_def by simp
  assume l: "s < e"
  have lb: "unat (p_vaddr phdr) \<le> s" "unat page \<le> s" "e \<le> unat (p_vaddr phdr) + unat (p_filesz phdr)" by (simp_all add: s_def e_def)
  have "p_vaddr phdr \<le> copy_start phdr page" by auto
  then have d: "unat (copy_start phdr page - p_vaddr phdr) = s - unat (p_vaddr phdr)" unfolding unat_sub_if' st word_le_nat_alt by simp
  have le: "unat (p_offset phdr) + (s - unat (p_vaddr phdr)) + (e - s) \<le> length file" using lb l f(2) by linarith
  then show "unat (p_offset phdr) + (s - unat (p_vaddr phdr)) + (e - s) \<le> length file" .
  have "unat (p_offset phdr) + (s - unat (p_vaddr phdr)) < 2 ^ 64" using le f(3) by simp
  then show "unat (p_offset phdr + (copy_start phdr page - p_vaddr phdr)) = unat (p_offset phdr) + (s - unat (p_vaddr phdr))"
    unfolding d [symmetric] by (simp add: unat_word_ariths split del: if_split)
  show "unat (copy_end phdr page - copy_start phdr page) = e - s"
    using l by (subst unat_sub) (simp_all only: word_le_nat_alt st en)
  have "page \<le> copy_start phdr page" by auto
  then have "unat (copy_start phdr page - page) = s - unat page" unfolding unat_sub_if' st word_le_nat_alt by simp
  then show "copy_start phdr page - page = of_nat (s - unat page)" by (metis of_nat_unat ucast_id)
qed

lemma unat_diff_less:
  fixes v c :: u64
  assumes "unat c + n \<le> 2 ^ 64"
  shows "unat (v - c) < n \<longleftrightarrow> unat c \<le> unat v \<and> unat v < unat c + n"
    and "unat c \<le> unat v \<Longrightarrow> unat (v - c) = unat v - unat c"
  using assms unsigned_less [of v, where ?'a = nat] by (auto simp: unat_sub_if')

lemma load_page_ok:
  assumes "program_file k name file" and "segment_fits file phdr" and so: "sound (vm k) F" and c: "4 \<le> card F"
    and p: "page_aligned page" "user_va page"
  shows "\<exists>st F'. load_pages name phdr (page # ps) k = load_pages name phdr ps (k \<lparr> vm := st \<rparr>) \<and> sound st F' \<and> card F \<le> card F' + 4
     \<and> (\<forall>v. user_va v \<longrightarrow> page_of v = page \<longrightarrow> user_page_accessible st v True \<and> user_load st v = Some (segment_byte file phdr v))
     \<and> (\<forall>v w. user_va v \<longrightarrow> page_of v \<noteq> page \<longrightarrow> user_page_accessible st v w = user_page_accessible (vm k) v w)
     \<and> (\<forall>v. user_page_accessible (vm k) v False \<longrightarrow> page_of v \<noteq> page \<longrightarrow> user_load st v = user_load (vm k) v)"
proof -
  have pp: "page_of page = page" using p(1) by simp
  from sound_map [OF so c p(2)] obtain n st1 st2 F' where
    m: "pmm_alloc_zeroed_page (vm k) = Some (n, st1)" "map_user_page page n st1 = Some st2" "sound st2 F'" "card F \<le> card F' + 4" "n \<in> F"
      "\<forall>v. user_va v \<longrightarrow> aspace st2 v = (if page_of v = page then n OR PAGE_USER_FLAGS else aspace (vm k) v)"
    unfolding pp by blast
  note fresh = map_fresh_page [OF so c p(2) m(1,2), unfolded pp]
  have nz: "n \<noteq> 0" using m(5) so pool_pages unfolding sound_def isolated_def space_def by blast
  have nd: "\<not> denied w (n OR PAGE_USER_FLAGS)" for w using or_flags(3) [of n] or_flags_mask(3) [of n] by (simp add: denied_def)
  have acc: "user_page_accessible st2 v w = (page_of v = page \<or> user_page_accessible (vm k) v w)" if "user_va v" for v w
    using m(6) that nd accessible_aspace [OF m(3) that] accessible_aspace [OF so that] by simp
  define s where "s = max (unat page) (unat (p_vaddr phdr))"
  define e where "e = min (unat page + 4096) (unat (p_vaddr phdr) + unat (p_filesz phdr))"
  note part = page_part [OF assms(2) p, folded s_def e_def]
  have se: "s \<le> x \<longleftrightarrow> unat page \<le> x \<and> unat (p_vaddr phdr) \<le> x"
    "x < e \<longleftrightarrow> x < unat page + 4096 \<and> x < unat (p_vaddr phdr) + unat (p_filesz phdr)" for x by (simp_all add: s_def e_def)
  have sb: "unat page \<le> s" "unat (p_vaddr phdr) \<le> s" by (simp_all add: s_def)
  have in_page: "unat page \<le> unat v \<and> unat v < unat page + 4096" if "page_of v = page" for v
    using that unat_page_of [of v] by (metis mod_less_divisor div_mult_mod_eq le_add1 nat_add_left_cancel_less zero_less_numeral)
  have file_top: "unat (p_vaddr phdr + p_filesz phdr) = unat (p_vaddr phdr) + unat (p_filesz phdr)"
    using assms(2) by (simp add: segment_fits_def unat_word_ariths)
  have cond: "copy_start phdr page < copy_end phdr page \<longleftrightarrow> s < e" unfolding word_less_nat_alt [of "copy_start phdr page" "copy_end phdr page"] part(1,2) ..
  show ?thesis
  proof (cases "s < e")
    case False
    have "load_pages name phdr (page # ps) k = load_pages name phdr ps (k \<lparr> vm := st2 \<rparr>)"
      using m(1,2) nz cond False by (simp only: load_pages.simps bind.bind_lunit prod.case Let_def if_False)
    moreover have "segment_byte file phdr v = 0" if "page_of v = page" for v
      using False in_page [OF that] se [of "unat v"] unfolding segment_byte_def word_le_nat_alt word_less_nat_alt file_top by auto
    ultimately show ?thesis using m(3,4) acc fresh by (intro exI [of _ st2] exI [of _ F'] conjI) (simp_all)
  next
    case True
    let ?bs = "take (e - s) (drop (unat (p_offset phdr) + (s - unat (p_vaddr phdr))) file)"
    let ?d = "s - unat page"
    let ?st = "st2 \<lparr> mem := poke_bytes (n + of_nat ?d) ?bs (mem st2) \<rparr>"
    note pt = part(4-7) [OF True]
    have lb: "length ?bs = e - s" using pt(2) by simp
    have "read_exact name (p_offset phdr + (copy_start phdr page - p_vaddr phdr)) (copy_end phdr page - copy_start phdr page)
        (k \<lparr> vm := st2 \<rparr>) = Some (Some ?bs, k \<lparr> vm := st2 \<rparr>)"
      using read_exact_file [of "k \<lparr> vm := st2 \<rparr>" name "file" "p_offset phdr + (copy_start phdr page - p_vaddr phdr)"
          "copy_end phdr page - copy_start phdr page"] assms(1) pt(2) unfolding pt(1,3) by simp
    then have "load_pages name phdr (page # ps) k = load_pages name phdr ps (k \<lparr> vm := ?st \<rparr>)"
      using m(1,2) nz cond True pt(4) unfolding load_pages.simps bind.bind_lunit prod.case Let_def
      by (simp only: if_False if_True) simp
    moreover have ph: "phys st2 page = n" using fresh(2) [OF p(2) pp] p(1) by (simp add: page_aligned_def)
    have ap: "user_page_accessible st2 page True" using acc [OF p(2)] pp by simp
    have dl: "?d + length ?bs \<le> 4096" using part(3) True lb sb(1) by linarith
    note fp = fill_page [OF m(3) p ap ph dl]
    define cs where "cs = page + of_nat ?d"
    have "unat (of_nat ?d :: u64) = ?d" using dl lb True by (simp only: unat_of_nat) simp
    then have cs: "unat cs = s" unfolding cs_def using page_of_add(2) [OF p(1), of "of_nat ?d"] sb(1) part(3) True by simp
    have "user_load ?st v = Some (segment_byte file phdr v)" if v: "user_va v" "page_of v = page" for v
    proof -
      have b: "unat cs + (e - s) \<le> 2 ^ 64" using cs True part(3) p(2) by (simp add: user_va_def word_less_nat_alt)
      have l: "user_load ?st v = (if unat (v - cs) < e - s then Some (?bs ! unat (v - cs)) else Some 0)"
        using fp acc [OF v(1)] v(2) fresh(2) [OF v] unfolding stored_def cs_def lb by simp
      have iff: "unat (v - cs) < e - s \<longleftrightarrow> p_vaddr phdr \<le> v \<and> v < p_vaddr phdr + p_filesz phdr"
        unfolding unat_diff_less(1) [OF b] cs word_le_nat_alt word_less_nat_alt file_top using in_page [OF v(2)] True se [of "unat v"] by auto
      show ?thesis
      proof (cases "unat (v - cs) < e - s")
        case in_file: True
        then have "s \<le> unat v" unfolding unat_diff_less(1) [OF b] cs by simp
        moreover from this have "unat (v - cs) = unat v - s" using unat_diff_less(2) [OF b] cs by simp
        ultimately have "?bs ! unat (v - cs) = file ! (unat (p_offset phdr) + (unat v - unat (p_vaddr phdr)))"
          using in_file pt(2) sb by simp
        then show ?thesis using l in_file iff by (simp add: segment_byte_def)
      qed (use l iff in \<open>auto simp: segment_byte_def\<close>)
    qed
    moreover have "sound ?st F'" "user_page_accessible ?st v w = user_page_accessible st2 v w" for v w
      using fp by (simp_all add: stored_def)
    moreover have "user_load ?st v = user_load (vm k) v" if v: "user_page_accessible (vm k) v False" "page_of v \<noteq> page" for v
    proof -
      have b: "unat cs + (e - s) \<le> 2 ^ 64" "unat page + 4096 \<le> 2 ^ 64"
        using cs True part(3) p(2) by (simp_all add: user_va_def word_less_nat_alt)
      have "\<not> v - page < 4096" using v(2) page_range_iff [OF p(1), of v] by simp
      then have "\<not> unat (v - page) < 4096" by (simp add: word_less_nat_alt)
      then have "\<not> unat (v - cs) < e - s"
        unfolding unat_diff_less(1) [OF b(1)] unat_diff_less(1) [OF b(2)] cs using True sb part(3) by linarith
      moreover have "user_va v" using accessible_user [OF v(1)] by (simp add: user_va_def)
      ultimately show ?thesis using fp acc [of v False] v fresh(1) [OF v] unfolding stored_def cs_def lb by simp
    qed
    ultimately show ?thesis using m(4) acc by (intro exI [of _ ?st] exI [of _ F'] conjI) simp_all
  qed
qed

text \<open>The pages of a program: those that hold a segment, and those that stay as they were.\<close>

definition holds_segment :: "machine \<Rightarrow> bytes \<Rightarrow> elf64_phdr \<Rightarrow> u64 set \<Rightarrow> bool" where
  "holds_segment st file phdr P \<longleftrightarrow> (\<forall>v. user_va v \<longrightarrow> page_of v \<in> P \<longrightarrow>
     user_page_accessible st v True \<and> user_load st v = Some (segment_byte file phdr v))"

definition keeps_outside :: "u64 set \<Rightarrow> machine \<Rightarrow> machine \<Rightarrow> bool" where
  "keeps_outside P st st' \<longleftrightarrow> (\<forall>v. user_va v \<longrightarrow> page_of v \<notin> P \<longrightarrow>
     (\<forall>w. user_page_accessible st' v w = user_page_accessible st v w)
     \<and> (user_page_accessible st v False \<longrightarrow> user_load st' v = user_load st v))"

lemma keeps_trans: "keeps_outside P st st1 \<Longrightarrow> keeps_outside Q st1 st2 \<Longrightarrow> keeps_outside (P \<union> Q) st st2"
  by (simp add: keeps_outside_def)

lemma keeps_refl [simp]: "keeps_outside P st st"
  by (simp add: keeps_outside_def)

lemma holds_kept: "holds_segment st file phdr P \<Longrightarrow> keeps_outside Q st st' \<Longrightarrow> P \<inter> Q = {} \<Longrightarrow> holds_segment st' file phdr P"
  unfolding holds_segment_def keeps_outside_def by (metis accessible_read disjoint_iff)

lemma load_pages_ok:
  assumes "program_file k name file" and "segment_fits file phdr" and "sound (vm k) F" and "4 * length ps \<le> card F"
    and "\<forall>p\<in>set ps. page_aligned p \<and> user_va p" and "distinct ps"
  shows "\<exists>st F'. load_pages name phdr ps k = Some (0, k \<lparr> vm := st \<rparr>) \<and> sound st F' \<and> card F \<le> card F' + 4 * length ps
     \<and> holds_segment st file phdr (set ps) \<and> keeps_outside (set ps) (vm k) st"
  using assms
proof (induction ps arbitrary: k F)
  case Nil
  then show ?case by (intro exI [of _ "vm k"] exI [of _ F]) (simp add: holds_segment_def)
next
  case (Cons p ps)
  have p: "4 \<le> card F" "page_aligned p" "user_va p" using Cons.prems(4,5) by auto
  from load_page_ok [OF Cons.prems(1,2,3) p] obtain st F1 where
    1: "load_pages name phdr (p # ps) k = load_pages name phdr ps (k \<lparr> vm := st \<rparr>)" "sound st F1" "card F \<le> card F1 + 4"
      "holds_segment st file phdr {p}" "keeps_outside {p} (vm k) st"
    unfolding holds_segment_def keeps_outside_def by (metis singletonD singletonI)
  have "4 * length ps \<le> card F1" using 1(3) Cons.prems(4) by simp
  with Cons.IH [of "k \<lparr> vm := st \<rparr>" F1] Cons.prems 1(2) obtain st' F' where
    2: "load_pages name phdr ps (k \<lparr> vm := st \<rparr>) = Some (0, k \<lparr> vm := st' \<rparr>)" "sound st' F'" "card F1 \<le> card F' + 4 * length ps"
      "holds_segment st' file phdr (set ps)" "keeps_outside (set ps) st st'" by auto
  have "holds_segment st' file phdr {p}" using holds_kept [OF 1(4) 2(5)] Cons.prems(6) by simp
  with 2(4) have "holds_segment st' file phdr (set (p # ps))" by (auto simp: holds_segment_def)
  moreover have "keeps_outside (set (p # ps)) (vm k) st'" using keeps_trans [OF 1(5) 2(5)] by simp
  moreover have "card F \<le> card F' + 4 * length (p # ps)" using 1(3) 2(3) by simp
  ultimately show ?case using 1(1) 2(1,2) by auto
qed

section \<open>Segments\<close>

abbreviation seg_pages :: "elf64_phdr \<Rightarrow> u64 list" where
  "seg_pages phdr \<equiv> pages (seg_start phdr) (seg_end phdr)"

lemma segment_bounds:
  assumes "segment_ok sz phdr" and "unat sz = length file" and "length file \<le> 0x1000000"
  shows "segment_fits file phdr" and "page_aligned (seg_start phdr)" and "page_aligned (seg_end phdr)"
    and "unat (seg_end phdr) \<le> 2 ^ 47" and "unat (p_vaddr phdr) + unat (p_memsz phdr) \<le> unat (seg_end phdr)"
proof -
  have c: "p_filesz phdr \<le> p_memsz phdr" "p_offset phdr \<le> sz" "p_filesz phdr \<le> sz - p_offset phdr"
    "p_vaddr phdr < USER_STACK_BASE" "p_memsz phdr \<le> USER_STACK_BASE - p_vaddr phdr"
    using assms(1) unfolding segment_ok_def not_less not_le by (auto simp: not_less not_le)
  have "unat (sz - p_offset phdr) = unat sz - unat (p_offset phdr)" using c(2) by (simp add: unat_sub)
  then have f: "unat (p_offset phdr) + unat (p_filesz phdr) \<le> length file"
    using c(2,3) assms(2) by (simp add: word_le_nat_alt)
  have "unat (USER_STACK_BASE - p_vaddr phdr) = 0x7FFFFFFF8000 - unat (p_vaddr phdr)"
    using c(4) by (subst unat_sub) (simp_all add: word_less_nat_alt word_le_nat_alt)
  then have m: "unat (p_vaddr phdr) + unat (p_memsz phdr) \<le> 0x7FFFFFFF8000"
    using c(4,5) by (simp add: word_less_nat_alt word_le_nat_alt)
  then show "segment_fits file phdr"
    using f c(1) assms(3) by (simp add: segment_fits_def word_le_nat_alt)
  show "page_aligned (seg_start phdr)" "page_aligned (seg_end phdr)" by (simp_all add: linux_align_up_page_def)
  let ?t = "unat (p_vaddr phdr) + unat (p_memsz phdr)"
  have "unat (p_vaddr phdr + p_memsz phdr + 4096 - 1) = ?t + 4095" using m by (simp add: unat_word_ariths)
  then have e: "unat (seg_end phdr) = (?t + 4095) div 4096 * 4096" unfolding linux_align_up_page_def unat_page_of by simp
  show "?t \<le> unat (seg_end phdr)" unfolding e by linarith
  have "(?t + 4095) div 4096 * 4096 \<le> ?t + 4095" by simp
  then show "unat (seg_end phdr) \<le> 2 ^ 47" unfolding e using m by simp
qed

lemma seg_pages_ok:
  fixes "file" :: bytes
  assumes "segment_ok sz phdr" and "unat sz = length file" and "length file \<le> 0x1000000"
  shows "\<forall>p\<in>set (seg_pages phdr). page_aligned p \<and> user_va p" and "distinct (seg_pages phdr)"
    and "p \<in> set (seg_pages phdr) \<longleftrightarrow> page_aligned p \<and> seg_start phdr \<le> p \<and> p < seg_end phdr"
proof -
  note b = segment_bounds [OF assms]
  note sp = set_pages [OF b(2-4)]
  show al: "\<forall>p\<in>set (seg_pages phdr). page_aligned p \<and> user_va p" using sp(1) by blast
  have "map page_of (seg_pages phdr) = seg_pages phdr" using al by (intro map_idI) simp
  then show "distinct (seg_pages phdr)" using sp(2) by simp
  show "p \<in> set (seg_pages phdr) \<longleftrightarrow> page_aligned p \<and> seg_start phdr \<le> p \<and> p < seg_end phdr" (is "?l \<longleftrightarrow> ?r")
  proof
    assume ?l
    then show ?r using al sp(3) [of p] by blast
  next
    assume r: ?r
    then obtain q where "q \<in> set (seg_pages phdr)" "page_of p = page_of q" using sp(3) [of p] by blast
    then show ?l using r al by (metis page_of_aligned)
  qed
qed

lemma pages_apart:
  fixes "file" :: bytes
  assumes "segment_ok sz p" and "segment_ok sz q" and "unat sz = length file" and "length file \<le> 0x1000000"
    and "loadable q" and "\<not> overlaps p q"
  shows "set (seg_pages p) \<inter> set (seg_pages q) = {}"
proof -
  have False if "x \<in> set (seg_pages p)" "x \<in> set (seg_pages q)" for x :: u64
  proof -
    have "seg_start p \<le> x" "x < seg_end p" "seg_start q \<le> x" "x < seg_end q"
      using that seg_pages_ok(3) [OF assms(1,3,4)] seg_pages_ok(3) [OF assms(2,3,4)] by blast+
    then have "seg_start p < seg_end q" "seg_start q < seg_end p" by (blast intro: order.strict_trans1)+
    with assms(5,6) show False by (simp add: overlaps_def)
  qed
  then show ?thesis by blast
qed

text \<open>The checks of the loop, apart from its effects: what it accepts, and what it has counted then.\<close>

definition segment_passes :: "u64 \<Rightarrow> elf64_phdr list \<Rightarrow> elf64_phdr \<Rightarrow> elf_load \<Rightarrow> bool" where
  "segment_passes sz earlier phdr l \<longleftrightarrow> segment_ok sz phdr \<and> alignment_ok phdr \<and> region_count (program l) < MAX_ELF_PROGRAM_HEADERS
     \<and> (seg_end phdr - seg_start phdr) div 4096 \<le> MAX_ELF_MEMORY_PAGES - total_pages l \<and> \<not> list_ex (overlaps phdr) earlier"

definition count_segment :: "u64 \<Rightarrow> elf64_phdr \<Rightarrow> elf_load \<Rightarrow> elf_load" where
  "count_segment entry phdr l =
     (let top = p_vaddr phdr + p_memsz phdr in
      \<lparr> total_pages = total_pages l + (seg_end phdr - seg_start phdr) div 4096,
        highest_load_address = (if top > highest_load_address l then top else highest_load_address l),
        entry_is_executable = (entry_is_executable l \<or> (p_flags phdr AND 1 \<noteq> 0 \<and> entry \<ge> p_vaddr phdr \<and> entry < top)),
        program = add_region (seg_start phdr) (seg_end phdr) (program l) \<rparr>)"

fun segments_pass :: "u64 \<Rightarrow> u64 \<Rightarrow> elf64_phdr list \<Rightarrow> elf64_phdr list \<Rightarrow> elf_load \<Rightarrow> elf_load option" where
  "segments_pass sz entry earlier [] l = Some l"
| "segments_pass sz entry earlier (phdr # phdrs) l =
     (if \<not> loadable phdr then segments_pass sz entry (earlier @ [phdr]) phdrs l
      else if segment_passes sz earlier phdr l
      then segments_pass sz entry (earlier @ [phdr]) phdrs (count_segment entry phdr l) else None)"

lemma load_segment_rejects:
  assumes "\<not> segment_passes sz earlier phdr l"
  shows "\<exists>l'. load_segment name sz entry earlier phdr l k = Some (-5, l', k)"
proof -
  consider "\<not> segment_ok sz phdr \<or> \<not> alignment_ok phdr" | "segment_ok sz phdr \<and> alignment_ok phdr \<and> MAX_ELF_PROGRAM_HEADERS \<le> region_count (program l)"
    | "segment_ok sz phdr \<and> alignment_ok phdr \<and> region_count (program l) < MAX_ELF_PROGRAM_HEADERS \<and>
       MAX_ELF_MEMORY_PAGES - total_pages l < (seg_end phdr - seg_start phdr) div 4096"
    | "segment_ok sz phdr \<and> alignment_ok phdr \<and> region_count (program l) < MAX_ELF_PROGRAM_HEADERS \<and>
       (seg_end phdr - seg_start phdr) div 4096 \<le> MAX_ELF_MEMORY_PAGES - total_pages l \<and> list_ex (overlaps phdr) earlier"
    using assms unfolding segment_passes_def by (meson not_le)
  then show ?thesis by cases (simp_all add: load_segment_def Let_def del: One_nat_def)
qed

lemma load_segment_accepts:
  assumes "segment_passes sz earlier phdr l"
  shows "load_segment name sz entry earlier phdr l k =
    do { (r, k) \<leftarrow> load_pages name phdr (seg_pages phdr) k; Some (r, count_segment entry phdr l, k) }"
proof -
  have c: "segment_ok sz phdr" "alignment_ok phdr" "\<not> MAX_ELF_PROGRAM_HEADERS \<le> region_count (program l)"
    "\<not> MAX_ELF_MEMORY_PAGES - total_pages l < (seg_end phdr - seg_start phdr) div 4096" "\<not> list_ex (overlaps phdr) earlier"
    using assms unfolding segment_passes_def not_le not_less by auto
  then show ?thesis unfolding load_segment_def Let_def count_segment_def by (cases l) simp
qed

text \<open>The pages a list of segments needs, and all of them.\<close>

definition pages_needed :: "elf64_phdr list \<Rightarrow> nat" where
  "pages_needed phdrs = sum_list (map (\<lambda>p. length (seg_pages p)) (filter loadable phdrs))"

definition all_pages :: "elf64_phdr list \<Rightarrow> u64 set" where
  "all_pages phdrs = (\<Union>p\<in>set (filter loadable phdrs). set (seg_pages p))"

definition all_loaded :: "machine \<Rightarrow> u64 \<Rightarrow> bytes \<Rightarrow> elf64_phdr list \<Rightarrow> bool" where
  "all_loaded st sz file phdrs \<longleftrightarrow> (\<forall>p\<in>set (filter loadable phdrs). segment_ok sz p \<and> holds_segment st file p (set (seg_pages p)))"

lemma pages_needed_simps [simp]:
  "pages_needed [] = 0"
  "pages_needed (p # ps) = (if loadable p then length (seg_pages p) else 0) + pages_needed ps"
  "all_pages [] = {}" "all_pages (p # ps) = (if loadable p then set (seg_pages p) else {}) \<union> all_pages ps"
  by (simp_all add: pages_needed_def all_pages_def)

lemma all_loaded_step:
  assumes "all_loaded st sz file earlier" and "loadable phdr" and "segment_passes sz earlier phdr l"
    and "unat sz = length file" and "length file \<le> 0x1000000"
    and "keeps_outside (set (seg_pages phdr)) st st'" and "holds_segment st' file phdr (set (seg_pages phdr))"
  shows "all_loaded st' sz file (earlier @ [phdr])"
proof -
  have ok: "segment_ok sz phdr" "\<not> list_ex (overlaps phdr) earlier" using assms(3) by (simp_all add: segment_passes_def)
  have "holds_segment st' file e (set (seg_pages e))" if e: "e \<in> set earlier" "loadable e" for e
  proof (rule holds_kept [OF _ assms(6)])
    show "holds_segment st file e (set (seg_pages e))" using assms(1) e by (simp add: all_loaded_def)
    have "segment_ok sz e" "\<not> overlaps phdr e" using assms(1) e ok(2) by (auto simp: all_loaded_def list_ex_iff)
    with pages_apart [OF ok(1) _ assms(4,5) e(2)] show "set (seg_pages e) \<inter> set (seg_pages phdr) = {}" by blast
  qed
  then show ?thesis using assms(1,7) ok(1) by (auto simp: all_loaded_def)
qed

lemma load_segments_ok:
  assumes "program_file k name file" and sz: "unat sz = length file" and "sound (vm k) F" and "4 * pages_needed phdrs \<le> card F"
    and "all_loaded (vm k) sz file earlier"
  shows "\<exists>r l' st F'. load_segments name sz entry earlier phdrs l k = Some (r, l', k \<lparr> vm := st \<rparr>) \<and> sound st F'
     \<and> card F \<le> card F' + 4 * pages_needed phdrs \<and> keeps_outside (all_pages phdrs) (vm k) st
     \<and> (case segments_pass sz entry earlier phdrs l of None \<Rightarrow> r = -5
        | Some l1 \<Rightarrow> r = 0 \<and> l' = l1 \<and> all_loaded st sz file (earlier @ phdrs))"
  using assms
proof (induction phdrs arbitrary: earlier l k F)
  case Nil
  then show ?case by (intro exI [of _ 0] exI [of _ l] exI [of _ "vm k"] exI [of _ F]) simp
next
  case (Cons p ps)
  have fl: "length file \<le> 0x1000000" using Cons.prems(1) by (simp add: program_file_def)
  show ?case
  proof (cases "loadable p")
    case False
    then have "all_loaded (vm k) sz file (earlier @ [p])" using Cons.prems(5) by (auto simp: all_loaded_def)
    from Cons.IH [OF Cons.prems(1,2,3) _ this, of l, unfolded append_assoc append_Cons append_Nil] Cons.prems(4) False
    show ?thesis by simp
  next
    case lp: True
    show ?thesis
    proof (cases "segment_passes sz earlier p l")
      case False
      then obtain l' where "load_segment name sz entry earlier p l k = Some (-5, l', k)" using load_segment_rejects by blast
      with lp False Cons.prems(3) show ?thesis
        by (intro exI [of _ "-5"] exI [of _ l'] exI [of _ "vm k"] exI [of _ F]) simp
    next
      case True
      then have ok: "segment_ok sz p" by (simp add: segment_passes_def)
      note sp = seg_pages_ok [OF ok sz fl]
      have "4 * length (seg_pages p) \<le> card F" using Cons.prems(4) lp by simp
      from load_pages_ok [OF Cons.prems(1) segment_bounds(1) [OF ok sz fl] Cons.prems(3) this sp(1,2)] obtain st F1 where
        1: "load_pages name p (seg_pages p) k = Some (0, k \<lparr> vm := st \<rparr>)" "sound st F1" "card F \<le> card F1 + 4 * length (seg_pages p)"
          "holds_segment st file p (set (seg_pages p))" "keeps_outside (set (seg_pages p)) (vm k) st" by blast
      have "all_loaded st sz file (earlier @ [p])" by (rule all_loaded_step [OF Cons.prems(5) lp True sz fl 1(5,4)])
      moreover have "4 * pages_needed ps \<le> card F1" using Cons.prems(4) 1(3) lp by simp
      ultimately obtain r l' st' F' where
        2: "load_segments name sz entry (earlier @ [p]) ps (count_segment entry p l) (k \<lparr> vm := st \<rparr>) = Some (r, l', k \<lparr> vm := st' \<rparr>)"
          "sound st' F'" "card F1 \<le> card F' + 4 * pages_needed ps" "keeps_outside (all_pages ps) st st'"
          "case segments_pass sz entry (earlier @ [p]) ps (count_segment entry p l) of None \<Rightarrow> r = -5
            | Some l1 \<Rightarrow> r = 0 \<and> l' = l1 \<and> all_loaded st' sz file (earlier @ p # ps)"
        using Cons.IH [of "k \<lparr> vm := st \<rparr>" F1 "earlier @ [p]" "count_segment entry p l",
            unfolded append_assoc append_Cons append_Nil] Cons.prems(1,2) 1(2) by auto
      have "load_segments name sz entry earlier (p # ps) l k = Some (r, l', k \<lparr> vm := st' \<rparr>)"
        using lp 1(1) 2(1) load_segment_accepts [OF True] by simp
      moreover have "keeps_outside (all_pages (p # ps)) (vm k) st'" using keeps_trans [OF 1(5) 2(4)] lp by simp
      moreover have "card F \<le> card F' + 4 * pages_needed (p # ps)" using 1(3) 2(3) lp by simp
      ultimately show ?thesis using 2(2,5) lp True by auto
    qed
  qed
qed

lemma segment_in_pages:
  fixes "file" :: bytes
  assumes "segment_ok sz p" and "unat sz = length file" and "length file \<le> 0x1000000"
    and "p_vaddr p \<le> v" and "v < p_vaddr p + p_memsz p"
  shows "user_va v" and "page_of v \<in> set (seg_pages p)"
proof -
  note b = segment_bounds [OF assms(1-3)]
  have "unat (p_vaddr p) + unat (p_memsz p) \<le> 2 ^ 47" using b(4,5) by (rule order.trans [rotated])
  then have "unat (p_vaddr p + p_memsz p) = unat (p_vaddr p) + unat (p_memsz p)" by (simp add: unat_word_ariths)
  then have v: "unat v < unat (seg_end p)" using assms(5) b(5) by (simp add: word_less_nat_alt)
  show "user_va v" using v b(4) by (simp add: user_va_def word_less_nat_alt)
  have "unat (page_of v) \<le> unat v" by (simp add: unat_page_of)
  then have "page_of v < seg_end p" using v by (simp add: word_less_nat_alt)
  moreover have "seg_start p \<le> page_of v"
    using assms(4) by (simp add: word_le_nat_alt unat_page_of div_le_mono)
  ultimately show "page_of v \<in> set (seg_pages p)" unfolding seg_pages_ok(3) [OF assms(1-3)] by simp
qed

lemma all_loaded_bytes:
  assumes "all_loaded st sz file phdrs" and "unat sz = length file" and "length file \<le> 0x1000000"
    and "p \<in> set phdrs" and "loadable p" and "p_vaddr p \<le> v" and "v < p_vaddr p + p_memsz p"
  shows "user_load st v = Some (segment_byte file p v)"
proof -
  have h: "segment_ok sz p" "holds_segment st file p (set (seg_pages p))" using assms(1,4,5) by (simp_all add: all_loaded_def)
  with segment_in_pages [OF h(1) assms(2,3,6,7)] show ?thesis by (simp add: holds_segment_def)
qed

section \<open>Properties\<close>

text \<open>
  C2: the ELF loader puts the program into memory, byte for byte. For a program file on the disk and
  enough free pages, the loop over the program headers always returns; it refuses with the code -5
  exactly the tables that fail one of its checks. Otherwise every byte of every loadable segment
  reads as the byte of the file it comes from, or as zero behind the part that is in the file;
  no page outside the segments changes, and the address space stays in order.
\<close>

theorem elf_segments_in_memory:
  assumes "program_file k name file" and "unat sz = length file" and "sound (vm k) F" and "4 * pages_needed phdrs \<le> card F"
  shows "\<exists>r l' st F'. load_segments name sz entry [] phdrs l k = Some (r, l', k \<lparr> vm := st \<rparr>) \<and> sound st F'
     \<and> keeps_outside (all_pages phdrs) (vm k) st
     \<and> (case segments_pass sz entry [] phdrs l of None \<Rightarrow> r = -5
        | Some l1 \<Rightarrow> r = 0 \<and> l' = l1 \<and> (\<forall>p\<in>set phdrs. loadable p \<longrightarrow>
            (\<forall>v. p_vaddr p \<le> v \<and> v < p_vaddr p + p_memsz p \<longrightarrow> user_load st v = Some (segment_byte file p v))))"
proof -
  have e: "all_loaded (vm k) sz file []" by (simp add: all_loaded_def)
  from load_segments_ok [OF assms e, of entry l, unfolded append_Nil] obtain r l' st F' where
    s: "load_segments name sz entry [] phdrs l k = Some (r, l', k \<lparr> vm := st \<rparr>)" "sound st F'"
      "keeps_outside (all_pages phdrs) (vm k) st"
      "case segments_pass sz entry [] phdrs l of None \<Rightarrow> r = -5
        | Some l1 \<Rightarrow> r = 0 \<and> l' = l1 \<and> all_loaded st sz file phdrs" by blast
  have "length file \<le> 0x1000000" using assms(1) by (simp add: program_file_def)
  then have "\<forall>p\<in>set phdrs. loadable p \<longrightarrow> (\<forall>v. p_vaddr p \<le> v \<and> v < p_vaddr p + p_memsz p \<longrightarrow>
      user_load st v = Some (segment_byte file p v))" if "all_loaded st sz file phdrs"
    using all_loaded_bytes [OF that assms(2)] by blast
  with s(4) have "case segments_pass sz entry [] phdrs l of None \<Rightarrow> r = -5
    | Some l1 \<Rightarrow> r = 0 \<and> l' = l1 \<and> (\<forall>p\<in>set phdrs. loadable p \<longrightarrow>
        (\<forall>v. p_vaddr p \<le> v \<and> v < p_vaddr p + p_memsz p \<longrightarrow> user_load st v = Some (segment_byte file p v)))"
    by (cases "segments_pass sz entry [] phdrs l") auto
  with s(1-3) show ?thesis by blast
qed

theorem elf_segments_in_memory_witness:
  "\<exists>f l' st. exfat_write_file (asc ''a'') (asc ''hello'') 5 sample = Some (0, f)
     \<and> load_segments (asc ''a'') 5 0x400000 [] [\<lparr> p_type = 1, p_flags = 5, p_offset = 0, p_vaddr = 0x400000, p_filesz = 5, p_memsz = 100, p_align = 0 \<rparr>]
         \<lparr> total_pages = 0, highest_load_address = 0, entry_is_executable = False, program = empty_program \<rparr>
         (disk_kernel vm_machine \<lparr> files := (files (disk_kernel vm_machine)) \<lparr> fat := f \<rparr> \<rparr>)
       = Some (0, l', disk_kernel vm_machine \<lparr> files := (files (disk_kernel vm_machine)) \<lparr> fat := f \<rparr>, vm := st \<rparr>)
     \<and> user_load st 0x400001 = Some 101 \<and> user_load st 0x400005 = Some 0"
proof -
  let ?p = "\<lparr> p_type = 1, p_flags = 5, p_offset = 0, p_vaddr = 0x400000, p_filesz = 5, p_memsz = 100, p_align = 0 \<rparr>"
  let ?l = "\<lparr> total_pages = 0, highest_load_address = 0, entry_is_executable = False, program = empty_program \<rparr>"
  have fe: "find_entry (dir sample) (asc ''a'') 0 = Some 0" unfolding find_sample by code_simp
  have len: "length (asc ''hello'') = unat (5 :: u64)" by (simp add: asc_def)
  from write_file_contents [OF wf_sample fe fits_sample len] obtain f where
    f: "exfat_write_file (asc ''a'') (asc ''hello'') 5 sample = Some (0, f)" "wf_dir f" "contents f (asc ''a'') = Some (asc ''hello'')"
    using fe by (auto simp: nspan_def fields_sample dest: keeps_dir_wf)
  let ?k = "disk_kernel vm_machine \<lparr> files := (files (disk_kernel vm_machine)) \<lparr> fat := f \<rparr> \<rparr>"
  have "plain_name (asc ''a'')" by code_simp
  then have pf: "program_file ?k (asc ''a'') (asc ''hello'')"
    using f(2,3) len by (simp add: program_file_def disk_fields)
  have so: "sound (vm ?k) (remaining vm_map 0 0)" using sound_vm by (simp add: disk_fields)
  have ld: "loadable ?p" by (simp add: loadable_def)
  have e: "page_of 0x400000 = 0x400000" "linux_align_up_page 0x400064 = 0x401000" by (simp_all add: page_of_def linux_align_up_page_def)
  have pg: "pages 0x400000 0x401000 = [0x400000]" by (simp add: pages_def)
  have "card (remaining vm_map 0 0) = 8" unfolding vm_pages_list by simp
  then have nd: "4 * pages_needed [?p] \<le> card (remaining vm_map 0 0)" using ld by (simp add: e pg)
  have "segment_passes 5 [] ?p ?l"
    by (simp add: segment_passes_def segment_ok_def alignment_ok_def empty_program_def e)
  then have ps: "segments_pass 5 0x400000 [] [?p] ?l = Some (count_segment 0x400000 ?p ?l)" using ld by simp
  from elf_segments_in_memory [OF pf len [symmetric] so nd, of "0x400000" ?l] obtain l' st where
    r: "load_segments (asc ''a'') 5 0x400000 [] [?p] ?l ?k = Some (0, l', ?k \<lparr> vm := st \<rparr>)"
      "\<forall>v. 0x400000 \<le> v \<and> v < 0x400000 + 100 \<longrightarrow> user_load st v = Some (segment_byte (asc ''hello'') ?p v)"
    using ps ld by auto
  have "segment_byte (asc ''hello'') ?p 0x400001 = 101" "segment_byte (asc ''hello'') ?p 0x400005 = 0"
    by (simp_all add: segment_byte_def asc_def)
  then have "user_load st 0x400001 = Some 101" "user_load st 0x400005 = Some 0" using r(2) by simp_all
  with f(1) r(1) show ?thesis by auto
qed

section \<open>The arguments of a program\<close>

definition arg_bytes :: "bytes list \<Rightarrow> bytes" where
  "arg_bytes args = concat (map (\<lambda>a. a @ [0]) args)"

fun arg_offsets :: "nat \<Rightarrow> bytes list \<Rightarrow> nat list" where
  "arg_offsets c [] = []"
| "arg_offsets c (a # as) = c # arg_offsets (c + length a + 1) as"

lemma put_arguments_eq:
  assumes "\<forall>a\<in>set args. length a < 256" and "c + length (arg_bytes args) \<le> n" and "n \<le> length m"
  shows "put_arguments n s (map Some args) c addrs m =
     (Some (c + length (arg_bytes args), addrs @ map (\<lambda>x. s + of_nat x) (arg_offsets c args)), buf_put m c (arg_bytes args))"
  using assms
proof (induction args arbitrary: c addrs m)
  case (Cons a as)
  let ?m = "buf_put m c (a @ [0])"
  have l: "c + length a + 1 \<le> n" "length ?m = length m" using Cons.prems by (simp_all add: arg_bytes_def)
  have "put_arguments n s (map Some (a # as)) c addrs m = put_arguments n s (map Some as) (c + length a + 1) (addrs @ [s + of_nat c]) ?m"
    using Cons.prems(1) l(1) by (simp add: not_less, linarith)
  also have "\<dots> = (Some (c + length a + 1 + length (arg_bytes as),
      (addrs @ [s + of_nat c]) @ map (\<lambda>x. s + of_nat x) (arg_offsets (c + length a + 1) as)), buf_put ?m (c + length a + 1) (arg_bytes as))"
    by (rule Cons.IH) (use Cons.prems l in \<open>auto simp: arg_bytes_def\<close>)
  also have "buf_put ?m (c + length a + 1) (arg_bytes as) = buf_put m c (arg_bytes (a # as))"
    using l(1) Cons.prems(3) buf_put_append [of c "a @ [0]" m] by (simp add: arg_bytes_def)
  finally show ?case by (simp add: arg_bytes_def)
qed (simp add: arg_bytes_def buf_put_def)

lemma length_arg_offsets [simp]: "length (arg_offsets c args) = length args"
  by (induction args arbitrary: c) simp_all

lemma arg_offset_reads:
  assumes "i < length args"
  shows "c \<le> arg_offsets c args ! i
     \<and> (\<exists>rest. drop (arg_offsets c args ! i - c) (arg_bytes args) = args ! i @ [0] @ rest)"
  using assms
proof (induction args arbitrary: c i)
  case (Cons a as)
  show ?case
  proof (cases i)
    case (Suc j)
    then have "j < length as" using Cons.prems by simp
    note ih = Cons.IH [OF this, of "c + length a + 1"]
    then have "arg_offsets c (a # as) ! i - c = length a + 1 + (arg_offsets (c + length a + 1) as ! j - (c + length a + 1))"
      using Suc by auto
    moreover have "drop (length a + 1 + x) (arg_bytes (a # as)) = drop x (arg_bytes as)" for x by (simp add: arg_bytes_def)
    ultimately have "drop (arg_offsets c (a # as) ! i - c) (arg_bytes (a # as)) =
        drop (arg_offsets (c + length a + 1) as ! j - (c + length a + 1)) (arg_bytes as)" by (simp only:)
    then show ?thesis using ih Suc by auto
  qed (simp add: arg_bytes_def)
qed simp

lemma concat_le64_nth:
  assumes "i < length ws"
  shows "take 8 (drop (8 * i) (concat (map le64 ws) @ r)) = le64 (ws ! i)"
  using assms
proof (induction ws arbitrary: i)
  case (Cons w ws)
  have l: "length (le64 w) = 8" by (simp add: le64_def)
  show ?case using Cons l by (cases i) simp_all
qed simp

lemma length_concat_le64 [simp]: "length (concat (map le64 ws)) = 8 * length ws"
  by (induction ws) (simp_all add: le64_def)

lemma slice_buf_put:
  assumes "c \<le> length m" and "j + n \<le> length v"
  shows "take n (drop (c + j) (buf_put m c v)) = take n (drop j v)"
proof -
  have "min (length m) c = c" using assms(1) by simp
  then show ?thesis using assms(2) by (simp add: buf_put_def)
qed

lemma drop_of_prefix:
  assumes "take (length p) a = p" and "x \<le> length p"
  shows "drop x a = drop x p @ drop (length p) a"
proof -
  have "a = p @ drop (length p) a" using assms(1) append_take_drop_id [of "length p" a] by simp
  then have "drop x a = drop x (p @ drop (length p) a)" by simp
  also have "\<dots> = drop x p @ drop (length p) a" using assms(2) by simp
  finally show ?thesis .
qed

lemma take_buf_put: "c \<le> length m \<Longrightarrow> take c (buf_put m c v) = take c m"
  by (simp add: buf_put_def)

lemma prepare_arguments_eq:
  assumes "length args \<le> 32" and "\<forall>a\<in>set args. length a < 256" and "length area = n"
    and "c = (length (arg_bytes args) + 7) div 8 * 8" and "c + 8 * (length args + 1) \<le> n"
  shows "prepare_user_arguments area s n (int (length args)) (Some (map Some args)) =
     (Some (s + of_nat c), buf_put (buf_put area 0 (arg_bytes args)) c
        (concat (map le64 (map (\<lambda>x. s + of_nat x) (arg_offsets 0 args))) @ le64 0))"
proof -
  have l: "length (arg_bytes args) \<le> c" using assms(4) by linarith
  have "0 + length (arg_bytes args) \<le> n" using l assms(5) by simp
  from put_arguments_eq [OF assms(2) this, of area s "[]"] assms(3)
  have p: "put_arguments n s (map Some args) 0 [] area =
      (Some (length (arg_bytes args), map (\<lambda>x. s + of_nat x) (arg_offsets 0 args)), buf_put area 0 (arg_bytes args))" by simp
  have g: "(n < c \<or> n - c < (length args + 1) * 8) = False" using assms(5) by auto
  show ?thesis using assms(1) g unfolding prepare_user_arguments_def
    by (simp add: p assms(4) [symmetric] Let_def)
qed

text \<open>
  C25: a program finds its arguments. For at most 32 strings of at most 255 characters that fit into
  the area together with the vector, the call succeeds with an address aligned to 8 bytes; the
  vector there has one pointer for each argument and a null pointer at its end, each pointer leads
  to exactly the string of that argument, and the area keeps its size.
\<close>

theorem prepare_user_arguments_correct:
  assumes "length args \<le> 32" and "\<forall>a\<in>set args. length a < 256 \<and> 0 \<notin> set a" and "length area = n" and "n < 2 ^ 64"
    and "(length (arg_bytes args) + 7) div 8 * 8 + 8 * (length args + 1) \<le> n"
  shows "\<exists>c area'. prepare_user_arguments area s n (int (length args)) (Some (map Some args)) = (Some (s + of_nat c), area')
     \<and> length area' = n \<and> 8 dvd c
     \<and> (\<forall>i<length args. \<exists>x<n. rd64 area' (c + 8 * i) = s + of_nat x \<and> cstr (drop x area') = args ! i)
     \<and> rd64 area' (c + 8 * length args) = 0"
proof -
  define c where "c = (length (arg_bytes args) + 7) div 8 * 8"
  define ws where "ws = map (\<lambda>x. s + of_nat x) (arg_offsets 0 args)"
  have lw: "length ws = length args" by (simp add: ws_def)
  let ?v = "concat (map le64 ws) @ le64 0" and ?m = "buf_put area 0 (arg_bytes args)"
  let ?a = "buf_put ?m c (concat (map le64 ws) @ le64 0)"
  have l: "length (arg_bytes args) \<le> c" unfolding c_def by linarith
  have cn: "c + 8 * (length args + 1) \<le> n" using assms(5) by (simp add: c_def)
  have lv: "length ?v = 8 * (length args + 1)" by (simp only: length_append length_concat_le64 lw) (simp add: le64_def)
  have lm: "length ?m = n" using l cn assms(3) by simp
  then have la: "length ?a = n" using cn lv by simp
  have rd: "take 8 (drop (c + j) ?a) = take 8 (drop j ?v)" if "j + 8 \<le> length ?v" for j
    by (rule slice_buf_put) (use that cn lm in simp_all)
  have below: "take c ?a = take c ?m" by (rule take_buf_put) (use cn lm in simp)
  have arg: "\<exists>x<n. rd64 ?a (c + 8 * i) = s + of_nat x \<and> cstr (drop x ?a) = args ! i" if i: "i < length args" for i
  proof -
    let ?x = "arg_offsets 0 args ! i"
    obtain rest where r: "drop ?x (arg_bytes args) = args ! i @ [0] @ rest" using arg_offset_reads [OF i, of 0] by auto
    then have x: "?x < length (arg_bytes args)" by (metis append_is_Nil_conv drop_all not_Cons_self2 not_le)
    have "take (length (arg_bytes args)) (take c ?a) = arg_bytes args" unfolding below using l by (simp add: buf_put_def)
    then have "take (length (arg_bytes args)) ?a = arg_bytes args" using l by (simp add: min_def)
    from drop_of_prefix [OF this less_imp_le [OF x]]
    have "drop ?x ?a = args ! i @ [0] @ rest @ drop (length (arg_bytes args)) ?a" unfolding r by simp
    then have "cstr (drop ?x ?a) = args ! i" using assms(2) i unfolding cstr_def
      by (simp only:) (subst takeWhile_append2; auto dest: nth_mem)
    moreover have "take 8 (drop (8 * i) ?v) = le64 (s + of_nat ?x)"
      using concat_le64_nth [of i ws "le64 0"] i lw by (simp add: ws_def)
    then have "rd64 ?a (c + 8 * i) = s + of_nat ?x"
      using rd [of "8 * i"] i lv of_le_le64 [of "s + of_nat ?x"] unfolding rd64_def by simp
    moreover have "?x < n" using x l cn by linarith
    ultimately show ?thesis by blast
  qed
  have "prepare_user_arguments area s n (int (length args)) (Some (map Some args)) = (Some (s + of_nat c), ?a)"
    unfolding ws_def by (rule prepare_arguments_eq) (use assms cn c_def in auto)
  moreover have "rd64 ?a (c + 8 * length args) = 0"
    using rd [of "8 * length args"] lv lw of_le_le64 [of 0] by (simp add: rd64_def le64_def)
  moreover have "8 dvd c" by (simp add: c_def)
  ultimately show ?thesis using la arg by blast
qed

theorem prepare_user_arguments_correct_witness:
  "\<exists>c area' x. prepare_user_arguments (replicate 64 0) 0x7FFFFFFF8000 64 2 (Some [Some (asc ''ls''), Some (asc ''-l'')]) = (Some (0x7FFFFFFF8000 + of_nat c), area')
     \<and> rd64 area' (c + 8) = 0x7FFFFFFF8000 + of_nat x \<and> cstr (drop x area') = asc ''-l'' \<and> rd64 area' (c + 16) = 0"
proof -
  let ?args = "[asc ''ls'', asc ''-l'']"
  have l: "length ?args \<le> 32" "length (replicate 64 (0 :: u8)) = 64" "(64 :: nat) < 2 ^ 64" by simp_all
  have a: "\<forall>a\<in>set ?args. length a < 256 \<and> 0 \<notin> set a" by code_simp
  have f: "(length (arg_bytes ?args) + 7) div 8 * 8 + 8 * (length ?args + 1) \<le> 64" by code_simp
  from prepare_user_arguments_correct [OF l(1) a l(2,3) f, of "0x7FFFFFFF8000"] obtain c area' where
    p: "prepare_user_arguments (replicate 64 0) 0x7FFFFFFF8000 64 (int (length ?args)) (Some (map Some ?args)) = (Some (0x7FFFFFFF8000 + of_nat c), area')"
      "\<forall>i<length ?args. \<exists>x<64. rd64 area' (c + 8 * i) = 0x7FFFFFFF8000 + of_nat x \<and> cstr (drop x area') = ?args ! i"
      "rd64 area' (c + 8 * length ?args) = 0" by blast
  from p(2) obtain x where "rd64 area' (c + 8) = 0x7FFFFFFF8000 + of_nat x" "cstr (drop x area') = asc ''-l''"
    by (auto dest: spec [of _ 1])
  with p(1,3) show ?thesis by auto
qed

end
