(* ===== verification/VfsPaths.thy ===== *)
theory VfsPaths
  imports Vfs
begin

text \<open>
  Changing directories and drives never runs out of its buffers as long as the paths involved are
  absolute: the working directories that \<open>helper/drivers/filesystem/vfs.c\<close> keeps for each drive, and
  the ones the scheduler keeps for each task.
\<close>

section \<open>Walking an absolute path\<close>

definition abs_path :: "bytes \<Rightarrow> bool" where
  "abs_path p \<longleftrightarrow> p \<noteq> [] \<and> hd p = slash \<and> length p < 256"

text \<open>The room left for the rest of the path behind the path walked so far.\<close>

definition walk_room :: "bytes \<Rightarrow> bytes \<Rightarrow> bool" where
  "walk_room path new_path \<longleftrightarrow> abs_path new_path
     \<and> (if new_path = [slash] then length path \<le> 254 \<or> length path = 255 \<and> hd path = slash
        else path = [] \<or> length new_path + length path \<le> 254)"

lemma parent_path_ok:
  assumes "p \<noteq> []" and "hd p = slash"
  shows "parent_path p \<noteq> [] \<and> hd (parent_path p) = slash \<and> length (parent_path p) \<le> length p"
proof -
  define q where "q = rev (drop 1 (dropWhile (\<lambda>c. c \<noteq> slash) (rev p)))"
  have "\<exists>r. p = q @ r"
  proof -
    have "rev p = (takeWhile (\<lambda>c. c \<noteq> slash) (rev p) @ take 1 (dropWhile (\<lambda>c. c \<noteq> slash) (rev p)))
        @ drop 1 (dropWhile (\<lambda>c. c \<noteq> slash) (rev p))" by (simp only: append_assoc append_take_drop_id takeWhile_dropWhile_id)
    then have "p = rev (drop 1 (dropWhile (\<lambda>c. c \<noteq> slash) (rev p))) @ rev (takeWhile (\<lambda>c. c \<noteq> slash) (rev p)
        @ take 1 (dropWhile (\<lambda>c. c \<noteq> slash) (rev p)))" by (metis rev_append rev_rev_ident)
    then show ?thesis unfolding q_def by blast
  qed
  then obtain r where r: "p = q @ r" by blast
  have "hd q = slash \<and> length q \<le> length p" if "q \<noteq> []" using that assms(2) r by (cases q) auto
  then show ?thesis using assms(1) unfolding parent_path_def q_def [symmetric] Let_def
    by (cases p) auto
qed

lemma walk_token_ok:
  assumes "walk_room path new_path" and "path \<noteq> []" and "tok = takeWhile (\<lambda>c. c \<noteq> slash) path" and "tok \<noteq> []"
  shows "\<exists>r. walk_token st (take 63 tok) cluster new_path = Some r
     \<and> (\<forall>c p. r = Inr (c, p) \<longrightarrow> walk_room (drop (length tok + 1) path) p)"
proof -
  have hp: "hd path \<noteq> slash" using assms(2-4) by (cases path) auto
  have tl: "length tok \<le> length path" unfolding assms(3) by (rule length_takeWhile_le)
  have a: "new_path \<noteq> []" "hd new_path = slash" "length new_path < 256" using assms(1) by (auto simp: walk_room_def abs_path_def)
  have root: "length path \<le> 254" if "new_path = [slash]" using assms(1) hp that by (auto simp: walk_room_def)
  have deep: "length new_path + length path \<le> 254" if "new_path \<noteq> [slash]" using assms(1,2) that by (auto simp: walk_room_def)
  have stay: "walk_room (drop (length tok + 1) path) new_path" using a root deep by (auto simp: walk_room_def abs_path_def)
  show ?thesis
  proof (cases "take 63 tok = asc ''..''")
    case True
    have "walk_room (drop (length tok + 1) path) (parent_path new_path)" if "new_path \<noteq> [slash]"
      using parent_path_ok [OF a(1,2)] deep [OF that] a(3) by (auto simp: walk_room_def abs_path_def)
    then show ?thesis using True stay by (auto simp: walk_token_def Let_def)
  next
    case False
    let ?p = "(if new_path = [slash] then new_path else new_path @ [slash]) @ take 63 tok"
    have "walk_room (drop (length tok + 1) path) ?p \<and> length (if new_path = [slash] then new_path else new_path @ [slash]) < 256
        \<and> length ?p < 256"
    proof (cases "new_path = [slash]")
      case True
      then show ?thesis using root assms(4) by (auto simp: walk_room_def abs_path_def)
    next
      case f: False
      then show ?thesis using deep [OF f] tl a assms(4) by (auto simp: walk_room_def abs_path_def)
    qed
    then show ?thesis using False stay by (auto simp: walk_token_def fit256_def split: option.splits)
  qed
qed

lemma walk_path_ok:
  "walk_room path new_path \<Longrightarrow> \<exists>r. walk_path st path cluster new_path = Some r \<and> (\<forall>c p. r = Inr (c, p) \<longrightarrow> abs_path p)"
proof (induction st path cluster new_path rule: walk_path.induct)
  case (1 st path cluster new_path)
  show ?case
  proof (cases "path = []")
    case True
    then show ?thesis using "1.prems" by (subst walk_path.simps) (simp add: walk_room_def)
  next
    case False
    define tok where "tok = takeWhile (\<lambda>c. c \<noteq> slash) path"
    show ?thesis
    proof (cases "tok = []")
      case True
      then have "walk_room (drop (length tok + 1) path) new_path"
        using "1.prems" False by (auto simp: walk_room_def tok_def)
      from "1.IH"(1) [OF False refl refl, folded tok_def, OF True this] False True show ?thesis
        by (subst walk_path.simps) (simp add: Let_def tok_def [symmetric])
    next
      case tk: False
      from walk_token_ok [OF "1.prems" False tok_def tk] obtain r where
        r: "walk_token st (take 63 tok) cluster new_path = Some r"
          "\<forall>c p. r = Inr (c, p) \<longrightarrow> walk_room (drop (length tok + 1) path) p" by blast
      show ?thesis
      proof (cases r)
        case (Inl e)
        then show ?thesis using r(1) False tk by (subst walk_path.simps) (simp add: Let_def tok_def [symmetric])
      next
        case (Inr cp)
        obtain c p where cp: "cp = (c, p)" by force
        with r(2) Inr have "walk_room (drop (length tok + 1) path) p" by blast
        from "1.IH"(2) [OF False refl refl, folded tok_def, OF tk _ Inr cp [symmetric] this] r(1) False tk Inr cp show ?thesis
          by (subst walk_path.simps) (simp add: Let_def tok_def [symmetric])
      qed
    qed
  qed
qed

section \<open>Drives\<close>

text \<open>Every working directory the file system remembers is absolute.\<close>

definition vfs_ok :: "vfs \<Rightarrow> bool" where
  "vfs_ok v \<longleftrightarrow> abs_path (g_current_path (fat v)) \<and> (\<forall>d. abs_path (drive_dirs v d))"

lemma abs_root: "abs_path (asc ''/'')"
  by (simp add: abs_path_def asc_def)

lemma strip_keeps_abs:
  assumes "abs_path p"
  shows "dropWhile (\<lambda>c. c = 32) (strip_trailing p) \<noteq> []" and "hd (dropWhile (\<lambda>c. c = 32) (strip_trailing p)) = slash"
    and "length (dropWhile (\<lambda>c. c = 32) (strip_trailing p)) \<le> 255"
proof -
  obtain q where q: "p = slash # q" using assms by (cases p) (auto simp: abs_path_def)
  have "\<exists>r. strip_trailing p = slash # r \<and> length r \<le> length q"
  proof -
    have "\<not> is_trailing slash" by (simp add: is_trailing_def)
    then have "dropWhile is_trailing (rev q @ [slash]) = dropWhile is_trailing (rev q) @ [slash]"
      by (induction "rev q") (auto simp: dropWhile_append)
    moreover have "length (dropWhile is_trailing (rev q)) \<le> length q" using length_dropWhile_le [of is_trailing "rev q"] by simp
    ultimately show ?thesis by (simp add: strip_trailing_def q)
  qed
  then show "dropWhile (\<lambda>c. c = 32) (strip_trailing p) \<noteq> []" "hd (dropWhile (\<lambda>c. c = 32) (strip_trailing p)) = slash"
    "length (dropWhile (\<lambda>c. c = 32) (strip_trailing p)) \<le> 255" using assms q by (auto simp: abs_path_def)
qed

lemma change_directory_ok:
  assumes "abs_path p" and "abs_path (g_current_path st)"
  shows "\<exists>r st'. exfat_change_directory (Some p) st = Some (r, st') \<and> abs_path (g_current_path st') \<and> blk st' = blk st"
proof -
  let ?c = "dropWhile (\<lambda>c. c = 32) (strip_trailing p)"
  note c = strip_keeps_abs [OF assms(1)]
  have "walk_room ?c [slash]" using c by (auto simp: walk_room_def abs_path_def)
  from walk_path_ok [OF this] obtain r where
    r: "walk_path st ?c (g_root_cluster st) [slash] = Some r" "\<forall>k q. r = Inr (k, q) \<longrightarrow> abs_path q" by blast
  have "p \<noteq> []" "length p < 256" using assms(1) by (auto simp: abs_path_def)
  then show ?thesis using c(1,2) r assms(2)
    by (cases r) (auto simp: exfat_change_directory_def fit256_def Let_def simp del: dropWhile_eq_Nil_conv)
qed

lemma vfs_chdir_ok:
  assumes "vfs_ok v" and "abs_path p"
  shows "\<exists>r v'. vfs_chdir p v = Some (r, v') \<and> vfs_ok v' \<and> vfs_drive v' = vfs_drive v \<and> drive_mounted v' = drive_mounted v"
  using change_directory_ok [OF assms(2), of "fat v"] assms(1) by (auto simp: vfs_chdir_def vfs_ok_def)

lemma write_all_path [simp]: "g_current_path (snd (write_all ws st)) = g_current_path st"
  by (induction ws st rule: write_all.induct) (auto simp: exfat_sector_write_def split: option.splits if_splits)

lemma vfs_mount_ok: "vfs_ok v \<Longrightarrow> vfs_mount v = (r, v') \<Longrightarrow> vfs_ok v' \<and> vfs_drive v' = vfs_drive v"
  using abs_root by (auto simp: vfs_mount_def exfat_mount_def vfs_ok_def Let_def split: option.splits if_splits)

lemma format_path: "abs_path (g_current_path st) \<Longrightarrow> abs_path (g_current_path (snd (exfat_wipe_and_format st)))"
  using abs_root by (simp add: exfat_wipe_and_format_def Let_def case_prod_beta)

lemma format_ok: "vfs_ok v \<Longrightarrow> exfat_wipe_and_format (fat v) = (r, f) \<Longrightarrow> vfs_ok (v \<lparr> fat := f \<rparr>)"
  using format_path [of "fat v"] by (simp add: vfs_ok_def)

lemma vfs_select_ok: "vfs_ok v \<Longrightarrow> vfs_select d v = Some v' \<Longrightarrow> vfs_ok v' \<and> vfs_drive v' = vfs_drive v"
  by (auto simp: vfs_select_def drive_select_def vfs_ok_def split: if_splits)

lemma mount_or_format_ok:
  assumes "vfs_ok v" and "fs_mount_or_format_drive d v = (r, v')"
  shows "vfs_ok v'"
proof -
  have dirs: "vfs_ok (u \<lparr> drive_mounted := m \<rparr>)" "vfs_ok (u \<lparr> drive_mounted := m, drive_dirs := (drive_dirs u)(d := asc ''/'') \<rparr>)"
    if "vfs_ok u" for u m using that abs_root by (simp_all add: vfs_ok_def)
  show ?thesis
  proof (cases "vfs_present v d \<and> vfs_select d v \<noteq> None")
    case False
    then show ?thesis using assms by (auto simp: fs_mount_or_format_drive_def Let_def split: if_splits option.splits)
  next
    case True
    then obtain v1 where v1: "vfs_select d v = Some v1" by blast
    obtain r2 v2 where v2: "vfs_mount v1 = (r2, v2)" by force
    obtain r3 f where f: "exfat_wipe_and_format (fat v2) = (r3, f)" by force
    obtain r4 v4 where v4: "vfs_mount (v2 \<lparr> fat := f \<rparr>) = (r4, v4)" by force
    have ok2: "vfs_ok v2" using vfs_mount_ok [OF _ v2] vfs_select_ok [OF assms(1) v1] by blast
    have ok3: "vfs_ok (v2 \<lparr> fat := f \<rparr>)" by (rule format_ok [OF ok2 f])
    have ok4: "vfs_ok v4" using vfs_mount_ok [OF ok3 v4] by blast
    show ?thesis using assms(2) True v1 v2 f v4 ok2 ok3 ok4
      by (auto simp: fs_mount_or_format_drive_def Let_def dirs split: if_splits)
  qed
qed

lemma select_drive_ok:
  assumes "vfs_ok v"
  shows "\<exists>r v'. fs_select_drive_internal d v = Some (r, v') \<and> vfs_ok v'
     \<and> (r = 0 \<longrightarrow> d < ATA_DRIVE_COUNT \<and> vfs_drive v' = d)"
proof (cases "d \<ge> ATA_DRIVE_COUNT \<or> \<not> vfs_present v d \<or> d = vfs_drive v \<and> drive_mounted v d")
  case True
  then show ?thesis using assms by (auto simp: fs_select_drive_internal_def)
next
  case False
  define u where "u = (if drive_mounted v (vfs_drive v) \<and> length (exfat_get_working_dir (fat v)) < 256
    then v \<lparr> drive_dirs := (drive_dirs v)(vfs_drive v := exfat_get_working_dir (fat v)) \<rparr> else v)"
  have u: "vfs_ok u" using assms by (auto simp: u_def vfs_ok_def exfat_get_working_dir_def)
  obtain r w where w: "fs_mount_or_format_drive d u = (r, w)" by force
  have okw: "vfs_ok w" by (rule mount_or_format_ok [OF u w])
  show ?thesis
  proof (cases "r = 0")
    case True
    let ?w = "w \<lparr> vfs_drive := d \<rparr>"
    have "vfs_ok ?w" "abs_path (drive_dirs ?w d)" using okw by (auto simp: vfs_ok_def)
    from vfs_chdir_ok [OF this] obtain r1 v1 where v1: "vfs_chdir (drive_dirs ?w d) ?w = Some (r1, v1)" "vfs_ok v1"
      "vfs_drive v1 = d" by auto
    let ?x = "v1 \<lparr> drive_dirs := (drive_dirs v1)(d := asc ''/'') \<rparr>"
    have "vfs_ok ?x" using v1(2) abs_root by (auto simp: vfs_ok_def)
    from vfs_chdir_ok [OF this abs_root] obtain r2 v2 where v2: "vfs_chdir (asc ''/'') ?x = Some (r2, v2)" "vfs_ok v2"
      "vfs_drive v2 = d" using v1(3) by auto
    have "vfs_ok (v2 \<lparr> drive_mounted := m \<rparr>)" for m using v2(2) by (simp add: vfs_ok_def)
    then show ?thesis using False True w v1 v2
      by (auto simp: fs_select_drive_internal_def Let_def u_def [symmetric] not_le)
  next
    case f: False
    define x where "x = (case vfs_select (vfs_drive u) w of None \<Rightarrow> w | Some v \<Rightarrow> v) \<lparr> vfs_drive := vfs_drive u \<rparr>"
    have x: "vfs_ok x" using okw vfs_select_ok [OF okw] by (auto simp: x_def vfs_ok_def split: option.split)
    obtain m y where y: "vfs_mount x = (m, y)" by force
    have "vfs_ok y" "abs_path (drive_dirs x (vfs_drive u))" using vfs_mount_ok [OF x y] x by (auto simp: vfs_ok_def)
    from vfs_chdir_ok [OF this] obtain r1 v1 where "vfs_chdir (drive_dirs x (vfs_drive u)) y = Some (r1, v1)" "vfs_ok v1" by blast
    then have "fs_select_drive_internal d v = Some (-1, if vfs_drive u < ATA_DRIVE_COUNT \<and> vfs_present w (vfs_drive u)
        then if drive_mounted x (vfs_drive u) then v1 else x else w)"
      using False f w y unfolding fs_select_drive_internal_def Let_def u_def [symmetric]
      by (simp add: x_def [symmetric])
    then show ?thesis using x okw \<open>vfs_ok v1\<close> by simp
  qed
qed

section \<open>Paths with a drive letter\<close>

lemma strip_trailing_abs:
  assumes "abs_path p" shows "abs_path (strip_trailing p)"
proof -
  obtain r where r: "p = strip_trailing p @ r"
    unfolding strip_trailing_def by (metis rev_append rev_rev_ident takeWhile_dropWhile_id)
  have n: "strip_trailing p \<noteq> []" using strip_keeps_abs(1) [OF assms] by auto
  then have "hd p = hd (strip_trailing p)" using r by (metis hd_append2)
  moreover have "length (strip_trailing p) \<le> length p" using arg_cong [OF r, of length] by simp
  ultimately show ?thesis using n assms by (simp add: abs_path_def)
qed

lemma strip_slashes_abs: "abs_path p \<Longrightarrow> abs_path (strip_slashes p)"
proof (induction p rule: strip_slashes.induct)
  case (1 s)
  show ?case
  proof (cases "1 < length s \<and> last s = slash")
    case True
    then have "abs_path (butlast s)" using "1.prems" by (cases s) (auto simp: abs_path_def)
    from "1.IH" [OF True this] True show ?thesis by (subst strip_slashes.simps) simp
  next
    case False
    then show ?thesis using "1.prems" by (subst strip_slashes.simps) (simp only: if_False)
  qed
qed

lemma sanitize_abs:
  assumes "abs_path p" shows "\<exists>q. fs_sanitize_path p (Some p) = Some q \<and> abs_path q"
proof -
  have "dropWhile (\<lambda>c. c = 32) p = p" using assms by (cases p) (auto simp: abs_path_def)
  then show ?thesis using strip_slashes_abs [OF strip_trailing_abs [OF assms]] by (simp add: fs_sanitize_path_def)
qed

lemma prepare_path_drive:
  assumes "vfs_ok v" and "d < ATA_DRIVE_COUNT" and "abs_path p"
  shows "\<exists>r v'. fs_prepare_path ([99 + d, 58] @ p) 256 v = Some (r, v') \<and> vfs_ok v'
     \<and> (r = None \<or> r = Some p \<and> vfs_drive v' = d)"
proof -
  from select_drive_ok [OF assms(1), of d] obtain r v' where
    r: "fs_select_drive_internal d v = Some (r, v')" "vfs_ok v'" "r = 0 \<longrightarrow> vfs_drive v' = d" by blast
  have "d = 0 \<or> d = 1" using assms(2) by (cases d rule: word_nat_cases) (auto simp: word_less_nat_alt unat_of_nat less_2_cases_iff)
  then have c: "97 \<le> 99 + d" "99 + d \<le> 122" "99 + d = 99 \<or> 99 + d = 100" by auto
  show ?thesis using r c assms(3) by (auto simp: fs_prepare_path_def abs_path_def)
qed

lemma chdir_drive_ok:
  assumes "vfs_ok v" and "d < ATA_DRIVE_COUNT" and "abs_path p"
  shows "\<exists>r v'. fs_chdir (Some ([99 + d, 58] @ p)) v = Some (r, v') \<and> vfs_ok v'"
proof -
  from prepare_path_drive [OF assms] obtain r u where
    u: "fs_prepare_path ([99 + d, 58] @ p) 256 v = Some (r, u)" "vfs_ok u" "r = None \<or> r = Some p" by blast
  have p: "p \<noteq> []" using assms(3) by (auto simp: abs_path_def)
  from sanitize_abs [OF assms(3)] obtain q where q: "fs_sanitize_path p (Some p) = Some q" "abs_path q" by blast
  from vfs_chdir_ok [OF u(2) q(2)] obtain r1 v1 where v1: "vfs_chdir q u = Some (r1, v1)" "vfs_ok v1" by blast
  from select_drive_ok [OF v1(2), of "vfs_drive v"] obtain r2 v2 where
    v2: "fs_select_drive_internal (vfs_drive v) v1 = Some (r2, v2)" "vfs_ok v2" by blast
  have "vfs_ok (v1 \<lparr> drive_dirs := (drive_dirs v1)(vfs_drive v1 := exfat_get_working_dir (fat v1)) \<rparr>)"
    using v1(2) by (simp add: vfs_ok_def exfat_get_working_dir_def)
  moreover have "q \<noteq> []" using q(2) by (auto simp: abs_path_def)
  ultimately show ?thesis using u p q(1) v1 v2 by (auto simp: fs_chdir_def Let_def)
qed

end
