(* ===== verification/Scheduler.thy ===== *)
theory Scheduler
  imports Elf VfsPaths
begin

text \<open>
  The task scheduler of \<open>helper/core/execute/scheduler.c\<close>. Slot 0 is the kernel's own task with the
  shell; seven more run ELF programs. The state joins the kernel, the task table and what the timer
  interrupt switches: floating point registers, segment bases, the stack of the task state segment.
  The workspace of each task and the index of the running one are fields of the terminal, which
  reads them. An interrupt frame lies on a kernel stack; a pointer to it is the number of the stack
  (0 is the initial one) with an offset, so that clearing a task clears the frames on its stack.
  Interrupts are disabled inside the operations, so each is one step. \<open>log\<close> writes to the serial
  port and has no effect here.
\<close>

abbreviation MAX_SYSCALL_CONTEXTS :: u32 where "MAX_SYSCALL_CONTEXTS \<equiv> 6"
abbreviation MAX_FLAT_BINARY_SIZE :: u64 where "MAX_FLAT_BINARY_SIZE \<equiv> 16 * 1024 * 1024"

section \<open>State\<close>

record interrupt_frame =
  frame_r15 :: u64
  frame_r14 :: u64
  frame_r13 :: u64
  frame_r12 :: u64
  frame_r11 :: u64
  frame_r10 :: u64
  frame_r9 :: u64
  frame_r8 :: u64
  frame_rbp :: u64
  frame_rdi :: u64
  frame_rsi :: u64
  frame_rdx :: u64
  frame_rcx :: u64
  frame_rbx :: u64
  frame_rax :: u64
  frame_vector :: u64
  frame_error_code :: u64
  frame_rip :: u64
  frame_cs :: u64
  frame_rflags :: u64
  frame_rsp :: u64
  frame_ss :: u64

type_synonym frame_ref = "nat \<times> nat"

record task =
  task_pid :: u32
  task_active :: bool
  task_cr3 :: u64
  task_gs_base :: u64
  task_kernel_gs_base :: u64
  task_linux_abi :: bool
  fs_context_valid :: bool
  task_drive :: u8
  task_cwd :: bytes
  task_frame :: "frame_ref option"
  task_linux :: linux_context
  task_program :: program_memory
  fpu_state :: bytes

record sched =
  kern :: kernel
  lnch :: launcher
  syscall_context_gs_bases :: "u64 list"
  tasks :: "task list"
  next_pid :: u32
  kernel_cr3 :: u64
  isr_fpu_temp :: bytes
  fpu :: bytes
  gs_base :: u64
  kernel_gs_base :: u64
  tss_stack :: nat
  stacks :: "nat \<Rightarrow> nat \<Rightarrow> interrupt_frame"

abbreviation tm :: "sched \<Rightarrow> terminal" where "tm s \<equiv> trm (tty (kern s))"
abbreviation cur :: "sched \<Rightarrow> nat" where "cur s \<equiv> current_task (tm s)"

definition set_tm :: "terminal \<Rightarrow> sched \<Rightarrow> sched" where
  "set_tm t s = s \<lparr> kern := (kern s) \<lparr> tty := (tty (kern s)) \<lparr> trm := t \<rparr> \<rparr> \<rparr>"

definition set_files :: "vfs \<Rightarrow> sched \<Rightarrow> sched" where
  "set_files v s = s \<lparr> kern := (kern s) \<lparr> files := v \<rparr> \<rparr>"

definition set_vm :: "machine \<Rightarrow> sched \<Rightarrow> sched" where
  "set_vm st s = s \<lparr> kern := (kern s) \<lparr> vm := st \<rparr> \<rparr>"

text \<open>The running task; the system calls read its number as \<open>current_pid\<close>.\<close>

definition set_current :: "nat \<Rightarrow> sched \<Rightarrow> sched" where
  "set_current i s = (let s = set_tm ((tm s) \<lparr> current_task := i \<rparr>) s
     in s \<lparr> kern := (kern s) \<lparr> current_pid := task_pid (tasks s ! i) \<rparr> \<rparr>)"

definition scheduler_current_pid :: "sched \<Rightarrow> u32" where
  "scheduler_current_pid s = task_pid (tasks s ! cur s)"

text \<open>A task filled with zeros.\<close>

definition zero_context :: linux_context where
  "zero_context = \<lparr> file_descriptors = replicate LINUX_FD_LIMIT closed_fd, program_break = 0, mmap_cursor = 0, heap_start = 0 \<rparr>"

definition zero_frame :: interrupt_frame where
  "zero_frame = \<lparr> frame_r15 = 0, frame_r14 = 0, frame_r13 = 0, frame_r12 = 0, frame_r11 = 0, frame_r10 = 0, frame_r9 = 0,
     frame_r8 = 0, frame_rbp = 0, frame_rdi = 0, frame_rsi = 0, frame_rdx = 0, frame_rcx = 0, frame_rbx = 0, frame_rax = 0,
     frame_vector = 0, frame_error_code = 0, frame_rip = 0, frame_cs = 0, frame_rflags = 0, frame_rsp = 0, frame_ss = 0 \<rparr>"

definition zero_task :: task where
  "zero_task = \<lparr> task_pid = 0, task_active = False, task_cr3 = 0, task_gs_base = 0, task_kernel_gs_base = 0,
     task_linux_abi = False, fs_context_valid = False, task_drive = 0, task_cwd = [], task_frame = None,
     task_linux = zero_context, task_program = empty_program, fpu_state = replicate 512 0 \<rparr>"

section \<open>Switching\<close>

definition scheduler_save_fs_context :: "vfs \<Rightarrow> task \<Rightarrow> task" where
  "scheduler_save_fs_context v t =
     (case fs_dirname v of None \<Rightarrow> t \<lparr> fs_context_valid := False \<rparr>
      | Some cwd \<Rightarrow> if length cwd \<ge> 260 then t \<lparr> fs_context_valid := False \<rparr>
                    else t \<lparr> task_cwd := cwd, task_drive := fs_current_drive v, fs_context_valid := True \<rparr>)"

definition scheduler_restore_fs_context :: "task \<Rightarrow> vfs \<Rightarrow> vfs option" where
  "scheduler_restore_fs_context t v =
     (if \<not> fs_context_valid t then Some v
      else do {
        (r, v) \<leftarrow> fs_select_drive (task_drive t) v;
        if r \<noteq> 0 then Some v
        else do { (_, v) \<leftarrow> fs_chdir (Some (task_cwd t)) v; Some v }
      })"

definition scheduler_activate :: "nat \<Rightarrow> sched \<Rightarrow> sched option" where
  "scheduler_activate index s =
     do {
       let t = tasks s ! index;
       let s = set_current index s;
       let s = set_vm (switch_user_pml4 (task_cr3 t) (vm (kern s))) s;
       let s = s \<lparr> tss_stack := index \<rparr>;
       v \<leftarrow> scheduler_restore_fs_context t (files (kern s));
       let s = set_files v s;
       let k = syscall_select_linux_abi (task_linux_abi t) (kern s);
       let s = s \<lparr> kern := (if task_linux_abi t then linux_syscall_context_restore (Some (task_linux t)) k else k) \<rparr>;
       let s = s \<lparr> gs_base := task_gs_base t, kernel_gs_base := task_kernel_gs_base t, fpu := fpu_state t \<rparr>;
       let w = task_workspaces (tm s) ! index;
       u \<leftarrow> sys_workspace_load w (w = displayed (tm s)) (tm s);
       Some (set_tm u s)
     }"

definition scheduler_find_next :: "task list \<Rightarrow> nat \<Rightarrow> nat" where
  "scheduler_find_next ts after =
     (case find (\<lambda>index. task_active (ts ! index))
             (map (\<lambda>step. (after + step) mod SCHEDULER_TASK_LIMIT) [1..<Suc SCHEDULER_TASK_LIMIT]) of
        Some index \<Rightarrow> index | None \<Rightarrow> 0)"

definition scheduler_init :: "sched \<Rightarrow> sched" where
  "scheduler_init s =
     (let cr = root (vm (kern s));
          t = zero_task \<lparr> task_active := True, task_cr3 := cr, task_pid := 0, task_gs_base := gs_base s,
                task_kernel_gs_base := kernel_gs_base s \<rparr>;
          t = scheduler_save_fs_context (files (kern s)) t;
          (c, k) = linux_syscall_context_init (task_linux t) (kern s);
          t = t \<lparr> task_linux := the c, fpu_state := fpu s \<rparr>;
          s = s \<lparr> kern := k, tasks := t # replicate (SCHEDULER_TASK_LIMIT - 1) zero_task, kernel_cr3 := cr,
                  isr_fpu_temp := fpu s, stacks := (\<lambda>i. if i = 0 then stacks s 0 else (\<lambda>_. zero_frame)) \<rparr>
      in set_current 0 (set_tm ((tm s) \<lparr> task_workspaces := replicate SCHEDULER_TASK_LIMIT 0 \<rparr>) s))"

text \<open>What the timer interrupt stores in the task it interrupts.\<close>

definition save_task :: "frame_ref \<Rightarrow> sched \<Rightarrow> task \<Rightarrow> task" where
  "save_task frame s t =
     (let t = t \<lparr> task_frame := Some frame, task_cr3 := root (vm (kern s)), task_gs_base := gs_base s,
                task_kernel_gs_base := kernel_gs_base s, task_linux_abi := linux_abi (kern s) \<rparr>;
          t = (if task_linux_abi t then t \<lparr> task_linux := the (linux_syscall_context_save (Some (task_linux t)) (kern s)) \<rparr> else t);
          t = scheduler_save_fs_context (files (kern s)) t
      in t \<lparr> fpu_state := isr_fpu_temp s \<rparr>)"

text \<open>Saving the screen of the running task and, when one was asked for, switching the workspace.\<close>

definition take_switch :: "terminal \<Rightarrow> (bool \<times> terminal) option" where
  "take_switch t =
     (let t = sys_workspace_save (scheduler_current_workspace t) t;
          (workspace_switched, k) = sys_workspace_take_switch_request (kbd t);
          t = t \<lparr> kbd := k \<rparr>
      in if workspace_switched then do { t \<leftarrow> sys_switch_terminal t; Some (True, t) } else Some (False, t))"

definition scheduler_on_timer :: "frame_ref option \<Rightarrow> sched \<Rightarrow> (frame_ref option \<times> sched) option" where
  "scheduler_on_timer frame s =
     (case frame of None \<Rightarrow> Some (None, s)
      | Some f \<Rightarrow>
        if \<not> task_active (tasks s ! cur s) then Some (frame, s)
        else do {
          let i = cur s;
          let s = s \<lparr> tasks := (tasks s)[i := save_task f s (tasks s ! i)] \<rparr>;
          (workspace_switched, t) \<leftarrow> take_switch (tm s);
          let s = set_tm t s;
          let next = scheduler_find_next (tasks s) i;
          if next = i
          then do {
            s \<leftarrow> (if workspace_switched then scheduler_activate i s
                  else do {
                    let w = task_workspaces (tm s) ! i;
                    u \<leftarrow> sys_workspace_load w (w = displayed (tm s)) (tm s);
                    Some (set_tm u s)
                  });
            Some (frame, s \<lparr> fpu := fpu_state (tasks s ! i) \<rparr>)
          }
          else do {
            s \<leftarrow> scheduler_activate next s;
            Some (task_frame (tasks s ! next), s)
          }
        })"

text \<open>The timer interrupt: the entry stub saves the floating point registers, \<open>isr_common_handler\<close>
  counts the tick and asks the scheduler for the frame to resume.\<close>

definition timer_interrupt :: "frame_ref \<Rightarrow> sched \<Rightarrow> (frame_ref option \<times> sched) option" where
  "timer_interrupt frame s =
     (let s = s \<lparr> isr_fpu_temp := fpu s \<rparr>;
          s = set_tm ((tm s) \<lparr> timer := pit_handler (timer (tm s)) \<rparr>) s
      in scheduler_on_timer (Some frame) s)"

section \<open>Starting and ending tasks\<close>

definition syscall_user_kernel_gs_base :: "sched \<Rightarrow> u64" where
  "syscall_user_kernel_gs_base s =
     (let depth = syscall_context_depth (lnch s)
      in if depth \<ge> MAX_SYSCALL_CONTEXTS then 0 else syscall_context_gs_bases s ! unat depth)"

text \<open>The frame a new task starts from.\<close>

definition start_frame :: "int \<Rightarrow> elf_image \<Rightarrow> interrupt_frame" where
  "start_frame argc img = zero_frame \<lparr> frame_rdi := word_of_int argc, frame_rsi := image_argv img, frame_vector := 32,
     frame_rip := image_entry img, frame_cs := 0x23, frame_rflags := 0x202, frame_rsp := image_stack img, frame_ss := 0x1B \<rparr>"

definition free_slot :: "task list \<Rightarrow> nat option" where
  "free_slot ts = find (\<lambda>i. \<not> task_active (ts ! i)) [1..<SCHEDULER_TASK_LIMIT]"

definition update_task :: "nat \<Rightarrow> (task \<Rightarrow> task) \<Rightarrow> sched \<Rightarrow> sched" where
  "update_task i f s = s \<lparr> tasks := (tasks s)[i := f (tasks s ! i)] \<rparr>"

text \<open>Every way out of \<open>scheduler_spawn_elf\<close> returns to the working directory of the running task.\<close>

definition leave_spawn :: "u32 option \<Rightarrow> sched \<Rightarrow> (u32 option \<times> sched) option" where
  "leave_spawn r s =
     do { v \<leftarrow> scheduler_restore_fs_context (tasks s ! cur s) (files (kern s)); Some (r, set_files v s) }"

text \<open>The slot cleared, with the working directory of the running task.\<close>

definition prepare_slot :: "nat \<Rightarrow> u32 \<Rightarrow> sched \<Rightarrow> sched" where
  "prepare_slot free workspace_id s =
     (let s = update_task (cur s) (scheduler_save_fs_context (files (kern s))) s;
          s = update_task free (\<lambda>_. zero_task) (s \<lparr> stacks := (stacks s)(free := (\<lambda>_. zero_frame)) \<rparr>);
          s = set_tm ((tm s) \<lparr> task_workspaces := (task_workspaces (tm s))[free := workspace_id] \<rparr>) s;
          c = tasks s ! cur s
      in update_task free (\<lambda>t. t \<lparr> task_drive := task_drive c, fs_context_valid := fs_context_valid c, task_cwd := task_cwd c \<rparr>) s)"

definition heap_context :: "elf_image \<Rightarrow> linux_context \<Rightarrow> linux_context" where
  "heap_context img c =
     (if image_linux_abi img \<and> image_heap_base img > heap_start c \<and> image_heap_base img < USER_MMAP_BASE
      then c \<lparr> heap_start := image_heap_base img, program_break := image_heap_base img \<rparr> else c)"

definition finish_spawn :: "nat \<Rightarrow> int \<Rightarrow> u64 \<Rightarrow> elf_image \<Rightarrow> sched \<Rightarrow> (u32 option \<times> sched) option" where
  "finish_spawn free argc pml4 img s =
     (let pid = next_pid s;
          s = s \<lparr> next_pid := (if pid + 1 = 0 then 2 else pid + 1) \<rparr>;
          gs = syscall_user_kernel_gs_base s;
          s = s \<lparr> stacks := (stacks s)(free := (stacks s free)(0 := start_frame argc img)) \<rparr>;
          (c, k) = linux_syscall_context_init (task_linux (tasks s ! free)) (kern s);
          s = s \<lparr> kern := k \<rparr>;
          s = update_task free (\<lambda>t. t \<lparr> task_active := True, task_pid := pid, task_cr3 := pml4, task_gs_base := 0,
                task_kernel_gs_base := gs, task_linux_abi := image_linux_abi img, task_frame := Some (free, 0),
                task_linux := heap_context img (the c), fpu_state := fpu_state (tasks s ! 0) \<rparr>) s
      in leave_spawn (Some pid) s)"

definition scheduler_spawn_elf :: "bytes option \<Rightarrow> int \<Rightarrow> bytes option list option \<Rightarrow> u32 \<Rightarrow> sched
    \<Rightarrow> (u32 option \<times> sched) option" where
  "scheduler_spawn_elf path argc argv workspace_id s =
     (if path = None \<or> path = Some [] \<or> argc < 0 \<or> argc > 32 \<or> (argc > 0 \<and> argv = None) \<or> workspace_id \<ge> MAX_TERMINALS
      then Some (None, s)
      else case free_slot (tasks s) of None \<Rightarrow> Some (None, s)
      | Some free \<Rightarrow> do {
          let s = prepare_slot free workspace_id s;
          (info, v) \<leftarrow> fs_get_info path (files (kern s));
          let s = set_files v s;
          (case info of
             Some (file_size, False) \<Rightarrow>
               if file_size = 0 \<or> file_size > MAX_FLAT_BINARY_SIZE then leave_spawn None s
               else do {
                 let parent_cr3 = root (vm (kern s));
                 (pml4, st) \<leftarrow> create_user_pml4 (vm (kern s));
                 let s = set_vm st s;
                 if pml4 = 0 then leave_spawn None s
                 else do {
                   let s = set_vm (switch_user_pml4 pml4 (vm (kern s))) s;
                   (r, p, k) \<leftarrow> system_load_elf_args path file_size argc argv (task_program (tasks s ! free)) (kern s);
                   let s = update_task free (\<lambda>t. t \<lparr> task_program := p \<rparr>) (s \<lparr> kern := k \<rparr>);
                   let s = set_vm (switch_user_pml4 parent_cr3 (vm (kern s))) s;
                   (case r of
                      Inl _ \<Rightarrow> leave_spawn None (set_vm (destroy_user_pml4 pml4 (vm (kern s))) s)
                    | Inr img \<Rightarrow> finish_spawn free argc pml4 img s)
                 }
               }
           | _ \<Rightarrow> leave_spawn None s)
        })"

text \<open>The number of tasks and what is stored for the first of them: number, state and workspace.\<close>

definition scheduler_list :: "nat option \<Rightarrow> sched \<Rightarrow> nat \<times> (u32 \<times> u32 \<times> u32) list" where
  "scheduler_list room s =
     (let active = filter (\<lambda>i. task_active (tasks s ! i)) [1..<SCHEDULER_TASK_LIMIT]
      in (length active,
          map (\<lambda>i. (task_pid (tasks s ! i), if i = cur s then 2 else 1, task_workspaces (tm s) ! i))
            (case room of None \<Rightarrow> [] | Some n \<Rightarrow> take n active)))"

definition scheduler_kill :: "u32 \<Rightarrow> sched \<Rightarrow> (int \<times> sched) option" where
  "scheduler_kill pid s =
     (if pid = 0 then Some (-1, s)
      else case find (\<lambda>i. task_active (tasks s ! i) \<and> task_pid (tasks s ! i) = pid) [1..<SCHEDULER_TASK_LIMIT] of
        None \<Rightarrow> Some (-1, s)
      | Some i \<Rightarrow> do {
          let pml4 = task_cr3 (tasks s ! i);
          let s = update_task i (\<lambda>t. t \<lparr> task_active := False \<rparr>) s;
          st \<leftarrow> cleanup_program_pages (Some (task_program (tasks s ! i))) (vm (kern s));
          Some (0, set_vm (destroy_user_pml4 pml4 st) s)
        })"

text \<open>The exit of a task: \<open>Inl\<close> returns to the launcher, \<open>Inr\<close> resumes a frame.\<close>

definition scheduler_exit_current :: "u64 \<Rightarrow> sched \<Rightarrow> ((u64 + frame_ref option) \<times> sched) option" where
  "scheduler_exit_current status s =
     (if cur s = 0 then Some (Inl status, s)
      else do {
        let exiting = cur s;
        let s = (if linux_abi (kern s)
                 then update_task exiting (\<lambda>t. t \<lparr> task_linux := the (linux_syscall_context_save (Some (task_linux t)) (kern s)) \<rparr>) s
                 else s);
        let s = update_task exiting (scheduler_save_fs_context (files (kern s))) s;
        let s = set_tm (sys_workspace_save (task_workspaces (tm s) ! exiting) (tm s)) s;
        st \<leftarrow> cleanup_program_pages (Some (task_program (tasks s ! exiting))) (vm (kern s));
        let s = set_vm st s;
        let pml4 = task_cr3 (tasks s ! exiting);
        let s = update_task exiting (\<lambda>t. t \<lparr> task_active := False \<rparr>) s;
        let next = scheduler_find_next (tasks s) exiting;
        let target_frame = task_frame (tasks s ! next);
        let target_cr3 = task_cr3 (tasks s ! next);
        let s = set_vm (destroy_user_pml4 pml4 (vm (kern s))) s;
        let s = set_current next s;
        Some (Inr target_frame, set_vm (switch_user_pml4 target_cr3 (vm (kern s))) s)
      })"

end
