(* ===== verification/TaskSwitch.thy ===== *)
theory TaskSwitch
  imports Scheduler
begin

text \<open>
  Switching between tasks. The context of a task is what the processor and the kernel hold for it
  while it runs and what the task table holds otherwise; a timer interrupt changes which task runs
  and no context. The tasks that are active take turns.
\<close>

section \<open>Invariant\<close>

definition directory_ok :: "task \<Rightarrow> bool" where
  "directory_ok t \<longleftrightarrow> (fs_context_valid t \<longrightarrow> (\<exists>p. task_cwd t = [99 + task_drive t, 58] @ p \<and> abs_path p))"

definition task_ok :: "task \<Rightarrow> bool" where
  "task_ok t \<longleftrightarrow> directory_ok t \<and> (task_active t \<longrightarrow> task_cr3 t \<noteq> 0 \<and> page_aligned (task_cr3 t))"

definition sched_ok :: "sched \<Rightarrow> bool" where
  "sched_ok s \<longleftrightarrow> length (tasks s) = SCHEDULER_TASK_LIMIT \<and> (\<forall>t\<in>set (tasks s). task_ok t)
     \<and> task_active (tasks s ! 0) \<and> task_active (tasks s ! cur s) \<and> wf_terminal (tm s) \<and> vfs_ok (files (kern s))
     \<and> root (vm (kern s)) \<noteq> 0 \<and> current_pid (kern s) = scheduler_current_pid s
     \<and> (\<forall>i<SCHEDULER_TASK_LIMIT. i \<noteq> cur s \<longrightarrow> task_active (tasks s ! i) \<longrightarrow> task_frame (tasks s ! i) \<noteq> None)"

section \<open>Working directories\<close>

lemma save_fs_directory: "vfs_ok v \<Longrightarrow> directory_ok (scheduler_save_fs_context v t)"
  by (auto simp: scheduler_save_fs_context_def directory_ok_def fs_dirname_def fs_current_drive_def vfs_ok_def
      exfat_get_working_dir_def split: option.splits)

lemma save_fs_simps [simp]:
  "task_active (scheduler_save_fs_context v t) = task_active t" "task_cr3 (scheduler_save_fs_context v t) = task_cr3 t"
  "task_frame (scheduler_save_fs_context v t) = task_frame t" "task_pid (scheduler_save_fs_context v t) = task_pid t"
  "task_gs_base (scheduler_save_fs_context v t) = task_gs_base t" "task_linux (scheduler_save_fs_context v t) = task_linux t"
  "task_kernel_gs_base (scheduler_save_fs_context v t) = task_kernel_gs_base t" "fpu_state (scheduler_save_fs_context v t) = fpu_state t"
  "task_linux_abi (scheduler_save_fs_context v t) = task_linux_abi t" "task_program (scheduler_save_fs_context v t) = task_program t"
  by (simp_all add: scheduler_save_fs_context_def split: option.split)

lemma restore_fs_ok:
  assumes "vfs_ok v" and "directory_ok t"
  shows "\<exists>v'. scheduler_restore_fs_context t v = Some v' \<and> vfs_ok v'"
proof (cases "fs_context_valid t")
  case False
  then show ?thesis using assms(1) by (simp add: scheduler_restore_fs_context_def)
next
  case True
  then obtain p where p: "task_cwd t = [99 + task_drive t, 58] @ p" "abs_path p" using assms(2) by (auto simp: directory_ok_def)
  from select_drive_ok [OF assms(1), of "task_drive t"] obtain r u where
    u: "fs_select_drive_internal (task_drive t) v = Some (r, u)" "vfs_ok u" "r = 0 \<longrightarrow> task_drive t < ATA_DRIVE_COUNT" by blast
  show ?thesis
  proof (cases "r = 0")
    case f: False
    then show ?thesis using True u by (simp add: scheduler_restore_fs_context_def fs_select_drive_def)
  next
    case r: True
    from chdir_drive_ok [OF u(2) _ p(2), of "task_drive t"] u(3) r obtain r2 w where
      "fs_chdir (Some (task_cwd t)) u = Some (r2, w)" "vfs_ok w" by (auto simp: p(1))
    then show ?thesis using True u r by (simp add: scheduler_restore_fs_context_def fs_select_drive_def)
  qed
qed

section \<open>Screens\<close>

lemma workspace_load_ok:
  assumes "wf_terminal t" and "w < MAX_TERMINALS"
  shows "\<exists>t'. sys_workspace_load w b t = Some t' \<and> wf_terminal t' \<and> workspaces t' = workspaces t
     \<and> task_workspaces t' = task_workspaces t \<and> current_task t' = current_task t \<and> displayed t' = displayed t
     \<and> kbd t' = kbd t \<and> timer t' = timer t \<and> body (save_console (con t')) = body (workspaces t ! unat w)"
proof -
  note wf = assms(1) [unfolded wf_terminal_def]
  have l: "unat w < 4" using assms(2) by (simp add: word_less_nat_alt)
  define c where "c = dogeio_set_render_enabled b (load_console (workspaces t ! unat w) (con t))"
  have "bar_ok (con t)" "wf_workspace (workspaces t ! unat w)" using wf l by (simp_all add: wf_console_def)
  then have c: "wf_console c" "\<not> video_mode c" "save_console c = workspaces t ! unat w" "current_terminal_id c = current_terminal_id (con t)"
    using wf_load [of "workspaces t ! unat w" "con t"]
    by (simp_all add: c_def) (simp add: load_console_def dogeio_set_render_enabled_def)
  from menubar_keeps_screen [OF c(1,2)] obtain c' where c': "menubar_draw c = Some c'" "wf_console c'" "same_mode c c'"
    "body (save_console c') = body (save_console c)" by blast
  have e: "workspace_load_state w b t = t \<lparr> con := c \<rparr>" using assms(2) by (simp add: workspace_load_state_def c_def not_le [symmetric])
  have "wf_terminal (t \<lparr> con := x \<rparr>)" if "wf_console x" "\<not> video_mode x" for x using wf that by (simp add: wf_terminal_def)
  moreover have "displayed (t \<lparr> con := x \<rparr>) = displayed t" if "current_terminal_id x = current_terminal_id (con t)" for x
    using that by (simp add: displayed_def)
  ultimately show ?thesis using c c' e
    by (auto simp: sys_workspace_load_def terminal_menubar_def Let_def same_mode_def displayed_def)
qed

section \<open>Contexts\<close>

record task_context =
  ctx_root :: u64
  ctx_gs_base :: u64
  ctx_kernel_gs_base :: u64
  ctx_fpu :: bytes
  ctx_linux :: "linux_context option"

definition saved_context :: "task \<Rightarrow> task_context" where
  "saved_context t = \<lparr> ctx_root = page_of (task_cr3 t), ctx_gs_base = task_gs_base t, ctx_kernel_gs_base = task_kernel_gs_base t,
     ctx_fpu = fpu_state t, ctx_linux = (if task_linux_abi t then Some (task_linux t) else None) \<rparr>"

definition live_context :: "sched \<Rightarrow> task_context" where
  "live_context s = \<lparr> ctx_root = root (vm (kern s)), ctx_gs_base = gs_base s, ctx_kernel_gs_base = kernel_gs_base s,
     ctx_fpu = fpu s, ctx_linux = (if linux_abi (kern s) then Some (linux (kern s)) else None) \<rparr>"

text \<open>The context of a task: live for the running one.\<close>

definition context_of :: "sched \<Rightarrow> nat \<Rightarrow> task_context" where
  "context_of s i = (if i = cur s then live_context s else saved_context (tasks s ! i))"

lemma root_switch: "a \<noteq> 0 \<Longrightarrow> root (switch_user_pml4 a st) = page_of a \<and> mem (switch_user_pml4 a st) = mem st"
  by (simp add: switch_user_pml4_def)

lemma activate_ok:
  assumes "wf_terminal (tm s)" and "vfs_ok (files (kern s))" and "i < SCHEDULER_TASK_LIMIT" and "directory_ok (tasks s ! i)"
    and "task_cr3 (tasks s ! i) \<noteq> 0"
  shows "\<exists>s' u. scheduler_activate i s = Some s' \<and> live_context s' = saved_context (tasks s ! i) \<and> tm s' = u
     \<and> wf_terminal u \<and> current_task u = i \<and> workspaces u = workspaces (tm s) \<and> task_workspaces u = task_workspaces (tm s)
     \<and> displayed u = displayed (tm s) \<and> kbd u = kbd (tm s)
     \<and> body (save_console (con u)) = body (workspaces (tm s) ! unat (task_workspaces (tm s) ! i))
     \<and> vfs_ok (files (kern s')) \<and> tasks s' = tasks s \<and> stacks s' = stacks s \<and> tss_stack s' = i \<and> next_pid s' = next_pid s
     \<and> current_pid (kern s') = task_pid (tasks s ! i) \<and> mem (vm (kern s')) = mem (vm (kern s))"
proof -
  let ?t = "tasks s ! i"
  let ?m = "(tm s) \<lparr> current_task := i \<rparr>"
  have wf: "wf_terminal ?m" using assms(1,3) by (simp add: wf_terminal_def)
  have "task_workspaces (tm s) ! i < MAX_TERMINALS" using assms(1,3) by (simp add: wf_terminal_def)
  from workspace_load_ok [OF wf this, of "task_workspaces (tm s) ! i = displayed (tm s)"] obtain u where
    u: "sys_workspace_load (task_workspaces (tm s) ! i) (task_workspaces (tm s) ! i = displayed (tm s)) ?m = Some u" "wf_terminal u"
      "workspaces u = workspaces (tm s)" "task_workspaces u = task_workspaces (tm s)" "current_task u = i"
      "displayed u = displayed (tm s)" "kbd u = kbd (tm s)"
      "body (save_console (con u)) = body (workspaces (tm s) ! unat (task_workspaces (tm s) ! i))"
    by (auto simp: displayed_def)
  from restore_fs_ok [OF assms(2,4)] obtain v where v: "scheduler_restore_fs_context ?t (files (kern s)) = Some v" "vfs_ok v" by blast
  have d: "displayed ?m = displayed (tm s)" by (simp add: displayed_def)
  show ?thesis using u v root_switch [OF assms(5)]
    by (auto simp: scheduler_activate_def Let_def set_current_def set_tm_def set_vm_def set_files_def d live_context_def
        saved_context_def syscall_select_linux_abi_def linux_syscall_context_restore_def)
qed

section \<open>Taking turns\<close>

text \<open>A ring of \<open>N\<close> places: the next one is the first active place behind the current one.\<close>

locale round_robin =
  fixes active :: "'q \<Rightarrow> nat \<Rightarrow> bool" and nxt :: "'q \<Rightarrow> nat \<Rightarrow> nat" and N :: nat
  assumes first_active: "i < N \<Longrightarrow> j < N \<Longrightarrow> active q j \<Longrightarrow>
    \<exists>k. 1 \<le> k \<and> k \<le> N \<and> nxt q i = (i + k) mod N \<and> active q (nxt q i) \<and> (\<forall>m. 1 \<le> m \<and> m < k \<longrightarrow> \<not> active q ((i + m) mod N))"
begin

lemma next_active: "i < N \<Longrightarrow> j < N \<Longrightarrow> active q j \<Longrightarrow> active q (nxt q i) \<and> nxt q i < N"
  using first_active [of i j q] by auto

lemma reached_within:
  assumes "i < N" and "active q ((i + d) mod N)" and "1 \<le> d" and "d \<le> N"
  shows "\<exists>n. 1 \<le> n \<and> n \<le> d \<and> (nxt q ^^ n) i = (i + d) mod N"
  using assms
proof (induction d arbitrary: i rule: less_induct)
  case (less d)
  have "(i + d) mod N < N" using less.prems(1) by simp
  from first_active [OF less.prems(1) this less.prems(2)] obtain k where
    k: "1 \<le> k" "nxt q i = (i + k) mod N" "\<forall>m. 1 \<le> m \<and> m < k \<longrightarrow> \<not> active q ((i + m) mod N)" by blast
  have "k \<le> d" using k(3) less.prems(2,3) by (meson not_le)
  show ?case
  proof (cases "k = d")
    case True
    then show ?thesis using k less.prems(3) by (intro exI [of _ 1]) simp
  next
    case False
    then have kd: "k < d" using \<open>k \<le> d\<close> by simp
    have e: "((i + k) mod N + (d - k)) mod N = (i + d) mod N"
      using mod_add_left_eq [of "i + k" N "d - k"] kd by (simp only: add.assoc le_add_diff_inverse less_imp_le)
    have "\<exists>n. 1 \<le> n \<and> n \<le> d - k \<and> (nxt q ^^ n) ((i + k) mod N) = (i + d) mod N"
      using less.IH [of "d - k" "(i + k) mod N"] kd k(1) less.prems e by simp
    then obtain n where n: "1 \<le> n" "n \<le> d - k" "(nxt q ^^ n) (nxt q i) = (i + d) mod N" using k(2) by auto
    then show ?thesis using k(1) kd by (intro exI [of _ "Suc n"]) (simp add: funpow_swap1)
  qed
qed

lemma every_place_in_turn:
  assumes "i < N" and "j < N" and "active q j"
  shows "\<exists>n. 1 \<le> n \<and> n \<le> N \<and> (nxt q ^^ n) i = j"
proof -
  define d where "d = (if i < j then j - i else N - i + j)"
  have "(i + d) mod N = j" "1 \<le> d" "d \<le> N" using assms by (auto simp: d_def)
  with reached_within [of i q d] assms show ?thesis by (metis le_trans)
qed

end

lemma find_first:
  "find P (map f [a..<b]) = Some x \<Longrightarrow> \<exists>k. a \<le> k \<and> k < b \<and> x = f k \<and> P x \<and> (\<forall>m. a \<le> m \<and> m < k \<longrightarrow> \<not> P (f m))"
proof -
  assume "find P (map f [a..<b]) = Some x"
  then obtain i where i: "i < b - a" "x = f (a + i)" "P x" "\<forall>j<i. \<not> P (f (a + j))"
    by (auto simp: find_Some_iff nth_map)
  have "\<not> P (f m)" if "a \<le> m" "m < a + i" for m using i(4) that by (metis add_less_cancel_left le_add_diff_inverse)
  then show ?thesis using i by (intro exI [of _ "a + i"]) auto
qed

interpretation tasks_in_turn: round_robin "\<lambda>ts i. task_active (ts ! i)" scheduler_find_next SCHEDULER_TASK_LIMIT
proof unfold_locales
  fix i j :: nat and ts :: "task list"
  assume a: "i < SCHEDULER_TASK_LIMIT" "j < SCHEDULER_TASK_LIMIT" "task_active (ts ! j)"
  let ?f = "\<lambda>step. (i + step) mod SCHEDULER_TASK_LIMIT"
  let ?P = "\<lambda>index. task_active (ts ! index)"
  have "\<exists>k. 1 \<le> k \<and> k < Suc SCHEDULER_TASK_LIMIT \<and> ?f k = j"
    using a(1,2) by (intro exI [of _ "if i < j then j - i else SCHEDULER_TASK_LIMIT - i + j"]) auto
  then obtain k where k: "1 \<le> k" "k < Suc SCHEDULER_TASK_LIMIT" "?f k = j" by blast
  then have "find ?P (map ?f [1..<Suc SCHEDULER_TASK_LIMIT]) \<noteq> None" using a(3) unfolding find_None_iff
    by (metis (no_types, lifting) atLeastLessThan_iff image_eqI set_map set_upt)
  then obtain x where x: "find ?P (map ?f [1..<Suc SCHEDULER_TASK_LIMIT]) = Some x" by blast
  from find_first [OF this] x show "\<exists>k. 1 \<le> k \<and> k \<le> SCHEDULER_TASK_LIMIT \<and> scheduler_find_next ts i = (i + k) mod SCHEDULER_TASK_LIMIT
      \<and> task_active (ts ! scheduler_find_next ts i)
      \<and> (\<forall>m. 1 \<le> m \<and> m < k \<longrightarrow> \<not> task_active (ts ! ((i + m) mod SCHEDULER_TASK_LIMIT)))"
    unfolding scheduler_find_next_def by (auto simp del: upt_Suc simp: less_Suc_eq_le)
qed

lemma find_next_cong:
  assumes "\<And>i. i < SCHEDULER_TASK_LIMIT \<Longrightarrow> task_active (ts ! i) = task_active (us ! i)"
  shows "scheduler_find_next ts a = scheduler_find_next us a"
proof -
  have "find (\<lambda>i. task_active (ts ! i)) l = find (\<lambda>i. task_active (us ! i)) l" if "set l \<subseteq> {..<SCHEDULER_TASK_LIMIT}" for l
    using that assms by (induction l) auto
  moreover have "set (map (\<lambda>step. (a + step) mod SCHEDULER_TASK_LIMIT) l) \<subseteq> {..<SCHEDULER_TASK_LIMIT}" for l by auto
  ultimately show ?thesis unfolding scheduler_find_next_def by metis
qed

section \<open>The timer interrupt\<close>

lemma screen_saved:
  assumes "wf_terminal t" and "w < 4"
  shows "body (workspaces (sys_workspace_save (scheduler_current_workspace t) t) ! w) = screen t w"
  using assms current_workspace_less [OF assms(1)] by (auto simp: sys_workspace_save_def screen_def wf_terminal_def not_le [symmetric])

lemma save_wf:
  assumes "wf_terminal t" shows "wf_terminal (sys_workspace_save w t)"
  using assms wf_save [of "con t"] by (auto simp: wf_terminal_def sys_workspace_save_def dest!: set_update_subset_insert [THEN subsetD])

lemma take_switch_ok:
  assumes "wf_terminal t"
  shows "\<exists>sw t'. take_switch t = Some (sw, t') \<and> wf_terminal t' \<and> current_task t' = current_task t \<and> (\<forall>w<4. body (workspaces t' ! w) = screen t w)"
proof -
  let ?u = "sys_workspace_save (scheduler_current_workspace t) t"
  let ?v = "?u \<lparr> kbd := snd (sys_workspace_take_switch_request (kbd ?u)) \<rparr>"
  have u: "wf_terminal ?v" "current_task ?v = current_task t" using save_wf [OF assms] by (simp_all add: sys_workspace_save_def)
  have k: "workspaces ?v = workspaces ?u" "con ?v = con t" "scheduler_current_workspace ?v = scheduler_current_workspace t"
    by (simp_all add: sys_workspace_save_def scheduler_current_workspace_def)
  have s: "body (workspaces ?v ! w) = screen t w" if "w < 4" for w using screen_saved [OF assms that] k(1) by simp
  have s2: "screen ?v w = screen t w" if "w < 4" for w
    using s [OF that] k by (simp add: screen_def)
  from sys_switch_terminal_ok [OF u(1)] obtain t' where t': "sys_switch_terminal ?v = Some t'" "wf_terminal t'"
    "current_task t' = current_task ?v" "\<forall>i<4. body (workspaces t' ! i) = screen ?v i" by blast
  show ?thesis
  proof (cases "fst (sys_workspace_take_switch_request (kbd ?u))")
    case True
    then have "take_switch t = Some (True, t')" using t'(1) by (simp add: take_switch_def Let_def case_prod_beta)
    then show ?thesis using t' s2 u(2) by auto
  next
    case False
    then have "take_switch t = Some (False, ?v)" by (simp add: take_switch_def Let_def case_prod_beta)
    then show ?thesis using s u by blast
  qed
qed

text \<open>What a timer interrupt does to the scheduler: it moves on to another task and saves the frame.\<close>

definition switched :: "frame_ref \<Rightarrow> sched \<Rightarrow> sched \<Rightarrow> bool" where
  "switched f s s' \<longleftrightarrow> cur s' = scheduler_find_next (tasks s) (cur s)
     \<and> (\<forall>i<SCHEDULER_TASK_LIMIT. task_active (tasks s ! i) \<longrightarrow> context_of s' i = context_of s i)
     \<and> (\<forall>w<4. screen (tm s') w = screen (tm s) w)
     \<and> (\<forall>i<SCHEDULER_TASK_LIMIT. task_active (tasks s' ! i) = task_active (tasks s ! i) \<and> task_pid (tasks s' ! i) = task_pid (tasks s ! i)
          \<and> task_frame (tasks s' ! i) = (if i = cur s then Some f else task_frame (tasks s ! i)))
     \<and> stacks s' = stacks s \<and> mem (vm (kern s')) = mem (vm (kern s)) \<and> next_pid s' = next_pid s"

lemma save_task_simps [simp]:
  "task_active (save_task f s t) = task_active t" "task_frame (save_task f s t) = Some f" "task_pid (save_task f s t) = task_pid t"
  "task_cr3 (save_task f s t) = root (vm (kern s))" "fpu_state (save_task f s t) = isr_fpu_temp s"
  by (simp_all add: save_task_def Let_def)

lemma save_task_context: "isr_fpu_temp s = fpu s \<Longrightarrow> saved_context (save_task f s t) = live_context s"
  by (simp add: save_task_def saved_context_def live_context_def Let_def linux_syscall_context_save_def)

lemma save_task_ok: "vfs_ok (files (kern s)) \<Longrightarrow> root (vm (kern s)) \<noteq> 0 \<Longrightarrow> task_ok (save_task f s t)"
  using save_fs_directory by (auto simp: save_task_def task_ok_def Let_def directory_ok_def)

lemma nth_update_eq: "g (h (xs ! c)) = g (xs ! c) \<Longrightarrow> g (xs[c := h (xs ! c)] ! i) = g (xs ! i)"
  by (cases "c < length xs") (auto simp: nth_list_update list_update_beyond)

text \<open>The state after saving the running task and its screen, before the next task is activated.\<close>

definition saved_state :: "frame_ref \<Rightarrow> terminal \<Rightarrow> sched \<Rightarrow> sched" where
  "saved_state f t s = set_tm t (s \<lparr> isr_fpu_temp := fpu s,
     tasks := (tasks s)[cur s := save_task f (s \<lparr> isr_fpu_temp := fpu s \<rparr>) (tasks s ! cur s)] \<rparr>)"

lemma set_tm_simps [simp]:
  "tm (set_tm u s) = u" "tasks (set_tm u s) = tasks s" "stacks (set_tm u s) = stacks s" "next_pid (set_tm u s) = next_pid s"
  "vm (kern (set_tm u s)) = vm (kern s)" "files (kern (set_tm u s)) = files (kern s)" "fpu (set_tm u s) = fpu s"
  "current_pid (kern (set_tm u s)) = current_pid (kern s)" "live_context (set_tm u s) = live_context s"
  by (simp_all add: set_tm_def live_context_def)

lemma saved_state_simps [simp]:
  "fpu (saved_state f t s) = fpu s"
  "tm (saved_state f t s) = t" "vm (kern (saved_state f t s)) = vm (kern s)" "files (kern (saved_state f t s)) = files (kern s)"
  "stacks (saved_state f t s) = stacks s" "next_pid (saved_state f t s) = next_pid s"
  "tasks (saved_state f t s) = (tasks s)[cur s := save_task f (s \<lparr> isr_fpu_temp := fpu s \<rparr>) (tasks s ! cur s)]"
  "live_context (saved_state f t s) = live_context s" "current_pid (kern (saved_state f t s)) = current_pid (kern s)"
  by (simp_all add: saved_state_def set_tm_def live_context_def)

lemma screen_timer [simp]: "screen (t \<lparr> timer := p \<rparr>) w = screen t w"
  by (simp add: screen_def scheduler_current_workspace_def)

lemma on_timer_alt:
  assumes "task_active (tasks s ! cur s)" and "take_switch (tm s) = Some (sw, t)"
    and "s1 = set_tm t (s \<lparr> tasks := (tasks s)[cur s := save_task f s (tasks s ! cur s)] \<rparr>)"
    and "n = scheduler_find_next (tasks s) (cur s)"
  shows "scheduler_on_timer (Some f) s = (
     if n = cur s
     then do {
       s2 \<leftarrow> (if sw then scheduler_activate n s1
             else do { u \<leftarrow> sys_workspace_load (task_workspaces t ! n) (task_workspaces t ! n = displayed t) t; Some (set_tm u s1) });
       Some (Some f, s2 \<lparr> fpu := fpu_state (tasks s2 ! n) \<rparr>)
     }
     else do { s2 \<leftarrow> scheduler_activate n s1; Some (task_frame (tasks s2 ! n), s2) })"
proof -
  have n: "scheduler_find_next ((tasks s)[cur s := save_task f s (tasks s ! cur s)]) (cur s) = n" unfolding assms(4)
    by (rule find_next_cong) (simp add: nth_update_eq)
  have t1: "tm s1 = t" by (simp add: assms(3) set_tm_def)
  have n1: "scheduler_find_next (tasks s1) (cur s) = n" using n by (simp add: assms(3))
  show ?thesis using assms(1,2) n n1 t1 by (simp add: scheduler_on_timer_def Let_def assms(3) [symmetric])
qed

lemma timer_interrupt_alt:
  assumes "sched_ok s" and "take_switch ((tm s) \<lparr> timer := pit_handler (timer (tm s)) \<rparr>) = Some (sw, t)"
    and "n = scheduler_find_next (tasks s) (cur s)"
  shows "timer_interrupt f s = (
     if n = cur s
     then do {
       s2 \<leftarrow> (if sw then scheduler_activate n (saved_state f t s)
             else do { u \<leftarrow> sys_workspace_load (task_workspaces t ! n) (task_workspaces t ! n = displayed t) t;
                       Some (set_tm u (saved_state f t s)) });
       Some (Some f, s2 \<lparr> fpu := fpu_state (tasks s2 ! n) \<rparr>)
     }
     else do { s2 \<leftarrow> scheduler_activate n (saved_state f t s); Some (task_frame (tasks s2 ! n), s2) })"
proof -
  define s0 where "s0 = set_tm ((tm s) \<lparr> timer := pit_handler (timer (tm s)) \<rparr>) (s \<lparr> isr_fpu_temp := fpu s \<rparr>)"
  have s0: "tm s0 = (tm s) \<lparr> timer := pit_handler (timer (tm s)) \<rparr>" "tasks s0 = tasks s" "cur s0 = cur s" by (simp_all add: s0_def set_tm_def)
  have "task_active (tasks s0 ! cur s0)" using assms(1) s0 by (simp add: sched_ok_def)
  moreover have "take_switch (tm s0) = Some (sw, t)" using assms(2) s0 by simp
  moreover have "saved_state f t s = set_tm t (s0 \<lparr> tasks := (tasks s0)[cur s0 := save_task f s0 (tasks s0 ! cur s0)] \<rparr>)"
    by (simp add: saved_state_def s0_def set_tm_def save_task_def Let_def linux_syscall_context_save_def)
  moreover have "n = scheduler_find_next (tasks s0) (cur s0)" using assms(3) s0 by simp
  moreover have "timer_interrupt f s = scheduler_on_timer (Some f) s0" by (simp add: timer_interrupt_def s0_def set_tm_def)
  ultimately show ?thesis using on_timer_alt [of s0 sw t "saved_state f t s" f n] s0(3) by simp
qed

text \<open>A state in which task \<open>n\<close> runs, with everything else as in \<open>s1\<close>.\<close>

definition running :: "nat \<Rightarrow> sched \<Rightarrow> sched \<Rightarrow> bool" where
  "running n s1 s' \<longleftrightarrow> live_context s' = saved_context (tasks s1 ! n) \<and> wf_terminal (tm s') \<and> cur s' = n
     \<and> workspaces (tm s') = workspaces (tm s1) \<and> task_workspaces (tm s') = task_workspaces (tm s1)
     \<and> body (save_console (con (tm s'))) = body (workspaces (tm s1) ! unat (task_workspaces (tm s1) ! n))
     \<and> vfs_ok (files (kern s')) \<and> tasks s' = tasks s1 \<and> stacks s' = stacks s1 \<and> next_pid s' = next_pid s1
     \<and> current_pid (kern s') = task_pid (tasks s1 ! n) \<and> mem (vm (kern s')) = mem (vm (kern s1))"

lemma activate_running:
  assumes "wf_terminal (tm s)" and "vfs_ok (files (kern s))" and "i < SCHEDULER_TASK_LIMIT" and "task_ok (tasks s ! i)"
    and "task_active (tasks s ! i)"
  shows "\<exists>s'. scheduler_activate i s = Some s' \<and> running i s s'"
  using activate_ok [OF assms(1-3)] assms(4,5) by (auto simp: running_def task_ok_def)

lemma running_fpu: "running n s1 s2 \<Longrightarrow> s2 \<lparr> fpu := fpu_state (tasks s2 ! n) \<rparr> = s2"
proof -
  assume r: "running n s1 s2"
  then have "ctx_fpu (live_context s2) = ctx_fpu (saved_context (tasks s2 ! n))" by (simp add: running_def)
  then show ?thesis by (simp add: live_context_def saved_context_def)
qed

lemma running_screen:
  assumes "running n s1 s'" and "\<forall>w<4. body (workspaces (tm s1) ! w) = screen t w"
  shows "\<forall>w<4. screen (tm s') w = screen t w"
  using assms by (auto simp: running_def screen_def [of "tm s'"] scheduler_current_workspace_def)

lemma saved_state_task:
  assumes "sched_ok s" and "i < SCHEDULER_TASK_LIMIT"
  shows "task_ok (tasks (saved_state f t s) ! i)"
    and "task_active (tasks (saved_state f t s) ! i) = task_active (tasks s ! i)"
    and "task_pid (tasks (saved_state f t s) ! i) = task_pid (tasks s ! i)"
    and "task_frame (tasks (saved_state f t s) ! i) = (if i = cur s then Some f else task_frame (tasks s ! i))"
    and "saved_context (tasks (saved_state f t s) ! i) = context_of s i"
proof -
  let ?x = "save_task f (s \<lparr> isr_fpu_temp := fpu s \<rparr>) (tasks s ! cur s)"
  have c: "cur s < length (tasks s)" using assms(1) by (simp add: sched_ok_def wf_terminal_def)
  have "task_ok ?x" by (rule save_task_ok) (use assms(1) in \<open>simp_all add: sched_ok_def\<close>)
  moreover have "saved_context ?x = live_context s"
    using save_task_context [of "s \<lparr> isr_fpu_temp := fpu s \<rparr>"] by (simp add: live_context_def)
  ultimately show "task_ok (tasks (saved_state f t s) ! i)"
    "task_active (tasks (saved_state f t s) ! i) = task_active (tasks s ! i)"
    "task_pid (tasks (saved_state f t s) ! i) = task_pid (tasks s ! i)"
    "task_frame (tasks (saved_state f t s) ! i) = (if i = cur s then Some f else task_frame (tasks s ! i))"
    "saved_context (tasks (saved_state f t s) ! i) = context_of s i"
    using assms c by (auto simp: nth_list_update sched_ok_def context_of_def)
qed

lemma timer_interrupt_running:
  assumes "sched_ok s"
  shows "\<exists>t r s'. timer_interrupt f s = Some (r, s') \<and> running (scheduler_find_next (tasks s) (cur s)) (saved_state f t s) s'
     \<and> r = task_frame (tasks s' ! cur s') \<and> (\<forall>w<4. body (workspaces t ! w) = screen (tm s) w)"
proof -
  let ?n = "scheduler_find_next (tasks s) (cur s)"
  have ok: "wf_terminal (tm s)" "vfs_ok (files (kern s))" "cur s < SCHEDULER_TASK_LIMIT" "task_active (tasks s ! cur s)"
    using assms by (auto simp: sched_ok_def wf_terminal_def)
  have "wf_terminal ((tm s) \<lparr> timer := pit_handler (timer (tm s)) \<rparr>)" using ok(1) by simp
  from take_switch_ok [OF this] obtain sw t where t: "take_switch ((tm s) \<lparr> timer := pit_handler (timer (tm s)) \<rparr>) = Some (sw, t)"
    "wf_terminal t" "current_task t = cur s" "\<forall>w<4. body (workspaces t ! w) = screen (tm s) w" by auto
  let ?s = "saved_state f t s"
  have n: "?n < SCHEDULER_TASK_LIMIT" "task_active (tasks s ! ?n)" using tasks_in_turn.next_active [OF ok(3,3,4)] by auto
  have wf: "wf_terminal (tm ?s)" "vfs_ok (files (kern ?s))" using t(2) ok(2) by simp_all
  have act: "task_active (tasks ?s ! ?n)" using saved_state_task(2) [OF assms n(1)] n(2) by blast
  from activate_running [OF wf n(1) saved_state_task(1) [OF assms n(1)] act] obtain s2 where
    s2: "scheduler_activate ?n ?s = Some s2" "running ?n ?s s2" by blast
  have "task_workspaces t ! ?n < MAX_TERMINALS" using t(2) n(1) by (simp add: wf_terminal_def)
  from workspace_load_ok [OF t(2) this, of "task_workspaces t ! ?n = displayed t"] obtain u where
    u: "sys_workspace_load (task_workspaces t ! ?n) (task_workspaces t ! ?n = displayed t) t = Some u" "wf_terminal u"
      "workspaces u = workspaces t" "task_workspaces u = task_workspaces t" "current_task u = cur s"
      "body (save_console (con u)) = body (workspaces t ! unat (task_workspaces t ! ?n))" unfolding t(3) by (elim exE conjE) (rule that)
  have idle: "running ?n ?s ((set_tm u ?s) \<lparr> fpu := fpu_state (tasks (set_tm u ?s) ! ?n) \<rparr>)" if e: "?n = cur s"
  proof -
    have c: "saved_context (tasks ?s ! ?n) = live_context s"
      using saved_state_task(5) [OF assms n(1)] e by (simp add: context_of_def)
    then have "fpu_state (tasks ?s ! ?n) = fpu s" by (metis live_context_def saved_context_def task_context.select_convs(4))
    then have "(set_tm u ?s) \<lparr> fpu := fpu_state (tasks (set_tm u ?s) ! ?n) \<rparr> = set_tm u ?s"
      by (simp only: set_tm_simps saved_state_simps(1) sched.surjective) simp
    moreover have "current_pid (kern s) = task_pid (tasks ?s ! ?n)"
      using saved_state_task(3) [OF assms n(1)] assms e by (simp only: sched_ok_def scheduler_current_pid_def)
    ultimately show ?thesis using u e wf(2) c unfolding running_def by (simp only: set_tm_simps saved_state_simps simp_thms)
  qed
  note act2 = running_fpu [OF s2(2)]
  have fr: "task_frame (tasks ?s ! ?n) = (if ?n = cur s then Some f else task_frame (tasks s ! ?n))"
    by (rule saved_state_task(4) [OF assms n(1)])
  have ts: "tasks s2 = tasks ?s" using s2(2) by (simp add: running_def)
  have "\<exists>s3. timer_interrupt f s = Some (task_frame (tasks ?s ! ?n), s3) \<and> running ?n ?s s3"
  proof (cases "?n = cur s \<and> \<not> sw")
    case True
    then have "timer_interrupt f s = Some (Some f, (set_tm u ?s) \<lparr> fpu := fpu_state (tasks (set_tm u ?s) ! ?n) \<rparr>)"
      unfolding timer_interrupt_alt [OF assms t(1) refl, of f] using u(1)
      by (simp only: if_True if_False simp_thms bind.bind_lunit)
    then show ?thesis using idle True fr by (simp only: if_True simp_thms) blast
  next
    case False
    then have "timer_interrupt f s = Some (task_frame (tasks ?s ! ?n), s2)"
      unfolding timer_interrupt_alt [OF assms t(1) refl, of f] fr using s2(1) act2 ts fr
      by (cases "?n = cur s") (simp_all only: if_True if_False simp_thms bind.bind_lunit)
    then show ?thesis using s2(2) by blast
  qed
  then obtain s3 where s3: "timer_interrupt f s = Some (task_frame (tasks ?s ! ?n), s3)" "running ?n ?s s3" by blast
  moreover have "task_frame (tasks ?s ! ?n) = task_frame (tasks s3 ! cur s3)" using s3(2) by (simp add: running_def)
  ultimately show ?thesis using t(4) by blast
qed

lemma timer_interrupt_ok:
  assumes "sched_ok s"
  shows "\<exists>s'. timer_interrupt f s = Some (task_frame (tasks s' ! cur s'), s') \<and> switched f s s' \<and> sched_ok s'"
proof -
  let ?n = "scheduler_find_next (tasks s) (cur s)"
  from timer_interrupt_running [OF assms] obtain t r s' where s': "timer_interrupt f s = Some (r, s')"
    "running ?n (saved_state f t s) s'" "r = task_frame (tasks s' ! cur s')" "\<forall>w<4. body (workspaces t ! w) = screen (tm s) w" by blast
  let ?s = "saved_state f t s"
  have c: "cur s < SCHEDULER_TASK_LIMIT" "task_active (tasks s ! cur s)" "task_active (tasks s ! 0)" "length (tasks s) = SCHEDULER_TASK_LIMIT"
    using assms by (auto simp: sched_ok_def wf_terminal_def)
  have n: "?n < SCHEDULER_TASK_LIMIT" "task_active (tasks s ! ?n)" using tasks_in_turn.next_active [OF c(1,1,2)] by auto
  note st = saved_state_task [OF assms, of _ f t]
  have r: "tasks s' = tasks ?s" "cur s' = ?n" "live_context s' = saved_context (tasks ?s ! ?n)" "stacks s' = stacks s"
    "wf_terminal (tm s')" "vfs_ok (files (kern s'))" "current_pid (kern s') = task_pid (tasks ?s ! ?n)"
    "mem (vm (kern s')) = mem (vm (kern s))" "next_pid s' = next_pid s"
    using s'(2) unfolding running_def by (simp_all only: saved_state_simps simp_thms)
  have "context_of s' i = context_of s i" if "i < SCHEDULER_TASK_LIMIT" for i
    using r(1-3) st(5) [OF that] st(5) [OF n(1)] by (cases "i = ?n") (simp_all only: context_of_def [of s'] if_True if_False simp_thms)
  moreover have "\<forall>w<4. screen (tm s') w = screen (tm s) w"
    by (rule running_screen [OF s'(2)]) (use s'(4) in \<open>simp only: saved_state_simps\<close>)
  ultimately have sw: "switched f s s'" using r st(2-4) unfolding switched_def by (simp only: simp_thms) blast
  have "\<forall>t\<in>set (tasks s'). task_ok t" using st(1) c(4) r(1) by (simp add: all_set_conv_all_nth del: saved_state_simps) simp
  moreover have "ctx_root (live_context s') \<noteq> 0"
  proof -
    have "task_ok (tasks ?s ! ?n)" "task_active (tasks ?s ! ?n)" using st(1,2) [OF n(1)] n(2) by simp_all
    then show ?thesis unfolding r(3) by (simp add: saved_context_def task_ok_def)
  qed
  moreover have "task_frame (tasks s' ! i) \<noteq> None" if "i < SCHEDULER_TASK_LIMIT" "i \<noteq> cur s'" "task_active (tasks s' ! i)" for i
    using assms that st(2,4) [OF that(1)] unfolding r(1) by (auto simp: sched_ok_def)
  ultimately have "sched_ok s'" using r c n st(2) [of 0] st(2) [OF n(1)] unfolding sched_ok_def scheduler_current_pid_def
    by (simp add: live_context_def)
  then show ?thesis using s'(1,3) sw by blast
qed

section \<open>Sequences of time slices\<close>

text \<open>In a slice the running task and the kernel act, until the timer interrupts them. Between the
  interrupts the task table and the index of the running task do not change.\<close>

definition behaves :: "(sched \<Rightarrow> sched) \<Rightarrow> bool" where
  "behaves run \<longleftrightarrow> (\<forall>s. sched_ok s \<longrightarrow> sched_ok (run s) \<and> tasks (run s) = tasks s \<and> cur (run s) = cur s)"

fun slices :: "(frame_ref \<times> (sched \<Rightarrow> sched)) list \<Rightarrow> sched \<Rightarrow> sched option" where
  "slices [] s = Some s"
| "slices ((f, run) # xs) s = do { (_, s) \<leftarrow> timer_interrupt f (run s); slices xs s }"

lemma slice_ok:
  assumes "sched_ok s" and "behaves run"
  shows "\<exists>s'. slices ((f, run) # xs) s = slices xs s' \<and> timer_interrupt f (run s) = Some (task_frame (tasks s' ! cur s'), s')
     \<and> sched_ok s' \<and> switched f (run s) s' \<and> tasks (run s) = tasks s \<and> cur (run s) = cur s"
proof -
  have r: "sched_ok (run s)" "tasks (run s) = tasks s" "cur (run s) = cur s" using assms by (simp_all add: behaves_def)
  from timer_interrupt_ok [OF r(1), of f] r(2,3) show ?thesis by auto
qed

lemma slices_ok:
  assumes "sched_ok s" and "list_all (\<lambda>(f, run). behaves run) xs"
  shows "\<exists>s'. slices xs s = Some s' \<and> sched_ok s' \<and> cur s' = (scheduler_find_next (tasks s) ^^ length xs) (cur s)"
  using assms
proof (induction xs arbitrary: s)
  case (Cons x xs)
  obtain f run where x: "x = (f, run)" by (rule prod.exhaust)
  from slice_ok [OF Cons.prems(1), of run f xs] Cons.prems(2) obtain s' where
    s': "slices (x # xs) s = slices xs s'" "sched_ok s'" "switched f (run s) s'" "tasks (run s) = tasks s" "cur (run s) = cur s"
    by (auto simp: x)
  have "scheduler_find_next (tasks s') a = scheduler_find_next (tasks s) a" for a
    by (rule find_next_cong) (use s'(3,4) in \<open>simp add: switched_def\<close>)
  then have "scheduler_find_next (tasks s') = scheduler_find_next (tasks s)" by blast
  with Cons.IH [OF s'(2)] Cons.prems(2) s'(1,3-5) show ?case by (auto simp: switched_def funpow_swap1)
qed simp

lemma take_behaves: "list_all P xs \<Longrightarrow> list_all P (take n xs)"
  by (auto simp: list_all_iff dest: in_set_takeD)

text \<open>While a task does not run, its context and its frame stay in the table.\<close>

lemma away_keeps_context:
  assumes "sched_ok s" and "list_all (\<lambda>(f, run). behaves run) xs" and "j < SCHEDULER_TASK_LIMIT" and "task_active (tasks s ! j)"
    and "\<forall>n<length xs. \<forall>s'. slices (take n xs) s = Some s' \<longrightarrow> cur s' \<noteq> j"
  shows "\<exists>s'. slices xs s = Some s' \<and> context_of s' j = context_of s j \<and> task_frame (tasks s' ! j) = task_frame (tasks s ! j)"
  using assms
proof (induction xs arbitrary: s)
  case (Cons x xs)
  obtain f run where x: "x = (f, run)" by (rule prod.exhaust)
  from slice_ok [OF Cons.prems(1), of run f] Cons.prems(2) obtain s' where
    s': "\<And>ys. slices (x # ys) s = slices ys s'" "sched_ok s'" "switched f (run s) s'" "tasks (run s) = tasks s" "cur (run s) = cur s"
    by (fastforce simp: x)
  have j: "j \<noteq> cur s" using Cons.prems(5) by (auto dest: spec [of _ 0])
  have c: "context_of (run s) j = context_of s j" using j s'(4,5) by (simp add: context_of_def)
  have k: "context_of s' j = context_of s j" "task_frame (tasks s' ! j) = task_frame (tasks s ! j)" "task_active (tasks s' ! j)"
    using s'(3-5) c j Cons.prems(3,4) by (auto simp: switched_def)
  have "\<forall>n<length xs. \<forall>u. slices (take n xs) s' = Some u \<longrightarrow> cur u \<noteq> j"
  proof (intro allI impI)
    fix n u assume "n < length xs" "slices (take n xs) s' = Some u"
    then show "cur u \<noteq> j" using Cons.prems(5) s'(1) [of "take n xs"] by (auto dest: spec [of _ "Suc n"])
  qed
  from Cons.IH [OF s'(2) _ Cons.prems(3) k(3) this] Cons.prems(2) k s'(1) show ?case by simp
qed simp

section \<open>A shell and a program\<close>

definition two_tasks :: sched where
  "two_tasks = \<lparr> kern = boot_kernel, lnch = \<lparr> syscall_context_depth = 0, active_programs = [] \<rparr>, syscall_context_gs_bases = replicate 6 0,
     tasks = [zero_task \<lparr> task_active := True, task_cr3 := 0x1000 \<rparr>,
              zero_task \<lparr> task_active := True, task_pid := 2, task_cr3 := 0x5000, task_frame := Some (1, 0) \<rparr>]
             @ replicate 6 zero_task,
     next_pid = 3, kernel_cr3 = 0x1000, isr_fpu_temp = replicate 512 0, fpu = replicate 512 0, gs_base = 0, kernel_gs_base = 0,
     tss_stack = 0, stacks = (\<lambda>_ _. zero_frame) \<rparr>"

lemma two_tasks_ok: "sched_ok two_tasks"
proof -
  have "wf_terminal (tm two_tasks)" "cur two_tasks = 0" using boot_terminal_ok by (simp_all add: two_tasks_def boot_kernel_def shell_shown_def)
  moreover have "vfs_ok (files (kern two_tasks))" using abs_root by (simp add: two_tasks_def boot_kernel_def empty_vfs_def vfs_ok_def)
  moreover have "root (vm (kern two_tasks)) \<noteq> 0" using vm_root by (simp add: two_tasks_def boot_kernel_def)
  moreover have "\<forall>t\<in>set (tasks two_tasks). task_ok t"
    by (simp add: two_tasks_def task_ok_def directory_ok_def zero_task_def page_aligned_def)
  moreover have "task_frame (tasks two_tasks ! i) \<noteq> None" if "i \<noteq> 0" "i < 8" "task_active (tasks two_tasks ! i)" for i
    using that by (cases i; cases "i - 1") (auto simp: two_tasks_def zero_task_def nth_append)
  ultimately show ?thesis unfolding sched_ok_def
    by (simp add: two_tasks_def boot_kernel_def scheduler_current_pid_def zero_task_def)
qed

lemma two_tasks_next: "scheduler_find_next (tasks two_tasks) 0 = 1" "scheduler_find_next (tasks two_tasks) 1 = 0" "cur two_tasks = 0"
  using boot_terminal_ok by (simp_all add: scheduler_find_next_def two_tasks_def zero_task_def boot_kernel_def shell_shown_def nth_append upt_rec)

lemma behaves_id: "behaves id"
  by (simp add: behaves_def)

text \<open>
  C3: a timer interrupt switches tasks without changing any of them. It always returns, resuming
  the first active task behind the interrupted one; every active task keeps its context (address
  space, segment bases, floating point registers, Linux process state), whether it is live or in
  the table; the frame of the interrupted task is recorded and no other frame changes, every
  workspace keeps its screen, and memory and kernel stacks are not written.
\<close>

theorem timer_switches_tasks:
  assumes "sched_ok s"
  shows "\<exists>s'. timer_interrupt f s = Some (task_frame (tasks s' ! cur s'), s') \<and> sched_ok s'
     \<and> cur s' = scheduler_find_next (tasks s) (cur s)
     \<and> (\<forall>i<SCHEDULER_TASK_LIMIT. task_active (tasks s ! i) \<longrightarrow> context_of s' i = context_of s i)
     \<and> (\<forall>i<SCHEDULER_TASK_LIMIT. task_active (tasks s' ! i) = task_active (tasks s ! i) \<and> task_pid (tasks s' ! i) = task_pid (tasks s ! i)
          \<and> task_frame (tasks s' ! i) = (if i = cur s then Some f else task_frame (tasks s ! i)))
     \<and> (\<forall>w<4. screen (tm s') w = screen (tm s) w) \<and> stacks s' = stacks s \<and> mem (vm (kern s')) = mem (vm (kern s))"
  using timer_interrupt_ok [OF assms, of f] by (auto simp: switched_def)

theorem timer_switches_tasks_witness:
  "\<exists>s'. timer_interrupt (0, 3) two_tasks = Some (Some (1, 0), s') \<and> cur s' = 1 \<and> context_of s' 0 = live_context two_tasks
     \<and> task_frame (tasks s' ! 0) = Some (0, 3)"
proof -
  from timer_switches_tasks [OF two_tasks_ok, of "(0, 3)"] obtain s' where
    s': "timer_interrupt (0, 3) two_tasks = Some (task_frame (tasks s' ! cur s'), s')" "cur s' = 1"
      "\<forall>i<SCHEDULER_TASK_LIMIT. task_active (tasks two_tasks ! i) \<longrightarrow> context_of s' i = context_of two_tasks i"
      "\<forall>i<SCHEDULER_TASK_LIMIT. task_frame (tasks s' ! i) = (if i = cur two_tasks then Some (0, 3) else task_frame (tasks two_tasks ! i))"
    unfolding two_tasks_next by auto
  have "task_frame (tasks two_tasks ! 1) = Some (1, 0)" "task_active (tasks two_tasks ! 0)" by (simp_all add: two_tasks_def zero_task_def)
  then show ?thesis using s'(1,2,4) spec [OF s'(3), of 0] two_tasks_next(3) by (simp add: context_of_def)
qed





section \<open>Starting tasks\<close>

lemma leave_spawn_simps:
  assumes "leave_spawn r s = Some (r', s')"
  shows "r' = r" and "tasks s' = tasks s" and "stacks s' = stacks s" and "next_pid s' = next_pid s" and "tm s' = tm s"
  using assms by (auto simp: leave_spawn_def set_files_def split: bind_splits)

text \<open>What loading leaves of the table: the program pages of the slot are recorded, nothing else.\<close>

definition spawn_frame :: "nat \<Rightarrow> sched \<Rightarrow> sched \<Rightarrow> bool" where
  "spawn_frame slot_index s s' \<longleftrightarrow> slot_index < length (tasks s) \<and> length (tasks s') = length (tasks s) \<and> next_pid s' = next_pid s
     \<and> (\<forall>i<length (tasks s). task_active (tasks s' ! i) = (task_active (tasks s ! i) \<and> i \<noteq> slot_index)
          \<and> (i \<noteq> slot_index \<longrightarrow> task_frame (tasks s' ! i) = task_frame (tasks s ! i) \<and> saved_context (tasks s' ! i) = saved_context (tasks s ! i)
               \<and> task_pid (tasks s' ! i) = task_pid (tasks s ! i)))
     \<and> (\<forall>i. i \<noteq> slot_index \<longrightarrow> stacks s' i = stacks s i)"

lemma saved_context_fs [simp]: "saved_context (scheduler_save_fs_context v t) = saved_context t"
  by (simp add: saved_context_def)

lemma prepare_slot_frame:
  assumes "i < length (tasks s)" and "\<not> task_active (tasks s ! i)" and "cur s < length (tasks s)"
  shows "spawn_frame i s (prepare_slot i w s)"
  using assms by (auto simp: spawn_frame_def prepare_slot_def update_task_def set_tm_def Let_def nth_list_update zero_task_def)

lemma spawn_frame_trans:
  assumes "spawn_frame i s s1" and "tasks s2 = (tasks s1)[i := (tasks s1 ! i) \<lparr> task_program := p \<rparr>] \<or> tasks s2 = tasks s1"
    and "stacks s2 = stacks s1" and "next_pid s2 = next_pid s1"
  shows "spawn_frame i s s2"
  using assms by (auto simp: spawn_frame_def nth_list_update split: if_splits)

lemma prepare_slot_workspace:
  "i < length (task_workspaces (tm s)) \<Longrightarrow> task_workspaces (tm (prepare_slot i w s)) = (task_workspaces (tm s))[i := w]"
  by (simp add: prepare_slot_def update_task_def set_tm_def Let_def)

text \<open>Every way out of a spawn: nothing was started, or the slot holds the new task.\<close>

definition spawned :: "nat \<Rightarrow> int \<Rightarrow> sched \<Rightarrow> u32 option \<Rightarrow> sched \<Rightarrow> bool" where
  "spawned k argc s r s' \<longleftrightarrow>
     (case r of None \<Rightarrow> spawn_frame k s s'
      | Some pid \<Rightarrow> \<exists>s1 img. spawn_frame k s s1 \<and> pid = next_pid s \<and> next_pid s' = (if pid + 1 = 0 then 2 else pid + 1)
          \<and> task_active (tasks s' ! k) \<and> task_pid (tasks s' ! k) = pid \<and> task_frame (tasks s' ! k) = Some (k, 0)
          \<and> stacks s' = (stacks s1)(k := (stacks s1 k)(0 := start_frame argc img))
          \<and> length (tasks s') = length (tasks s1) \<and> (\<forall>i. i \<noteq> k \<longrightarrow> tasks s' ! i = tasks s1 ! i))"

lemma leave_spawned: "spawn_frame k s s1 \<Longrightarrow> leave_spawn None s1 = Some (r, s') \<Longrightarrow> spawned k argc s r s'"
  using leave_spawn_simps [of None s1 r s'] by (simp add: spawned_def spawn_frame_def)

lemma finish_spawned:
  assumes "spawn_frame k s s1" and "k < length (tasks s)" and "finish_spawn k argc pml4 img s1 = Some (r, s')"
  shows "spawned k argc s r s'"
proof -
  note e = assms(3) [unfolded finish_spawn_def Let_def case_prod_beta]
  show ?thesis using leave_spawn_simps [OF e] assms(1,2)
    by (auto simp: spawned_def spawn_frame_def update_task_def intro!: exI [of _ s1])
qed

lemma spawn_outcome:
  assumes "free_slot (tasks s) = Some k" and "k < length (tasks s)" and "\<not> task_active (tasks s ! k)" and "cur s < length (tasks s)"
    and "scheduler_spawn_elf path argc argv w s = Some (r, s')"
    and "\<not> (path = None \<or> path = Some [] \<or> argc < 0 \<or> argc > 32 \<or> (argc > 0 \<and> argv = None) \<or> w \<ge> MAX_TERMINALS)"
  shows "spawned k argc s r s'"
proof -
  have p: "spawn_frame k s (prepare_slot k w s)" by (rule prepare_slot_frame [OF assms(2-4)])
  have f: "spawn_frame k s (set_files v (prepare_slot k w s))" for v
    by (rule spawn_frame_trans [OF p]) (simp_all add: set_files_def)
  have l: "spawned k argc s r s'" if "leave_spawn None x = Some (r, s')" "spawn_frame k s x" for x
    using leave_spawned [OF that(2,1)] .
  have fin: "spawned k argc s r s'" if "finish_spawn k argc pml4 img x = Some (r, s')" "spawn_frame k s x" for x pml4 img
    using finish_spawned [OF that(2) assms(2) that(1)] .
  note e = assms(5) [unfolded scheduler_spawn_elf_def if_not_P [OF assms(6)] assms(1) option.case Let_def]
  have v: "spawn_frame k s (set_vm st x)" if "spawn_frame k s x" for st x
    by (rule spawn_frame_trans [OF that]) (simp_all add: set_vm_def)
  have u: "spawn_frame k s (update_task k (\<lambda>t. t \<lparr> task_program := p \<rparr>) (x \<lparr> kern := y \<rparr>))" if "spawn_frame k s x" for p x y
    by (rule spawn_frame_trans [OF that]) (auto simp: update_task_def)
  show ?thesis using e assms(2)
    by (auto split: bind_splits option.splits bool.splits if_splits prod.splits sum.splits elim!: l fin intro!: f v u)
qed

definition untouched :: "nat \<Rightarrow> sched \<Rightarrow> sched \<Rightarrow> bool" where
  "untouched i s s' \<longleftrightarrow> task_active (tasks s' ! i) = task_active (tasks s ! i) \<and> task_pid (tasks s' ! i) = task_pid (tasks s ! i)
     \<and> task_frame (tasks s' ! i) = task_frame (tasks s ! i) \<and> saved_context (tasks s' ! i) = saved_context (tasks s ! i)
     \<and> stacks s' i = stacks s i"



section \<open>Leaving tasks\<close>

lemma update_task_simps [simp]:
  "kern (update_task i g s) = kern s" "fpu (update_task i g s) = fpu s" "gs_base (update_task i g s) = gs_base s"
  "kernel_gs_base (update_task i g s) = kernel_gs_base s" "tss_stack (update_task i g s) = tss_stack s"
  by (simp_all add: update_task_def)

lemma setter_simps [simp]:
  "fpu (set_vm st s) = fpu s" "gs_base (set_vm st s) = gs_base s" "kernel_gs_base (set_vm st s) = kernel_gs_base s"
  "tss_stack (set_vm st s) = tss_stack s" "tasks (set_vm st s) = tasks s" "tm (set_vm st s) = tm s"
  "linux_abi (kern (set_vm st s)) = linux_abi (kern s)" "linux (kern (set_vm st s)) = linux (kern s)"
  "files (kern (set_vm st s)) = files (kern s)" "vm (kern (set_vm st s)) = st"
  "gs_base (set_tm t s) = gs_base s" "kernel_gs_base (set_tm t s) = kernel_gs_base s" "tss_stack (set_tm t s) = tss_stack s"
  "linux_abi (kern (set_tm t s)) = linux_abi (kern s)" "linux (kern (set_tm t s)) = linux (kern s)"
  "fpu (set_current i s) = fpu s" "gs_base (set_current i s) = gs_base s" "kernel_gs_base (set_current i s) = kernel_gs_base s"
  "tss_stack (set_current i s) = tss_stack s" "tasks (set_current i s) = tasks s" "cur (set_current i s) = i"
  "linux_abi (kern (set_current i s)) = linux_abi (kern s)" "linux (kern (set_current i s)) = linux (kern s)"
  "files (kern (set_current i s)) = files (kern s)"
  by (simp_all add: set_vm_def set_tm_def set_current_def Let_def)

text \<open>
  C40: a task that ends hands its registers to the next one. \<open>scheduler_exit_current\<close> resumes the frame
  of the next task and switches to its address space, but the segment bases, the floating point
  registers, the system call interface, the working directory and the kernel stack stay those of
  the task that ended, whatever the table holds for the resumed one.
\<close>

theorem exit_leaves_foreign_state:
  assumes "scheduler_exit_current status s = Some (Inr r, s')"
  shows "r = task_frame (tasks s' ! cur s') \<and> cur s' = scheduler_find_next (tasks s') (cur s)
     \<and> fpu s' = fpu s \<and> gs_base s' = gs_base s \<and> kernel_gs_base s' = kernel_gs_base s \<and> tss_stack s' = tss_stack s
     \<and> linux_abi (kern s') = linux_abi (kern s) \<and> linux (kern s') = linux (kern s) \<and> files (kern s') = files (kern s)"
proof -
  define s1 where "s1 = (if linux_abi (kern s) then update_task (cur s) (\<lambda>t. t \<lparr> task_linux :=
      the (linux_syscall_context_save (Some (task_linux t)) (kern s)) \<rparr>) s else s)"
  have s1: "kern s1 = kern s" "fpu s1 = fpu s" "gs_base s1 = gs_base s" "kernel_gs_base s1 = kernel_gs_base s" "tss_stack s1 = tss_stack s"
    by (simp_all add: s1_def)
  have "cur s \<noteq> 0"
  proof
    assume "cur s = 0"
    then show False using assms by (simp add: scheduler_exit_current_def)
  qed
  then show ?thesis using assms unfolding scheduler_exit_current_def Let_def s1_def [symmetric]
    by (auto simp: s1 bind_eq_Some_conv)
qed

definition ending_task :: sched where
  "ending_task = (let s = set_current 1 two_tasks in s \<lparr> fpu := replicate 512 7, tss_stack := 1, kern := (kern s) \<lparr> linux_abi := False \<rparr> \<rparr>)"

lemma exit_of_empty_program:
  assumes "cur s \<noteq> 0" and "cur s < length (tasks s)" and "task_program (tasks s ! cur s) = empty_program" and "\<not> linux_abi (kern s)"
  shows "\<exists>r s'. scheduler_exit_current status s = Some (Inr r, s')
     \<and> (\<exists>t. tasks s' = (tasks s)[cur s := t] \<and> \<not> task_active t)"
proof -
  have "cleanup_program_pages (Some empty_program) st = Some st" for st by (simp add: cleanup_program_pages_def empty_program_def)
  then show ?thesis using assms by (auto simp: scheduler_exit_current_def Let_def update_task_def)
qed

theorem exit_leaves_foreign_state_witness:
  "\<exists>s'. scheduler_exit_current 0 ending_task = Some (Inr None, s') \<and> cur s' = 0
     \<and> fpu s' = replicate 512 7 \<and> fpu_state (tasks s' ! 0) = replicate 512 0 \<and> tss_stack s' = 1"
proof -
  have e: "cur ending_task = 1" "tasks ending_task = tasks two_tasks" "\<not> linux_abi (kern ending_task)"
    by (simp_all add: ending_task_def Let_def)
  have p: "task_program (tasks two_tasks ! 1) = empty_program" "length (tasks two_tasks) = 8" by (simp_all add: two_tasks_def zero_task_def)
  from exit_of_empty_program [of ending_task 0] e p obtain r s' t where
    s': "scheduler_exit_current 0 ending_task = Some (Inr r, s')" "tasks s' = (tasks two_tasks)[1 := t]" "\<not> task_active t" by auto
  have t0: "tasks s' ! 0 = tasks two_tasks ! 0" using s'(2) by simp
  have "scheduler_find_next (tasks s') 1 = 0"
    using s'(2,3) by (simp add: scheduler_find_next_def two_tasks_def zero_task_def nth_append upt_rec)
  moreover have "task_frame (tasks two_tasks ! 0) = None" "fpu_state (tasks two_tasks ! 0) = replicate 512 0"
    by (simp_all add: two_tasks_def zero_task_def)
  ultimately show ?thesis using exit_leaves_foreign_state [OF s'(1)] s'(1) t0 e(1) by (auto simp: ending_task_def Let_def)
qed

section \<open>The shell alone\<close>

lemma timer_tick_take_switch:
  "timer_tick t = do { (sw, t) \<leftarrow> take_switch (t \<lparr> timer := pit_handler (timer t) \<rparr>);
     let w = scheduler_current_workspace t; sys_workspace_load w (w = displayed t) t }"
  by (simp add: timer_tick_def take_switch_def Let_def case_prod_beta)

lemma activate_screen:
  assumes "scheduler_activate i s = Some s'" and "cur s = i"
  shows "sys_workspace_load (task_workspaces (tm s) ! i) (task_workspaces (tm s) ! i = displayed (tm s)) (tm s) = Some (tm s')"
proof -
  have e: "(tm s) \<lparr> current_task := i \<rparr> = tm s" using assms(2) by simp
  show ?thesis using assms(1) unfolding scheduler_activate_def set_current_def Let_def e
    by (auto simp: set_tm_def set_vm_def set_files_def bind_eq_Some_conv syscall_select_linux_abi_def linux_syscall_context_restore_def
        split: if_splits)
qed


definition shell_only :: sched where
  "shell_only = two_tasks \<lparr> tasks := (tasks two_tasks)[1 := zero_task] \<rparr>"


end
