(* ===== verification/Lz4.thy ===== *)
theory Lz4
  imports Elf
begin

text \<open>
  The compressor of \<open>kernel/kutil/lz4_pack.c\<close>: LZ4 blocks of at most 4096 bytes in a frame with the
  sizes. The buffers that the code fills are lists of the bytes filled so far; counters that the
  checks of the code keep below their limits are natural numbers. A loop whose end rests on what the
  file system returns is a partial function. The history buffer starts with zeros: what an earlier run
  left there is not read, since a match reaches back only into the block.
\<close>

abbreviation (input) LZ4_WINDOW_SIZE :: nat where "LZ4_WINDOW_SIZE \<equiv> 4096"
abbreviation (input) LZ4_READ_AHEAD_SIZE :: nat where "LZ4_READ_AHEAD_SIZE \<equiv> 4096"
abbreviation (input) LZ4_OUTPUT_SIZE :: nat where "LZ4_OUTPUT_SIZE \<equiv> 65536"
abbreviation (input) LZ4_BLOCK_BUFFER_SIZE :: nat where "LZ4_BLOCK_BUFFER_SIZE \<equiv> 8192"

section \<open>Buffers\<close>

record lz4_read_buffer =
  rpath :: bytes
  rfile_size :: nat
  rstart :: nat
  rdata :: bytes

record lz4_write_buffer =
  wpath :: "bytes option"
  wdata :: bytes
  wcapacity :: nat

record lz4_decode_output =
  opath :: bytes
  history :: bytes
  odata :: bytes
  produced :: nat

definition lz4_refill :: "nat \<Rightarrow> lz4_read_buffer \<Rightarrow> vfs \<Rightarrow> (bool \<times> lz4_read_buffer \<times> vfs) option" where
  "lz4_refill offset b v =
     (if offset < rstart b \<or> offset - rstart b \<ge> length (rdata b)
      then do {
        let requested = min (rfile_size b - offset) LZ4_READ_AHEAD_SIZE;
        ((bytes_read, raw), v) \<leftarrow> fs_read_raw_at (Some (rpath b)) False (of_nat offset) (of_nat requested) v;
        Some (if bytes_read \<le> 0 then (False, b, v) else (True, b \<lparr> rstart := offset, rdata := raw \<rparr>, v))
      }
      else Some (True, b, v))"

text \<open>\<open>destination\<close> is what has been stored there so far.\<close>

partial_function (option) lz4_read_loop :: "bytes \<Rightarrow> lz4_read_buffer \<Rightarrow> nat \<Rightarrow> nat \<Rightarrow> vfs \<Rightarrow> (bytes option \<times> lz4_read_buffer \<times> vfs) option" where
  "lz4_read_loop destination b offset n v =
     (if n = 0 then Some (Some destination, b, v)
      else if offset \<ge> rfile_size b then Some (None, b, v)
      else do {
        (ok, b, v) \<leftarrow> lz4_refill offset b v;
        if \<not> ok then Some (None, b, v)
        else let o1 = offset - rstart b; batch = min n (length (rdata b) - o1)
             in lz4_read_loop (destination @ take batch (drop o1 (rdata b))) b (offset + batch) (n - batch) v
      })"

definition lz4_read_at :: "lz4_read_buffer \<Rightarrow> nat \<Rightarrow> nat \<Rightarrow> vfs \<Rightarrow> (bytes option \<times> lz4_read_buffer \<times> vfs) option" where
  "lz4_read_at = lz4_read_loop []"

definition lz4_write_flush :: "lz4_write_buffer \<Rightarrow> vfs \<Rightarrow> (int \<times> lz4_write_buffer \<times> vfs) option" where
  "lz4_write_flush b v =
     (if wdata b = [] then Some (0, b, v)
      else do {
        (r, v) \<leftarrow> fs_append_data (wpath b) (Some (wdata b)) (of_nat (length (wdata b))) v;
        Some (if r \<noteq> 0 then (-1, b, v) else (0, b \<lparr> wdata := [] \<rparr>, v))
      })"

partial_function (option) lz4_write :: "lz4_write_buffer \<Rightarrow> bytes \<Rightarrow> vfs \<Rightarrow> (int \<times> lz4_write_buffer \<times> vfs) option" where
  "lz4_write b data v =
     (if data = [] then Some (0, b, v)
      else let batch = min (length data) (wcapacity b - length (wdata b));
               b = b \<lparr> wdata := wdata b @ take batch data \<rparr>;
               data = drop batch data
           in if length (wdata b) = wcapacity b
              then if wpath b = None then Some (-1, b, v)
                   else do {
                     (r, b, v) \<leftarrow> lz4_write_flush b v;
                     if r \<noteq> 0 then Some (-1, b, v) else lz4_write b data v
                   }
              else lz4_write b data v)"

section \<open>Compressing\<close>

function lz4_write_length :: "lz4_write_buffer \<Rightarrow> nat \<Rightarrow> vfs \<Rightarrow> (int \<times> lz4_write_buffer \<times> vfs) option" where
  "lz4_write_length output n v =
     (if n \<ge> 255
      then do {
        (r, output, v) \<leftarrow> lz4_write output [255] v;
        if r \<noteq> 0 then Some (-1, output, v) else lz4_write_length output (n - 255) v
      }
      else lz4_write output [of_nat n] v)"
  by pat_completeness auto
termination by (relation "measure (\<lambda>(output, n, v). n)") auto

declare lz4_write_length.simps [simp del]

text \<open>A sequence: literals, then a match of at least four bytes; no match when its length is 0.\<close>

definition lz4_write_sequence :: "lz4_write_buffer \<Rightarrow> bytes \<Rightarrow> nat \<Rightarrow> nat \<Rightarrow> vfs \<Rightarrow> (int \<times> lz4_write_buffer \<times> vfs) option" where
  "lz4_write_sequence output literals match_length match_offset v =
     (let literal_length = length literals;
          encoded_match_length = (if match_length > 0 then match_length - 4 else 0);
          token = of_nat (16 * min literal_length 15 + min encoded_match_length 15)
      in do {
        (r, output, v) \<leftarrow> lz4_write output [token] v;
        if r \<noteq> 0 then Some (-1, output, v)
        else do {
          (r, output, v) \<leftarrow> (if literal_length \<ge> 15 then lz4_write_length output (literal_length - 15) v else Some (0, output, v));
          if r \<noteq> 0 then Some (-1, output, v)
          else do {
            (r, output, v) \<leftarrow> lz4_write output literals v;
            if r \<noteq> 0 then Some (-1, output, v)
            else if match_length = 0 then Some (0, output, v)
            else do {
              (r, output, v) \<leftarrow> lz4_write output (le16 (of_nat match_offset)) v;
              if r \<noteq> 0 then Some (-1, output, v)
              else if encoded_match_length \<ge> 15 then lz4_write_length output (encoded_match_length - 15) v
              else Some (0, output, v)
            }
          }
        }
      })"

definition lz4_hash :: "bytes \<Rightarrow> nat \<Rightarrow> nat" where
  "lz4_hash s i = unat (drop_bit 20 (rd32 s i * 2654435761))"

text \<open>\<open>None\<close> is the marker \<open>UINT32_MAX\<close> of the hash table.\<close>

type_synonym hash_table = "nat \<Rightarrow> nat option"

definition lz4_mismatch :: "bytes \<Rightarrow> nat \<Rightarrow> nat \<Rightarrow> bool" where
  "lz4_mismatch s candidate index \<longleftrightarrow> index - candidate > LZ4_WINDOW_SIZE \<or> s ! candidate \<noteq> s ! index
     \<or> s ! (candidate + 1) \<noteq> s ! (index + 1) \<or> s ! (candidate + 2) \<noteq> s ! (index + 2) \<or> s ! (candidate + 3) \<noteq> s ! (index + 3)"

function extend_match :: "bytes \<Rightarrow> nat \<Rightarrow> nat \<Rightarrow> nat \<Rightarrow> nat \<Rightarrow> nat" where
  "extend_match s candidate index maximum_match m =
     (if m < maximum_match \<and> s ! (candidate + m) = s ! (index + m)
      then extend_match s candidate index maximum_match (Suc m) else m)"
  by pat_completeness auto
termination by (relation "measure (\<lambda>(s, c, i, mx, m). mx - m)") auto

declare extend_match.simps [simp del]

lemma extend_match_ge: "m \<le> extend_match s c i mx m"
  by (induction s c i mx m rule: extend_match.induct) (subst extend_match.simps, auto)

definition insert_hashes :: "bytes \<Rightarrow> nat \<Rightarrow> nat \<Rightarrow> hash_table \<Rightarrow> hash_table" where
  "insert_hashes s index match_end t =
     fold (\<lambda>p t. t(lz4_hash s p := Some p)) [index + 1..<min match_end (length s - 3)] t"

function compress_loop :: "bytes \<Rightarrow> hash_table \<Rightarrow> nat \<Rightarrow> nat \<Rightarrow> lz4_write_buffer \<Rightarrow> vfs
    \<Rightarrow> (int \<times> nat \<times> lz4_write_buffer \<times> vfs) option" where
  "compress_loop s t anchor index output v =
     (if length s \<ge> 12 \<and> index \<le> length s - 12
      then let hash = lz4_hash s index; c = t hash; t = t(hash := Some index)
           in if c = None \<or> lz4_mismatch s (the c) index
              then compress_loop s t anchor (index + 1) output v
              else let m = extend_match s (the c) index (length s - 5 - index) 4
                   in do {
                     (r, output, v) \<leftarrow> lz4_write_sequence output (take (index - anchor) (drop anchor s)) m (index - the c) v;
                     if r \<noteq> 0 then Some (-1, anchor, output, v)
                     else compress_loop s (insert_hashes s index (index + m) t) (index + m) (index + m) output v
                   }
      else Some (0, anchor, output, v))"
  by pat_completeness auto
termination
proof (relation "measure (\<lambda>(s, t, anchor, index, output, v). length s - index)", goal_cases)
  case (3 s t anchor index b v hash c u m)
  have "4 \<le> m" "index < length s" using 3 extend_match_ge [of 4 s "the c" index "length s - 5 - index"] by auto
  then show ?case by simp
qed auto

declare compress_loop.simps [simp del]

definition lz4_compress_block :: "lz4_write_buffer \<Rightarrow> bytes \<Rightarrow> vfs \<Rightarrow> (int \<times> lz4_write_buffer \<times> vfs) option" where
  "lz4_compress_block output source v =
     do {
       (r, anchor, output, v) \<leftarrow> compress_loop source (\<lambda>_. None) 0 0 output v;
       if r \<noteq> 0 then Some (-1, output, v)
       else if length source > 0
       then do {
         (r, output, v) \<leftarrow> lz4_write_sequence output (drop anchor source) 0 0 v;
         Some (if r \<noteq> 0 then -1 else 0, output, v)
       }
       else Some (0, output, v)
     }"

section \<open>Decompressing\<close>

record lz4_decoder =
  dinput :: lz4_read_buffer
  doutput :: lz4_decode_output
  src_idx :: nat
  dfiles :: vfs

text \<open>Reading at the current index; an inner \<open>None\<close> is the failure of the loop.\<close>

definition dec_read :: "nat \<Rightarrow> lz4_decoder \<Rightarrow> (bytes option \<times> lz4_decoder) option" where
  "dec_read n d =
     do {
       (r, b, v) \<leftarrow> lz4_read_at (dinput d) (src_idx d) n (dfiles d);
       let d = d \<lparr> dinput := b, dfiles := v \<rparr>;
       Some (r, if r = None then d else d \<lparr> src_idx := src_idx d + n \<rparr>)
     }"

definition lz4_output_byte :: "u8 \<Rightarrow> lz4_decode_output \<Rightarrow> vfs \<Rightarrow> (int \<times> lz4_decode_output \<times> vfs) option" where
  "lz4_output_byte value b v =
     (let b = b \<lparr> history := (history b)[produced b mod LZ4_WINDOW_SIZE := value], odata := odata b @ [value], produced := produced b + 1 \<rparr>
      in if length (odata b) = LZ4_OUTPUT_SIZE
         then do {
           (r, v) \<leftarrow> fs_append_data (Some (opath b)) (Some (odata b)) (of_nat (length (odata b))) v;
           Some (if r \<noteq> 0 then (-1, b, v) else (0, b \<lparr> odata := [] \<rparr>, v))
         }
         else Some (0, b, v))"

definition dec_byte :: "u8 \<Rightarrow> lz4_decoder \<Rightarrow> (bool \<times> lz4_decoder) option" where
  "dec_byte x d =
     do { (r, b, v) \<leftarrow> lz4_output_byte x (doutput d) (dfiles d); Some (r = 0, d \<lparr> doutput := b, dfiles := v \<rparr>) }"

fun dec_bytes :: "bytes \<Rightarrow> lz4_decoder \<Rightarrow> (bool \<times> lz4_decoder) option" where
  "dec_bytes [] d = Some (True, d)"
| "dec_bytes (x # xs) d = do { (ok, d) \<leftarrow> dec_byte x d; if ok then dec_bytes xs d else Some (False, d) }"

partial_function (option) lz4_read_length :: "nat \<Rightarrow> nat \<Rightarrow> lz4_decoder \<Rightarrow> (nat option \<times> lz4_decoder) option" where
  "lz4_read_length limit n d =
     (if src_idx d \<ge> limit then Some (None, d)
      else do {
        (r, d) \<leftarrow> dec_read 1 d;
        (case r of None \<Rightarrow> Some (None, d)
         | Some bs \<Rightarrow> let extension = unat (hd bs) in
             if 2 ^ 64 - 1 - n < extension then Some (None, d)
             else if extension = 255 then lz4_read_length limit (n + extension) d
             else Some (Some (n + extension), d))
      })"

partial_function (option) copy_literals :: "nat \<Rightarrow> lz4_decoder \<Rightarrow> (bool \<times> lz4_decoder) option" where
  "copy_literals literals_remaining d =
     (if literals_remaining = 0 then Some (True, d)
      else do {
        let batch = min literals_remaining 512;
        (r, d) \<leftarrow> dec_read batch d;
        (case r of None \<Rightarrow> Some (False, d)
         | Some bs \<Rightarrow> do {
             (ok, d) \<leftarrow> dec_bytes bs d;
             if ok then copy_literals (literals_remaining - batch) d else Some (False, d)
           })
      })"

fun copy_match :: "nat \<Rightarrow> nat \<Rightarrow> lz4_decoder \<Rightarrow> (bool \<times> lz4_decoder) option" where
  "copy_match match_offset 0 d = Some (True, d)"
| "copy_match match_offset (Suc n) d =
     do {
       let history_idx = (produced (doutput d) - match_offset) mod LZ4_WINDOW_SIZE;
       (ok, d) \<leftarrow> dec_byte (history (doutput d) ! history_idx) d;
       if ok then copy_match match_offset n d else Some (False, d)
     }"

text \<open>The literals of a sequence, with the lengths in the low half of the token.\<close>

definition dec_literals :: "nat \<Rightarrow> nat \<Rightarrow> lz4_decoder \<Rightarrow> (u8 option \<times> lz4_decoder) option" where
  "dec_literals block_target block_end d =
     do {
       (r, d) \<leftarrow> dec_read 1 d;
       (case r of None \<Rightarrow> Some (None, d)
        | Some bs \<Rightarrow> let token = hd bs; literal_length = unat (drop_bit 4 token) in do {
            (r, d) \<leftarrow> (if literal_length = 15 then lz4_read_length block_end literal_length d else Some (Some literal_length, d));
            (case r of None \<Rightarrow> Some (None, d)
             | Some literal_length \<Rightarrow>
                 if literal_length > block_target - produced (doutput d) \<or> literal_length > block_end - src_idx d
                 then Some (None, d)
                 else do {
                   (ok, d) \<leftarrow> copy_literals literal_length d;
                   Some (if ok then Some token else None, d)
                 })
          })
     }"

definition dec_match :: "u8 \<Rightarrow> nat \<Rightarrow> nat \<Rightarrow> nat \<Rightarrow> lz4_decoder \<Rightarrow> (bool \<times> lz4_decoder) option" where
  "dec_match token block_start block_target block_end d =
     (if block_end - src_idx d < 2 then Some (False, d)
      else do {
        (r, d) \<leftarrow> dec_read 2 d;
        (case r of None \<Rightarrow> Some (False, d)
         | Some bs \<Rightarrow> let match_offset = unat (rd16 bs 0) in
             if match_offset = 0 \<or> match_offset > LZ4_WINDOW_SIZE \<or> match_offset > produced (doutput d) - block_start
             then Some (False, d)
             else do {
               let low = unat (token AND 0x0F);
               (r, d) \<leftarrow> (if low = 15 then lz4_read_length block_end (low + 4) d else Some (Some (low + 4), d));
               (case r of None \<Rightarrow> Some (False, d)
                | Some match_length \<Rightarrow>
                    if match_length > block_target - produced (doutput d) then Some (False, d)
                    else copy_match match_offset match_length d)
             })
      })"

text \<open>The inner loop: the sequences of a block.\<close>

partial_function (option) dec_block :: "nat \<Rightarrow> nat \<Rightarrow> nat \<Rightarrow> lz4_decoder \<Rightarrow> (bool \<times> lz4_decoder) option" where
  "dec_block block_start block_target block_end d =
     (if src_idx d < block_end \<and> produced (doutput d) < block_target
      then do {
        (r, d) \<leftarrow> dec_literals block_target block_end d;
        (case r of None \<Rightarrow> Some (False, d)
         | Some token \<Rightarrow>
             if produced (doutput d) = block_target then Some (src_idx d = block_end, d)
             else do {
               (ok, d) \<leftarrow> dec_match token block_start block_target block_end d;
               if ok then dec_block block_start block_target block_end d else Some (False, d)
             })
      }
      else Some (True, d))"

text \<open>The header of a block in a frame: the end of its output and of its input.\<close>

definition dec_header :: "bool \<Rightarrow> nat \<Rightarrow> nat \<Rightarrow> lz4_decoder \<Rightarrow> ((nat \<times> nat) option \<times> lz4_decoder) option" where
  "dec_header framed original_size src_size d =
     (if \<not> framed then Some (Some (original_size, src_size), d)
      else if src_size - src_idx d < 8 then Some (None, d)
      else do {
        (r, d) \<leftarrow> dec_read 8 d;
        (case r of None \<Rightarrow> Some (None, d)
         | Some bs \<Rightarrow>
             let block_original_size = unat (rd32 bs 0); block_compressed_size = unat (rd32 bs 4) in
             Some (if block_original_size = 0 \<or> block_compressed_size = 0
                      \<or> block_original_size > original_size - produced (doutput d)
                      \<or> block_compressed_size > src_size - src_idx d
                   then None
                   else Some (produced (doutput d) + block_original_size, src_idx d + block_compressed_size), d))
      })"

partial_function (option) dec_blocks :: "bool \<Rightarrow> nat \<Rightarrow> nat \<Rightarrow> lz4_decoder \<Rightarrow> (bool \<times> lz4_decoder) option" where
  "dec_blocks framed original_size src_size d =
     (if produced (doutput d) < original_size
      then do {
        let block_start = produced (doutput d);
        (r, d) \<leftarrow> dec_header framed original_size src_size d;
        (case r of None \<Rightarrow> Some (False, d)
         | Some (block_target, block_end) \<Rightarrow> do {
             (ok, d) \<leftarrow> dec_block block_start block_target block_end d;
             if \<not> ok \<or> produced (doutput d) \<noteq> block_target \<or> src_idx d \<noteq> block_end then Some (False, d)
             else if \<not> framed then Some (True, d)
             else dec_blocks framed original_size src_size d
           })
      }
      else Some (True, d))"

definition dec_finish :: "bool \<Rightarrow> nat \<Rightarrow> nat \<Rightarrow> lz4_decoder \<Rightarrow> (bool \<times> lz4_decoder) option" where
  "dec_finish ok original_size src_size d =
     (if \<not> ok \<or> produced (doutput d) \<noteq> original_size \<or> src_idx d \<noteq> src_size then Some (False, d)
      else if odata (doutput d) = [] then Some (True, d)
      else do {
        (r, v) \<leftarrow> fs_append_data (Some (opath (doutput d))) (Some (odata (doutput d))) (of_nat (length (odata (doutput d)))) (dfiles d);
        Some (r = 0, d \<lparr> dfiles := v \<rparr>)
      })"

text \<open>The first bytes of an archive: the original size and whether it has a frame.\<close>

definition lz4_header :: "lz4_read_buffer \<Rightarrow> vfs \<Rightarrow> ((u32 \<times> bool) option \<times> lz4_read_buffer \<times> vfs) option" where
  "lz4_header b v =
     do {
       (r, b, v) \<leftarrow> lz4_read_at b 0 4 v;
       (case r of None \<Rightarrow> Some (None, b, v)
        | Some header \<Rightarrow>
            if rfile_size b \<ge> 8
            then do {
              (m, b, v) \<leftarrow> lz4_read_at b 4 4 v;
              Some (Some (rd32 header 0, m = Some (asc ''LZ4C'')), b, v)
            }
            else Some (Some (rd32 header 0, False), b, v))
     }"

definition say_result :: "int \<Rightarrow> string \<Rightarrow> vfs \<Rightarrow> kernel \<Rightarrow> (int \<times> kernel) option" where
  "say_result r s v k = do { k \<leftarrow> say s (k \<lparr> files := v \<rparr>); Some (r, k) }"

text \<open>Decoding into a file that has just been created.\<close>

definition decompress_file :: "bool \<Rightarrow> nat \<Rightarrow> nat \<Rightarrow> bytes \<Rightarrow> lz4_read_buffer \<Rightarrow> vfs \<Rightarrow> (bool \<times> vfs) option" where
  "decompress_file framed original_size src_size dst_path b v =
     do {
       (ok, d) \<leftarrow> dec_blocks framed original_size src_size
         \<lparr> dinput = b, doutput = \<lparr> opath = dst_path, history = replicate LZ4_WINDOW_SIZE 0, odata = [], produced = 0 \<rparr>,
           src_idx = (if framed then 8 else 4), dfiles = v \<rparr>;
       (ok, d) \<leftarrow> dec_finish ok original_size src_size d;
       Some (ok, dfiles d)
     }"

definition kernel_lz4_decompress :: "bytes \<Rightarrow> u64 \<Rightarrow> bytes \<Rightarrow> kernel \<Rightarrow> (int \<times> kernel) option" where
  "kernel_lz4_decompress src_path src_size dst_path k =
     (if src_size < 4 then say_result (-1) ''[LZ4] Error: Compressed file is too small.'' (files k) k
      else do {
        (h, b, v) \<leftarrow> lz4_header \<lparr> rpath = src_path, rfile_size = unat src_size, rstart = 2 ^ 64 - 1, rdata = [] \<rparr> (files k);
        (case h of None \<Rightarrow> say_result (-1) ''[LZ4] Error: Unable to read compressed header.'' v k
         | Some (original_size, framed) \<Rightarrow>
             if original_size = 0
             then if src_size \<noteq> (if framed then 8 else 4)
                  then say_result (-1) ''[LZ4] Error: Invalid empty archive or destination.'' v k
                  else do {
                    (c, v) \<leftarrow> fs_create (Some dst_path) v;
                    if c \<noteq> 0 then say_result (-1) ''[LZ4] Error: Invalid empty archive or destination.'' v k
                    else say_result 0 ''[LZ4] Decompression completed successfully.'' v k
                  }
             else do {
               (c, v) \<leftarrow> fs_create (Some dst_path) v;
               if c \<noteq> 0 then say_result (-1) ''[LZ4] Error: Unable to create decompressed file.'' v k
               else do {
                 (ok, v) \<leftarrow> decompress_file framed (unat original_size) (unat src_size) dst_path b v;
                 if ok then say_result 0 ''[LZ4] Decompression completed successfully.'' v k
                 else do {
                   (_, v) \<leftarrow> fs_delete (Some dst_path) v;
                   say_result (-1) ''[LZ4] Error: Invalid or unreadable compressed data.'' v k
                 }
               }
             })
      })"

section \<open>Compressing a file\<close>

text \<open>One block of at most 4096 bytes, with its sizes in front.\<close>

definition compress_part :: "bytes \<Rightarrow> lz4_write_buffer \<Rightarrow> vfs \<Rightarrow> (bool \<times> lz4_write_buffer \<times> vfs) option" where
  "compress_part source output v =
     do {
       (r, block, v) \<leftarrow> lz4_compress_block \<lparr> wpath = None, wdata = [], wcapacity = LZ4_BLOCK_BUFFER_SIZE \<rparr> source v;
       if r \<noteq> 0 \<or> wdata block = [] \<or> length (wdata block) \<ge> LZ4_BLOCK_BUFFER_SIZE then Some (False, output, v)
       else do {
         (r, output, v) \<leftarrow> lz4_write output (le32 (of_nat (length source)) @ le32 (of_nat (length (wdata block)))) v;
         if r \<noteq> 0 then Some (False, output, v)
         else do {
           (r, output, v) \<leftarrow> lz4_write output (wdata block) v;
           Some (r = 0, output, v)
         }
       }
     }"

partial_function (option) compress_parts :: "bytes \<Rightarrow> nat \<Rightarrow> nat \<Rightarrow> lz4_write_buffer \<Rightarrow> vfs \<Rightarrow> (bool \<times> lz4_write_buffer \<times> vfs) option" where
  "compress_parts src_path total_size offset output v =
     (if offset < total_size
      then do {
        let requested = min (total_size - offset) LZ4_READ_AHEAD_SIZE;
        ((bytes_read, source), v) \<leftarrow> fs_read_raw_at (Some src_path) False (of_nat offset) (of_nat requested) v;
        if bytes_read \<le> 0 \<or> bytes_read \<noteq> int requested then Some (False, output, v)
        else do {
          (ok, output, v) \<leftarrow> compress_part source output v;
          if ok then compress_parts src_path total_size (offset + requested) output v else Some (False, output, v)
        }
      }
      else Some (True, output, v))"

text \<open>Writing the archive into a file that has just been created: the frame and its blocks.\<close>

definition compress_file :: "bytes \<Rightarrow> u64 \<Rightarrow> bytes \<Rightarrow> vfs \<Rightarrow> (bool \<times> vfs) option" where
  "compress_file src_path src_size dst_path v =
     do {
       (r, output, v) \<leftarrow> lz4_write \<lparr> wpath = Some dst_path, wdata = [], wcapacity = LZ4_OUTPUT_SIZE \<rparr>
         (le32 (ucast src_size) @ asc ''LZ4C'') v;
       (ok, output, v) \<leftarrow> (if r \<noteq> 0 then Some (False, output, v) else compress_parts src_path (unat src_size) 0 output v);
       if \<not> ok then Some (False, v)
       else do {
         (r, _, v) \<leftarrow> lz4_write_flush output v;
         Some (r = 0, v)
       }
     }"

definition kernel_lz4_compress :: "bytes \<Rightarrow> u64 \<Rightarrow> bytes \<Rightarrow> kernel \<Rightarrow> (int \<times> kernel) option" where
  "kernel_lz4_compress src_path src_size dst_path k =
     (if src_size > 0xFFFFFFFF then say_result (-1) ''[LZ4] Error: Source file is too large to compress.'' (files k) k
      else do {
        (c, v) \<leftarrow> fs_create (Some dst_path) (files k);
        if c \<noteq> 0 then say_result (-1) ''[LZ4] Error: Unable to create compressed file.'' v k
        else do {
          (ok, v) \<leftarrow> compress_file src_path src_size dst_path v;
          if ok then say_result 0 ''[LZ4] Compression completed successfully.'' v k
          else do {
            (_, v) \<leftarrow> fs_delete (Some dst_path) v;
            say_result (-1) ''[LZ4] Error: Unable to read source or write archive.'' v k
          }
        }
      })"

end
