(* ===== verification/Lz4Codec.thy ===== *)
theory Lz4Codec
  imports Lz4 LinuxFiles
begin

text \<open>
  What the compressor writes, the decompressor reads back. Compressing a block gives sequences of
  literals and matches that expand to the block and fit the buffer; decoding such sequences from an
  archive, through its read-ahead buffer, its history ring and its output buffer, gives the bytes
  they expand to.
\<close>

section \<open>Sequences\<close>

text \<open>Copying a match byte by byte, which may reach into the bytes it copies itself.\<close>

fun lz4_copy :: "nat \<Rightarrow> nat \<Rightarrow> bytes \<Rightarrow> bytes" where
  "lz4_copy off 0 xs = xs"
| "lz4_copy off (Suc n) xs = lz4_copy off n (xs @ [xs ! (length xs - off)])"

type_synonym lz4_sequence = "bytes \<times> nat \<times> nat"

fun lz4_expand :: "bytes \<Rightarrow> lz4_sequence list \<Rightarrow> bytes" where
  "lz4_expand xs [] = xs"
| "lz4_expand xs ((l, m, off) # qs) = lz4_expand (lz4_copy off m (xs @ l)) qs"

text \<open>Matches have at least four bytes and reach back at most 4096, inside the block.\<close>

fun lz4_valid :: "bytes \<Rightarrow> lz4_sequence list \<Rightarrow> bool" where
  "lz4_valid xs [] = True"
| "lz4_valid xs ((l, m, off) # qs) \<longleftrightarrow> 4 \<le> m \<and> 1 \<le> off \<and> off \<le> 4096 \<and> off \<le> length (xs @ l)
     \<and> lz4_valid (lz4_copy off m (xs @ l)) qs"

definition length_bytes :: "nat \<Rightarrow> bytes" where
  "length_bytes n = replicate (n div 255) 255 @ [of_nat (n mod 255)]"

definition match_bytes :: "nat \<Rightarrow> nat \<Rightarrow> bytes" where
  "match_bytes m off = (if m = 0 then [] else le16 (of_nat off) @ (if m - 4 \<ge> 15 then length_bytes (m - 19) else []))"

definition token_byte :: "nat \<Rightarrow> nat \<Rightarrow> u8" where
  "token_byte l m = of_nat (16 * min l 15 + min (if m > 0 then m - 4 else 0) 15)"

definition literal_bytes :: "bytes \<Rightarrow> nat \<Rightarrow> bytes" where
  "literal_bytes l m = token_byte (length l) m # (if length l \<ge> 15 then length_bytes (length l - 15) else []) @ l"

definition sequence_bytes :: "lz4_sequence \<Rightarrow> bytes" where
  "sequence_bytes q = (case q of (l, m, off) \<Rightarrow> literal_bytes l m @ match_bytes m off)"

lemma length_length_bytes: "length (length_bytes n) = n div 255 + 1"
  by (simp add: length_bytes_def)

lemma length_bytes_rec: "length_bytes n = (if n \<ge> 255 then 255 # length_bytes (n - 255) else [of_nat n])"
proof (cases "n \<ge> 255")
  case True
  then have "n div 255 = Suc ((n - 255) div 255)" "n mod 255 = (n - 255) mod 255" by (simp_all add: le_div_geq le_mod_geq)
  with True show ?thesis by (simp add: length_bytes_def)
qed (simp add: length_bytes_def)

lemma sequence_length:
  "length (sequence_bytes (l, 0, off)) < 2 * length l \<or> length l \<le> 1"
  "4 \<le> m \<Longrightarrow> length (sequence_bytes (l, m, off)) \<le> 2 * (length l + m)"
  by (auto simp: sequence_bytes_def literal_bytes_def match_bytes_def length_length_bytes le16_def)

lemma length_copy [simp]: "length (lz4_copy off n xs) = length xs + n"
  by (induction n arbitrary: xs) auto

section \<open>Writing into the block buffer\<close>

lemma write_room:
  assumes "length (wdata b) + length data < wcapacity b"
  shows "lz4_write b data v = Some (0, b \<lparr> wdata := wdata b @ data \<rparr>, v)"
proof (cases "data = []")
  case True
  then show ?thesis by (subst lz4_write.simps) simp
next
  case False
  have m: "min (length data) (wcapacity b - length (wdata b)) = length data" using assms by simp
  have "lz4_write b' [] v = Some (0, b', v)" for b' by (subst lz4_write.simps) simp
  then show ?thesis using False assms by (subst lz4_write.simps) (simp add: m Let_def)
qed

lemma write_length_room:
  "length (wdata b) + length (length_bytes n) < wcapacity b \<Longrightarrow>
     lz4_write_length b n v = Some (0, b \<lparr> wdata := wdata b @ length_bytes n \<rparr>, v)"
proof (induction n arbitrary: b rule: less_induct)
  case (less n)
  show ?case
  proof (cases "n \<ge> 255")
    case True
    then have e: "length_bytes n = 255 # length_bytes (n - 255)" using length_bytes_rec [of n] by simp
    have "lz4_write_length (b \<lparr> wdata := wdata b @ [255] \<rparr>) (n - 255) v
        = Some (0, b \<lparr> wdata := (wdata b @ [255]) @ length_bytes (n - 255) \<rparr>, v)"
      using less.IH [of "n - 255" "b \<lparr> wdata := wdata b @ [255] \<rparr>"] less.prems True e by simp
    then show ?thesis using True less.prems by (subst lz4_write_length.simps) (simp add: e write_room)
  next
    case False
    then have e: "length_bytes n = [of_nat n]" using length_bytes_rec [of n] by simp
    show ?thesis using False less.prems by (subst lz4_write_length.simps) (simp add: e write_room)
  qed
qed

lemma write_sequence_room:
  assumes "length (wdata b) + length (sequence_bytes (l, m, off)) < wcapacity b"
  shows "lz4_write_sequence b l m off v = Some (0, b \<lparr> wdata := wdata b @ sequence_bytes (l, m, off) \<rparr>, v)"
proof -
  define e where "e = (if m > 0 then m - 4 else 0)"
  have q: "sequence_bytes (l, m, off) = [of_nat (16 * min (length l) 15 + min e 15)]
      @ (if length l \<ge> 15 then length_bytes (length l - 15) else []) @ l
      @ (if m = 0 then [] else le16 (of_nat off) @ (if e \<ge> 15 then length_bytes (e - 15) else []))"
    by (simp add: sequence_bytes_def literal_bytes_def token_byte_def match_bytes_def e_def)
  show ?thesis using assms unfolding q lz4_write_sequence_def Let_def e_def [symmetric]
    by (cases "length l \<ge> 15"; cases "m = 0"; cases "e \<ge> 15") (simp_all add: write_room write_length_room)
qed

section \<open>Compressing a block\<close>

lemma extend_match_bounds:
  "m \<le> mx \<Longrightarrow> extend_match s c i mx m \<le> mx"
  "(\<forall>k<m. s ! (c + k) = s ! (i + k)) \<Longrightarrow> k < extend_match s c i mx m \<Longrightarrow> s ! (c + k) = s ! (i + k)"
proof (induction s c i mx m rule: extend_match.induct)
  case (1 s c i mx m)
  { case 1
    then show ?case using "1.IH"(1) by (subst extend_match.simps) auto
  next
    case 2
    show ?case
    proof (cases "m < mx \<and> s ! (c + m) = s ! (i + m)")
      case True
      then have "\<forall>k<Suc m. s ! (c + k) = s ! (i + k)" using 2(1) by (auto simp: less_Suc_eq)
      from "1.IH"(2) [OF True this] 2(2) True show ?thesis by (subst (asm) extend_match.simps) simp
    next
      case False
      then have "extend_match s c i mx m = m" by (subst extend_match.simps) (simp only: if_False)
      then show ?thesis using 2 by simp
    qed
  }
qed

lemma copy_take:
  assumes "1 \<le> off" and "off \<le> i" and "i + m \<le> length s" and "\<And>k. k < m \<Longrightarrow> s ! (i - off + k) = s ! (i + k)"
  shows "lz4_copy off m (take i s) = take (i + m) s"
  using assms
proof (induction m arbitrary: i)
  case (Suc m)
  have "take i s ! (i - off) = s ! i" using Suc.prems(1-3) Suc.prems(4) [of 0] by simp
  then have e: "take i s @ [take i s ! (length (take i s) - off)] = take (Suc i) s"
    using Suc.prems(3) by (simp add: take_Suc_conv_app_nth)
  have "lz4_copy off m (take (Suc i) s) = take (Suc i + m) s"
  proof (rule Suc.IH)
    fix k assume "k < m"
    then show "s ! (Suc i - off + k) = s ! (Suc i + k)" using Suc.prems(4) [of "Suc k"] Suc.prems(1,2) by (simp add: Suc_diff_le)
  qed (use Suc.prems in simp_all)
  then show ?case using e by simp
qed simp

lemma insert_hashes_less:
  assumes "\<And>h p. t h = Some p \<Longrightarrow> p \<le> i" and "insert_hashes s i j t h = Some p" and "i < j"
  shows "p < j"
proof -
  have "\<forall>h p. fold (\<lambda>p t. t(lz4_hash s p := Some p)) l t h = Some p \<longrightarrow> p < j" if "\<forall>x\<in>set l. x < j" "\<forall>h p. t h = Some p \<longrightarrow> p < j"
    for l :: "nat list" and t :: hash_table
    using that
  proof (induction l arbitrary: t)
    case (Cons a l)
    have "\<forall>h p. (t(lz4_hash s a := Some a)) h = Some p \<longrightarrow> p < j" using Cons.prems by simp
    from Cons.IH [OF _ this] Cons.prems(1) show ?case by simp
  qed simp
  moreover have "\<forall>x\<in>set [i + 1..<min j (length s - 3)]. x < j" by auto
  ultimately show ?thesis using assms unfolding insert_hashes_def by (meson le_less_trans)
qed

lemma expand_append: "lz4_expand xs (qs @ rs) = lz4_expand (lz4_expand xs qs) rs"
  by (induction xs qs rule: lz4_expand.induct) auto

lemma valid_append: "lz4_valid xs (qs @ rs) \<longleftrightarrow> lz4_valid xs qs \<and> lz4_valid (lz4_expand xs qs) rs"
  by (induction xs qs rule: lz4_valid.induct) auto

lemma compress_loop_ok:
  assumes "anchor \<le> index" and "index \<le> length s" and "\<And>h p. t h = Some p \<Longrightarrow> p < index"
    and "length (wdata b) \<le> 2 * anchor" and "2 * length s \<le> wcapacity b" and "anchor = 0 \<or> anchor + 5 \<le> length s"
  shows "\<exists>qs anchor'. compress_loop s t anchor index b v = Some (0, anchor', b \<lparr> wdata := wdata b @ concat (map sequence_bytes qs) \<rparr>, v)
     \<and> anchor' \<le> length s \<and> lz4_valid (take anchor s) qs \<and> lz4_expand (take anchor s) qs = take anchor' s
     \<and> length (wdata b) + length (concat (map sequence_bytes qs)) \<le> 2 * anchor' \<and> (anchor' = 0 \<or> anchor' + 5 \<le> length s)"
  using assms
proof (induction s t anchor index b v rule: compress_loop.induct)
  case (1 s t anchor index b v)
  define hash where "hash = lz4_hash s index"
  define c where "c = t hash"
  define u where "u = t(hash := Some index)"
  show ?case
  proof (cases "length s \<ge> 12 \<and> index \<le> length s - 12")
    case False
    then show ?thesis using "1.prems" by (intro exI [of _ "[]"] exI [of _ anchor]) (subst compress_loop.simps, auto)
  next
    case go: True
    have u: "p < Suc index" if "u h = Some p" for h p using that "1.prems"(3) [of h p] by (auto simp: u_def split: if_splits)
    show ?thesis
    proof (cases "c = None \<or> lz4_mismatch s (the c) index")
      case True
      have e: "compress_loop s t anchor index b v = compress_loop s u anchor (index + 1) b v"
        using go True by (subst compress_loop.simps) (simp add: hash_def [symmetric] c_def [symmetric] u_def [symmetric] Let_def)
      show ?thesis unfolding e
        by (rule "1.IH"(1) [OF go hash_def c_def u_def True]) (use "1.prems" go u in auto)
    next
      case False
      then obtain k where k: "c = Some k" by auto
      have kl: "k < index" using "1.prems"(3) k by (simp add: c_def)
      define m where "m = extend_match s k index (length s - 5 - index) 4"
      have four: "\<forall>j<4. s ! (k + j) = s ! (index + j)"
        using False k by (auto simp: lz4_mismatch_def less_Suc_eq numeral_eq_Suc)
      have m: "4 \<le> m" "index + m + 5 \<le> length s"
        using extend_match_ge [of 4 s k index "length s - 5 - index"] extend_match_bounds(1) [of 4 "length s - 5 - index" s k index] go
        unfolding m_def [symmetric] by linarith+
      have eq: "s ! (k + j) = s ! (index + j)" if "j < m" for j
        using extend_match_bounds(2) [OF four, of j "length s - 5 - index"] that by (simp add: m_def)
      let ?l = "take (index - anchor) (drop anchor s)"
      let ?q = "(?l, m, index - k)"
      have ll: "length ?l = index - anchor" using "1.prems"(2) by simp
      have tl: "take anchor s @ ?l = take index s" using "1.prems"(1) by (metis le_add_diff_inverse take_add)
      have room: "length (sequence_bytes ?q) \<le> 2 * (index + m - anchor)"
        using sequence_length(2) [OF m(1), of ?l "index - k"] unfolding ll diff_add_assoc2 [OF "1.prems"(1), symmetric] .
      let ?b = "b \<lparr> wdata := wdata b @ sequence_bytes ?q \<rparr>"
      have w: "lz4_write_sequence b ?l m (index - k) v = Some (0, ?b, v)"
        by (rule write_sequence_room, rule le_less_trans [OF add_le_mono [OF "1.prems"(4) room]]) (use "1.prems"(1,5) m in simp)
      have e: "compress_loop s t anchor index b v = compress_loop s (insert_hashes s index (index + m) u) (index + m) (index + m) ?b v"
        using go False w k m_def [symmetric] by (subst compress_loop.simps)
          (simp add: hash_def [symmetric] c_def [symmetric] u_def [symmetric] Let_def)
      have copy: "lz4_copy (index - k) m (take index s) = take (index + m) s"
        by (rule copy_take) (use kl m eq in auto)
      have "\<exists>qs anchor'. compress_loop s (insert_hashes s index (index + m) u) (index + m) (index + m) ?b v
            = Some (0, anchor', ?b \<lparr> wdata := wdata ?b @ concat (map sequence_bytes qs) \<rparr>, v)
          \<and> anchor' \<le> length s \<and> lz4_valid (take (index + m) s) qs \<and> lz4_expand (take (index + m) s) qs = take anchor' s
          \<and> length (wdata ?b) + length (concat (map sequence_bytes qs)) \<le> 2 * anchor' \<and> (anchor' = 0 \<or> anchor' + 5 \<le> length s)"
      proof (rule "1.IH"(2) [OF go hash_def c_def u_def False, of m "(0, ?b, v)" 0 "(?b, v)" ?b v])
        show "m = extend_match s (the c) index (length s - 5 - index) 4" by (simp add: m_def k)
        show "(0, ?b, v) \<in> set_option (lz4_write_sequence b ?l m (index - the c) v)" using w k by simp
        show "length (wdata ?b) \<le> 2 * (index + m)" using room "1.prems"(1,4) by simp
        show "p < index + m" if "insert_hashes s index (index + m) u h = Some p" for h p
          by (rule insert_hashes_less [OF _ that]) (use u m in \<open>auto simp: less_Suc_eq_le\<close>)
      qed (use m "1.prems"(5) in auto)
      then obtain qs a where qs: "compress_loop s (insert_hashes s index (index + m) u) (index + m) (index + m) ?b v
            = Some (0, a, ?b \<lparr> wdata := wdata ?b @ concat (map sequence_bytes qs) \<rparr>, v)"
          "a \<le> length s" "lz4_valid (take (index + m) s) qs" "lz4_expand (take (index + m) s) qs = take a s"
          "length (wdata ?b) + length (concat (map sequence_bytes qs)) \<le> 2 * a" "a = 0 \<or> a + 5 \<le> length s" by blast
      have off: "index - k \<le> 4096" using False k by (simp add: lz4_mismatch_def)
      have "1 \<le> index - k" "index - k \<le> length s" "index - k \<le> index" using kl "1.prems"(2) by auto
      then have "lz4_valid (take anchor s) (?q # qs)" using m(1) off copy qs(3) tl by simp
      moreover have "lz4_expand (take anchor s) (?q # qs) = take a s" using copy qs(4) tl by simp
      ultimately show ?thesis unfolding e
        by (intro exI [of _ "?q # qs"] exI [of _ a]) (use qs in simp)
    qed
  qed
qed

definition block_bytes :: "lz4_sequence list \<Rightarrow> bytes \<Rightarrow> bytes" where
  "block_bytes qs l = concat (map sequence_bytes qs) @ sequence_bytes (l, 0, 0)"

lemma block_bytes_rec [simp]:
  "block_bytes [] l = literal_bytes l 0"
  "block_bytes ((k, m, off) # qs) l = literal_bytes k m @ match_bytes m off @ block_bytes qs l"
  by (simp_all add: block_bytes_def sequence_bytes_def match_bytes_def)

lemma compress_block_ok:
  assumes "s \<noteq> []" and "length s \<le> 4096"
  shows "\<exists>qs l. lz4_compress_block \<lparr> wpath = None, wdata = [], wcapacity = LZ4_BLOCK_BUFFER_SIZE \<rparr> s v
       = Some (0, \<lparr> wpath = None, wdata = block_bytes qs l, wcapacity = LZ4_BLOCK_BUFFER_SIZE \<rparr>, v)
     \<and> lz4_valid [] qs \<and> lz4_expand [] qs @ l = s \<and> l \<noteq> [] \<and> block_bytes qs l \<noteq> [] \<and> length (block_bytes qs l) < LZ4_BLOCK_BUFFER_SIZE
     \<and> length (block_bytes qs l) \<le> 2 * length s"
proof -
  let ?b = "\<lparr> wpath = None, wdata = [], wcapacity = LZ4_BLOCK_BUFFER_SIZE \<rparr>"
  have "\<exists>qs a. compress_loop s (\<lambda>_. None) 0 0 ?b v = Some (0, a, ?b \<lparr> wdata := wdata ?b @ concat (map sequence_bytes qs) \<rparr>, v)
     \<and> a \<le> length s \<and> lz4_valid (take 0 s) qs \<and> lz4_expand (take 0 s) qs = take a s
     \<and> length (wdata ?b) + length (concat (map sequence_bytes qs)) \<le> 2 * a \<and> (a = 0 \<or> a + 5 \<le> length s)"
    by (rule compress_loop_ok) (use assms(2) in simp_all)
  then obtain qs a where qs: "compress_loop s (\<lambda>_. None) 0 0 ?b v = Some (0, a, ?b \<lparr> wdata := concat (map sequence_bytes qs) \<rparr>, v)"
    "a \<le> length s" "lz4_valid [] qs" "lz4_expand [] qs = take a s" "length (concat (map sequence_bytes qs)) \<le> 2 * a"
    "a = 0 \<or> a + 5 \<le> length s" by auto
  let ?l = "drop a s"
  have l: "?l \<noteq> []" using qs(6) assms(1) by auto
  have "length (sequence_bytes (?l, 0, 0)) < 2 * length ?l \<or> length ?l \<le> 1" by (rule sequence_length(1))
  moreover have "length (sequence_bytes (?l, 0, 0)) = 2" if "length ?l = 1"
    using that by (simp add: sequence_bytes_def literal_bytes_def match_bytes_def)
  moreover have "length ?l \<noteq> 0" using l by simp
  ultimately have "length (sequence_bytes (?l, 0, 0)) < 2 * length ?l \<or> length s = 1 \<and> length (sequence_bytes (?l, 0, 0)) = 2"
    using qs(2,6) by (cases "length ?l = 1") (auto simp: le_Suc_eq)
  then have len: "length (block_bytes qs ?l) < LZ4_BLOCK_BUFFER_SIZE" "length (block_bytes qs ?l) \<le> 2 * length s"
  proof -
    have "length (block_bytes qs ?l) = length (concat (map sequence_bytes qs)) + length (sequence_bytes (?l, 0, 0))"
      by (simp add: block_bytes_def)
    moreover have "length ?l = length s - a" by simp
    moreover note \<open>length (sequence_bytes (?l, 0, 0)) < 2 * length ?l \<or> length s = 1 \<and> length (sequence_bytes (?l, 0, 0)) = 2\<close>
    ultimately show "length (block_bytes qs ?l) < LZ4_BLOCK_BUFFER_SIZE" "length (block_bytes qs ?l) \<le> 2 * length s"
      using qs(2,5,6) assms(2) by linarith+
  qed
  have "lz4_write_sequence (?b \<lparr> wdata := concat (map sequence_bytes qs) \<rparr>) ?l 0 0 v = Some (0, ?b \<lparr> wdata := block_bytes qs ?l \<rparr>, v)"
    using write_sequence_room [of "?b \<lparr> wdata := concat (map sequence_bytes qs) \<rparr>" ?l 0 0 v] len by (simp add: block_bytes_def)
  then have "lz4_compress_block ?b s v = Some (0, ?b \<lparr> wdata := block_bytes qs ?l \<rparr>, v)"
    using qs(1) assms(1) by (simp add: lz4_compress_block_def)
  moreover have "block_bytes qs ?l \<noteq> []" by (simp add: block_bytes_def sequence_bytes_def literal_bytes_def)
  ultimately show ?thesis using qs(3,4) len l by (intro exI [of _ qs] exI [of _ ?l]) simp
qed

section \<open>Reading an archive and writing its contents\<close>

text \<open>The files a decoder works on: the archive \<open>arc\<close> can be read, and what is appended to the output
  comes behind what is there. \<open>good src dst arc v out\<close> says that in \<open>v\<close> the archive is intact and the
  output file holds \<open>out\<close>.\<close>

locale archive_files =
  fixes good :: "bytes \<Rightarrow> bytes \<Rightarrow> bytes \<Rightarrow> vfs \<Rightarrow> bytes \<Rightarrow> bool"
  assumes read_archive: "good src dst arc v out \<Longrightarrow> 0 < n \<Longrightarrow> off + n \<le> length arc \<Longrightarrow> n \<le> LZ4_READ_AHEAD_SIZE \<Longrightarrow>
      fs_read_raw_at (Some src) False (of_nat off) (of_nat n) v = Some ((int n, take n (drop off arc)), v)"
    and append_output: "good src dst arc v out \<Longrightarrow> xs \<noteq> [] \<Longrightarrow> length xs \<le> LZ4_OUTPUT_SIZE \<Longrightarrow> length out + length xs \<le> 2 ^ 27 \<Longrightarrow>
      \<exists>r v'. fs_append_data (Some dst) (Some xs) (of_nat (length xs)) v = Some (r, v') \<and> (r = 0 \<longrightarrow> good src dst arc v' (out @ xs))
        \<and> (length out + length xs \<le> 4096 \<longrightarrow> r = 0)"
begin

definition buffer_ok :: "bytes \<Rightarrow> bytes \<Rightarrow> lz4_read_buffer \<Rightarrow> bool" where
  "buffer_ok src arc b \<longleftrightarrow> rpath b = src \<and> rfile_size b = length arc
     \<and> (\<forall>k<length (rdata b). rstart b + k < length arc \<and> rdata b ! k = arc ! (rstart b + k))"

lemma refill_ok:
  assumes "good src dst arc v out" and "buffer_ok src arc b" and "off < length arc"
  shows "\<exists>b'. lz4_refill off b v = Some (True, b', v) \<and> buffer_ok src arc b' \<and> rstart b' \<le> off \<and> off - rstart b' < length (rdata b')"
proof (cases "off < rstart b \<or> off - rstart b \<ge> length (rdata b)")
  case False
  then show ?thesis using assms(2) by (auto simp: lz4_refill_def)
next
  case True
  define n where "n = min (length arc - off) LZ4_READ_AHEAD_SIZE"
  have n: "0 < n" "off + n \<le> length arc" "n \<le> LZ4_READ_AHEAD_SIZE" using assms(3) by (auto simp: n_def)
  from read_archive [OF assms(1) n(1,2)] n(3) have
    r: "fs_read_raw_at (Some src) False (of_nat off) (of_nat n) v = Some ((int n, take n (drop off arc)), v)" by blast
  have c: "rpath b = src" "rfile_size b = length arc" using assms(2) by (simp_all add: buffer_ok_def)
  have "lz4_refill off b v = Some (True, b \<lparr> rstart := off, rdata := take n (drop off arc) \<rparr>, v)"
    using True r n(1) by (simp add: lz4_refill_def c n_def [symmetric])
  moreover have "buffer_ok src arc (b \<lparr> rstart := off, rdata := take n (drop off arc) \<rparr>)" using c n by (auto simp: buffer_ok_def)
  ultimately show ?thesis using n by auto
qed

lemma read_loop_ok:
  assumes "good src dst arc v out" and "buffer_ok src arc b" and "off + n \<le> length arc"
  shows "\<exists>b'. lz4_read_loop xs b off n v = Some (Some (xs @ take n (drop off arc)), b', v) \<and> buffer_ok src arc b'"
  using assms(2,3)
proof (induction n arbitrary: xs b off rule: less_induct)
  case (less n)
  show ?case
  proof (cases "n = 0")
    case True
    then show ?thesis using less.prems(1) by (subst lz4_read_loop.simps) simp
  next
    case False
    then have "off < length arc" using less.prems(2) by simp
    from refill_ok [OF assms(1) less.prems(1) this] obtain b' where b': "lz4_refill off b v = Some (True, b', v)" "buffer_ok src arc b'"
      "rstart b' \<le> off" "off - rstart b' < length (rdata b')" by blast
    define o1 where "o1 = off - rstart b'"
    define k where "k = min n (length (rdata b') - o1)"
    have k: "0 < k" "k \<le> n" "o1 + k \<le> length (rdata b')" using False b'(4) by (auto simp: k_def o1_def)
    have part: "take k (drop o1 (rdata b')) = take k (drop off arc)"
    proof (rule nth_equalityI)
      show "length (take k (drop o1 (rdata b'))) = length (take k (drop off arc))" using k less.prems(2) by simp
      fix i assume "i < length (take k (drop o1 (rdata b')))"
      then have i: "i < k" "o1 + i < length (rdata b')" using k by auto
      then have "rdata b' ! (o1 + i) = arc ! (rstart b' + (o1 + i))" using b'(2) by (simp add: buffer_ok_def)
      moreover have "rstart b' + (o1 + i) = off + i" using b'(3) by (simp add: o1_def)
      ultimately show "take k (drop o1 (rdata b')) ! i = take k (drop off arc) ! i" using i k less.prems(2) by simp
    qed
    have "\<not> rfile_size b \<le> off" using \<open>off < length arc\<close> less.prems(1) by (simp add: buffer_ok_def)
    then have e: "lz4_read_loop xs b off n v = lz4_read_loop (xs @ take k (drop off arc)) b' (off + k) (n - k) v"
      using False b'(1) part by (subst lz4_read_loop.simps) (simp add: Let_def o1_def [symmetric] k_def [symmetric])
    from less.IH [of "n - k" b' "off + k" "xs @ take k (drop off arc)"] k b'(2) less.prems(2) obtain b2 where
      b2: "lz4_read_loop (xs @ take k (drop off arc)) b' (off + k) (n - k) v
        = Some (Some ((xs @ take k (drop off arc)) @ take (n - k) (drop (off + k) arc)), b2, v)" "buffer_ok src arc b2" by auto
    have "take k (drop off arc) @ take (n - k) (drop (off + k) arc) = take n (drop off arc)"
      using k(2) by (metis add.commute drop_drop le_add_diff_inverse take_add)
    then show ?thesis using e b2 by simp
  qed
qed

end

section \<open>The output\<close>

text \<open>The history ring holds the last 4096 bytes of the output.\<close>

definition ring_ok :: "bytes \<Rightarrow> bytes \<Rightarrow> bool" where
  "ring_ok h e \<longleftrightarrow> length h = LZ4_WINDOW_SIZE \<and> (\<forall>k<length e. length e \<le> k + LZ4_WINDOW_SIZE \<longrightarrow> h ! (k mod LZ4_WINDOW_SIZE) = e ! k)"

lemma ring_push:
  assumes "ring_ok h e"
  shows "ring_ok (h[length e mod LZ4_WINDOW_SIZE := x]) (e @ [x])"
proof -
  have "h[length e mod 4096 := x] ! (k mod 4096) = (e @ [x]) ! k" if k: "k < Suc (length e)" "Suc (length e) \<le> k + 4096" for k
  proof (cases "k = length e")
    case True
    then show ?thesis using assms by (simp add: ring_ok_def)
  next
    case False
    have "k mod 4096 \<noteq> length e mod 4096"
    proof
      assume "k mod 4096 = length e mod 4096"
      moreover have "k < length e" using k(1) False by simp
      ultimately have "(length e - k) mod 4096 = 0" by (simp add: mod_eq_dvd_iff_nat [symmetric])
      then show False using k False \<open>k < length e\<close> by auto
    qed
    then show ?thesis using assms k False by (simp add: ring_ok_def nth_append)
  qed
  then show ?thesis using assms by (simp add: ring_ok_def)
qed

context archive_files
begin

definition dec_ok :: "bytes \<Rightarrow> bytes \<Rightarrow> bytes \<Rightarrow> bytes \<Rightarrow> lz4_decoder \<Rightarrow> bool" where
  "dec_ok src dst arc e d \<longleftrightarrow> buffer_ok src arc (dinput d) \<and> opath (doutput d) = dst \<and> produced (doutput d) = length e
     \<and> ring_ok (history (doutput d)) e \<and> length (odata (doutput d)) < LZ4_OUTPUT_SIZE
     \<and> (\<exists>out. good src dst arc (dfiles d) out \<and> e = out @ odata (doutput d))"

lemma dec_read_ok:
  assumes "dec_ok src dst arc e d" and "src_idx d + n \<le> length arc"
  shows "\<exists>d'. dec_read n d = Some (Some (take n (drop (src_idx d) arc)), d') \<and> dec_ok src dst arc e d' \<and> src_idx d' = src_idx d + n
     \<and> doutput d' = doutput d"
proof -
  obtain out where g: "good src dst arc (dfiles d) out" "e = out @ odata (doutput d)" and b: "buffer_ok src arc (dinput d)"
    using assms(1) by (auto simp: dec_ok_def)
  from read_loop_ok [OF g(1) b assms(2), of "[]"] obtain b' where
    b': "lz4_read_at (dinput d) (src_idx d) n (dfiles d) = Some (Some (take n (drop (src_idx d) arc)), b', dfiles d)" "buffer_ok src arc b'"
    by (auto simp: lz4_read_at_def)
  then show ?thesis using assms(1) by (auto simp: dec_read_def dec_ok_def)
qed

lemma dec_byte_ok:
  assumes "dec_ok src dst arc e d" and "length e < 2 ^ 27"
  shows "\<exists>ok d'. dec_byte x d = Some (ok, d') \<and> (ok \<longrightarrow> dec_ok src dst arc (e @ [x]) d') \<and> src_idx d' = src_idx d
     \<and> (length e + 1 < LZ4_OUTPUT_SIZE \<longrightarrow> ok)"
proof -
  obtain out where g: "good src dst arc (dfiles d) out" "e = out @ odata (doutput d)" using assms(1) by (auto simp: dec_ok_def)
  let ?b = "(doutput d) \<lparr> history := (history (doutput d))[length e mod LZ4_WINDOW_SIZE := x], odata := odata (doutput d) @ [x],
    produced := length e + 1 \<rparr>"
  have h: "ring_ok (history ?b) (e @ [x])" using ring_push assms(1) by (simp add: dec_ok_def)
  have l: "length (odata (doutput d)) < LZ4_OUTPUT_SIZE" "produced (doutput d) = length e" "opath (doutput d) = dst"
    using assms(1) by (simp_all add: dec_ok_def)
  show ?thesis
  proof (cases "length (odata ?b) = LZ4_OUTPUT_SIZE")
    case False
    then have "dec_byte x d = Some (True, d \<lparr> doutput := ?b \<rparr>)" using l by (simp add: dec_byte_def lz4_output_byte_def Let_def)
    moreover have "dec_ok src dst arc (e @ [x]) (d \<lparr> doutput := ?b \<rparr>)" using assms(1) h g False l by (auto simp: dec_ok_def)
    ultimately show ?thesis by auto
  next
    case True
    have "length out + length (odata ?b) \<le> 2 ^ 27" using assms(2) g(2) by simp
    from append_output [OF g(1) _ _ this] True obtain r v' where
      r: "fs_append_data (Some dst) (Some (odata ?b)) (of_nat (length (odata ?b))) (dfiles d) = Some (r, v')"
        "r = 0 \<longrightarrow> good src dst arc v' (out @ odata ?b)" by (metis le_refl length_0_conv zero_neq_numeral)
    have "dec_byte x d = Some (r = 0, d \<lparr> doutput := (if r = 0 then ?b \<lparr> odata := [] \<rparr> else ?b), dfiles := v' \<rparr>)"
      using True l r(1) by (simp add: dec_byte_def lz4_output_byte_def Let_def)
    moreover have "dec_ok src dst arc (e @ [x]) (d \<lparr> doutput := ?b \<lparr> odata := [] \<rparr>, dfiles := v' \<rparr>)" if "r = 0"
      using assms(1) h g r(2) that by (auto simp: dec_ok_def)
    moreover have "\<not> length e + 1 < LZ4_OUTPUT_SIZE" using True g(2) by simp
    ultimately show ?thesis by auto
  qed
qed

lemma dec_bytes_ok:
  assumes "dec_ok src dst arc e d" and "length e + length xs \<le> 2 ^ 27"
  shows "\<exists>ok d'. dec_bytes xs d = Some (ok, d') \<and> (ok \<longrightarrow> dec_ok src dst arc (e @ xs) d' \<and> src_idx d' = src_idx d)
     \<and> (length e + length xs < LZ4_OUTPUT_SIZE \<longrightarrow> ok)"
  using assms
proof (induction xs arbitrary: e d)
  case (Cons x xs)
  from dec_byte_ok [OF Cons.prems(1), of x] Cons.prems(2) obtain ok d' where
    d': "dec_byte x d = Some (ok, d')" "ok \<longrightarrow> dec_ok src dst arc (e @ [x]) d'" "src_idx d' = src_idx d"
      "length e + 1 < LZ4_OUTPUT_SIZE \<longrightarrow> ok" by auto
  show ?case
  proof (cases ok)
    case True
    with d'(2) have "dec_ok src dst arc (e @ [x]) d'" by simp
    from Cons.IH [OF this] Cons.prems(2) d' True show ?thesis by auto
  next
    case False
    then show ?thesis using d' by auto
  qed
qed auto

lemma copy_match_ok:
  assumes "dec_ok src dst arc e d" and "length e + n \<le> 2 ^ 27" and "1 \<le> off" and "off \<le> LZ4_WINDOW_SIZE" and "off \<le> length e"
  shows "\<exists>ok d'. copy_match off n d = Some (ok, d') \<and> (ok \<longrightarrow> dec_ok src dst arc (lz4_copy off n e) d' \<and> src_idx d' = src_idx d)
     \<and> (length e + n < LZ4_OUTPUT_SIZE \<longrightarrow> ok)"
  using assms
proof (induction n arbitrary: e d)
  case (Suc n)
  have "history (doutput d) ! ((length e - off) mod LZ4_WINDOW_SIZE) = e ! (length e - off)"
    using Suc.prems(1,3-5) by (simp add: dec_ok_def ring_ok_def)
  then have h: "history (doutput d) ! ((produced (doutput d) - off) mod LZ4_WINDOW_SIZE) = e ! (length e - off)"
    using Suc.prems(1) by (simp add: dec_ok_def)
  let ?x = "e ! (length e - off)"
  from dec_byte_ok [OF Suc.prems(1), of ?x] Suc.prems(2) obtain ok d' where
    d': "dec_byte ?x d = Some (ok, d')" "ok \<longrightarrow> dec_ok src dst arc (e @ [?x]) d'" "src_idx d' = src_idx d"
      "length e + 1 < LZ4_OUTPUT_SIZE \<longrightarrow> ok" by auto
  show ?case
  proof (cases ok)
    case True
    with d'(2) have "dec_ok src dst arc (e @ [?x]) d'" by simp
    from Suc.IH [OF this] Suc.prems d' True h show ?thesis by (auto simp: Let_def)
  next
    case False
    then show ?thesis using d' h by (auto simp: Let_def)
  qed
qed auto

end

section \<open>Sequences in an archive\<close>

definition holds_at :: "bytes \<Rightarrow> nat \<Rightarrow> bytes \<Rightarrow> bool" where
  "holds_at arc i ws \<longleftrightarrow> i + length ws \<le> length arc \<and> take (length ws) (drop i arc) = ws"

lemma holds_at_append: "holds_at arc i (xs @ ys) \<longleftrightarrow> holds_at arc i xs \<and> holds_at arc (i + length xs) ys"
proof
  assume "holds_at arc i (xs @ ys)"
  then have l: "i + length (xs @ ys) \<le> length arc" and t: "take (length xs) (drop i arc) @ take (length ys) (drop (length xs) (drop i arc)) = xs @ ys"
    by (simp_all add: holds_at_def take_add)
  moreover have "length (take (length xs) (drop i arc)) = length xs" using l by simp
  ultimately show "holds_at arc i xs \<and> holds_at arc (i + length xs) ys" by (simp add: holds_at_def add.commute)
next
  assume "holds_at arc i xs \<and> holds_at arc (i + length xs) ys"
  then show "holds_at arc i (xs @ ys)" by (simp add: holds_at_def take_add add.commute)
qed

lemma holds_at_Cons: "holds_at arc i (x # ys) \<longleftrightarrow> holds_at arc i [x] \<and> holds_at arc (Suc i) ys"
  using holds_at_append [of arc i "[x]" ys] by simp

lemma token_fields:
  "unat (drop_bit 4 (token_byte l m)) = min l 15"
  "unat (token_byte l m AND 0x0F) = min (if m > 0 then m - 4 else 0) 15"
proof -
  define e where "e = (if m > 0 then m - 4 else 0)"
  have u: "unat (token_byte l m) = 16 * min l 15 + min e 15"
  proof -
    have "token_byte l m = of_nat (16 * min l 15 + min e 15)" unfolding token_byte_def e_def [symmetric] by simp
    moreover have "16 * min l 15 + min e 15 < 256" by linarith
    ultimately show ?thesis by (simp only: unat_of_nat len_of_numeral_defs) simp
  qed
  have "unat (drop_bit 4 (token_byte l m)) = unat (token_byte l m) div 16" by (simp only: unat_drop_bit_eq) (simp add: drop_bit_eq_div)
  then show "unat (drop_bit 4 (token_byte l m)) = min l 15" unfolding u by simp
  have "token_byte l m AND 0x0F = take_bit 4 (token_byte l m)" by (simp add: take_bit_eq_mask mask_eq_exp_minus_1)
  then have "unat (token_byte l m AND 0x0F) = unat (token_byte l m) mod 16" by (simp only: unsigned_take_bit_eq) (simp add: take_bit_eq_mod)
  then show "unat (token_byte l m AND 0x0F) = min (if m > 0 then m - 4 else 0) 15" unfolding u e_def [symmetric] by simp
qed

context archive_files
begin

lemma read_length_ok:
  assumes "dec_ok src dst arc e d" and "holds_at arc (src_idx d) (length_bytes n)" and "src_idx d + length (length_bytes n) \<le> limit"
    and "k + n < 2 ^ 64"
  shows "\<exists>d'. lz4_read_length limit k d = Some (Some (k + n), d') \<and> dec_ok src dst arc e d'
     \<and> src_idx d' = src_idx d + length (length_bytes n) \<and> doutput d' = doutput d"
  using assms
proof (induction n arbitrary: k d rule: less_induct)
  case (less n)
  obtain x ys where xy: "length_bytes n = x # ys" by (cases "length_bytes n") (auto simp: length_bytes_def)
  have x: "holds_at arc (src_idx d) [x]" "holds_at arc (Suc (src_idx d)) ys" using less.prems(2) holds_at_Cons xy by metis+
  from dec_read_ok [OF less.prems(1), of 1] x(1) obtain d1 where
    d1: "dec_read 1 d = Some (Some [x], d1)" "dec_ok src dst arc e d1" "src_idx d1 = Suc (src_idx d)" "doutput d1 = doutput d"
    by (auto simp: holds_at_def)
  have lim: "\<not> limit \<le> src_idx d" using less.prems(3) xy by simp
  show ?case
  proof (cases "n \<ge> 255")
    case True
    then have e: "x = 255" "ys = length_bytes (n - 255)" using length_bytes_rec [of n] xy by simp_all
    have nov: "\<not> 18446744073709551615 - k < 255" using less.prems(4) True by simp
    from less.IH [of "n - 255" d1 "k + 255"] d1 x(2) e less.prems True xy obtain d' where
      d': "lz4_read_length limit (k + 255) d1 = Some (Some (k + n), d')" "dec_ok src dst arc e d'"
        "src_idx d' = src_idx d1 + length ys" "doutput d' = doutput d1" by auto
    have "lz4_read_length limit k d = lz4_read_length limit (k + 255) d1"
      using lim d1(1) e(1) nov by (subst lz4_read_length.simps) (simp add: Let_def)
    then show ?thesis using d' d1 xy by simp
  next
    case False
    then have e: "x = of_nat n" "ys = []" using length_bytes_rec [of n] xy by simp_all
    have u: "unat x = n" using False e(1) by (simp add: unat_of_nat)
    have "lz4_read_length limit k d = Some (Some (k + n), d1)"
      using lim d1(1) u less.prems(4) False by (subst lz4_read_length.simps) (simp add: Let_def)
    then show ?thesis using d1 xy e by simp
  qed
qed

lemma copy_literals_ok:
  assumes "dec_ok src dst arc e d" and "holds_at arc (src_idx d) l" and "length e + length l \<le> 2 ^ 27"
  shows "\<exists>ok d'. copy_literals (length l) d = Some (ok, d') \<and> (ok \<longrightarrow> dec_ok src dst arc (e @ l) d' \<and> src_idx d' = src_idx d + length l)
     \<and> (length e + length l < LZ4_OUTPUT_SIZE \<longrightarrow> ok)"
  using assms
proof (induction "length l" arbitrary: l e d rule: less_induct)
  case less
  show ?case
  proof (cases "l = []")
    case True
    then show ?thesis using less.prems(1) by (subst copy_literals.simps) auto
  next
    case False
    define k where "k = min (length l) 512"
    let ?x = "take k l" and ?y = "drop k l"
    have k: "0 < k" "k \<le> length l" "length ?x = k" using False by (auto simp: k_def)
    have h: "holds_at arc (src_idx d) ?x" "holds_at arc (src_idx d + k) ?y"
      using less.prems(2) holds_at_append [of arc "src_idx d" ?x ?y] k by simp_all
    from dec_read_ok [OF less.prems(1), of k] h(1) k(3) obtain d1 where
      d1: "dec_read k d = Some (Some ?x, d1)" "dec_ok src dst arc e d1" "src_idx d1 = src_idx d + k" by (auto simp: holds_at_def)
    from dec_bytes_ok [OF d1(2), of ?x] less.prems(3) k obtain ok d2 where
      d2: "dec_bytes ?x d1 = Some (ok, d2)" "ok \<longrightarrow> dec_ok src dst arc (e @ ?x) d2 \<and> src_idx d2 = src_idx d1"
        "length e + k < LZ4_OUTPUT_SIZE \<longrightarrow> ok" by auto
    have step: "copy_literals (length l) d = (if ok then copy_literals (length ?y) d2 else Some (False, d2))"
      using False d1(1) d2(1) by (subst copy_literals.simps) (simp add: k_def [symmetric] Let_def)
    show ?thesis
    proof (cases ok)
      case True
      with d2(2) have "dec_ok src dst arc (e @ ?x) d2" "holds_at arc (src_idx d2) ?y" using h(2) d1(3) by simp_all
      moreover have "length ?y < length l" "length (e @ ?x) + length ?y \<le> 2 ^ 27" using k less.prems(3) by simp_all
      ultimately obtain ok2 d3 where
        d3: "copy_literals (length ?y) d2 = Some (ok2, d3)" "ok2 \<longrightarrow> dec_ok src dst arc ((e @ ?x) @ ?y) d3 \<and> src_idx d3 = src_idx d2 + length ?y"
          "length (e @ ?x) + length ?y < LZ4_OUTPUT_SIZE \<longrightarrow> ok2" using less.hyps by blast
      then show ?thesis using step True d2(2) d1(3) k by auto
    next
      case f: False
      then show ?thesis using step d2(3) k by auto
    qed
  qed
qed

end

lemma copy_prefix: "1 \<le> off \<Longrightarrow> off \<le> length xs \<Longrightarrow> lz4_copy off m (pre @ xs) = pre @ lz4_copy off m xs"
proof (induction m arbitrary: xs)
  case (Suc m)
  have "(pre @ xs) ! (length (pre @ xs) - off) = xs ! (length xs - off)"
  proof -
    have "length (pre @ xs) - off = length pre + (length xs - off)" using Suc.prems(2) by simp
    then show ?thesis by (simp only: nth_append_length_plus)
  qed
  then show ?case using Suc.IH [of "xs @ [xs ! (length xs - off)]"] Suc.prems by simp
qed simp

context archive_files
begin

lemma dec_literals_ok:
  assumes d: "dec_ok src dst arc e d" and h: "holds_at arc (src_idx d) (literal_bytes l m)"
    and be: "src_idx d + length (literal_bytes l m) \<le> block_end" and bt: "length e + length l \<le> block_target" "block_target \<le> 2 ^ 27"
  shows "\<exists>ok d'. dec_literals block_target block_end d = Some (if ok then Some (token_byte (length l) m) else None, d')
     \<and> (ok \<longrightarrow> dec_ok src dst arc (e @ l) d' \<and> src_idx d' = src_idx d + length (literal_bytes l m))
     \<and> (length e + length l < LZ4_OUTPUT_SIZE \<longrightarrow> ok)"
proof -
  let ?t = "token_byte (length l) m"
  define ns where "ns = (if length l \<ge> 15 then length_bytes (length l - 15) else [])"
  have lb: "literal_bytes l m = [?t] @ ns @ l" by (simp add: literal_bytes_def ns_def)
  have hs: "holds_at arc (src_idx d) [?t]" "holds_at arc (Suc (src_idx d)) ns" "holds_at arc (Suc (src_idx d) + length ns) l"
    using h unfolding lb holds_at_append by simp_all
  from dec_read_ok [OF d, of 1] hs(1) obtain d1 where
    d1: "dec_read 1 d = Some (Some [?t], d1)" "dec_ok src dst arc e d1" "src_idx d1 = Suc (src_idx d)"
    by (auto simp: holds_at_def)
  have "\<exists>d2. (if min (length l) 15 = 15 then lz4_read_length block_end (min (length l) 15) d1 else Some (Some (min (length l) 15), d1))
      = Some (Some (length l), d2) \<and> dec_ok src dst arc e d2 \<and> src_idx d2 = Suc (src_idx d) + length ns"
  proof (cases "length l \<ge> 15")
    case True
    then have ns: "ns = length_bytes (length l - 15)" "min (length l) 15 = 15" by (simp_all add: ns_def)
    have "\<exists>d'. lz4_read_length block_end 15 d1 = Some (Some (15 + (length l - 15)), d') \<and> dec_ok src dst arc e d'
       \<and> src_idx d' = src_idx d1 + length (length_bytes (length l - 15)) \<and> doutput d' = doutput d1"
      by (rule read_length_ok [OF d1(2)]) (use hs(2) d1(3) ns be lb bt in simp_all)
    then show ?thesis using True ns d1(3) by auto
  next
    case False
    then show ?thesis using d1 by (simp add: ns_def)
  qed
  then obtain d2 where d2: "(if min (length l) 15 = 15 then lz4_read_length block_end (min (length l) 15) d1 else Some (Some (min (length l) 15), d1))
      = Some (Some (length l), d2)" "dec_ok src dst arc e d2" "src_idx d2 = Suc (src_idx d) + length ns" by blast
  have c: "\<not> (length l > block_target - produced (doutput d2) \<or> length l > block_end - src_idx d2)"
  proof -
    have "produced (doutput d2) = length e" using d2(2) by (simp add: dec_ok_def)
    then show ?thesis using d2(3) be bt lb by (simp add: not_less le_diff_conv2)
  qed
  have "holds_at arc (src_idx d2) l" "length e + length l \<le> 2 ^ 27" using hs(3) d2(3) bt by simp_all
  from copy_literals_ok [OF d2(2) this] obtain ok d3 where
    d3: "copy_literals (length l) d2 = Some (ok, d3)" "ok \<longrightarrow> dec_ok src dst arc (e @ l) d3 \<and> src_idx d3 = src_idx d2 + length l"
      "length e + length l < LZ4_OUTPUT_SIZE \<longrightarrow> ok" by blast
  have "dec_literals block_target block_end d = Some (if ok then Some ?t else None, d3)"
    unfolding dec_literals_def by (simp only: d1(1) d2(1) d3(1) c Let_def token_fields bind.bind_lunit prod.case option.case list.sel if_False)
  then show ?thesis using d2(3) d3 lb by auto
qed

lemma dec_match_ok:
  assumes d: "dec_ok src dst arc e d" and h: "holds_at arc (src_idx d) (match_bytes m off)" and m: "4 \<le> m"
    and off: "1 \<le> off" "off \<le> 4096" "off \<le> length e - block_start"
    and be: "src_idx d + length (match_bytes m off) \<le> block_end" and bt: "length e + m \<le> block_target" "block_target \<le> 2 ^ 27"
  shows "\<exists>ok d'. dec_match (token_byte k m) block_start block_target block_end d = Some (ok, d')
     \<and> (ok \<longrightarrow> dec_ok src dst arc (lz4_copy off m e) d' \<and> src_idx d' = src_idx d + length (match_bytes m off))
     \<and> (length e + m < LZ4_OUTPUT_SIZE \<longrightarrow> ok)"
proof -
  define ns where "ns = (if m - 4 \<ge> 15 then length_bytes (m - 19) else [])"
  have mb: "match_bytes m off = le16 (of_nat off) @ ns" using m by (simp add: match_bytes_def ns_def)
  have l2: "length (le16 (of_nat off)) = 2" by (simp add: le16_def)
  have hs: "holds_at arc (src_idx d) (le16 (of_nat off))" "holds_at arc (src_idx d + 2) ns"
    using h l2 unfolding mb holds_at_append by simp_all
  from dec_read_ok [OF d, of 2] hs(1) l2 obtain d1 where
    d1: "dec_read 2 d = Some (Some (le16 (of_nat off)), d1)" "dec_ok src dst arc e d1" "src_idx d1 = src_idx d + 2"
    by (auto simp: holds_at_def)
  have o: "unat (rd16 (le16 (of_nat off)) 0) = off" using off(2) l2 by (simp add: rd16_def of_le_le16 unat_of_nat)
  have "\<exists>d2. (if min (m - 4) 15 = 15 then lz4_read_length block_end (min (m - 4) 15 + 4) d1 else Some (Some (min (m - 4) 15 + 4), d1))
      = Some (Some m, d2) \<and> dec_ok src dst arc e d2 \<and> src_idx d2 = src_idx d + 2 + length ns"
  proof (cases "m - 4 \<ge> 15")
    case True
    then have ns: "ns = length_bytes (m - 19)" "min (m - 4) 15 = 15" by (simp_all add: ns_def)
    have "\<exists>d'. lz4_read_length block_end 19 d1 = Some (Some (19 + (m - 19)), d') \<and> dec_ok src dst arc e d'
       \<and> src_idx d' = src_idx d1 + length (length_bytes (m - 19)) \<and> doutput d' = doutput d1"
      by (rule read_length_ok [OF d1(2)]) (use hs(2) d1(3) ns be mb l2 bt in simp_all)
    then show ?thesis using True ns d1(3) by auto
  next
    case False
    then show ?thesis using d1 m by (simp add: ns_def)
  qed
  then obtain d2 where d2: "(if min (m - 4) 15 = 15 then lz4_read_length block_end (min (m - 4) 15 + 4) d1 else Some (Some (min (m - 4) 15 + 4), d1))
      = Some (Some m, d2)" "dec_ok src dst arc e d2" "src_idx d2 = src_idx d + 2 + length ns" by blast
  have p: "produced (doutput d1) = length e" "produced (doutput d2) = length e" using d1(2) d2(2) by (simp_all add: dec_ok_def)
  have "length e + m \<le> 2 ^ 27" "off \<le> LZ4_WINDOW_SIZE" "off \<le> length e" using bt off by simp_all
  with copy_match_ok [OF d2(2) _ off(1)] obtain ok d3 where
    d3: "copy_match off m d2 = Some (ok, d3)" "ok \<longrightarrow> dec_ok src dst arc (lz4_copy off m e) d3 \<and> src_idx d3 = src_idx d2"
      "length e + m < LZ4_OUTPUT_SIZE \<longrightarrow> ok" by blast
  have c: "\<not> block_target - length e < m" "\<not> block_end - src_idx d < 2" using be bt mb l2 by (simp_all add: not_less le_diff_conv2)
  have "dec_match (token_byte k m) block_start block_target block_end d = Some (ok, d3)"
    unfolding dec_match_def using d1(1) d2(1) d3(1) p o off m c by (simp add: Let_def token_fields)
  then show ?thesis using d2(3) d3 mb l2 by auto
qed

end

lemma expand_length: "length xs \<le> length (lz4_expand xs qs)"
proof (induction xs qs rule: lz4_expand.induct)
  case (2 xs l m off qs)
  then show ?case by simp
qed simp

context archive_files
begin

text \<open>A sequence with a match, and the last one, which has only literals.\<close>

lemma dec_sequence_ok:
  assumes d: "dec_ok src dst arc (pre @ xs) d" and h: "holds_at arc (src_idx d) (literal_bytes k m @ match_bytes m off)"
    and be: "src_idx d + length (literal_bytes k m @ match_bytes m off) < block_end"
    and bt: "length pre + length (lz4_copy off m (xs @ k)) \<le> block_target" "block_target \<le> 2 ^ 27"
    and v: "4 \<le> m" "1 \<le> off" "off \<le> 4096" "off \<le> length (xs @ k)"
  shows "\<exists>ok d'. dec_block (length pre) block_target block_end d
        = (if ok then dec_block (length pre) block_target block_end d' else Some (False, d'))
     \<and> (ok \<longrightarrow> dec_ok src dst arc (pre @ lz4_copy off m (xs @ k)) d'
         \<and> src_idx d' = src_idx d + length (literal_bytes k m @ match_bytes m off))
     \<and> (block_target < LZ4_OUTPUT_SIZE \<longrightarrow> ok)"
proof -
  have h': "holds_at arc (src_idx d) (literal_bytes k m)" "holds_at arc (src_idx d + length (literal_bytes k m)) (match_bytes m off)"
    using h unfolding holds_at_append by simp_all
  have p: "produced (doutput d) = length (pre @ xs)" using d by (simp add: dec_ok_def)
  have lt: "src_idx d < block_end" "produced (doutput d) < block_target"
    using be bt v(1) p by auto
  have "\<exists>ok d'. dec_literals block_target block_end d = Some (if ok then Some (token_byte (length k) m) else None, d')
     \<and> (ok \<longrightarrow> dec_ok src dst arc ((pre @ xs) @ k) d' \<and> src_idx d' = src_idx d + length (literal_bytes k m))
     \<and> (length (pre @ xs) + length k < LZ4_OUTPUT_SIZE \<longrightarrow> ok)"
    by (rule dec_literals_ok) (use d h'(1) be bt in simp_all)
  then obtain ok d1 where d1: "dec_literals block_target block_end d = Some (if ok then Some (token_byte (length k) m) else None, d1)"
    "ok \<longrightarrow> dec_ok src dst arc (pre @ xs @ k) d1 \<and> src_idx d1 = src_idx d + length (literal_bytes k m)"
    "length (pre @ xs) + length k < LZ4_OUTPUT_SIZE \<longrightarrow> ok" unfolding append_assoc by blast
  show ?thesis
  proof (cases ok)
    case True
    then have o: "dec_ok src dst arc (pre @ xs @ k) d1" "src_idx d1 = src_idx d + length (literal_bytes k m)" using d1(2) by simp_all
    then have p1: "produced (doutput d1) \<noteq> block_target" using bt v(1) by (simp add: dec_ok_def)
    have "\<exists>ok d'. dec_match (token_byte (length k) m) (length pre) block_target block_end d1 = Some (ok, d')
       \<and> (ok \<longrightarrow> dec_ok src dst arc (lz4_copy off m (pre @ xs @ k)) d' \<and> src_idx d' = src_idx d1 + length (match_bytes m off))
       \<and> (length (pre @ xs @ k) + m < LZ4_OUTPUT_SIZE \<longrightarrow> ok)"
      by (rule dec_match_ok [OF o(1)]) (use v h'(2) o(2) be bt in simp_all)
    then obtain ok2 d2 where d2: "dec_match (token_byte (length k) m) (length pre) block_target block_end d1 = Some (ok2, d2)"
      "ok2 \<longrightarrow> dec_ok src dst arc (pre @ lz4_copy off m (xs @ k)) d2 \<and> src_idx d2 = src_idx d1 + length (match_bytes m off)"
      "length (pre @ xs @ k) + m < LZ4_OUTPUT_SIZE \<longrightarrow> ok2"
      unfolding copy_prefix [OF v(2,4)] by blast
    have "dec_block (length pre) block_target block_end d
        = (if ok2 then dec_block (length pre) block_target block_end d2 else Some (False, d2))"
      using lt d1(1) True p1 d2(1) by (subst dec_block.simps) simp
    then show ?thesis using d2(2,3) o(2) bt by (intro exI [of _ ok2] exI [of _ d2]) simp
  next
    case False
    then have "dec_block (length pre) block_target block_end d = Some (False, d1)"
      using lt d1(1) by (subst dec_block.simps) simp
    then show ?thesis using False d1(3) bt v(1) by (intro exI [of _ False] exI [of _ d1]) simp
  qed
qed

lemma dec_last_ok:
  assumes d: "dec_ok src dst arc (pre @ xs) d" and h: "holds_at arc (src_idx d) (literal_bytes l 0)"
    and be: "src_idx d + length (literal_bytes l 0) = block_end"
    and bt: "length pre + length xs + length l = block_target" "block_target \<le> 2 ^ 27" and l: "l \<noteq> []"
  shows "\<exists>ok d'. dec_block (length pre) block_target block_end d = Some (ok, d')
     \<and> (ok \<longrightarrow> dec_ok src dst arc (pre @ xs @ l) d' \<and> src_idx d' = block_end)
     \<and> (block_target < LZ4_OUTPUT_SIZE \<longrightarrow> ok)"
proof -
  have p: "produced (doutput d) = length (pre @ xs)" using d by (simp add: dec_ok_def)
  have lt: "src_idx d < block_end" "produced (doutput d) < block_target"
    using be bt l p by (auto simp: literal_bytes_def)
  have "\<exists>ok d'. dec_literals block_target block_end d = Some (if ok then Some (token_byte (length l) 0) else None, d')
     \<and> (ok \<longrightarrow> dec_ok src dst arc ((pre @ xs) @ l) d' \<and> src_idx d' = src_idx d + length (literal_bytes l 0))
     \<and> (length (pre @ xs) + length l < LZ4_OUTPUT_SIZE \<longrightarrow> ok)"
    by (rule dec_literals_ok) (use d h be bt in simp_all)
  then obtain ok d' where d': "dec_literals block_target block_end d = Some (if ok then Some (token_byte (length l) 0) else None, d')"
    "ok \<longrightarrow> dec_ok src dst arc (pre @ xs @ l) d' \<and> src_idx d' = src_idx d + length (literal_bytes l 0)"
    "length (pre @ xs) + length l < LZ4_OUTPUT_SIZE \<longrightarrow> ok" unfolding append_assoc by blast
  show ?thesis
  proof (cases ok)
    case True
    then have o: "dec_ok src dst arc (pre @ xs @ l) d'" "src_idx d' = block_end" using d'(2) be by simp_all
    then have "produced (doutput d') = block_target" using bt by (simp add: dec_ok_def)
    then have "dec_block (length pre) block_target block_end d = Some (True, d')"
      using lt d'(1) True o(2) by (subst dec_block.simps) simp
    then show ?thesis using o by auto
  next
    case False
    then have "dec_block (length pre) block_target block_end d = Some (False, d')"
      using lt d'(1) by (subst dec_block.simps) simp
    then show ?thesis using False d'(3) bt by auto
  qed
qed

lemma dec_block_ok:
  assumes "dec_ok src dst arc (pre @ xs) d" and "holds_at arc (src_idx d) (block_bytes qs l)"
    and "src_idx d + length (block_bytes qs l) = block_end" and "length pre + length (lz4_expand xs qs @ l) = block_target"
    and "block_target \<le> 2 ^ 27" and "lz4_valid xs qs" and "l \<noteq> []"
  shows "\<exists>ok d'. dec_block (length pre) block_target block_end d = Some (ok, d')
     \<and> (ok \<longrightarrow> dec_ok src dst arc (pre @ lz4_expand xs qs @ l) d' \<and> src_idx d' = block_end)
     \<and> (block_target < LZ4_OUTPUT_SIZE \<longrightarrow> ok)"
  using assms
proof (induction qs arbitrary: xs d)
  case Nil
  show ?case unfolding lz4_expand.simps by (rule dec_last_ok) (use Nil.prems in simp_all)
next
  case (Cons q qs)
  obtain k m off where q: "q = (k, m, off)" by (cases q)
  let ?ys = "lz4_copy off m (xs @ k)" and ?s = "literal_bytes k m @ match_bytes m off"
  have v: "4 \<le> m" "1 \<le> off" "off \<le> 4096" "off \<le> length (xs @ k)" "lz4_valid ?ys qs" using Cons.prems(6) q by simp_all
  have r: "block_bytes (q # qs) l = ?s @ block_bytes qs l" by (simp add: q)
  have h: "holds_at arc (src_idx d) ?s" "holds_at arc (src_idx d + length ?s) (block_bytes qs l)"
    using Cons.prems(2) unfolding r holds_at_append by simp_all
  have be: "src_idx d + length ?s + length (block_bytes qs l) = block_end" using Cons.prems(3) r by simp
  moreover have "block_bytes qs l \<noteq> []" by (simp add: block_bytes_def sequence_bytes_def literal_bytes_def)
  ultimately have be1: "src_idx d + length ?s < block_end" by (cases "block_bytes qs l") simp_all
  have bt: "length pre + length ?ys \<le> block_target"
    using Cons.prems(4) q expand_length [of ?ys qs] by simp
  from dec_sequence_ok [OF Cons.prems(1) h(1) be1 bt Cons.prems(5) v(1-4)] obtain ok d1 where
    d1: "dec_block (length pre) block_target block_end d
        = (if ok then dec_block (length pre) block_target block_end d1 else Some (False, d1))"
      "ok \<longrightarrow> dec_ok src dst arc (pre @ ?ys) d1 \<and> src_idx d1 = src_idx d + length ?s" "block_target < LZ4_OUTPUT_SIZE \<longrightarrow> ok" by blast
  show ?case
  proof (cases ok)
    case True
    then have o: "dec_ok src dst arc (pre @ ?ys) d1" "src_idx d1 = src_idx d + length ?s" using d1(2) by simp_all
    have "\<exists>ok d'. dec_block (length pre) block_target block_end d1 = Some (ok, d')
       \<and> (ok \<longrightarrow> dec_ok src dst arc (pre @ lz4_expand ?ys qs @ l) d' \<and> src_idx d' = block_end)
       \<and> (block_target < LZ4_OUTPUT_SIZE \<longrightarrow> ok)"
      by (rule Cons.IH [OF o(1)]) (use o(2) h(2) be Cons.prems(4,5,7) v(5) q in simp_all)
    then show ?thesis using d1(1) True q by simp
  next
    case False
    then show ?thesis using d1 by auto
  qed
qed

end

section \<open>Frames\<close>

text \<open>A block as the sequences with a match and the last literals: its contents, and its bytes in a
  frame, with the sizes in front.\<close>

type_synonym lz4_part = "lz4_sequence list \<times> bytes"

definition part_data :: "lz4_part \<Rightarrow> bytes" where
  "part_data p = lz4_expand [] (fst p) @ snd p"

definition part_body :: "lz4_part \<Rightarrow> bytes" where
  "part_body p = block_bytes (fst p) (snd p)"

definition part_bytes :: "lz4_part \<Rightarrow> bytes" where
  "part_bytes p = (le32 (of_nat (length (part_data p))) @ le32 (of_nat (length (part_body p)))) @ part_body p"

definition part_ok :: "lz4_part \<Rightarrow> bool" where
  "part_ok p \<longleftrightarrow> lz4_valid [] (fst p) \<and> snd p \<noteq> [] \<and> length (part_data p) \<le> 4096 \<and> length (part_body p) < LZ4_BLOCK_BUFFER_SIZE"

abbreviation parts_data :: "lz4_part list \<Rightarrow> bytes" where
  "parts_data ps \<equiv> concat (map part_data ps)"

abbreviation parts_bytes :: "lz4_part list \<Rightarrow> bytes" where
  "parts_bytes ps \<equiv> concat (map part_bytes ps)"

lemma part_sizes:
  assumes "part_ok p"
  shows "part_data p \<noteq> []" "part_body p \<noteq> []"
    "unat (of_nat (length (part_data p)) :: u32) = length (part_data p)" "unat (of_nat (length (part_body p)) :: u32) = length (part_body p)"
proof -
  show "part_data p \<noteq> []" "part_body p \<noteq> []"
    using assms by (simp_all add: part_ok_def part_data_def part_body_def block_bytes_def sequence_bytes_def literal_bytes_def)
  show "unat (of_nat (length (part_data p)) :: u32) = length (part_data p)" "unat (of_nat (length (part_body p)) :: u32) = length (part_body p)"
    using assms by (simp_all add: part_ok_def unat_of_nat)
qed

lemma rd32_pair: "rd32 (le32 a @ le32 b) 0 = a" "rd32 (le32 a @ le32 b) 4 = b"
  by (simp_all add: rd32_def of_le_le32)

context archive_files
begin

lemma dec_header_ok:
  assumes d: "dec_ok src dst arc e d" and h: "holds_at arc (src_idx d) (part_bytes p @ rest)"
    and len: "src_idx d + length (part_bytes p @ rest) = length arc" "length e + length (part_data p) \<le> original"
    and p: "part_ok p"
  shows "\<exists>d'. dec_header True original (length arc) d
       = Some (Some (length e + length (part_data p), src_idx d + length (part_bytes p)), d')
     \<and> dec_ok src dst arc e d' \<and> src_idx d' = src_idx d + 8"
proof -
  let ?h = "le32 (of_nat (length (part_data p))) @ le32 (of_nat (length (part_body p)))"
  have "holds_at arc (src_idx d) ?h" using h unfolding part_bytes_def holds_at_append by simp
  with dec_read_ok [OF d, of 8] obtain d1 where
    d1: "dec_read 8 d = Some (Some ?h, d1)" "dec_ok src dst arc e d1" "src_idx d1 = src_idx d + 8" by (auto simp: holds_at_def)
  have pr: "produced (doutput d1) = length e" using d1(2) by (simp add: dec_ok_def)
  have l: "length (part_bytes p) = 8 + length (part_body p)" by (simp add: part_bytes_def)
  have c: "\<not> length arc - src_idx d < 8" "\<not> length (part_data p) > original - length e"
    "\<not> length (part_body p) > length arc - (src_idx d + 8)" using len l by (simp_all add: not_less le_diff_conv2)
  have "dec_header True original (length arc) d
       = Some (Some (length e + length (part_data p), src_idx d + 8 + length (part_body p)), d1)"
    using c part_sizes [OF p] by (simp add: dec_header_def d1 pr rd32_pair Let_def)
  then show ?thesis using d1 l by simp
qed

lemma dec_blocks_ok:
  assumes "dec_ok src dst arc e d" and "holds_at arc (src_idx d) (parts_bytes ps)"
    and "src_idx d + length (parts_bytes ps) = length arc" and "length e + length (parts_data ps) = original"
    and "original \<le> 2 ^ 27" and "list_all part_ok ps"
  shows "\<exists>ok d'. dec_blocks True original (length arc) d = Some (ok, d')
     \<and> (ok \<longrightarrow> dec_ok src dst arc (e @ parts_data ps) d' \<and> src_idx d' = length arc) \<and> (original < LZ4_OUTPUT_SIZE \<longrightarrow> ok)"
  using assms
proof (induction ps arbitrary: e d)
  case Nil
  then have "produced (doutput d) = original" by (simp add: dec_ok_def)
  then have "dec_blocks True original (length arc) d = Some (True, d)" by (subst dec_blocks.simps) simp
  then show ?case using Nil.prems by auto
next
  case (Cons p ps)
  have p: "part_ok p" using Cons.prems(6) by simp
  let ?t = "length e + length (part_data p)" and ?i = "src_idx d + length (part_bytes p)"
  have "\<exists>d'. dec_header True original (length arc) d = Some (Some (?t, ?i), d') \<and> dec_ok src dst arc e d' \<and> src_idx d' = src_idx d + 8"
    by (rule dec_header_ok [where rest = "parts_bytes ps"]) (use Cons.prems p in simp_all)
  then obtain d1 where d1: "dec_header True original (length arc) d = Some (Some (?t, ?i), d1)" "dec_ok src dst arc (e @ []) d1"
    "src_idx d1 = src_idx d + 8" by auto
  have h: "holds_at arc (src_idx d1) (part_body p)" "holds_at arc ?i (parts_bytes ps)"
  proof -
    have i: "holds_at arc (src_idx d) (part_bytes p)" "holds_at arc ?i (parts_bytes ps)"
      using Cons.prems(2) by (simp_all add: holds_at_append)
    from i(1) show "holds_at arc (src_idx d1) (part_body p)" using d1(3) by (simp add: part_bytes_def holds_at_append add.commute)
    show "holds_at arc ?i (parts_bytes ps)" by (rule i(2))
  qed
  have "\<exists>ok d'. dec_block (length e) ?t ?i d1 = Some (ok, d')
     \<and> (ok \<longrightarrow> dec_ok src dst arc (e @ lz4_expand [] (fst p) @ snd p) d' \<and> src_idx d' = ?i) \<and> (?t < LZ4_OUTPUT_SIZE \<longrightarrow> ok)"
    by (rule dec_block_ok [OF d1(2)])
      (use h(1) d1(3) Cons.prems(4,5) p in \<open>simp_all add: part_body_def part_bytes_def part_data_def part_ok_def\<close>)
  then obtain ok d2 where d2: "dec_block (length e) ?t ?i d1 = Some (ok, d2)"
    "ok \<longrightarrow> dec_ok src dst arc (e @ part_data p) d2 \<and> src_idx d2 = ?i" "?t < LZ4_OUTPUT_SIZE \<longrightarrow> ok" by (auto simp: part_data_def)
  have lt: "produced (doutput d) = length e" "length e < original"
    using Cons.prems(1,4) part_sizes(1) [OF p] by (auto simp: dec_ok_def)
  show ?case
  proof (cases ok)
    case True
    then have o: "dec_ok src dst arc (e @ part_data p) d2" "src_idx d2 = ?i" using d2(2) by simp_all
    then have "dec_blocks True original (length arc) d = dec_blocks True original (length arc) d2"
      using d1(1) d2(1) True lt by (subst dec_blocks.simps) (simp add: dec_ok_def)
    moreover have "\<exists>ok d'. dec_blocks True original (length arc) d2 = Some (ok, d')
       \<and> (ok \<longrightarrow> dec_ok src dst arc ((e @ part_data p) @ parts_data ps) d' \<and> src_idx d' = length arc) \<and> (original < LZ4_OUTPUT_SIZE \<longrightarrow> ok)"
      by (rule Cons.IH [OF o(1)]) (use o(2) h(2) Cons.prems(3-6) in simp_all)
    ultimately show ?thesis by simp
  next
    case False
    then have "dec_blocks True original (length arc) d = Some (False, d2)"
      using d1(1) d2(1) lt by (subst dec_blocks.simps) simp
    then show ?thesis using False d2(3) Cons.prems(4) by auto
  qed
qed

lemma dec_finish_ok:
  assumes "dec_ok src dst arc e d" and "src_idx d = length arc" and "length e \<le> 2 ^ 27"
  shows "\<exists>ok d'. dec_finish True (length e) (length arc) d = Some (ok, d') \<and> (ok \<longrightarrow> good src dst arc (dfiles d') e)
     \<and> (length e \<le> 4096 \<longrightarrow> ok)"
proof -
  obtain out where o: "good src dst arc (dfiles d) out" "e = out @ odata (doutput d)" "length (odata (doutput d)) < LZ4_OUTPUT_SIZE"
    "opath (doutput d) = dst" "produced (doutput d) = length e" using assms(1) by (auto simp: dec_ok_def)
  show ?thesis
  proof (cases "odata (doutput d) = []")
    case True
    then show ?thesis using o assms(2) by (auto simp: dec_finish_def)
  next
    case False
    from append_output [OF o(1) False] o(2,3) assms(3) obtain r v where
      "fs_append_data (Some dst) (Some (odata (doutput d))) (of_nat (length (odata (doutput d)))) (dfiles d) = Some (r, v)"
      "r = 0 \<longrightarrow> good src dst arc v e" "length e \<le> 4096 \<longrightarrow> r = 0" by auto
    then show ?thesis using o assms(2) False by (simp add: dec_finish_def)
  qed
qed

end

section \<open>Writing an archive\<close>

context archive_files
begin

definition wr_ok :: "bytes \<Rightarrow> bytes \<Rightarrow> bytes \<Rightarrow> bytes \<Rightarrow> lz4_write_buffer \<Rightarrow> vfs \<Rightarrow> bool" where
  "wr_ok src dst arc e b v \<longleftrightarrow> wpath b = Some dst \<and> wcapacity b = LZ4_OUTPUT_SIZE \<and> length (wdata b) < LZ4_OUTPUT_SIZE
     \<and> (\<exists>out. good src dst arc v out \<and> e = out @ wdata b)"

lemma flush_ok:
  assumes g: "good src dst arc v out" and b: "wpath b = Some dst" "length (wdata b) \<le> LZ4_OUTPUT_SIZE"
    and len: "length (out @ wdata b) \<le> 2 ^ 27"
  shows "\<exists>r b' v'. lz4_write_flush b v = Some (r, b', v') \<and> (r = 0 \<longrightarrow> b' = b \<lparr> wdata := [] \<rparr> \<and> good src dst arc v' (out @ wdata b))
     \<and> (length (out @ wdata b) \<le> 4096 \<longrightarrow> r = 0)"
proof (cases "wdata b = []")
  case True
  then have "b \<lparr> wdata := [] \<rparr> = b" by (cases b) simp
  then show ?thesis using True g by (simp add: lz4_write_flush_def)
next
  case False
  from append_output [OF g False b(2)] len obtain r v' where
    "fs_append_data (Some dst) (Some (wdata b)) (of_nat (length (wdata b))) v = Some (r, v')"
    "r = 0 \<longrightarrow> good src dst arc v' (out @ wdata b)" "length (out @ wdata b) \<le> 4096 \<longrightarrow> r = 0" by auto
  then show ?thesis using False b(1) by (cases "r = 0") (auto simp: lz4_write_flush_def)
qed

lemma write_ok:
  assumes "wr_ok src dst arc e b v" and "length e + length data \<le> 2 ^ 27"
  shows "\<exists>r b' v'. lz4_write b data v = Some (r, b', v') \<and> (r = 0 \<longrightarrow> wr_ok src dst arc (e @ data) b' v')
     \<and> (length e + length data \<le> 4096 \<longrightarrow> r = 0)"
  using assms
proof (induction "length data" arbitrary: data e b v rule: less_induct)
  case less
  show ?case
  proof (cases "data = []")
    case True
    then show ?thesis using less.prems by (subst lz4_write.simps) simp
  next
    case False
    define k where "k = min (length data) (LZ4_OUTPUT_SIZE - length (wdata b))"
    let ?x = "take k data" and ?y = "drop k data" and ?b = "b \<lparr> wdata := wdata b @ take k data \<rparr>"
    obtain out where o: "good src dst arc v out" "e = out @ wdata b" "wpath b = Some dst" "wcapacity b = LZ4_OUTPUT_SIZE"
      "length (wdata b) < LZ4_OUTPUT_SIZE" using less.prems(1) by (auto simp: wr_ok_def)
    have k: "0 < k" "k \<le> length data" "length (wdata b) + k \<le> LZ4_OUTPUT_SIZE" using False o(5) by (auto simp: k_def)
    have shorter: "length ?y < length data" and total: "length (e @ ?x) + length ?y = length e + length data" using k by simp_all
    have whole: "(e @ ?x) @ ?y = e @ data" by simp
    have step: "lz4_write b data v = (if length (wdata b) + k = LZ4_OUTPUT_SIZE then do {
          (r, b, v) \<leftarrow> lz4_write_flush ?b v;
          if r \<noteq> 0 then Some (-1, b, v) else lz4_write b ?y v
        } else lz4_write ?b ?y v)"
      using False o(3,4) k(2) by (subst lz4_write.simps) (simp add: k_def [symmetric] Let_def)
    show ?thesis
    proof (cases "length (wdata b) + k = LZ4_OUTPUT_SIZE")
      case True
      have big: "\<not> length e + length data \<le> 4096" using True k o(2) by simp
      have "\<exists>r b' v'. lz4_write_flush ?b v = Some (r, b', v') \<and> (r = 0 \<longrightarrow> b' = ?b \<lparr> wdata := [] \<rparr> \<and> good src dst arc v' (out @ wdata ?b))
         \<and> (length (out @ wdata ?b) \<le> 4096 \<longrightarrow> r = 0)"
        by (rule flush_ok [OF o(1)]) (use o k less.prems(2) in simp_all)
      then obtain r b' v' where f: "lz4_write_flush ?b v = Some (r, b', v')"
        "r = 0 \<longrightarrow> b' = ?b \<lparr> wdata := [] \<rparr> \<and> good src dst arc v' (out @ wdata ?b)" by blast
      show ?thesis
      proof (cases "r = 0")
        case r: True
        then have "wr_ok src dst arc (e @ ?x) b' v'" using f(2) o by (simp add: wr_ok_def)
        from less.hyps [OF shorter this, unfolded total whole] less.prems(2) show ?thesis using step True f(1) r by simp
      next
        case False
        then show ?thesis using step True f(1) big by simp
      qed
    next
      case False
      then have "wr_ok src dst arc (e @ ?x) ?b v" using o k by (auto simp: wr_ok_def)
      from less.hyps [OF shorter this, unfolded total whole] less.prems(2) show ?thesis using step False by simp
    qed
  qed
qed

end

definition part_fine :: "lz4_part \<Rightarrow> bool" where
  "part_fine p \<longleftrightarrow> part_ok p \<and> length (part_body p) \<le> 2 * length (part_data p)"

definition frame_bytes :: "lz4_part list \<Rightarrow> bytes" where
  "frame_bytes ps = (le32 (of_nat (length (parts_data ps))) @ asc ''LZ4C'') @ parts_bytes ps"

lemma part_fine_length: "part_fine p \<Longrightarrow> length (part_bytes p) \<le> 10 * length (part_data p)"
  using part_sizes(1) [of p] by (cases "part_data p") (auto simp: part_bytes_def part_fine_def)

context archive_files
begin

lemma compress_part_ok:
  assumes w: "wr_ok src dst arc e b v" and s: "s \<noteq> []" "length s \<le> 4096" and len: "length e + 10 * length s \<le> 2 ^ 27"
  shows "\<exists>p ok b' v'. part_fine p \<and> part_data p = s \<and> compress_part s b v = Some (ok, b', v')
     \<and> (ok \<longrightarrow> wr_ok src dst arc (e @ part_bytes p) b' v') \<and> (length e + 10 * length s \<le> 4096 \<longrightarrow> ok)"
proof -
  from compress_block_ok [OF s] obtain qs l where
    c: "lz4_compress_block \<lparr> wpath = None, wdata = [], wcapacity = LZ4_BLOCK_BUFFER_SIZE \<rparr> s v
       = Some (0, \<lparr> wpath = None, wdata = block_bytes qs l, wcapacity = LZ4_BLOCK_BUFFER_SIZE \<rparr>, v)"
     "lz4_valid [] qs" "lz4_expand [] qs @ l = s" "l \<noteq> []" "block_bytes qs l \<noteq> []" "length (block_bytes qs l) < LZ4_BLOCK_BUFFER_SIZE"
     "length (block_bytes qs l) \<le> 2 * length s" by blast
  define p where "p = (qs, l)"
  have p: "part_data p = s" "part_body p = block_bytes qs l" using c(3) by (simp_all add: p_def part_data_def part_body_def)
  have fine: "part_fine p" using c s(2) p by (simp add: part_fine_def part_ok_def p_def)
  let ?h = "le32 (of_nat (length s)) @ le32 (of_nat (length (part_body p)))"
  have pb: "part_bytes p = ?h @ part_body p" by (simp add: part_bytes_def p)
  have l: "length e + length (?h @ part_body p) \<le> length e + 10 * length s" using part_fine_length [OF fine] pb p(1) by simp
  from write_ok [OF w, of ?h] l len obtain r b1 v1 where
    w1: "lz4_write b ?h v = Some (r, b1, v1)" "r = 0 \<longrightarrow> wr_ok src dst arc (e @ ?h) b1 v1" "length e + length ?h \<le> 4096 \<longrightarrow> r = 0" by auto
  show ?thesis
  proof (cases "r = 0")
    case True
    with w1(2) have "wr_ok src dst arc (e @ ?h) b1 v1" by simp
    from write_ok [OF this, of "part_body p"] l len obtain r2 b2 v2 where
      w2: "lz4_write b1 (part_body p) v1 = Some (r2, b2, v2)" "r2 = 0 \<longrightarrow> wr_ok src dst arc ((e @ ?h) @ part_body p) b2 v2"
        "length (e @ ?h) + length (part_body p) \<le> 4096 \<longrightarrow> r2 = 0" by auto
    have "compress_part s b v = Some (r2 = 0, b2, v2)"
      using c w1(1) w2(1) True by (simp add: compress_part_def p(2))
    then show ?thesis using fine p(1) pb w2(2,3) l by (intro exI [of _ p] exI [of _ "r2 = 0"] exI [of _ b2] exI [of _ v2]) simp
  next
    case False
    then have "compress_part s b v = Some (False, b1, v1)" using c w1(1) by (simp add: compress_part_def p(2))
    then show ?thesis using fine p(1) w1(3) False l by (intro exI [of _ p] exI [of _ False] exI [of _ b1] exI [of _ v1]) simp
  qed
qed

lemma compress_parts_ok:
  assumes "wr_ok src dst arc e b v" and "off \<le> length arc" and "length e + 10 * (length arc - off) \<le> 2 ^ 27"
  shows "\<exists>ok b' v'. compress_parts src (length arc) off b v = Some (ok, b', v')
     \<and> (ok \<longrightarrow> (\<exists>ps. list_all part_fine ps \<and> parts_data ps = drop off arc \<and> wr_ok src dst arc (e @ parts_bytes ps) b' v'))
     \<and> (length e + 10 * (length arc - off) \<le> 4096 \<longrightarrow> ok)"
  using assms
proof (induction "length arc - off" arbitrary: off e b v rule: less_induct)
  case less
  show ?case
  proof (cases "off < length arc")
    case False
    then have "compress_parts src (length arc) off b v = Some (True, b, v)" by (subst compress_parts.simps) simp
    moreover have "list_all part_fine [] \<and> parts_data [] = drop off arc \<and> wr_ok src dst arc (e @ parts_bytes []) b v"
      using False less.prems(1,2) by simp
    ultimately show ?thesis by blast
  next
    case True
    define k where "k = min (length arc - off) LZ4_READ_AHEAD_SIZE"
    let ?s = "take k (drop off arc)"
    have k: "0 < k" "off + k \<le> length arc" "k \<le> LZ4_READ_AHEAD_SIZE" using True by (auto simp: k_def)
    obtain out where "good src dst arc v out" using less.prems(1) by (auto simp: wr_ok_def)
    note rd = read_archive [OF this k]
    have s: "?s \<noteq> []" "length ?s = k" using k by auto
    moreover have "length ?s \<le> 4096" "length e + 10 * length ?s \<le> 2 ^ 27" using s(2) k less.prems(3) by linarith+
    ultimately obtain p ok b1 v1 where
      p: "part_fine p" "part_data p = ?s" "compress_part ?s b v = Some (ok, b1, v1)" "ok \<longrightarrow> wr_ok src dst arc (e @ part_bytes p) b1 v1"
        "length e + 10 * k \<le> 4096 \<longrightarrow> ok" using compress_part_ok [OF less.prems(1), of ?s] by metis
    have step: "compress_parts src (length arc) off b v = (if ok then compress_parts src (length arc) (off + k) b1 v1 else Some (False, b1, v1))"
      using True rd p(3) k(1) by (subst compress_parts.simps) (simp add: k_def [symmetric] Let_def)
    have rest: "drop off arc = ?s @ drop (off + k) arc" by (metis append_take_drop_id drop_drop add.commute)
    have l: "length (e @ part_bytes p) + 10 * (length arc - (off + k)) \<le> length e + 10 * (length arc - off)"
      using part_fine_length [OF p(1)] k(2) p(2) s(2) by simp
    show ?thesis
    proof (cases ok)
      case ok: True
      with p(4) have "wr_ok src dst arc (e @ part_bytes p) b1 v1" by simp
      moreover have "length arc - (off + k) < length arc - off" "off + k \<le> length arc"
        "length (e @ part_bytes p) + 10 * (length arc - (off + k)) \<le> 2 ^ 27" using k l less.prems(3) by linarith+
      ultimately obtain ok2 b2 v2 where r: "compress_parts src (length arc) (off + k) b1 v1 = Some (ok2, b2, v2)"
        "ok2 \<longrightarrow> (\<exists>ps. list_all part_fine ps \<and> parts_data ps = drop (off + k) arc
          \<and> wr_ok src dst arc ((e @ part_bytes p) @ parts_bytes ps) b2 v2)"
        "length (e @ part_bytes p) + 10 * (length arc - (off + k)) \<le> 4096 \<longrightarrow> ok2"
        using less.hyps [of "off + k" "e @ part_bytes p" b1 v1] by blast
      have "\<exists>ps. list_all part_fine ps \<and> parts_data ps = drop off arc \<and> wr_ok src dst arc (e @ parts_bytes ps) b2 v2" if ok2
      proof -
        from r(2) that obtain ps where "list_all part_fine ps" "parts_data ps = drop (off + k) arc"
          "wr_ok src dst arc ((e @ part_bytes p) @ parts_bytes ps) b2 v2" by blast
        then show ?thesis using p(1,2) rest [symmetric] by (intro exI [of _ "p # ps"]) simp
      qed
      moreover have "compress_parts src (length arc) off b v = Some (ok2, b2, v2)" using step ok r(1) by simp
      ultimately show ?thesis using r(3) le_trans [OF l] by blast
    next
      case False
      then have "compress_parts src (length arc) off b v = Some (False, b1, v1)" using step by simp
      moreover have "\<not> length e + 10 * (length arc - off) \<le> 4096" using False p(5) k(2) by linarith
      ultimately show ?thesis by blast
    qed
  qed
qed

end

section \<open>Whole files\<close>

lemma length_frame: "length (frame_bytes ps) = 8 + length (parts_bytes ps)"
  by (simp add: frame_bytes_def asc_def)

lemma parts_fine_length: "list_all part_fine ps \<Longrightarrow> length (parts_bytes ps) \<le> 10 * length (parts_data ps)"
proof (induction ps)
  case (Cons p ps)
  then show ?case using part_fine_length [of p] by simp
qed simp

lemma fine_ok: "list_all part_fine ps \<Longrightarrow> list_all part_ok ps"
  by (auto simp: list_all_iff part_fine_def)

context archive_files
begin

lemma compress_file_ok:
  assumes g: "good src dst arc v []" and len: "8 + 10 * length arc \<le> 2 ^ 27"
  shows "\<exists>ok v'. compress_file src (of_nat (length arc)) dst v = Some (ok, v')
     \<and> (ok \<longrightarrow> (\<exists>ps. list_all part_fine ps \<and> parts_data ps = arc \<and> good src dst arc v' (frame_bytes ps)))
     \<and> (8 + 10 * length arc \<le> 4096 \<longrightarrow> ok)"
proof -
  let ?n = "of_nat (length arc) :: u64"
  let ?b = "\<lparr> wpath = Some dst, wdata = [], wcapacity = LZ4_OUTPUT_SIZE \<rparr>"
  let ?h = "le32 (of_nat (length arc)) @ asc ''LZ4C''"
  have n: "unat ?n = length arc" "ucast ?n = (of_nat (length arc) :: u32)" using len by (simp_all add: unsigned_of_nat take_bit_nat_eq_self)
  have h: "length ?h = 8" by (simp add: asc_def)
  have w: "lz4_write ?b ?h v = Some (0, ?b \<lparr> wdata := ?h \<rparr>, v)" using write_room [of ?b ?h v] h by simp
  have ok: "wr_ok src dst arc ?h (?b \<lparr> wdata := ?h \<rparr>) v" using g h by (simp add: wr_ok_def)
  from compress_parts_ok [OF ok, of 0] len h obtain r b v1 where
    p: "compress_parts src (length arc) 0 (?b \<lparr> wdata := ?h \<rparr>) v = Some (r, b, v1)"
      "r \<longrightarrow> (\<exists>ps. list_all part_fine ps \<and> parts_data ps = arc \<and> wr_ok src dst arc (?h @ parts_bytes ps) b v1)"
      "8 + 10 * length arc \<le> 4096 \<longrightarrow> r" by auto
  show ?thesis
  proof (cases r)
    case False
    then have "compress_file src ?n dst v = Some (False, v1)" using w p(1) by (simp add: compress_file_def n)
    then show ?thesis using p(3) False by blast
  next
    case True
    with p(2) obtain ps out where ps: "list_all part_fine ps" "parts_data ps = arc" "good src dst arc v1 out"
      "?h @ parts_bytes ps = out @ wdata b" "wpath b = Some dst" "length (wdata b) < LZ4_OUTPUT_SIZE" by (auto simp: wr_ok_def)
    have fb: "frame_bytes ps = out @ wdata b" using ps(2,4) by (simp add: frame_bytes_def)
    have l: "length (frame_bytes ps) \<le> 8 + 10 * length arc" using parts_fine_length [OF ps(1)] ps(2) by (simp add: length_frame)
    from flush_ok [OF ps(3,5)] ps(6) l len fb obtain q b' v' where
      f: "lz4_write_flush b v1 = Some (q, b', v')" "q = 0 \<longrightarrow> good src dst arc v' (frame_bytes ps)"
        "length (frame_bytes ps) \<le> 4096 \<longrightarrow> q = 0" by fastforce
    have "compress_file src ?n dst v = Some (q = 0, v')" using w p(1) True f(1) by (simp add: compress_file_def n)
    then show ?thesis using ps(1,2) f(2,3) l by (intro exI [of _ "q = 0"] exI [of _ v']) auto
  qed
qed

lemma header_ok:
  assumes g: "good src dst (frame_bytes ps) v out"
  shows "\<exists>b. lz4_header \<lparr> rpath = src, rfile_size = length (frame_bytes ps), rstart = s, rdata = [] \<rparr> v
      = Some (Some (of_nat (length (parts_data ps)), True), b, v) \<and> buffer_ok src (frame_bytes ps) b"
proof -
  let ?arc = "frame_bytes ps" and ?b = "\<lparr> rpath = src, rfile_size = length (frame_bytes ps), rstart = s, rdata = [] \<rparr>"
  have l: "4 \<le> length ?arc" "8 \<le> length ?arc" by (simp_all add: length_frame)
  have t: "take 4 (drop 0 ?arc) = le32 (of_nat (length (parts_data ps)))" "take 4 (drop 4 ?arc) = asc ''LZ4C''"
    by (simp_all add: frame_bytes_def asc_def)
  have "buffer_ok src ?arc ?b" by (simp add: buffer_ok_def)
  from read_loop_ok [OF g this, of 0 4 "[]"] l obtain b1 where
    b1: "lz4_read_at ?b 0 4 v = Some (Some (le32 (of_nat (length (parts_data ps)))), b1, v)" "buffer_ok src ?arc b1"
    unfolding lz4_read_at_def t by auto
  from read_loop_ok [OF g b1(2), of 4 4 "[]"] l obtain b2 where
    b2: "lz4_read_at b1 4 4 v = Some (Some (asc ''LZ4C''), b2, v)" "buffer_ok src ?arc b2"
    unfolding lz4_read_at_def t by auto
  have "rfile_size b1 = length ?arc" using b1(2) by (simp add: buffer_ok_def)
  then have "lz4_header ?b v = Some (Some (of_nat (length (parts_data ps)), True), b2, v)"
    using b1(1) b2(1) l by (simp add: lz4_header_def rd32_def of_le_le32)
  then show ?thesis using b2(2) by blast
qed

lemma decompress_file_ok:
  assumes g: "good src dst (frame_bytes ps) v []" and b: "buffer_ok src (frame_bytes ps) b"
    and ps: "list_all part_fine ps" and len: "length (parts_data ps) \<le> 2 ^ 27"
  shows "\<exists>ok v'. decompress_file True (length (parts_data ps)) (length (frame_bytes ps)) dst b v = Some (ok, v')
     \<and> (ok \<longrightarrow> good src dst (frame_bytes ps) v' (parts_data ps)) \<and> (length (parts_data ps) \<le> 4096 \<longrightarrow> ok)"
proof -
  let ?arc = "frame_bytes ps" and ?n = "length (parts_data ps)"
  let ?d = "\<lparr> dinput = b, doutput = \<lparr> opath = dst, history = replicate LZ4_WINDOW_SIZE 0, odata = [], produced = 0 \<rparr>,
           src_idx = 8, dfiles = v \<rparr>"
  have d: "dec_ok src dst ?arc [] ?d" using g b by (simp add: dec_ok_def ring_ok_def)
  have h: "holds_at ?arc (src_idx ?d) (parts_bytes ps)" by (simp add: holds_at_def frame_bytes_def asc_def)
  from dec_blocks_ok [OF d h _ _ len fine_ok [OF ps]] obtain ok d1 where
    d1: "dec_blocks True ?n (length ?arc) ?d = Some (ok, d1)" "ok \<longrightarrow> dec_ok src dst ?arc (parts_data ps) d1 \<and> src_idx d1 = length ?arc"
      "?n < LZ4_OUTPUT_SIZE \<longrightarrow> ok" by (auto simp: length_frame)
  show ?thesis
  proof (cases ok)
    case True
    from dec_finish_ok [of src dst ?arc "parts_data ps" d1] d1(2) True len obtain ok2 d2 where
      d2: "dec_finish True ?n (length ?arc) d1 = Some (ok2, d2)" "ok2 \<longrightarrow> good src dst ?arc (dfiles d2) (parts_data ps)"
        "?n \<le> 4096 \<longrightarrow> ok2" by blast
    then show ?thesis using d1(1) True by (simp add: decompress_file_def)
  next
    case False
    then show ?thesis using d1(1,3) by (auto simp: decompress_file_def dec_finish_def)
  qed
qed

end

lemma nspan_one: "n \<le> 4096 \<Longrightarrow> nspan n = 1"
  by (auto simp: nspan_def intro!: div_nat_eqI)

text \<open>The model's file system provides such files: a source and an output with entries of their own.\<close>

definition archive_good :: "bytes \<Rightarrow> bytes \<Rightarrow> bytes \<Rightarrow> vfs \<Rightarrow> bytes \<Rightarrow> bool" where
  "archive_good src dst arc v out \<longleftrightarrow> plain_name src \<and> plain_name dst \<and> drive_mounted v (vfs_drive v) \<and> wf_dir (fat v)
     \<and> length arc < 2 ^ 31 \<and> contents (fat v) src = Some arc \<and> contents (fat v) dst = Some out
     \<and> (\<exists>j. find_entry (dir (fat v)) dst 0 = Some j \<and> entry_fits (dir (fat v)) j \<and> find_entry (dir (fat v)) src 0 \<noteq> Some j)"

lemma append_keeps_archive:
  assumes g: "archive_good src dst arc v out" and xs: "xs \<noteq> []" "length xs \<le> LZ4_OUTPUT_SIZE" "length out + length xs \<le> 2 ^ 27"
  shows "\<exists>r v'. fs_append_data (Some dst) (Some xs) (of_nat (length xs)) v = Some (r, v')
     \<and> (r = 0 \<longrightarrow> archive_good src dst arc v' (out @ xs)) \<and> (length out + length xs \<le> 4096 \<longrightarrow> r = 0)"
proof -
  let ?c = "ucast (of_nat (length xs) :: u32) :: u64"
  obtain j where a: "plain_name src" "plain_name dst" "drive_mounted v (vfs_drive v)" "wf_dir (fat v)" "length arc < 2 ^ 31"
    "contents (fat v) src = Some arc" "contents (fat v) dst = Some out" "find_entry (dir (fat v)) dst 0 = Some j"
    "entry_fits (dir (fat v)) j" "find_entry (dir (fat v)) src 0 \<noteq> Some j" using g by (auto simp: archive_good_def)
  have c: "length xs = unat ?c" using xs(2) by (simp add: unsigned_ucast_eq unat_of_nat take_bit_nat_eq_self)
  then have c0: "?c \<noteq> 0" using xs(1) by (metis length_0_conv unat_0)
  have len: "length out + unat ?c \<le> 2 ^ 27" using xs(3) c by simp
  have fs: "fs_append_data (Some dst) (Some xs) (of_nat (length xs)) v
      = map_option (\<lambda>(rc, f). (rc, v \<lparr> fat := f \<rparr>)) (exfat_append_file dst xs ?c (fat v))"
    by (simp add: fs_append_data_def at_plain [OF a(2,3)])
  show ?thesis
  proof (cases "nspan (length out + length xs) = nspan (length out)
      \<or> (\<exists>f. free_run (bit_used (fat v)) (unat (g_cluster_count (fat v))) (nspan (length out + length xs)) f)")
    case True
    from append_file_contents [OF a(4,8,9,7) c c0 len True] obtain f where
      f: "exfat_append_file dst xs ?c (fat v) = Some (0, f)" "keeps_dir (fat v) f"
        "\<forall>n. contents f n = (if find_entry (dir (fat v)) n 0 = Some j then Some (out @ xs) else contents (fat v) n)" by blast
    have j: "j mod 32 = 0" "j \<le> 4000" using entries_slot [of j "dir (fat v)"] a(8) by (auto simp: entries_def)
    have "archive_good src dst arc (v \<lparr> fat := f \<rparr>) (out @ xs)"
      using a f(2,3) j by (auto simp: archive_good_def keeps_dir_def)
    then show ?thesis using fs f(1) by simp
  next
    case False
    then have "exfat_append_file dst xs ?c (fat v) = Some (-1, fat v)"
      using append_file_full [OF a(4,8,7) c c0 len] by blast
    moreover have "\<not> length out + length xs \<le> 4096"
      using False nspan_one [of "length out + length xs"] nspan_one [of "length out"] by linarith
    ultimately show ?thesis using fs by simp
  qed
qed

interpretation packed: archive_files archive_good
proof
  fix src dst arc v out and n off :: nat
  assume g: "archive_good src dst arc v out" and n: "0 < n" "off + n \<le> length arc" "n \<le> LZ4_READ_AHEAD_SIZE"
  have "unat (of_nat n :: u64) = n" "unat (of_nat off :: u64) = off"
    using g n by (simp_all add: archive_good_def unat_of_nat)
  then show "fs_read_raw_at (Some src) False (of_nat off) (of_nat n) v = Some ((int n, take n (drop off arc)), v)"
    using g n fs_read_raw_at_plain [of src v arc] by (simp add: archive_good_def)
qed (rule append_keeps_archive)

end
