(* ===== verification/Spec2Isabelle.thy ===== *)
theory Spec2Isabelle
  imports Kmath ElfLoad TaskSwitch Lz4Codec
begin

text \<open>
  \<^bold>\<open>WindogeOS: a model of the kernel and its correctness.\<close>

  WindogeOS is a 64-bit hobby operating system in C: a kernel with a page allocator and
  four-level page tables, an exFAT file system on IDE disks, a text console with four
  workspaces and a line editor, a native and a Linux system call interface, and an ELF loader
  for user programs. File names below are relative to \<open>src/\<close>.

  \<^bold>\<open>Conventions.\<close> A C integer of \<open>n\<close> bits is an \<open>n word\<close>, so additions and shifts wrap as in the
  code; \<open>int\<close> results and error codes are \<open>int\<close>. A buffer is a list of bytes with the length of
  the C array. An operation that can leave the defined behaviour of C (a store outside an array,
  a fault in an unmapped page, a loop that never ends) has a result in \<open>option\<close>, and \<open>None\<close> is
  that outcome; theorems about such operations state that the result is \<open>Some\<close>. Static
  variables of a file are the fields of a record that its operations take and return. A pointer
  that may be NULL is an \<open>option\<close>. Error codes stay the numbers the code returns.

  \<^bold>\<open>Theories.\<close>

  \<^item> \<open>Prelude\<close>: words in little endian, buffers, pages, loops over buffers, C strings; the
    collections \<open>buf_simps\<close> and \<open>le_simps\<close>.

  \<^item> \<open>CString\<close>: \<open>helper/string/*.c\<close>. Every routine on explicit buffers. Copies with overlap,
    decimal and hexadecimal printing and reading (round trip, saturation, agreement of the four
    printers), comparison, splitting.

  \<^item> \<open>Kmath\<close>: \<open>helper/math/basic.c\<close> and \<open>dataconvert.c\<close>. Powers, Newton roots, units.

  \<^item> \<open>Clock\<close>: \<open>helper/time/time.c\<close>. The chip is a parameter that gives the value of each register
    read; waiting for the update flag is a \<open>partial_function\<close>, shown to end when the flag clears.

  \<^item> \<open>Pmm\<close>: \<open>helper/core/memory/mmu.c\<close> (allocation) and \<open>kernel.c\<close>. Physical memory is a function
    from addresses to 64-bit slots; the free list is threaded through the free pages as in the
    code. The locale \<open>page_pool\<close> is the contract of the allocator; pages are conserved.

  \<^item> \<open>Paging\<close>: the page tables of \<open>mmu.c\<close>. \<open>vm_ok\<close> says that the tables are a tree of distinct
    frames; mapping, unmapping and protecting keep it, and are updates of an abstract address
    space. Creating, suspending, restoring and destroying address spaces.

  \<^item> \<open>UserMem\<close>, \<open>UserPages\<close>: \<open>helper/core/syscall/syscall.c\<close> lines 73-268. The processor's address
    translation is written out; the kernel's checks of user ranges imply that its accesses do
    not fault and touch nothing else. Native map, protect and unmap.

  \<^item> \<open>Ata\<close>, \<open>Exfat\<close>, \<open>ExfatBitmap\<close>, \<open>ExfatFiles\<close>, \<open>ExfatDir\<close>: \<open>helper/drivers/filesystem/exfat.c\<close> on
    disks of 512-byte sectors. Bitmap allocation, directory entry sets, reading, writing and
    appending; on a well-formed volume the operations are updates of a map from names to byte
    strings.

  \<^item> \<open>Vfs\<close>, \<open>VfsPaths\<close>: \<open>helper/drivers/filesystem/vfs.c\<close>. Drives, paths and the file operations;
    changing directory along absolute paths never leaves a path buffer.

  \<^item> \<open>Console\<close>: \<open>helper/dogeio/print.c\<close>, \<open>raw.c\<close> and \<open>kernel/tui/menubar.c\<close>. The character grid,
    cursor, escape sequences and scrolling; printing stays inside the grids.

  \<^item> \<open>Keyboard\<close>, \<open>LineInput\<close>: \<open>helper/dogeio/input.c\<close>. The scancode ring is a bounded queue (locale
    \<open>bounded_queue\<close>); the line editor refines a text split at the cursor; a typed line comes out
    however the timer interrupts fall between the keys.

  \<^item> \<open>Workspaces\<close>: \<open>kernel/tui/workspaces.c\<close> and the timer of \<open>helper/core/idt/idt.c\<close>.

  \<^item> \<open>Linux\<close>, \<open>LinuxMem\<close>, \<open>LinuxFiles\<close>: \<open>helper/core/syscall/linux_syscall.c\<close>. Every call of the
    handler. Descriptor table and break stay well formed over all sequences of calls (inductive
    relation \<open>linux_reachable\<close>); the heap, anonymous mappings, and file writes and reads down to
    the sectors of the disk.

  \<^item> \<open>Elf\<close>, \<open>ElfLoad\<close>: \<open>helper/core/execute/elf.c\<close>, \<open>arguments.h\<close>, \<open>run.c\<close>. The checks of the loader,
    the memory image of the segments, the argument area, the stack of running programs.

  \<^item> \<open>Scheduler\<close>, \<open>TaskSwitch\<close>: \<open>helper/core/execute/scheduler.c\<close>. The task table and the timer switch. The
    context of a task is live or in the table; a tick moves the processor to the next active task
    and changes no context (locale \<open>round_robin\<close>: every active task runs within eight ticks).
    Starting, listing, killing and ending tasks.

  \<^item> \<open>Lz4\<close>, \<open>Lz4Codec\<close>: \<open>kernel/kutil/lz4_pack.c\<close>. The archiver. A block always compresses to sequences that
    expand to it and fit the buffer; the locale \<open>archive_files\<close> says what the decoder and the writer need of
    the files (interpreted on the file system), and decoding a frame of such blocks gives back the contents.

  \<^bold>\<open>Bounds and fuel.\<close> Loops of the code with a constant bound run over a list of that length:
  25 Newton steps, 512 table slots, 4096 bytes of a page. Recursions on page ranges end because
  the accessible range is below \<open>USER_ADDRESS_LIMIT\<close>; the loops that can spin forever are
  \<open>partial_function (option)\<close>, and the theorems about them show a result. There is no fuel.

  \<^bold>\<open>Not modelled.\<close> Programming of interrupt controllers, descriptor tables, buses and NVMe, and
  the assembly stubs, whose effect is on devices outside the model; pixels of the framebuffer;
  the translation cache of the processor (the model walks the tables on each access); the
  interactive shells, settings and user programs, which are clients of the system call interface.
\<close>

end
